(* ===== verification/Prelude.thy ===== *)
theory Prelude
  imports Main "HOL-Library.Word" "HOL-Library.Char_ord" "HOL-Library.List_Lexorder"
begin

text \<open>
  What every component shares.

  Go values: a \<open>string\<close> or a byte slice is a \<open>string\<close> (an Isabelle character is one
  byte). A \<open>time.Time\<close> is the number of nanoseconds since Go's zero time, so the zero time
  is \<open>0\<close>, \<open>IsZero\<close> is \<open>t = 0\<close>, \<open>Before\<close> is \<open><\<close> and \<open>Add\<close> is \<open>+\<close>; a
  \<open>time.Duration\<close> is a number of nanoseconds. A function that returns a value or an error
  returns a sum, \<open>Inl\<close> the error.

  The concurrent components are step relations: one step is one critical section of the
  component's mutex. \<open>run\<close> is a run of such a relation; the locales \<open>invariant_system\<close>
  and \<open>ranked_system\<close> lift facts of one step to whole runs.
\<close>

type_synonym time = int
type_synonym duration = int

definition second :: duration where "second = 1000000000"
definition minute :: duration where "minute = 60 * second"
definition hour :: duration where "hour = 60 * minute"
definition millisecond :: duration where "millisecond = 1000000"

named_theorems durations "the constant durations, in nanoseconds"

declare second_def [durations] minute_def [durations] hour_def [durations]
  millisecond_def [durations]

text \<open>
  What the program takes from its surroundings: \<open>ptime\<close> is \<open>time.Parse\<close> with an
  RFC 3339 layout, \<open>hm\<close> is \<open>t.Local().Format("15:04")\<close>, \<open>ymdhm\<close> is
  \<open>t.Local().Format("2006-01-02 15:04")\<close> (both depend on the computer's time zone), and
  \<open>show_time\<close> is \<open>t.UTC().Format(time.RFC3339Nano)\<close>.
\<close>

record env =
  ptime :: "string \<Rightarrow> time option"
  hm :: "time \<Rightarrow> string"
  ymdhm :: "time \<Rightarrow> string"
  show_time :: "time \<Rightarrow> string"

section \<open>Runs of a step relation\<close>

inductive run :: "('s \<Rightarrow> 'l \<Rightarrow> 's \<Rightarrow> bool) \<Rightarrow> 's \<Rightarrow> 'l list \<Rightarrow> 's \<Rightarrow> bool"
  for step where
  run_Nil: "run step s [] s"
| run_Cons: "step s l t \<Longrightarrow> run step t ls u \<Longrightarrow> run step s (l # ls) u"

inductive_cases run_NilE [elim!]: "run step s [] t"
inductive_cases run_ConsE [elim!]: "run step s (l # ls) t"

lemma run_append:
  "run step s ls t \<Longrightarrow> run step t ls' u \<Longrightarrow> run step s (ls @ ls') u"
  by (induction rule: run.induct) (auto intro: run.intros)

lemma run_appendE:
  assumes "run step s (ls @ ls') u"
  obtains t where "run step s ls t" and "run step t ls' u"
  using assms
proof (induction ls arbitrary: s thesis)
  case Nil
  then show ?case by (auto intro: run.intros)
next
  case (Cons l ls)
  from Cons.prems(2) obtain r where "step s l r" and "run step r (ls @ ls') u" by auto
  with Cons.IH Cons.prems(1) show ?case by (metis run_Cons)
qed

text \<open>An invariant that every step keeps holds at the end of every run.\<close>

locale invariant_system =
  fixes step :: "'s \<Rightarrow> 'l \<Rightarrow> 's \<Rightarrow> bool" and inv :: "'s \<Rightarrow> bool"
  assumes inv_step: "step s l t \<Longrightarrow> inv s \<Longrightarrow> inv t"
begin

lemma inv_run: "run step s ls t \<Longrightarrow> inv s \<Longrightarrow> inv t"
  by (induction rule: run.induct) (auto dest: inv_step)

end

text \<open>A quantity that no step from a state with the invariant lowers is lowered by no run.\<close>

locale ranked_system = invariant_system step inv
  for step :: "'s \<Rightarrow> 'l \<Rightarrow> 's \<Rightarrow> bool" and inv :: "'s \<Rightarrow> bool" +
  fixes rank :: "'s \<Rightarrow> 'r :: preorder"
  assumes rank_step: "step s l t \<Longrightarrow> inv s \<Longrightarrow> rank s \<le> rank t"
begin

lemma rank_run: "run step s ls t \<Longrightarrow> inv s \<Longrightarrow> rank s \<le> rank t"
proof (induction rule: run.induct)
  case (run_Cons s l t ls u)
  then show ?case by (meson inv_step order_trans rank_step)
qed simp

end

text \<open>
  A system in which every step costs what its label says, out of a budget that a state with the
  invariant has: no run from it costs more.
\<close>

locale budgeted_system = invariant_system step inv
  for step :: "'s \<Rightarrow> 'l \<Rightarrow> 's \<Rightarrow> bool" and inv :: "'s \<Rightarrow> bool" +
  fixes budget :: "'s \<Rightarrow> nat" and cost :: "'l \<Rightarrow> nat"
  assumes cost_step: "step s l t \<Longrightarrow> inv s \<Longrightarrow> budget t + cost l \<le> budget s"
begin

lemma cost_run: "run step s ls t \<Longrightarrow> inv s \<Longrightarrow> budget t + sum_list (map cost ls) \<le> budget s"
proof (induction rule: run.induct)
  case (run_Cons s l t ls u)
  then have "budget u + sum_list (map cost ls) \<le> budget t" using inv_step by blast
  with cost_step [OF run_Cons(1,4)] show ?case by simp
qed simp

end

text \<open>A forward simulation: every run of the steps is, label by label, a run of the specification.\<close>

locale simulation =
  fixes step :: "'s \<Rightarrow> 'l \<Rightarrow> 's \<Rightarrow> bool" and spec :: "'a \<Rightarrow> 'l \<Rightarrow> 'a \<Rightarrow> bool"
    and stands_for :: "'s \<Rightarrow> 'a \<Rightarrow> bool"
  assumes forward: "step s l t \<Longrightarrow> stands_for s a \<Longrightarrow> \<exists>b. spec a l b \<and> stands_for t b"
begin

lemma run_refines: "run step s ls t \<Longrightarrow> stands_for s a \<Longrightarrow> \<exists>b. run spec a ls b \<and> stands_for t b"
proof (induction arbitrary: a rule: run.induct)
  case (run_Nil s)
  then show ?case by (blast intro: run.run_Nil)
next
  case (run_Cons s l t ls u)
  from forward [OF run_Cons.hyps(1) run_Cons.prems] obtain b where b: "spec a l b" "stands_for t b" by blast
  from run_Cons.IH [OF b(2)] show ?case using run.run_Cons [of spec, OF b(1)] by blast
qed

end

text \<open>Running a function that performs steps, on concrete labels.\<close>

fun exec :: "('s \<Rightarrow> 'l \<Rightarrow> 's option) \<Rightarrow> 's \<Rightarrow> 'l list \<Rightarrow> 's option" where
  "exec f s [] = Some s"
| "exec f s (l # ls) = (case f s l of None \<Rightarrow> None | Some t \<Rightarrow> exec f t ls)"

locale executable_system =
  fixes step :: "'s \<Rightarrow> 'l \<Rightarrow> 's \<Rightarrow> bool" and perform :: "'s \<Rightarrow> 'l \<Rightarrow> 's option"
  assumes perform_step: "perform s l = Some t \<Longrightarrow> step s l t"
begin

lemma exec_run: "exec perform s ls = Some t \<Longrightarrow> run step s ls t"
  by (induction ls arbitrary: s) (auto split: option.splits intro: run.intros perform_step)

lemma exec_the: "exec perform s ls \<noteq> None \<Longrightarrow> run step s ls (the (exec perform s ls))"
  by (auto intro: exec_run)

lemma perform_the: "perform s l \<noteq> None \<Longrightarrow> step s l (the (perform s l))"
  by (auto intro: perform_step)

end

section \<open>Lists and maps\<close>

lemma sorted_snocI: "sorted xs \<Longrightarrow> \<forall>x\<in>set xs. x \<le> y \<Longrightarrow> sorted (xs @ [y])"
  by (simp add: sorted_append)

lemma map_upd_None_dom [simp]: "dom (m(k := None)) = dom m - {k}"
  by auto

end
