(* ===== verification/Base64.thy ===== *)
theory Base64
  imports Prelude
begin

text \<open>
  Go's \<open>encoding/base64\<close>, as the program uses it: \<open>StdEncoding\<close> (padded; line breaks are
  skipped and unused low bits ignored when decoding) and \<open>RawURLEncoding\<close> (encoding only); and
  \<open>encoding/hex\<close>.
  \<open>enc = True\<close> selects the standard alphabet, \<open>False\<close> the URL one.
\<close>

definition b64_char :: "bool \<Rightarrow> nat \<Rightarrow> char" where
  "b64_char std n =
     (if n < 26 then char_of (65 + n)
      else if n < 52 then char_of (97 + (n - 26))
      else if n < 62 then char_of (48 + (n - 52))
      else if n = 62 then (if std then CHR ''+'' else CHR ''-'')
      else (if std then CHR ''/'' else CHR ''_''))"

definition b64_val :: "char \<Rightarrow> nat option" where
  "b64_val c =
     (let n = of_char c :: nat in
      if 65 \<le> n \<and> n \<le> 90 then Some (n - 65)
      else if 97 \<le> n \<and> n \<le> 122 then Some (n - 97 + 26)
      else if 48 \<le> n \<and> n \<le> 57 then Some (n - 48 + 52)
      else if n = 43 then Some 62
      else if n = 47 then Some 63
      else None)"

definition byte :: "char \<Rightarrow> nat" where "byte c = of_char c"
definition char_byte :: "nat \<Rightarrow> char" where "char_byte n = char_of n"

lemma char_byte_byte [simp]: "char_byte (byte c) = c"
  by (simp add: byte_def char_byte_def)

lemma byte_char_byte: "n < 256 \<Longrightarrow> byte (char_byte n) = n"
  by (simp add: byte_def char_byte_def)

lemma byte_less: "byte c < 256"
  by (simp add: byte_def)

text \<open>\<open>EncodeToString\<close>, padded or raw.\<close>

fun b64_encode :: "bool \<Rightarrow> bool \<Rightarrow> string \<Rightarrow> string" where
  "b64_encode std pad [] = []"
| "b64_encode std pad [a] =
     [b64_char std (byte a div 4), b64_char std (byte a mod 4 * 16)] @ (if pad then ''=='' else [])"
| "b64_encode std pad [a, b] =
     [b64_char std (byte a div 4), b64_char std (byte a mod 4 * 16 + byte b div 16),
      b64_char std (byte b mod 16 * 4)] @ (if pad then ''='' else [])"
| "b64_encode std pad (a # b # c # cs) =
     b64_char std (byte a div 4) # b64_char std (byte a mod 4 * 16 + byte b div 16)
     # b64_char std (byte b mod 16 * 4 + byte c div 64) # b64_char std (byte c mod 64)
     # b64_encode std pad cs"

abbreviation b64_std :: "string \<Rightarrow> string" where "b64_std \<equiv> b64_encode True True"
abbreviation b64_raw_url :: "string \<Rightarrow> string" where "b64_raw_url \<equiv> b64_encode False False"

definition is_newline :: "char \<Rightarrow> bool" where
  "is_newline c = (byte c = 10 \<or> byte c = 13)"

text \<open>The bytes of a group of values, most significant first.\<close>

definition three_bytes :: "nat \<Rightarrow> nat \<Rightarrow> nat \<Rightarrow> nat \<Rightarrow> string" where
  "three_bytes w x y z = [char_byte (w * 4 + x div 16), char_byte (x mod 16 * 16 + y div 4),
     char_byte (y mod 4 * 64 + z)]"

fun b64_groups :: "string \<Rightarrow> string option" where
  "b64_groups [] = Some []"
| "b64_groups (a # b # c # d # cs) =
     (case (b64_val a, b64_val b, b64_val c, b64_val d) of
        (Some w, Some x, Some y, Some z) \<Rightarrow>
          (case b64_groups cs of None \<Rightarrow> None | Some r \<Rightarrow> Some (three_bytes w x y z @ r))
      | (Some w, Some x, Some y, None) \<Rightarrow>
          if d = CHR ''='' \<and> cs = [] then Some (take 2 (three_bytes w x y 0)) else None
      | (Some w, Some x, None, None) \<Rightarrow>
          if c = CHR ''='' \<and> d = CHR ''='' \<and> cs = [] then Some (take 1 (three_bytes w x 0 0)) else None
      | _ \<Rightarrow> None)"
| "b64_groups _ = None"

definition b64_decode :: "string \<Rightarrow> string option" where
  "b64_decode s = b64_groups (filter (\<lambda>c. \<not> is_newline c) s)"

section \<open>Decoding what was encoded\<close>

lemma b64_val_char: "n < 64 \<Longrightarrow> b64_val (b64_char True n) = Some n"
  by (auto simp: b64_val_def b64_char_def Let_def)

lemma b64_char_not_newline: "n < 64 \<Longrightarrow> \<not> is_newline (b64_char True n)"
  by (auto simp: is_newline_def byte_def b64_char_def)

lemma b64_val_pad [simp]: "b64_val CHR ''='' = None"
  by (simp add: b64_val_def)

lemma pad_not_newline [simp]: "\<not> is_newline CHR ''=''"
  by (simp add: is_newline_def byte_def)

lemma six_bits:
  "byte a div 4 < 64" "byte a mod 4 * 16 < 64" "byte a mod 4 * 16 + byte b div 16 < 64"
  "byte b mod 16 * 4 < 64" "byte b mod 16 * 4 + byte c div 64 < 64" "byte c mod 64 < 64"
proof -
  have a: "byte a div 4 < 64" and b: "byte b div 16 < 16" and c: "byte c div 64 < 4"
    using byte_less by (simp_all add: less_mult_imp_div_less)
  have m: "byte a mod 4 \<le> 3" "byte b mod 16 \<le> 15" "byte c mod 64 < 64"
    using mod_less_divisor [of 4 "byte a"] mod_less_divisor [of 16 "byte b"] by linarith+
  show "byte a div 4 < 64" by (rule a)
  show "byte a mod 4 * 16 < 64" using m(1) by linarith
  show "byte a mod 4 * 16 + byte b div 16 < 64" using m(1) b by linarith
  show "byte b mod 16 * 4 < 64" using m(2) by linarith
  show "byte b mod 16 * 4 + byte c div 64 < 64" using m(2) c by linarith
  show "byte c mod 64 < 64" by (rule m(3))
qed

lemma low_part: "k < m \<Longrightarrow> (n * m + k) div m = n" "k < m \<Longrightarrow> (n * m + k) mod m = (k :: nat)"
  by (simp_all add: div_mult_self3)

lemma high_parts: "byte b div 16 < 16" "byte c div 64 < 4"
  using byte_less by (simp_all add: less_mult_imp_div_less)

lemma three_bytes_join:
  "three_bytes (byte a div 4) (byte a mod 4 * 16 + byte b div 16)
     (byte b mod 16 * 4 + byte c div 64) (byte c mod 64) = [a, b, c]"
proof -
  show ?thesis unfolding three_bytes_def low_part(1) [OF high_parts(1)] low_part(2) [OF high_parts(1)]
      low_part(1) [OF high_parts(2)] low_part(2) [OF high_parts(2)] by simp
qed

lemma two_bytes_join:
  "take 2 (three_bytes (byte a div 4) (byte a mod 4 * 16 + byte b div 16) (byte b mod 16 * 4) 0) = [a, b]"
proof -
  show ?thesis unfolding three_bytes_def low_part(1) [OF high_parts(1)] low_part(2) [OF high_parts(1)]
    by simp
qed

lemma one_byte_join: "take 1 (three_bytes (byte a div 4) (byte a mod 4 * 16) 0 0) = [a]"
proof -
  show ?thesis unfolding three_bytes_def by simp
qed

lemma b64_groups_encode: "b64_groups (b64_std s) = Some s"
  by (induction "True" "True" s rule: b64_encode.induct)
    (simp_all add: b64_val_char six_bits three_bytes_join two_bytes_join [simplified] one_byte_join [simplified])

lemma b64_encode_no_newline: "\<forall>c\<in>set (b64_std s). \<not> is_newline c"
  by (induction "True" "True" s rule: b64_encode.induct) (auto simp: b64_char_not_newline six_bits)

theorem b64_decode_encode [simp]: "b64_decode (b64_std s) = Some s"
  using b64_encode_no_newline [of s] by (simp add: b64_decode_def b64_groups_encode filter_id_conv [THEN iffD2])

text \<open>The length of the encoded text.\<close>

lemma b64_std_length: "length (b64_std s) = 4 * ((length s + 2) div 3)"
proof (induction "True" "True" s rule: b64_encode.induct)
  case (4 a b c cs)
  have "(length (a # b # c # cs) + 2) div 3 = Suc ((length cs + 2) div 3)" by simp
  with 4 show ?case by simp
qed simp_all

section \<open>Hexadecimal\<close>

text \<open>\<open>encoding/hex\<close>: \<open>EncodeToString\<close>, in lower case.\<close>

definition kc_hex_digit :: "nat \<Rightarrow> char" where
  "kc_hex_digit n = char_byte (if n < 10 then 48 + n else 87 + n)"

definition hex :: "string \<Rightarrow> string" where
  "hex s = concat (map (\<lambda>c. [kc_hex_digit (byte c div 16), kc_hex_digit (byte c mod 16)]) s)"

end
