(* ===== verification/Json.thy ===== *)
theory Json
  imports Base64
begin

text \<open>
  JSON values and the part of Go's \<open>encoding/json\<close> decoder that the program relies on.
  A message body is a \<open>json option\<close>: the value its text holds, or \<open>None\<close> where the text
  is not one JSON value (the scanner is not modelled). Decoding into a struct visits the
  object's members in order: a member sets the field whose name it matches (letter case is
  ignored, as Go does), the last of several wins, \<open>null\<close> leaves a plain field as it was,
  and a member of the wrong kind leaves the field as it was and makes the whole call fail,
  after the other members were decoded.
\<close>

datatype json =
    JNull
  | JBool bool
  | JNum string
  | JStr string
  | JEsc string
  | JArr "json list"
  | JObj "(string \<times> json) list"

text \<open>
  \<open>JStr\<close> is a string written without escapes, \<open>JEsc\<close> one whose text has some; both hold the
  decoded value. A \<open>json.RawMessage\<close> keeps the value's text, where the difference shows.
\<close>

text \<open>
  Go's \<open>foldName\<close> on the letters that can equal an ASCII name: ASCII upper case, and the two
  other letters whose case folding is ASCII, U+017F (long s) and U+212A (Kelvin sign).
\<close>

definition upper :: "char \<Rightarrow> char" where
  "upper c = (let n = of_char c :: nat in if 97 \<le> n \<and> n \<le> 122 then char_of (n - 32) else c)"

fun fold_name :: "string \<Rightarrow> string" where
  "fold_name [] = []"
| "fold_name (c # cs) =
     (case cs of
        d # ds \<Rightarrow>
          if c = char_of (0xC5 :: nat) \<and> d = char_of (0xBF :: nat) then CHR ''S'' # fold_name ds
          else (case ds of
                  e # es \<Rightarrow>
                    if c = char_of (0xE2 :: nat) \<and> d = char_of (0x84 :: nat) \<and> e = char_of (0xAA :: nat)
                    then CHR ''K'' # fold_name es else upper c # fold_name cs
                | [] \<Rightarrow> upper c # fold_name cs)
      | [] \<Rightarrow> [upper c])"

text \<open>A decoder takes the value and the field as it is, and returns the field and success.\<close>

type_synonym 'a decoder = "json \<Rightarrow> 'a \<Rightarrow> 'a \<times> bool"

fun dec_string :: "string decoder" where
  "dec_string (JStr s) _ = (s, True)"
| "dec_string (JEsc s) _ = (s, True)"
| "dec_string JNull v = (v, True)"
| "dec_string _ v = (v, False)"

fun dec_bool :: "bool decoder" where
  "dec_bool (JBool b) _ = (b, True)"
| "dec_bool JNull v = (v, True)"
| "dec_bool _ v = (v, False)"

text \<open>\<open>strconv.ParseUint\<close> of the number's text, 64 bits: digits only, no overflow.\<close>

definition digit_val :: "char \<Rightarrow> nat option" where
  "digit_val c = (let n = of_char c :: nat in if 48 \<le> n \<and> n \<le> 57 then Some (n - 48) else None)"

fun parse_digits :: "nat \<Rightarrow> string \<Rightarrow> nat option" where
  "parse_digits acc [] = Some acc"
| "parse_digits acc (c # cs) =
     (case digit_val c of None \<Rightarrow> None | Some d \<Rightarrow> parse_digits (10 * acc + d) cs)"

definition parse_uint :: "string \<Rightarrow> nat option" where
  "parse_uint s = (if s = [] then None
     else case parse_digits 0 s of None \<Rightarrow> None | Some n \<Rightarrow> if n < 2 ^ 64 then Some n else None)"

fun dec_uint64 :: "nat decoder" where
  "dec_uint64 (JNum t) v = (case parse_uint t of Some n \<Rightarrow> (n, True) | None \<Rightarrow> (v, False))"
| "dec_uint64 JNull v = (v, True)"
| "dec_uint64 _ v = (v, False)"

text \<open>A pointer field: \<open>null\<close> makes it nil; otherwise the value behind it is decoded.\<close>

fun dec_ptr :: "'a \<Rightarrow> 'a decoder \<Rightarrow> 'a option decoder" where
  "dec_ptr z d JNull _ = (None, True)"
| "dec_ptr z d j v = (let (x, ok) = d j (case v of None \<Rightarrow> z | Some x \<Rightarrow> x) in (Some x, ok))"

text \<open>A \<open>json.RawMessage\<close> field takes the value as it stands, \<open>null\<close> included.\<close>

fun dec_raw :: "json option decoder" where
  "dec_raw j _ = (Some j, True)"

text \<open>Go looks a member up by its exact name first, then by its folded name.\<close>

definition same_name :: "string \<Rightarrow> string \<Rightarrow> bool" where
  "same_name k n = (if k = n then True else fold_name k = fold_name n)"

lemma same_name_refl [simp]: "same_name n n"
  by (simp add: same_name_def)

text \<open>The members of one field, in order.\<close>

fun dec_field :: "string \<Rightarrow> 'a decoder \<Rightarrow> (string \<times> json) list \<Rightarrow> 'a \<Rightarrow> 'a \<times> bool" where
  "dec_field n d [] v = (v, True)"
| "dec_field n d ((k, j) # ms) v =
     (if same_name k n then
        (let (v', ok) = d j v; (v'', ok') = dec_field n d ms v' in (v'', ok \<and> ok'))
      else dec_field n d ms v)"

text \<open>
  A slice field: \<open>null\<close> makes it nil, an array is decoded element by element (the elements
  after one that fails are still decoded).
\<close>

fun dec_elems :: "'a \<Rightarrow> 'a decoder \<Rightarrow> json list \<Rightarrow> 'a list \<times> bool" where
  "dec_elems z d [] = ([], True)"
| "dec_elems z d (j # js) =
     (let (x, ok) = d j z; (xs, ok') = dec_elems z d js in (x # xs, ok \<and> ok'))"

fun dec_list :: "'a \<Rightarrow> 'a decoder \<Rightarrow> 'a list option decoder" where
  "dec_list z d (JArr js) _ = (let (xs, ok) = dec_elems z d js in (Some xs, ok))"
| "dec_list z d JNull _ = (None, True)"
| "dec_list z d _ v = (v, False)"

text \<open>A \<open>[]byte\<close> field: base64 text, or an array of numbers; \<open>null\<close> makes it nil.\<close>

fun dec_uint8 :: "nat decoder" where
  "dec_uint8 (JNum t) v = (case parse_uint t of
     Some n \<Rightarrow> if n < 256 then (n, True) else (v, False) | None \<Rightarrow> (v, False))"
| "dec_uint8 JNull v = (v, True)"
| "dec_uint8 _ v = (v, False)"

fun dec_bytes :: "string option decoder" where
  "dec_bytes (JStr s) v = (case b64_decode s of Some b \<Rightarrow> (Some b, True) | None \<Rightarrow> (v, False))"
| "dec_bytes (JEsc s) v = (case b64_decode s of Some b \<Rightarrow> (Some b, True) | None \<Rightarrow> (v, False))"
| "dec_bytes JNull v = (None, True)"
| "dec_bytes (JArr js) v = (let (xs, ok) = dec_elems 0 dec_uint8 js in (Some (map char_byte xs), ok))"
| "dec_bytes _ v = (v, False)"

text \<open>A \<open>time.Time\<close> member; its text is parsed as it stands, so escapes are not read.\<close>

fun dec_time :: "env \<Rightarrow> time decoder" where
  "dec_time E (JStr s) v = (case ptime E s of Some t \<Rightarrow> (t, True) | None \<Rightarrow> (v, False))"
| "dec_time E JNull v = (v, True)"
| "dec_time E _ v = (v, False)"

text \<open>An \<open>int\<close>, 64 bits, as \<open>strconv.ParseInt\<close> reads it.\<close>

fun parse_int :: "string \<Rightarrow> int option" where
  "parse_int (c # cs) =
     (if c = CHR ''-'' then
        (case parse_uint cs of None \<Rightarrow> None | Some n \<Rightarrow> if n \<le> 2 ^ 63 then Some (- int n) else None)
      else (case parse_uint (c # cs) of None \<Rightarrow> None | Some n \<Rightarrow> if n < 2 ^ 63 then Some (int n) else None))"
| "parse_int [] = None"

fun dec_int :: "int decoder" where
  "dec_int (JNum t) v = (case parse_int t of Some n \<Rightarrow> (n, True) | None \<Rightarrow> (v, False))"
| "dec_int JNull v = (v, True)"
| "dec_int _ v = (v, False)"

text \<open>An element of a \<open>[]json.RawMessage\<close>.\<close>

fun dec_value :: "json decoder" where
  "dec_value j _ = (j, True)"

text \<open>
  The members \<open>json.Unmarshal\<close> decodes into a struct: those of an object, none of
  \<open>null\<close> (which succeeds and sets nothing); anything else, or text that is not JSON, fails.
\<close>

fun struct_members :: "json option \<Rightarrow> (string \<times> json) list option" where
  "struct_members (Some (JObj ms)) = Some ms"
| "struct_members (Some JNull) = Some []"
| "struct_members _ = None"

text \<open>A struct of one string member, decoded: its value and success.\<close>

definition string_member :: "string \<Rightarrow> json option \<Rightarrow> string \<times> bool" where
  "string_member n b = (case struct_members b of None \<Rightarrow> ([], False)
     | Some ms \<Rightarrow> dec_field n dec_string ms [])"

lemma dec_field_absent:
  "\<forall>k \<in> fst ` set ms. \<not> same_name k n \<Longrightarrow> dec_field n d ms v = (v, True)"
  by (induction ms) auto

text \<open>
  The program's own member names are lower case with underscores: two such names match only
  when they are equal.
\<close>

definition plain_name :: "string \<Rightarrow> bool" where
  "plain_name s = list_all (\<lambda>c. 97 \<le> byte c \<and> byte c \<le> 122 \<or> c = CHR ''_'') s"

lemma plain_upper_inj:
  assumes "97 \<le> byte c \<and> byte c \<le> 122 \<or> c = CHR ''_''" and "97 \<le> byte d \<and> byte d \<le> 122 \<or> d = CHR ''_''"
    and "upper c = upper d"
  shows "c = d"
proof -
  have up: "byte (upper x) = (if x = CHR ''_'' then 95 else byte x - 32)"
    if "97 \<le> byte x \<and> byte x \<le> 122 \<or> x = CHR ''_''" for x
    using that by (auto simp: upper_def byte_def Let_def)
  have "byte c = byte d"
    using assms(1,2) up [OF assms(1)] up [OF assms(2)] arg_cong [OF assms(3), of byte]
    by (auto split: if_splits)
  then show ?thesis by (metis char_byte_byte)
qed

lemma fold_name_step:
  assumes "byte c \<le> 122"
  shows "fold_name (c # s) = upper c # fold_name s"
proof -
  have "byte (char_of (0xC5 :: nat)) = 0xC5" "byte (char_of (0xE2 :: nat)) = 0xE2"
    by (simp_all add: byte_def)
  with assms have "c \<noteq> char_of (0xC5 :: nat)" "c \<noteq> char_of (0xE2 :: nat)" by auto
  then show ?thesis
    by (subst fold_name.simps) (simp del: fold_name.simps(2) split: list.split)
qed

lemma plain_fold_name: "plain_name s \<Longrightarrow> fold_name s = map upper s"
proof (induction s)
  case (Cons c s)
  then have "byte c \<le> 122" by (auto simp: plain_name_def byte_def)
  with Cons show ?case by (simp add: fold_name_step plain_name_def del: fold_name.simps(2))
qed simp

lemma map_upper_inj: "plain_name k \<Longrightarrow> plain_name n \<Longrightarrow> map upper k = map upper n \<Longrightarrow> k = n"
proof (induction k arbitrary: n)
  case (Cons c k)
  then obtain d n' where n: "n = d # n'" by (cases n) auto
  with Cons.prems have "upper c = upper d" by simp
  then have "c = d" using Cons.prems n by (auto simp: plain_name_def intro: plain_upper_inj)
  with Cons n show ?case by (simp add: plain_name_def)
qed simp

lemma same_name_plain: "plain_name k \<Longrightarrow> plain_name n \<Longrightarrow> same_name k n = (k = n)"
  using map_upper_inj by (auto simp: same_name_def plain_fold_name)

text \<open>A member of an object of distinct plain names, decoded.\<close>

lemma dec_field_plain:
  assumes "plain_name n" and "\<forall>k\<in>fst ` set ms. plain_name k" and "distinct (map fst ms)"
  shows "dec_field n d ms v = (case map_of ms n of None \<Rightarrow> (v, True) | Some j \<Rightarrow> d j v)"
  using assms(2,3)
proof (induction ms arbitrary: v)
  case (Cons p ms)
  obtain k j where p: "p = (k, j)" by fastforce
  have same: "same_name k n = (k = n)" using Cons.prems p assms(1) by (simp add: same_name_plain)
  show ?case
  proof (cases "k = n")
    case True
    then have "\<forall>k'\<in>fst ` set ms. \<not> same_name k' n"
      using Cons.prems p assms(1) by (auto simp: same_name_plain)
    with True p show ?thesis by (simp add: dec_field_absent split: prod.split)
  next
    case False
    with Cons p same show ?thesis by simp
  qed
qed simp

section \<open>Writing\<close>

text \<open>A number as \<open>json.Marshal\<close> writes it.\<close>

fun show_nat :: "nat \<Rightarrow> string" where
  "show_nat n = (if n < 10 then [char_byte (48 + n)] else show_nat (n div 10) @ [char_byte (48 + n mod 10)])"

declare show_nat.simps [simp del]

lemma digit_val_digit: "d < 10 \<Longrightarrow> digit_val (char_byte (48 + d)) = Some d"
  by (simp add: digit_val_def char_byte_def)

lemma parse_digits_snoc:
  "parse_digits acc (s @ [c]) = (case parse_digits acc s of None \<Rightarrow> None
     | Some n \<Rightarrow> (case digit_val c of None \<Rightarrow> None | Some d \<Rightarrow> Some (10 * n + d)))"
  by (induction s arbitrary: acc) (auto split: option.splits)

lemma parse_show_nat: "parse_digits 0 (show_nat n) = Some n"
proof (induction n rule: show_nat.induct)
  case (1 n)
  show ?case
  proof (cases "n < 10")
    case True
    then show ?thesis by (subst show_nat.simps) (simp add: digit_val_digit)
  next
    case False
    with 1 show ?thesis by (subst show_nat.simps) (simp add: parse_digits_snoc digit_val_digit)
  qed
qed

lemma show_nat_not_Nil: "show_nat n \<noteq> []"
  by (subst show_nat.simps) simp

lemma parse_uint_show [simp]: "n < 2 ^ 64 \<Longrightarrow> parse_uint (show_nat n) = Some n"
  by (simp add: parse_uint_def parse_show_nat show_nat_not_Nil)

lemma show_nat_digit: "\<exists>c cs. show_nat n = c # cs \<and> c \<noteq> CHR ''-''"
proof (induction n rule: show_nat.induct)
  case (1 n)
  have d: "char_byte (48 + d) \<noteq> CHR ''-''" if "d < 10" for d
    using that byte_char_byte [of "48 + d"] by (auto simp: byte_def)
  show ?case
  proof (cases "n < 10")
    case True
    then show ?thesis by (subst show_nat.simps) (simp add: d)
  next
    case False
    with 1 show ?thesis by (subst show_nat.simps) auto
  qed
qed

lemma parse_int_show [simp]:
  assumes "n < 2 ^ 63"
  shows "parse_int (show_nat n) = Some (int n)"
proof -
  obtain c cs where s: "show_nat n = c # cs" and c: "c \<noteq> CHR ''-''" using show_nat_digit by blast
  have "parse_uint (c # cs) = Some n" using parse_uint_show [of n] assms s by simp
  with s c assms show ?thesis by simp
qed

text \<open>
  The members of a struct as it is written: each field's name, whether it is present (an empty
  \<open>omitempty\<close> field is not), and its value.
\<close>

type_synonym fields = "(string \<times> bool \<times> json) list"

fun members :: "fields \<Rightarrow> (string \<times> json) list" where
  "members [] = []"
| "members ((n, present, j) # fs) = (if present then (n, j) # members fs else members fs)"

lemma members_names: "fst ` set (members fs) \<subseteq> fst ` set fs"
  by (induction fs rule: members.induct) auto

lemma dec_field_members:
  assumes "plain_name n" and "list_all plain_name (map fst fs)" and "distinct (map fst fs)"
  shows "dec_field n d (members fs) v =
    (case map_of fs n of None \<Rightarrow> (v, True) | Some (b, j) \<Rightarrow> if b then d j v else (v, True))"
  using assms(2,3)
proof (induction fs rule: members.induct)
  case (2 k b j fs)
  have same: "same_name k n = (k = n)" using 2 assms(1) by (simp add: same_name_plain)
  show ?case
  proof (cases "k = n")
    case True
    have "\<not> same_name k' n" if "k' \<in> fst ` set (members fs)" for k'
    proof -
      have "k' \<in> fst ` set fs" using that members_names by blast
      moreover from this have "plain_name k'" using 2(3) by (auto simp: list_all_iff)
      ultimately show ?thesis using 2(4) True assms(1) by (auto simp: same_name_plain)
    qed
    then have "dec_field n d (members fs) v' = (v', True)" for v' by (simp add: dec_field_absent)
    with True show ?thesis by (simp split: prod.split)
  next
    case False
    with 2 same show ?thesis by simp
  qed
qed simp

lemma dec_strings [simp]: "dec_elems [] dec_string (map JStr xs) = (xs, True)"
  by (induction xs) simp_all

lemma dec_values [simp]: "dec_elems JNull dec_value js = (js, True)"
  by (induction js) simp_all

lemma dec_bytes_std [simp]: "dec_bytes (JStr (b64_std b)) v = (Some b, True)"
  by simp

text \<open>\<open>DisallowUnknownFields\<close>: every member matches a field.\<close>

definition known_members :: "string list \<Rightarrow> (string \<times> json) list \<Rightarrow> bool" where
  "known_members names ms = list_all (\<lambda>p. list_ex (same_name (fst p)) names) ms"

lemma known_members_fields: "known_members (map fst fs) (members fs)"
  by (force simp: known_members_def list_all_iff list_ex_iff dest!: members_names [THEN subsetD, OF imageI]
      intro: same_name_refl)

end
