(* ===== verification/Session.thy ===== *)
theory Session
  imports Json
begin

text \<open>
  The types the packages exchange: the access session of \<open>internal/pairing/record.go\<close>,
  the messages and answers of \<open>internal/vaultconn\<close>, and the interface through which
  \<open>internal/access\<close> and \<open>internal/leash\<close> reach the session that \<open>vaultconn.Conn\<close> keeps
  (\<open>Access\<close> and \<open>CompareAndSetAccess\<close>), as the locale \<open>session_cell\<close>.
\<close>

section \<open>The access session\<close>

text \<open>\<open>AccessOther\<close> stands for any other string a state file could hold.\<close>

datatype access_state = AccessUnknown | AccessNone | AccessActive | AccessOther string

definition access_state_of :: "string \<Rightarrow> access_state" where
  "access_state_of s = (if s = '''' then AccessUnknown else if s = ''none'' then AccessNone
     else if s = ''active'' then AccessActive else AccessOther s)"

fun access_state_string :: "access_state \<Rightarrow> string" where
  "access_state_string AccessUnknown = ''''"
| "access_state_string AccessNone = ''none''"
| "access_state_string AccessActive = ''active''"
| "access_state_string (AccessOther s) = s"

record access =
  acc_state :: access_state
  acc_session :: string
  acc_expires :: time

definition no_access :: access where
  "no_access = \<lparr>acc_state = AccessNone, acc_session = '''', acc_expires = 0\<rparr>"

definition unknown_access :: access where
  "unknown_access = \<lparr>acc_state = AccessUnknown, acc_session = '''', acc_expires = 0\<rparr>"

definition active_open :: access where
  "active_open = \<lparr>acc_state = AccessActive, acc_session = '''', acc_expires = 0\<rparr>"

definition max_session_id :: nat where "max_session_id = 128"

definition access_valid :: "access \<Rightarrow> bool" where
  "access_valid a = (case acc_state a of
       AccessUnknown \<Rightarrow> acc_session a = '''' \<and> acc_expires a = 0
     | AccessNone \<Rightarrow> acc_session a = '''' \<and> acc_expires a = 0
     | AccessActive \<Rightarrow> length (acc_session a) \<le> max_session_id
     | AccessOther _ \<Rightarrow> False)"

text \<open>Whether a session is usable at a time (\<open>access.active\<close>, \<open>leash.activeAt\<close>).\<close>

definition active :: "access \<Rightarrow> time \<Rightarrow> bool" where
  "active a now = (acc_state a = AccessActive \<and> (acc_expires a = 0 \<or> now < acc_expires a))"

lemma valid_no_access [simp]: "access_valid no_access"
  and valid_active_open [simp]: "access_valid active_open"
  and valid_unknown_access [simp]: "access_valid unknown_access"
  by (simp_all add: access_valid_def no_access_def active_open_def unknown_access_def max_session_id_def)

lemma not_active_no_access [simp]: "\<not> active no_access now"
  by (simp add: active_def no_access_def)

lemma active_active_open [simp]: "active active_open now"
  by (simp add: active_def active_open_def)

lemma active_antimono: "active a t \<Longrightarrow> s \<le> t \<Longrightarrow> active a s"
  by (auto simp: active_def)

section \<open>Messages and answers\<close>

record response =
  rs_type :: string
  rs_ok :: bool
  rs_code :: string
  rs_body :: "json option"

record event =
  ev_id :: string
  ev_type :: string
  ev_body :: "json option"

record message =
  ms_id :: string
  ms_type :: string
  ms_re :: string
  ms_ok :: bool
  ms_code :: string
  ms_body :: "json option"

text \<open>
  How a request that got no answer ends: the relay refused this agent, the connection has
  stopped, another copy of the request took its place, the request's context ended, the id
  is not a ULID, or the message could not be sent.
\<close>

datatype req_error = ReqRefused | ReqStopped | ReqSuperseded | ReqCtx | ReqBadID | ReqNotSent string

type_synonym reply = "req_error + response"

text \<open>The characters that codes from the vault keep in logs and texts.\<close>

definition log_char :: "char \<Rightarrow> bool" where
  "log_char c = (97 \<le> byte c \<and> byte c \<le> 122 \<or> 65 \<le> byte c \<and> byte c \<le> 90 \<or> 48 \<le> byte c \<and> byte c \<le> 57
     \<or> c = CHR ''_'' \<or> c = CHR ''-'' \<or> c = CHR ''.'')"

section \<open>The interface to the session the connection keeps\<close>

locale session_cell =
  fixes get :: "'c \<Rightarrow> access" and cas :: "'c \<Rightarrow> access \<Rightarrow> access \<Rightarrow> 'c \<times> bool"
  assumes cas_set: "access_valid a \<Longrightarrow> get c = old \<Longrightarrow> get (fst (cas c old a)) = a \<and> snd (cas c old a)"
    and cas_changed: "get c \<noteq> old \<Longrightarrow> cas c old a = (c, False)"
    and cas_invalid: "\<not> access_valid a \<Longrightarrow> cas c old a = (c, False)"
begin

lemma cas_get:
  "get (fst (cas c old a)) = (if access_valid a \<and> get c = old then a else get c)"
  using cas_set [of a c old] cas_changed [of c old a] cas_invalid [of a c old] by auto

lemma cas_keeps_valid: "access_valid (get c) \<Longrightarrow> access_valid (get (fst (cas c old a)))"
  by (simp add: cas_get)

text \<open>What a batch wrote after the request was sent is not overwritten by its answer.\<close>

lemma cas_keeps_newer: "get c \<noteq> sent_with \<Longrightarrow> get (fst (cas c sent_with a)) = get c"
  by (simp add: cas_changed)

text \<open>Of two answers to requests sent with the same session, the first that changes it wins.\<close>

lemma cas_first_wins:
  assumes "access_valid a" and "get c = old" and "a \<noteq> old"
  shows "get (fst (cas (fst (cas c old a)) old b)) = a"
  using assms by (simp add: cas_get)

end

text \<open>The cell alone: the session as \<open>vaultconn.Conn\<close> keeps it under \<open>accMu\<close>.\<close>

definition compare_and_set :: "access \<Rightarrow> access \<Rightarrow> access \<Rightarrow> access \<times> bool" where
  "compare_and_set cur old a =
     (if \<not> access_valid a then (cur, False)
      else if cur \<noteq> old then (cur, False)
      else (a, True))"

interpretation cell: session_cell "\<lambda>c. c" compare_and_set
  by unfold_locales (auto simp: compare_and_set_def)

end
