(* ===== verification/Access.thy ===== *)
theory Access
  imports Session
begin

text \<open>
  \<open>internal/access/access.go\<close>: the policy for asking the member's phone for an access
  session (AG8). The record \<open>manager\<close> is \<open>Manager\<close>'s state under \<open>mu\<close>; each operation is
  one critical section, with the clock reading and the connection's session as arguments. A
  method that lets go of the mutex while a request is on its way is two operations, the
  second taking the answer (\<open>reply\<close>).
\<close>

section \<open>Constants and errors\<close>

definition QuietAfterRefusal :: duration where "QuietAfterRefusal = 10 * minute"
definition MaxPerHour :: nat where "MaxPerHour = 6"
definition DefaultSeconds :: nat where "DefaultSeconds = 3600"
definition HoldRecheck :: duration where "HoldRecheck = minute"

lemma QuietAfterRefusal_pos: "0 < QuietAfterRefusal"
  by (simp add: QuietAfterRefusal_def durations)

record aerror =
  ae_code :: string
  ae_text :: string
  ae_until :: time

definition ErrAccessRequested :: aerror where
  "ErrAccessRequested = \<lparr>ae_code = ''access_requested'',
     ae_text = ''This agent needs access to your vault. Allow it on your phone, then try again.'',
     ae_until = 0\<rparr>"
definition ErrAccessDenied :: aerror where
  "ErrAccessDenied = \<lparr>ae_code = ''access_denied'',
     ae_text = ''Access was declined on your phone.'', ae_until = 0\<rparr>"
definition ErrOwnerCheck :: aerror where
  "ErrOwnerCheck = \<lparr>ae_code = ''owner_check_required'',
     ae_text = ''Your vault is waiting for your daily check. Open VettID on your phone.'',
     ae_until = 0\<rparr>"
definition ErrUnreachable :: aerror where
  "ErrUnreachable = \<lparr>ae_code = ''vault_unreachable'',
     ae_text = ''Your vault did not answer. It may be locked; unlock it on your phone.'',
     ae_until = 0\<rparr>"

definition aerror_is :: "aerror \<Rightarrow> aerror \<Rightarrow> bool" where
  "aerror_is e target = (ae_code target = ae_code e)"

definition quiet :: "env \<Rightarrow> aerror \<Rightarrow> time \<Rightarrow> string \<Rightarrow> aerror" where
  "quiet E base until why = \<lparr>ae_code = ae_code base,
     ae_text = ae_text base @ '' No new request is sent before '' @ hm E until @ '' ('' @ why @ '').'',
     ae_until = until\<rparr>"

definition ended_quiet :: "env \<Rightarrow> time \<Rightarrow> aerror" where
  "ended_quiet E until = \<lparr>ae_code = ae_code ErrAccessDenied,
     ae_text = ''Access was ended on your phone. No new request is sent before '' @ hm E until @ ''.'',
     ae_until = until\<rparr>"

text \<open>
  What the methods return as an \<open>error\<close>: one of this package's, the connection's refusal,
  or a text made with \<open>fmt.Errorf\<close>.
\<close>

datatype access_err = AErr aerror | ARefused | AText string

section \<open>The manager's state\<close>

record manager =
  seconds :: nat
  outstanding :: bool
  outID :: string
  outExp :: time
  sending :: bool
  quietUntil :: time
  denied :: bool
  ended :: bool
  allowedAfter :: time
  sent :: "time list"
  held :: bool
  probing :: bool
  statusAt :: time
  hold_checking :: bool

definition new_manager :: "nat \<Rightarrow> manager" where
  "new_manager secs = \<lparr>seconds = (if secs = 0 then DefaultSeconds else secs),
     outstanding = False, outID = '''', outExp = 0, sending = False,
     quietUntil = 0, denied = False, ended = False, allowedAfter = 0, sent = [],
     held = False, probing = False, statusAt = 0, hold_checking = False\<rparr>"

section \<open>Probing the session\<close>

text \<open>\<open>Start\<close>: a saved session that has not expired is probed.\<close>

definition start_probes :: "access \<Rightarrow> time \<Rightarrow> bool" where
  "start_probes a now = active a now"

text \<open>
  The end of \<open>probe\<close>: what the answer to \<open>leash.grant.list\<close> says about the session
  \<open>before\<close> that was current when it was sent; \<open>cur\<close> is the connection's session now.
  Returns the manager, the session and the error, if any.
\<close>

definition probe_end :: "manager \<Rightarrow> access \<Rightarrow> access \<Rightarrow> reply \<Rightarrow> manager \<times> access \<times> access_err option" where
  "probe_end m cur before r = (case r of
     Inl ReqRefused \<Rightarrow> (m, cur, Some ARefused)
   | Inl _ \<Rightarrow> (m, cur, Some (AErr ErrUnreachable))
   | Inr rs \<Rightarrow>
       if rs_ok rs then
         (if acc_state before \<noteq> AccessActive
          then (m, fst (compare_and_set cur before active_open), None)
          else (m, cur, None))
       else if rs_code rs = ''session_required''
         then (m, fst (compare_and_set cur before no_access), None)
       else if rs_code rs = ''owner_check_required''
         then (m\<lparr>held := True\<rparr>, cur, Some (AErr ErrOwnerCheck))
       else (m, cur, Some (AText (''the vault answered '' @ rs_code rs))))"

section \<open>Ensure\<close>

text \<open>\<open>pruneSent\<close>: drops the requests an hour old or older from the front.\<close>

definition prune_sent :: "time \<Rightarrow> time list \<Rightarrow> time list" where
  "prune_sent now xs = dropWhile (\<lambda>t. \<not> now < t + hour) xs"

text \<open>An outstanding request that expired unanswered starts a quiet period.\<close>

definition expire_outstanding :: "manager \<Rightarrow> time \<Rightarrow> manager" where
  "expire_outstanding m now =
     (if outstanding m \<and> \<not> now < outExp m
      then m\<lparr>outstanding := False, quietUntil := outExp m + QuietAfterRefusal,
             denied := False, ended := False\<rparr>
      else m)"

text \<open>
  What one pass of \<open>Ensure\<close> decides: an answer at once, to start or to join the probe of an
  unknown session (after which \<open>Ensure\<close> runs again unless the probe failed), or to send a
  \<open>device.session.request\<close> and wait for it.
\<close>

datatype ensure_out = EnsureOk | EnsureErr aerror | StartProbe | JoinProbe | SendRequest

definition ensure :: "env \<Rightarrow> manager \<Rightarrow> access \<Rightarrow> time \<Rightarrow> bool \<Rightarrow> manager \<times> ensure_out" where
  "ensure E m a now ctx_ended =
    (if ctx_ended then (m, EnsureErr ErrUnreachable)
     else if held m then (m, EnsureErr ErrOwnerCheck)
     else if active a now then (m, EnsureOk)
     else if acc_state a = AccessUnknown then
       (if probing m then (m, JoinProbe) else (m\<lparr>probing := True\<rparr>, StartProbe))
     else
       (let m = expire_outstanding m now in
        if outstanding m \<or> sending m then (m, EnsureErr ErrAccessRequested)
        else if now < quietUntil m \<and> denied m then
          (m, EnsureErr (quiet E ErrAccessDenied (quietUntil m) ''the last request was declined''))
        else if now < quietUntil m \<and> ended m then (m, EnsureErr (ended_quiet E (quietUntil m)))
        else if now < quietUntil m then
          (m, EnsureErr (quiet E ErrAccessRequested (quietUntil m) ''the last request was not answered''))
        else if now < allowedAfter m then
          (m, EnsureErr (quiet E ErrAccessRequested (allowedAfter m)
                 ''your vault allows one request every 10 minutes''))
        else
          (let m = m\<lparr>sent := prune_sent now (sent m)\<rparr> in
           if MaxPerHour \<le> length (sent m) then
             (m, EnsureErr (quiet E ErrAccessRequested (hd (sent m) + hour) ''at most 6 requests an hour''))
           else (m\<lparr>sending := True, sent := sent m @ [now]\<rparr>, SendRequest))))"

text \<open>The end of the probe that \<open>Ensure\<close> started: the flight is taken off the manager.\<close>

definition flight_end :: "manager \<Rightarrow> access \<Rightarrow> access \<Rightarrow> reply \<Rightarrow> manager \<times> access \<times> access_err option" where
  "flight_end m cur before r =
     (let (m', cur', e) = probe_end m cur before r in (m'\<lparr>probing := False\<rparr>, cur', e))"

section \<open>The answer to device.session.request\<close>

definition request_exp :: "env \<Rightarrow> time \<Rightarrow> json option \<Rightarrow> time" where
  "request_exp E now body =
     (let def = now + QuietAfterRefusal in
      case struct_members body of
        None \<Rightarrow> def
      | Some ms \<Rightarrow>
          (let (_, ok1) = dec_field ''request_id'' dec_string ms [];
               (x, ok2) = dec_field ''exp'' dec_string ms [] in
           if ok1 \<and> ok2 then (case ptime E x of Some t \<Rightarrow> if now < t then t else def | None \<Rightarrow> def)
           else def))"

definition request_id_of :: "json option \<Rightarrow> string" where
  "request_id_of body = fst (string_member ''request_id'' body)"

definition allowed_after_of :: "env \<Rightarrow> time \<Rightarrow> json option \<Rightarrow> time" where
  "allowed_after_of E now body =
     (let (x, ok) = string_member ''allowed_after'' body in
      if ok then (case ptime E x of Some t \<Rightarrow> t | None \<Rightarrow> now + QuietAfterRefusal)
      else now + QuietAfterRefusal)"

text \<open>The end of \<open>request\<close>; \<open>now\<close> is read after the answer arrived.\<close>

definition request_end :: "env \<Rightarrow> manager \<Rightarrow> time \<Rightarrow> reply \<Rightarrow> manager \<times> access_err" where
  "request_end E m now r =
    (let m = m\<lparr>sending := False\<rparr> in
     case r of
       Inl ReqRefused \<Rightarrow> (m, ARefused)
     | Inl _ \<Rightarrow> (m, AErr ErrUnreachable)
     | Inr rs \<Rightarrow>
         if rs_ok rs then
           (m\<lparr>outstanding := True, outID := request_id_of (rs_body rs),
              outExp := request_exp E now (rs_body rs)\<rparr>, AErr ErrAccessRequested)
         else if rs_code rs = ''too_soon'' then
           (let after = allowed_after_of E now (rs_body rs);
                m = (if allowedAfter m < after then m\<lparr>allowedAfter := after\<rparr> else m) in
            (m, AErr (quiet E ErrAccessRequested (allowedAfter m)
                        ''your vault allows one request every 10 minutes'')))
         else if rs_code rs = ''owner_check_required'' then
           (m\<lparr>held := True\<rparr>, AErr ErrOwnerCheck)
         else (m, AText (''the vault refused the access request: '' @ rs_code rs)))"

section \<open>Events, status and answers to other requests\<close>

definition on_event :: "manager \<Rightarrow> time \<Rightarrow> event \<Rightarrow> manager" where
  "on_event m now ev =
    (if ev_type ev = ''device.session.granted'' then m\<lparr>outstanding := False\<rparr>
     else if ev_type ev = ''device.session.ended'' then
       (let reason = fst (string_member ''reason'' (ev_body ev)) in
        if reason = ''denied'' then
          m\<lparr>outstanding := False, quietUntil := now + QuietAfterRefusal, denied := True, ended := False\<rparr>
        else if reason = ''ended'' then
          m\<lparr>outstanding := False, quietUntil := now + QuietAfterRefusal, denied := False, ended := True\<rparr>
        else m)
     else m)"

definition on_status :: "manager \<Rightarrow> string \<Rightarrow> manager" where
  "on_status m oc = m\<lparr>held := (oc = ''held'')\<rparr>"

text \<open>\<open>CheckHold\<close>: whether a \<open>vault.status\<close> is sent now.\<close>

definition check_hold :: "manager \<Rightarrow> time \<Rightarrow> manager \<times> bool" where
  "check_hold m now =
     (if hold_checking m \<or> (statusAt m \<noteq> 0 \<and> now < statusAt m + HoldRecheck) then (m, False)
      else (m\<lparr>hold_checking := True, statusAt := now\<rparr>, True))"

text \<open>The \<open>owner_check.state\<close> member of a \<open>vault.status\<close> answer, if it can be read.\<close>

fun dec_owner_check :: "string decoder" where
  "dec_owner_check (JObj ms) v = dec_field ''state'' dec_string ms v"
| "dec_owner_check JNull v = (v, True)"
| "dec_owner_check _ v = (v, False)"

definition owner_check_state :: "json option \<Rightarrow> string option" where
  "owner_check_state body = (case struct_members body of None \<Rightarrow> None
     | Some ms \<Rightarrow> (let (s, ok) = dec_field ''owner_check'' dec_owner_check ms [] in
                    if ok then Some s else None))"

text \<open>Its end: returns the state handed to the status hook, if any.\<close>

definition check_hold_end :: "manager \<Rightarrow> reply \<Rightarrow> manager \<times> string option" where
  "check_hold_end m r =
    (case r of
       Inl _ \<Rightarrow> (m\<lparr>hold_checking := False\<rparr>, None)
     | Inr rs \<Rightarrow>
         if \<not> rs_ok rs then (m\<lparr>hold_checking := False\<rparr>, None)
         else (case owner_check_state (rs_body rs) of
                 None \<Rightarrow> (m\<lparr>hold_checking := False\<rparr>, None)
               | Some s \<Rightarrow> if s = '''' then (m\<lparr>hold_checking := False\<rparr>, None)
                            else ((on_status m s)\<lparr>hold_checking := False\<rparr>, Some s)))"

definition on_answer :: "manager \<Rightarrow> access \<Rightarrow> string \<Rightarrow> access \<Rightarrow> manager \<times> access" where
  "on_answer m cur code sentWith =
    (if code = ''session_required'' then (m, fst (compare_and_set cur sentWith no_access))
     else if code = ''owner_check_required'' then (m\<lparr>held := True\<rparr>, cur)
     else (m, cur))"

definition describe :: "env \<Rightarrow> access \<Rightarrow> time \<Rightarrow> string" where
  "describe E a now =
    (if acc_state a = AccessNone then ''none''
     else if acc_state a = AccessActive \<and> acc_expires a = 0 then ''active (its end is not known)''
     else if acc_state a = AccessActive \<and> now < acc_expires a then
       ''active until '' @ ymdhm E (acc_expires a)
     else if acc_state a = AccessActive then ''ended at '' @ ymdhm E (acc_expires a)
     else ''not known yet (checked with your vault on first use)'')"


section \<open>The manager at work\<close>

text \<open>
  The manager beside its connection: \<open>w_cur\<close> is the session the connection keeps,
  \<open>w_clock\<close> the computer's clock, \<open>w_probes\<close> the probes under way, each with the session
  read just before it was sent and whether \<open>Ensure\<close> started it, and \<open>w_log\<close> the times of
  all the automatic requests so far (the model's own record; the code keeps the last hour's).
\<close>

record aworld =
  w_m :: manager
  w_cur :: access
  w_clock :: time
  w_probes :: "(bool \<times> access) list"
  w_log :: "time list"

text \<open>
  The steps. \<open>Ensure\<close> reads the clock before it takes the mutex, so its reading may lag
  behind the clock, by at most \<open>lag\<close>. The connection's own goroutine may set another valid
  session at any time.
\<close>

datatype alabel =
    LEnsure time bool
  | LProbe bool
  | LProbeEnd nat reply
  | LRequestEnd reply
  | LEvent event
  | LStatus string
  | LCheckHold time
  | LCheckHoldEnd reply
  | LAnswer string access
  | LConn access
  | LTick time

definition drop_nth :: "nat \<Rightarrow> 'a list \<Rightarrow> 'a list" where
  "drop_nth i xs = take i xs @ drop (Suc i) xs"

definition ensure_world :: "env \<Rightarrow> aworld \<Rightarrow> time \<Rightarrow> bool \<Rightarrow> aworld \<times> ensure_out" where
  "ensure_world E w now ctx =
     (let (m, out) = ensure E (w_m w) (w_cur w) now ctx in
      (w\<lparr>w_m := m, w_log := (if out = SendRequest then w_log w @ [now] else w_log w)\<rparr>, out))"

inductive astep :: "env \<Rightarrow> duration \<Rightarrow> aworld \<Rightarrow> alabel \<Rightarrow> aworld \<Rightarrow> bool" for E lag where
  a_ensure: "now \<le> w_clock w \<Longrightarrow> w_clock w \<le> now + lag
    \<Longrightarrow> astep E lag w (LEnsure now ctx) (fst (ensure_world E w now ctx))"
| a_probe: "(fl \<Longrightarrow> probing (w_m w) \<and> True \<notin> fst ` set (w_probes w))
    \<Longrightarrow> astep E lag w (LProbe fl) (w\<lparr>w_probes := w_probes w @ [(fl, w_cur w)]\<rparr>)"
| a_probe_end: "i < length (w_probes w) \<Longrightarrow> w_probes w ! i = (fl, before)
    \<Longrightarrow> (if fl then flight_end else probe_end) (w_m w) (w_cur w) before r = (m, cur, e)
    \<Longrightarrow> astep E lag w (LProbeEnd i r) (w\<lparr>w_m := m, w_cur := cur, w_probes := drop_nth i (w_probes w)\<rparr>)"
| a_request_end: "sending (w_m w)
    \<Longrightarrow> astep E lag w (LRequestEnd r) (w\<lparr>w_m := fst (request_end E (w_m w) (w_clock w) r)\<rparr>)"
| a_event: "astep E lag w (LEvent ev) (w\<lparr>w_m := on_event (w_m w) (w_clock w) ev\<rparr>)"
| a_status: "astep E lag w (LStatus oc) (w\<lparr>w_m := on_status (w_m w) oc\<rparr>)"
| a_check: "now \<le> w_clock w
    \<Longrightarrow> astep E lag w (LCheckHold now) (w\<lparr>w_m := fst (check_hold (w_m w) now)\<rparr>)"
| a_check_end: "hold_checking (w_m w)
    \<Longrightarrow> astep E lag w (LCheckHoldEnd r) (w\<lparr>w_m := fst (check_hold_end (w_m w) r)\<rparr>)"
| a_answer: "on_answer (w_m w) (w_cur w) code sw = (m, cur)
    \<Longrightarrow> astep E lag w (LAnswer code sw) (w\<lparr>w_m := m, w_cur := cur\<rparr>)"
| a_conn: "access_valid a \<Longrightarrow> astep E lag w (LConn a) (w\<lparr>w_cur := a\<rparr>)"
| a_tick: "w_clock w \<le> t \<Longrightarrow> astep E lag w (LTick t) (w\<lparr>w_clock := t\<rparr>)"

inductive_cases astep_ensureE: "astep E lag w (LEnsure now ctx) w'"
inductive_cases astep_eventE: "astep E lag w (LEvent ev) w'"
inductive_cases astep_requestE: "astep E lag w (LRequestEnd r) w'"
inductive_cases astep_probeE: "astep E lag w (LProbeEnd i r) w'"

definition awake :: "nat \<Rightarrow> access \<Rightarrow> time \<Rightarrow> aworld" where
  "awake secs a now = \<lparr>w_m = new_manager secs, w_cur = a, w_clock = now, w_probes = [], w_log = []\<rparr>"

section \<open>What each operation leaves alone\<close>

lemmas manager_ops = probe_end_def flight_end_def request_end_def on_event_def on_status_def
  check_hold_def check_hold_end_def on_answer_def Let_def

lemma ensure_sends:
  "snd (ensure E m a now ctx) = SendRequest \<longleftrightarrow>
     \<not> ctx \<and> \<not> held m \<and> \<not> active a now \<and> acc_state a \<noteq> AccessUnknown \<and> \<not> sending m
     \<and> (outstanding m \<longrightarrow> outExp m + QuietAfterRefusal \<le> now)
     \<and> (outstanding m \<or> quietUntil m \<le> now)
     \<and> allowedAfter m \<le> now \<and> length (prune_sent now (sent m)) < MaxPerHour"
  using QuietAfterRefusal_pos
  by (auto simp: ensure_def expire_outstanding_def Let_def not_less)

lemma ensure_frame:
  "held (fst (ensure E m a now ctx)) = held m"
  "allowedAfter (fst (ensure E m a now ctx)) = allowedAfter m"
  "hold_checking (fst (ensure E m a now ctx)) = hold_checking m"
  "statusAt (fst (ensure E m a now ctx)) = statusAt m"
  by (auto simp: ensure_def expire_outstanding_def Let_def)

lemma ensure_quiet:
  "quietUntil (fst (ensure E m a now ctx)) = quietUntil m
   \<or> outstanding m \<and> outExp m \<le> now \<and> quietUntil (fst (ensure E m a now ctx)) = outExp m + QuietAfterRefusal"
  by (auto simp: ensure_def expire_outstanding_def Let_def)

lemma ensure_outstanding:
  "outstanding (fst (ensure E m a now ctx)) \<Longrightarrow>
     outstanding m \<and> outExp (fst (ensure E m a now ctx)) = outExp m
     \<and> quietUntil (fst (ensure E m a now ctx)) = quietUntil m"
  by (auto simp: ensure_def expire_outstanding_def Let_def split: if_splits)

lemma ensure_sent:
  "sent (fst (ensure E m a now ctx)) =
     (if snd (ensure E m a now ctx) = SendRequest then prune_sent now (sent m) @ [now]
      else sent (fst (ensure E m a now ctx)))"
  "snd (ensure E m a now ctx) \<noteq> SendRequest \<Longrightarrow>
     sent (fst (ensure E m a now ctx)) \<in> {sent m, prune_sent now (sent m)}"
  by (auto simp: ensure_def expire_outstanding_def Let_def)

lemma prune_sent_split:
  "\<exists>old. xs = old @ prune_sent now xs \<and> (\<forall>t\<in>set old. t + hour \<le> now)"
proof -
  have "xs = takeWhile (\<lambda>t. \<not> now < t + hour) xs @ prune_sent now xs"
    by (simp add: prune_sent_def)
  moreover have "\<forall>t\<in>set (takeWhile (\<lambda>t. \<not> now < t + hour) xs). t + hour \<le> now"
    using set_takeWhileD by fastforce
  ultimately show ?thesis by metis
qed

lemma request_exp_after: "now < request_exp E now body"
  using QuietAfterRefusal_pos
  by (auto simp: request_exp_def Let_def split: option.splits prod.splits)

section \<open>The invariant\<close>

definition ainv :: "duration \<Rightarrow> aworld \<Rightarrow> bool" where
  "ainv lag w =
     (0 \<le> w_clock w \<and> 0 \<le> lag
      \<and> quietUntil (w_m w) \<le> w_clock w + QuietAfterRefusal
      \<and> (outstanding (w_m w) \<longrightarrow> quietUntil (w_m w) \<le> outExp (w_m w) + QuietAfterRefusal)
      \<and> length (sent (w_m w)) \<le> MaxPerHour
      \<and> (\<exists>old. w_log w = old @ sent (w_m w) \<and> (\<forall>t\<in>set old. t + hour \<le> w_clock w))
      \<and> (\<forall>i. i + MaxPerHour < length (w_log w) \<longrightarrow> w_log w ! i + hour \<le> w_log w ! (i + MaxPerHour) + lag))"

lemma awake_ainv: "0 \<le> now \<Longrightarrow> 0 \<le> lag \<Longrightarrow> ainv lag (awake secs a now)"
  using QuietAfterRefusal_pos by (simp add: ainv_def awake_def new_manager_def)

text \<open>Appending a send that has fewer than the bound of requests behind it keeps the window.\<close>

lemma window_snoc:
  assumes "\<forall>i. i + k < length (old @ cur) \<longrightarrow> (old @ cur) ! i + h \<le> (old @ cur) ! (i + k) + lag"
    and "length cur < k" and "\<forall>t\<in>set old. t + h \<le> now + (lag :: int)"
  shows "\<forall>i. i + k < length (old @ cur @ [now])
           \<longrightarrow> (old @ cur @ [now]) ! i + h \<le> (old @ cur @ [now]) ! (i + k) + lag"
proof (intro allI impI)
  fix i assume i: "i + k < length (old @ cur @ [now])"
  show "(old @ cur @ [now]) ! i + h \<le> (old @ cur @ [now]) ! (i + k) + lag"
  proof (cases "i + k < length (old @ cur)")
    case True
    with assms(1) show ?thesis by (fastforce simp: nth_append)
  next
    case False
    with i have last: "i + k = length (old @ cur)" by simp
    with assms(2) have "i < length old" by simp
    then have "(old @ cur @ [now]) ! i \<in> set old" by (simp add: nth_append)
    moreover have "(old @ cur @ [now]) ! (i + k) = now"
      using last by (metis append_assoc nth_append_length)
    ultimately show ?thesis using assms(3) by metis
  qed
qed

lemma ainv_ensure:
  assumes inv: "ainv lag w" and now: "now \<le> w_clock w" "w_clock w \<le> now + lag"
  shows "ainv lag (fst (ensure_world E w now ctx))"
proof -
  let ?m = "fst (ensure E (w_m w) (w_cur w) now ctx)" and ?out = "snd (ensure E (w_m w) (w_cur w) now ctx)"
  from inv obtain old where old: "w_log w = old @ sent (w_m w)" "\<forall>t\<in>set old. t + hour \<le> w_clock w"
    by (auto simp: ainv_def)
  obtain old' where old': "sent (w_m w) = old' @ prune_sent now (sent (w_m w))"
      "\<forall>t\<in>set old'. t + hour \<le> now"
    using prune_sent_split by metis
  have aged: "\<forall>t\<in>set (old @ old'). t + hour \<le> w_clock w" using old(2) old'(2) now by auto
  have logsplit: "w_log w = (old @ old') @ prune_sent now (sent (w_m w))"
    using old(1) old'(1) by simp
  have shorter: "length (prune_sent now (sent (w_m w))) \<le> length (sent (w_m w))"
    by (simp add: prune_sent_def length_dropWhile_le)
  have world: "fst (ensure_world E w now ctx) =
      w\<lparr>w_m := ?m, w_log := (if ?out = SendRequest then w_log w @ [now] else w_log w)\<rparr>"
    by (simp add: ensure_world_def case_prod_unfold Let_def)
  have quiet: "quietUntil ?m \<le> w_clock w + QuietAfterRefusal"
    using ensure_quiet [of E "w_m w" "w_cur w" now ctx] inv now by (auto simp: ainv_def)
  have out: "outstanding ?m \<longrightarrow> quietUntil ?m \<le> outExp ?m + QuietAfterRefusal"
    using ensure_outstanding [of E "w_m w" "w_cur w" now ctx] inv by (auto simp: ainv_def)
  have pre: "0 \<le> w_clock w" "0 \<le> lag" "length (sent (w_m w)) \<le> MaxPerHour"
      and win: "\<forall>i. i + MaxPerHour < length (w_log w) \<longrightarrow> w_log w ! i + hour \<le> w_log w ! (i + MaxPerHour) + lag"
    using inv by (auto simp: ainv_def)
  show ?thesis
  proof (cases "?out = SendRequest")
    case True
    then have short: "length (prune_sent now (sent (w_m w))) < MaxPerHour" by (simp add: ensure_sends)
    have s: "sent ?m = prune_sent now (sent (w_m w)) @ [now]" using True ensure_sent(1) by metis
    have near: "\<forall>t\<in>set (old @ old'). t + hour \<le> now + lag"
      using aged now(2) order_trans by blast
    have "\<forall>i. i + MaxPerHour < length ((old @ old') @ prune_sent now (sent (w_m w)) @ [now])
        \<longrightarrow> ((old @ old') @ prune_sent now (sent (w_m w)) @ [now]) ! i + hour
            \<le> ((old @ old') @ prune_sent now (sent (w_m w)) @ [now]) ! (i + MaxPerHour) + lag"
      using window_snoc [OF _ short near] win unfolding logsplit by blast
    moreover have "\<exists>o'. w_log w @ [now] = o' @ sent ?m \<and> (\<forall>t\<in>set o'. t + hour \<le> w_clock w)"
      by (intro exI [of _ "old @ old'"] conjI aged) (simp add: logsplit s)
    ultimately show ?thesis
      using True pre quiet out short s logsplit unfolding world ainv_def by simp
  next
    case False
    then consider "sent ?m = sent (w_m w)" | "sent ?m = prune_sent now (sent (w_m w))"
      using ensure_sent(2) by blast
    then have "(\<exists>o'. w_log w = o' @ sent ?m \<and> (\<forall>t\<in>set o'. t + hour \<le> w_clock w))
         \<and> length (sent ?m) \<le> MaxPerHour"
    proof cases
      case 1 with old pre(3) show ?thesis by auto
    next
      case 2 with logsplit aged pre(3) shorter show ?thesis by (metis le_trans)
    qed
    with False pre win quiet out show ?thesis unfolding world ainv_def by simp
  qed
qed

lemma ainv_same:
  assumes "ainv lag w" and "sent m = sent (w_m w)" and "quietUntil m \<le> w_clock w + QuietAfterRefusal"
    and "outstanding m \<longrightarrow> quietUntil m \<le> outExp m + QuietAfterRefusal"
  shows "ainv lag (w\<lparr>w_m := m\<rparr>)"
  using assms by (simp add: ainv_def)

lemma ainv_other [simp]:
  "ainv lag (w\<lparr>w_cur := a\<rparr>) = ainv lag w" "ainv lag (w\<lparr>w_probes := ps\<rparr>) = ainv lag w"
  by (simp_all add: ainv_def)

lemma probe_end_cases:
  "fst (probe_end m c b r) \<in> {m, m\<lparr>held := True\<rparr>}"
  "fst (snd (probe_end m c b r)) \<in>
     {c, fst (compare_and_set c b active_open), fst (compare_and_set c b no_access)}"
  unfolding probe_end_def
  by (cases r; simp split: req_error.split)+

lemma probe_end_frame:
  assumes "(if fl then flight_end else probe_end) m c b r = (m', c', e)"
  shows "sent m' = sent m \<and> quietUntil m' = quietUntil m \<and> outstanding m' = outstanding m
    \<and> outExp m' = outExp m \<and> allowedAfter m' = allowedAfter m \<and> (held m \<longrightarrow> held m')
    \<and> (c \<noteq> b \<longrightarrow> c' = c)"
proof -
  obtain n d x where p: "probe_end m c b r = (n, d, x)" using prod_cases3 by blast
  with assms have "m' \<in> {n, n\<lparr>probing := False\<rparr>} \<and> c' = d"
    by (auto simp: flight_end_def split: if_splits)
  with p probe_end_cases [of m c b r] show ?thesis by (auto simp: cell.cas_changed)
qed

lemma request_end_state:
  "fst (request_end E m now r) \<in> {m\<lparr>sending := False\<rparr>, m\<lparr>sending := False, held := True\<rparr>}
   \<or> (\<exists>i body. fst (request_end E m now r) =
        m\<lparr>sending := False, outstanding := True, outID := i, outExp := request_exp E now body\<rparr>)
   \<or> (\<exists>a > allowedAfter m. fst (request_end E m now r) = m\<lparr>sending := False, allowedAfter := a\<rparr>)"
proof (cases r)
  case (Inl e)
  then show ?thesis by (cases e) (simp_all add: request_end_def)
next
  case (Inr rs)
  consider "rs_ok rs" | "\<not> rs_ok rs" "rs_code rs = ''too_soon''"
    | "\<not> rs_ok rs" "rs_code rs \<noteq> ''too_soon''" by blast
  then show ?thesis
  proof cases
    case 1 with Inr show ?thesis by (auto simp: request_end_def)
  next
    case 2
    then show ?thesis
    proof (cases "allowedAfter m < allowed_after_of E now (rs_body rs)")
      case True
      with 2 Inr have "fst (request_end E m now r)
          = m\<lparr>sending := False, allowedAfter := allowed_after_of E now (rs_body rs)\<rparr>"
        by (simp add: request_end_def Let_def)
      with True show ?thesis by blast
    next
      case False
      with 2 Inr show ?thesis by (simp add: request_end_def Let_def)
    qed
  next
    case 3 with Inr show ?thesis by (simp add: request_end_def Let_def)
  qed
qed

lemma request_end_frame:
  "sent (fst (request_end E m now r)) = sent m"
  "quietUntil (fst (request_end E m now r)) = quietUntil m"
  "allowedAfter m \<le> allowedAfter (fst (request_end E m now r))"
  "held m \<Longrightarrow> held (fst (request_end E m now r))"
  "outstanding (fst (request_end E m now r)) \<Longrightarrow>
     outstanding m \<and> outExp (fst (request_end E m now r)) = outExp m
     \<or> now < outExp (fst (request_end E m now r))"
  using request_end_state [of E m now r] request_exp_after [of now E] by auto

lemma check_hold_end_cases:
  "fst (check_hold_end m r) \<in> {m\<lparr>hold_checking := False\<rparr>, m\<lparr>held := True, hold_checking := False\<rparr>,
     m\<lparr>held := False, hold_checking := False\<rparr>}"
proof (cases r)
  case (Inr rs)
  have "m\<lparr>held := b, hold_checking := False\<rparr> \<in> {m\<lparr>held := True, hold_checking := False\<rparr>,
     m\<lparr>held := False, hold_checking := False\<rparr>}" for b by (cases b) simp_all
  with Inr show ?thesis
    by (cases "owner_check_state (rs_body rs)") (simp_all add: check_hold_end_def on_status_def)
qed (simp add: check_hold_end_def)

lemma on_answer_cases: "fst (on_answer m c code sw) \<in> {m, m\<lparr>held := True\<rparr>}"
  by (simp add: on_answer_def)

lemma on_event_frame:
  "sent (on_event m now ev) = sent m" "allowedAfter (on_event m now ev) = allowedAfter m"
  "held (on_event m now ev) = held m"
  "quietUntil (on_event m now ev) \<in> {quietUntil m, now + QuietAfterRefusal}"
  "outstanding (on_event m now ev) \<Longrightarrow> outstanding m \<and> outExp (on_event m now ev) = outExp m
     \<and> quietUntil (on_event m now ev) = quietUntil m"
  by (auto simp: on_event_def Let_def split: if_splits)

lemmas op_frames = request_end_frame on_event_frame

lemma ainv_step: "astep E lag w l w' \<Longrightarrow> ainv lag w \<Longrightarrow> ainv lag w'"
proof (induction rule: astep.cases)
  case (a_ensure now w ctx)
  then show ?case by (simp add: ainv_ensure)
next
  case (a_probe_end i w fl before r m cur e)
  then have "ainv lag (w\<lparr>w_m := m\<rparr>)"
    using probe_end_frame by (intro ainv_same) (auto simp: ainv_def)
  then have "ainv lag (w\<lparr>w_m := m, w_cur := cur, w_probes := drop_nth i (w_probes w)\<rparr>)" by simp
  with a_probe_end show ?case by simp
next
  case (a_request_end w r)
  have "outstanding (fst (request_end E (w_m w) (w_clock w) r)) \<longrightarrow> quietUntil (w_m w)
      \<le> outExp (fst (request_end E (w_m w) (w_clock w) r)) + QuietAfterRefusal"
    using a_request_end request_end_frame(5) [of E "w_m w" "w_clock w" r] by (auto simp: ainv_def)
  with a_request_end have "ainv lag (w\<lparr>w_m := fst (request_end E (w_m w) (w_clock w) r)\<rparr>)"
    by (intro ainv_same) (simp_all add: op_frames ainv_def)
  with a_request_end show ?case by simp
next
  case (a_event w ev)
  have "ainv lag (w\<lparr>w_m := on_event (w_m w) (w_clock w) ev\<rparr>)"
    using a_event on_event_frame(4,5) [of "w_m w" "w_clock w" ev]
    by (intro ainv_same) (auto simp: on_event_frame(1) ainv_def)
  with a_event show ?case by simp
next
  case (a_check_end w r)
  have "ainv lag (w\<lparr>w_m := fst (check_hold_end (w_m w) r)\<rparr>)"
    using a_check_end check_hold_end_cases [of "w_m w" r] by (intro ainv_same) (auto simp: ainv_def)
  with a_check_end show ?case by simp
next
  case (a_answer w code sw m cur)
  then have "ainv lag (w\<lparr>w_m := m\<rparr>)"
    using on_answer_cases [of "w_m w" "w_cur w" code sw] by (intro ainv_same) (auto simp: ainv_def)
  then have "ainv lag (w\<lparr>w_m := m, w_cur := cur\<rparr>)" by simp
  with a_answer show ?case by simp
next
  case (a_tick w t)
  then have "\<exists>old. w_log w = old @ sent (w_m w) \<and> (\<forall>t'\<in>set old. t' + hour \<le> t)"
    by (fastforce simp: ainv_def)
  with a_tick show ?case by (simp add: ainv_def)
qed (auto simp: ainv_def on_status_def check_hold_def)

interpretation am: invariant_system "astep E lag" "ainv lag" for E lag
  by unfold_locales (rule ainv_step)

text \<open>No step lowers the end of the quiet period or the vault's own bound.\<close>

lemma ensure_world_simps:
  "w_m (fst (ensure_world E w now ctx)) = fst (ensure E (w_m w) (w_cur w) now ctx)"
  "w_cur (fst (ensure_world E w now ctx)) = w_cur w"
  "w_clock (fst (ensure_world E w now ctx)) = w_clock w"
  "w_log (fst (ensure_world E w now ctx)) =
     w_log w @ (if snd (ensure E (w_m w) (w_cur w) now ctx) = SendRequest then [now] else [])"
  by (simp_all add: ensure_world_def case_prod_unfold Let_def)

lemma quiet_step: "astep E lag w l w' \<Longrightarrow> ainv lag w \<Longrightarrow> quietUntil (w_m w) \<le> quietUntil (w_m w')"
proof (induction rule: astep.cases)
  case (a_ensure now w ctx)
  then show ?case
    using ensure_quiet [of E "w_m w" "w_cur w" now ctx] by (auto simp: ensure_world_simps ainv_def)
next
  case (a_probe_end i w fl before r m cur e)
  then show ?case using probe_end_frame [of fl "w_m w" "w_cur w" before r m cur e] by simp
next
  case (a_request_end w r)
  then show ?case by (simp add: op_frames)
next
  case (a_event w ev)
  then show ?case using on_event_frame(4) [of "w_m w" "w_clock w" ev] by (auto simp: ainv_def)
next
  case (a_check_end w r)
  then show ?case using check_hold_end_cases [of "w_m w" r] by auto
next
  case (a_answer w code sw m cur)
  then show ?case using on_answer_cases [of "w_m w" "w_cur w" code sw] by auto
qed (auto simp: on_status_def check_hold_def)

lemma allowed_step:
  "astep E lag w l w' \<Longrightarrow> ainv lag w \<Longrightarrow> allowedAfter (w_m w) \<le> allowedAfter (w_m w')"
proof (induction rule: astep.cases)
  case (a_ensure now w ctx)
  then show ?case by (simp add: ensure_world_simps ensure_frame)
next
  case (a_probe_end i w fl before r m cur e)
  then show ?case using probe_end_frame [of fl "w_m w" "w_cur w" before r m cur e] by simp
next
  case (a_check_end w r)
  then show ?case using check_hold_end_cases [of "w_m w" r] by auto
next
  case (a_answer w code sw m cur)
  then show ?case using on_answer_cases [of "w_m w" "w_cur w" code sw] by auto
qed (auto simp: op_frames on_status_def check_hold_def)

text \<open>The steps that can end a hold: a \<open>vault.status\<close>, at start or asked by \<open>CheckHold\<close>.\<close>

definition is_status :: "alabel \<Rightarrow> bool" where
  "is_status l = (case l of LStatus _ \<Rightarrow> True | LCheckHoldEnd _ \<Rightarrow> True | _ \<Rightarrow> False)"

lemma held_step:
  "astep E lag w l w' \<Longrightarrow> \<not> is_status l \<Longrightarrow> held (w_m w) \<Longrightarrow> held (w_m w') \<and> w_log w' = w_log w"
proof (induction rule: astep.cases)
  case (a_ensure now w ctx)
  then show ?case by (simp add: ensure_world_simps ensure_frame ensure_sends)
next
  case (a_probe_end i w fl before r m cur e)
  then show ?case using probe_end_frame [of fl "w_m w" "w_cur w" before r m cur e] by simp
next
  case (a_request_end w r)
  then show ?case by (simp add: op_frames)
next
  case (a_answer w code sw m cur)
  then show ?case using on_answer_cases [of "w_m w" "w_cur w" code sw] by auto
qed (auto simp: is_status_def on_event_frame(3) check_hold_def)

interpretation aq: ranked_system "astep E lag" "ainv lag" "\<lambda>w. quietUntil (w_m w)" for E lag
  by unfold_locales (rule quiet_step)

interpretation al: ranked_system "astep E lag" "ainv lag" "\<lambda>w. allowedAfter (w_m w)" for E lag
  by unfold_locales (rule allowed_step)

text \<open>An \<open>Ensure\<close> step that sends does so after the quiet period and after the vault's bound.\<close>

lemma send_after_quiet:
  assumes "ainv lag w" and "astep E lag w (LEnsure now ctx) w'" and "w_log w' \<noteq> w_log w"
  shows "quietUntil (w_m w) \<le> now" and "allowedAfter (w_m w) \<le> now"
proof -
  from assms(2,3) have "snd (ensure E (w_m w) (w_cur w) now ctx) = SendRequest"
    by (auto elim!: astep_ensureE simp: ensure_world_simps split: if_splits)
  with assms(1) show "quietUntil (w_m w) \<le> now" "allowedAfter (w_m w) \<le> now"
    by (auto simp: ensure_sends ainv_def)
qed

section \<open>A concrete run\<close>

definition toy_env :: env where
  "toy_env = \<lparr>ptime = (\<lambda>s. if s = ''T'' then Some (2 * hour) else None), hm = (\<lambda>_. ''12:00''),
     ymdhm = (\<lambda>_. ''2026-01-01 12:00''), show_time = (\<lambda>_. ''2026-01-01T12:00:00Z'')\<rparr>"

definition ended_event :: "string \<Rightarrow> event" where
  "ended_event reason = \<lparr>ev_id = '''', ev_type = ''device.session.ended'',
     ev_body = Some (JObj [(''reason'', JStr reason)])\<rparr>"

text \<open>The steps as a function, to run the relation on concrete labels.\<close>

definition aperform :: "env \<Rightarrow> duration \<Rightarrow> aworld \<Rightarrow> alabel \<Rightarrow> aworld option" where
  "aperform E lag w l = (case l of
     LEnsure now ctx \<Rightarrow> if now \<le> w_clock w \<and> w_clock w \<le> now + lag
       then Some (fst (ensure_world E w now ctx)) else None
   | LProbe fl \<Rightarrow> if fl \<longrightarrow> probing (w_m w) \<and> True \<notin> fst ` set (w_probes w)
       then Some (w\<lparr>w_probes := w_probes w @ [(fl, w_cur w)]\<rparr>) else None
   | LProbeEnd i r \<Rightarrow> if i < length (w_probes w) then
        (case w_probes w ! i of (fl, before) \<Rightarrow>
           (case (if fl then flight_end else probe_end) (w_m w) (w_cur w) before r of (m, cur, e) \<Rightarrow>
              Some (w\<lparr>w_m := m, w_cur := cur, w_probes := drop_nth i (w_probes w)\<rparr>)))
        else None
   | LRequestEnd r \<Rightarrow> if sending (w_m w)
       then Some (w\<lparr>w_m := fst (request_end E (w_m w) (w_clock w) r)\<rparr>) else None
   | LEvent ev \<Rightarrow> Some (w\<lparr>w_m := on_event (w_m w) (w_clock w) ev\<rparr>)
   | LTick t \<Rightarrow> if w_clock w \<le> t then Some (w\<lparr>w_clock := t\<rparr>) else None
   | LConn a \<Rightarrow> if access_valid a then Some (w\<lparr>w_cur := a\<rparr>) else None
   | _ \<Rightarrow> None)"

interpretation ax: executable_system "astep E lag" "aperform E lag" for E lag
  by unfold_locales
    (auto simp: aperform_def split: alabel.splits if_splits prod.splits intro: astep.intros)

definition refused :: "string \<Rightarrow> reply" where
  "refused code = Inr \<lparr>rs_type = '''', rs_ok = False, rs_code = code, rs_body = None\<rparr>"

text \<open>Seven requests; and runs from a fresh manager whose session is not active.\<close>

definition seven :: "alabel list" where
  "seven = (let p = [LEnsure 0 False, LRequestEnd (Inl ReqStopped)] in
     p @ p @ p @ p @ p @ p @ [LTick hour, LEnsure hour False])"

definition after :: "access \<Rightarrow> alabel list \<Rightarrow> aworld" where
  "after a ls = the (exec (aperform toy_env 0) (awake 0 a 0) ls)"

definition later :: "aworld \<Rightarrow> alabel list \<Rightarrow> aworld" where
  "later w ls = the (exec (aperform toy_env 0) w ls)"

lemma after_run: "exec (aperform toy_env 0) (awake 0 a 0) ls \<noteq> None
    \<Longrightarrow> run (astep toy_env 0) (awake 0 a 0) ls (after a ls)"
  unfolding after_def by (rule ax.exec_the)

lemma later_run: "exec (aperform toy_env 0) w ls \<noteq> None \<Longrightarrow> run (astep toy_env 0) w ls (later w ls)"
  unfolding later_def by (rule ax.exec_the)

lemma later_step: "aperform toy_env 0 w l \<noteq> None \<Longrightarrow> astep toy_env 0 w l (later w [l])"
  by (auto simp: later_def intro: ax.perform_step)

lemmas access_eval = after_def later_def aperform_def ensure_world_def ensure_def awake_def
  new_manager_def unknown_access_def no_access_def active_open_def active_def access_valid_def
  expire_outstanding_def prune_sent_def MaxPerHour_def QuietAfterRefusal_def manager_ops
  ended_event_def refused_def toy_env_def string_member_def allowed_after_of_def compare_and_set_def
  seven_def is_status_def max_session_id_def drop_nth_def durations

section \<open>Properties\<close>

text \<open>
  C25. AG8's rate bound: whatever the vault answers and however the steps interleave, among
  any seven automatic requests in a row the last is sent at least an hour after the first, up
  to the lag of the clock reading that \<open>Ensure\<close> takes before the mutex.
\<close>

theorem at_most_six_an_hour:
  assumes "run (astep E lag) (awake secs a start) ls w" and "0 \<le> start" and "0 \<le> lag"
    and "i + MaxPerHour < length (w_log w)"
  shows "w_log w ! i + hour \<le> w_log w ! (i + MaxPerHour) + lag"
  using am.inv_run [OF assms(1) awake_ainv] assms(2-4) by (simp add: ainv_def)

theorem at_most_six_an_hour_witness:
  "w_log (after no_access seven) ! 0 + hour \<le> w_log (after no_access seven) ! 6 + 0"
proof -
  have "run (astep toy_env 0) (awake 0 no_access 0) seven (after no_access seven)"
    by (rule after_run) (simp add: access_eval)
  from at_most_six_an_hour [OF this, of 0]
  have "0 + MaxPerHour < length (w_log (after no_access seven)) \<Longrightarrow> ?thesis"
    by (simp add: MaxPerHour_def)
  moreover have "0 + MaxPerHour < length (w_log (after no_access seven))" by (simp add: access_eval)
  ultimately show ?thesis by blast
qed

text \<open>
  AG8's quiet period: after an event that says the member declined the request or ended
  the session, no automatic request is sent for ten minutes, whatever happens in between.
\<close>

lemma no_request_in_quiet_period:
  assumes "run (astep E lag) (awake secs a start) ls w1" and "0 \<le> start" and "0 \<le> lag"
    and "astep E lag w1 (LEvent ev) w2" and "ev_type ev = ''device.session.ended''"
    and "fst (string_member ''reason'' (ev_body ev)) \<in> {''denied'', ''ended''}"
    and "run (astep E lag) w2 ls' w3"
    and "astep E lag w3 (LEnsure now ctx) w4" and "w_log w4 \<noteq> w_log w3"
  shows "w_clock w1 + QuietAfterRefusal \<le> now"
proof -
  have inv: "ainv lag w1" "ainv lag w2" "ainv lag w3"
    using am.inv_run [OF assms(1)] awake_ainv assms(2,3) ainv_step [OF assms(4)] am.inv_run [OF assms(7)]
    by auto
  have "quietUntil (w_m w2) = w_clock w1 + QuietAfterRefusal"
    using assms(4-6) by (auto elim!: astep_eventE simp: on_event_def Let_def)
  with aq.rank_run [OF assms(7) inv(2)] send_after_quiet(1) [OF inv(3) assms(8,9)]
  show ?thesis by simp
qed

lemma no_request_in_quiet_period_witness:
  "w_clock (awake 0 no_access 0) + QuietAfterRefusal \<le> QuietAfterRefusal"
proof -
  let ?w2 = "later (awake 0 no_access 0) [LEvent (ended_event ''denied'')]"
  let ?w3 = "later ?w2 [LTick QuietAfterRefusal]"
  let ?w4 = "later ?w3 [LEnsure QuietAfterRefusal False]"
  have 1: "run (astep toy_env 0) (awake 0 no_access 0) [] (awake 0 no_access 0)" by (rule run_Nil)
  have 2: "astep toy_env 0 (awake 0 no_access 0) (LEvent (ended_event ''denied'')) ?w2"
    by (rule later_step) (simp add: access_eval)
  have 3: "run (astep toy_env 0) ?w2 [LTick QuietAfterRefusal] ?w3" by (rule later_run) (simp add: access_eval)
  have 4: "astep toy_env 0 ?w3 (LEnsure QuietAfterRefusal False) ?w4" by (rule later_step) (simp add: access_eval)
  have 5: "w_log ?w4 \<noteq> w_log ?w3" by (simp add: access_eval)
  have 6: "ev_type (ended_event ''denied'') = ''device.session.ended''" by (simp add: access_eval)
  have 7: "fst (string_member ''reason'' (ev_body (ended_event ''denied''))) \<in> {''denied'', ''ended''}"
    by (simp add: access_eval)
  show ?thesis
    by (rule no_request_in_quiet_period [OF 1 order_refl order_refl 2 6 7 3 4 5])
qed

text \<open>
  The vault's own bound: once a request was answered \<open>too_soon\<close>, no automatic request
  is sent before the time the vault named (ten minutes later when it named none).
\<close>

lemma no_request_before_allowed_after:
  assumes "run (astep E lag) (awake secs a start) ls w1" and "0 \<le> start" and "0 \<le> lag"
    and "astep E lag w1 (LRequestEnd (Inr rs)) w2" and "\<not> rs_ok rs" and "rs_code rs = ''too_soon''"
    and "run (astep E lag) w2 ls' w3"
    and "astep E lag w3 (LEnsure now ctx) w4" and "w_log w4 \<noteq> w_log w3"
  shows "allowed_after_of E (w_clock w1) (rs_body rs) \<le> now"
proof -
  have inv: "ainv lag w1" "ainv lag w2" "ainv lag w3"
    using am.inv_run [OF assms(1)] awake_ainv assms(2,3) ainv_step [OF assms(4)] am.inv_run [OF assms(7)]
    by auto
  have "allowed_after_of E (w_clock w1) (rs_body rs) \<le> allowedAfter (w_m w2)"
    using assms(4-6) by (auto elim!: astep_requestE simp: request_end_def Let_def)
  with al.rank_run [OF assms(7) inv(2)] send_after_quiet(2) [OF inv(3) assms(8,9)]
  show ?thesis by simp
qed

lemma no_request_before_allowed_after_witness:
  "allowed_after_of toy_env (w_clock (after no_access [LEnsure 0 False])) None \<le> QuietAfterRefusal"
proof -
  let ?w1 = "after no_access [LEnsure 0 False]"
  let ?w2 = "later ?w1 [LRequestEnd (refused ''too_soon'')]"
  let ?w3 = "later ?w2 [LTick QuietAfterRefusal]"
  let ?w4 = "later ?w3 [LEnsure QuietAfterRefusal False]"
  let ?rs = "\<lparr>rs_type = '''', rs_ok = False, rs_code = ''too_soon'', rs_body = None\<rparr>"
  have 1: "run (astep toy_env 0) (awake 0 no_access 0) [LEnsure 0 False] ?w1" by (rule after_run) (simp add: access_eval)
  have 2: "astep toy_env 0 ?w1 (LRequestEnd (Inr ?rs)) ?w2"
    unfolding refused_def [symmetric] by (rule later_step) (simp add: access_eval)
  have 3: "run (astep toy_env 0) ?w2 [LTick QuietAfterRefusal] ?w3" by (rule later_run) (simp add: access_eval)
  have 4: "astep toy_env 0 ?w3 (LEnsure QuietAfterRefusal False) ?w4" by (rule later_step) (simp add: access_eval)
  have 5: "w_log ?w4 \<noteq> w_log ?w3" by (simp add: access_eval)
  show ?thesis
    using no_request_before_allowed_after [OF 1 order_refl order_refl 2 _ _ 3 4 5] by simp
qed

text \<open>
  While the vault is held nothing is asked of the member's phone and the hold stays: no
  event, answer, probe or time ends it, only a \<open>vault.status\<close>.
\<close>

lemma held_until_status:
  assumes "run (astep E lag) w ls w'" and "held (w_m w)" and "list_all (\<lambda>l. \<not> is_status l) ls"
  shows "held (w_m w') \<and> w_log w' = w_log w"
  using assms by (induction rule: run.induct) (auto dest: held_step)

lemma held_until_status_witness:
  "held (w_m (later (after no_access [LEnsure 0 False, LRequestEnd (refused ''owner_check_required'')])
     [LTick hour, LEnsure hour False]))"
proof -
  let ?w = "after no_access [LEnsure 0 False, LRequestEnd (refused ''owner_check_required'')]"
  have 1: "run (astep toy_env 0) ?w [LTick hour, LEnsure hour False] (later ?w [LTick hour, LEnsure hour False])"
    by (rule later_run) (simp add: access_eval)
  have 2: "held (w_m ?w)" by (simp add: access_eval)
  have 3: "list_all (\<lambda>l. \<not> is_status l) [LTick hour, LEnsure hour False]" by (simp add: access_eval)
  show ?thesis using held_until_status [OF 1 2 3] by blast
qed

text \<open>
  The answer to a probe never overwrites a session that changed while the probe was on
  its way.
\<close>

lemma probe_keeps_newer_session:
  assumes "astep E lag w (LProbeEnd i r) w'" and "snd (w_probes w ! i) \<noteq> w_cur w"
  shows "w_cur w' = w_cur w"
  using assms(1)
proof (rule astep_probeE)
  fix fl before m cur e
  assume "w' = w\<lparr>w_m := m, w_cur := cur, w_probes := drop_nth i (w_probes w)\<rparr>"
    and "w_probes w ! i = (fl, before)"
    and "(if fl then flight_end else probe_end) (w_m w) (w_cur w) before r = (m, cur, e)"
  with assms(2) probe_end_frame [of fl "w_m w" "w_cur w" before r m cur e] show ?thesis by auto
qed

lemma probe_keeps_newer_session_witness:
  "w_cur (later (after unknown_access [LEnsure 0 False, LProbe True, LConn active_open])
     [LProbeEnd 0 (refused ''session_required'')]) = active_open"
proof -
  let ?w = "after unknown_access [LEnsure 0 False, LProbe True, LConn active_open]"
  have 1: "astep toy_env 0 ?w (LProbeEnd 0 (refused ''session_required''))
      (later ?w [LProbeEnd 0 (refused ''session_required'')])"
    by (rule later_step) (simp add: access_eval)
  have 2: "snd (w_probes ?w ! 0) \<noteq> w_cur ?w" and 3: "w_cur ?w = active_open" by (simp_all add: access_eval)
  from probe_keeps_newer_session [OF 1 2] 3 show ?thesis by simp
qed

end
