(* ===== verification/Request.thy ===== *)
theory Request
  imports Access
begin

text \<open>
  \<open>internal/leash/request\<close>: the agent's requests to the vault. \<open>parse.go\<close> is the first
  section; then \<open>request.go\<close>'s client: an \<open>entry\<close> per request, a \<open>flight\<close> for the goroutine
  that sends it (\<open>run\<close>, \<open>attempt\<close>), and \<open>client\<close> for what \<open>Client.mu\<close> guards. Each
  operation is one critical section; \<open>rstep\<close> is their interleaving with the vault's answers
  and with time.
\<close>

section \<open>Requests and results\<close>

datatype op = OpCatalog | OpGet | OpUse

fun op_string :: "op \<Rightarrow> string" where
  "op_string OpCatalog = ''catalog''"
| "op_string OpGet = ''item.get''"
| "op_string OpUse = ''item.use''"

definition MaxFields :: nat where "MaxFields = 64"
definition MaxUseData :: nat where "MaxUseData = 16384"
definition Retransmissions :: nat where "Retransmissions = 2"
definition ApprovalTTL :: duration where "ApprovalTTL = 5 * minute"

record label =
  lb_id :: string
  lb_label :: string
  lb_kind :: string

record catalog_item =
  ci_id :: string
  ci_name :: string
  ci_category :: string
  ci_labels :: "label list option"

text \<open>A value or a note is its JSON text, here its value; \<open>None\<close> is nil.\<close>

record field =
  fd_id :: string
  fd_label :: string
  fd_kind :: string
  fd_value :: "json option"

record item =
  im_id :: string
  im_name :: string
  im_category :: string
  im_fields :: "field list option"
  im_notes :: "json option"

record use_result =
  us_item :: string
  us_field :: string
  us_action :: string
  us_result :: string

datatype result = RCatalog "catalog_item list" | RItem item | RUse use_result

definition id_char :: "char \<Rightarrow> bool" where
  "id_char c = (65 \<le> byte c \<and> byte c \<le> 90 \<or> 97 \<le> byte c \<and> byte c \<le> 122 \<or> 48 \<le> byte c \<and> byte c \<le> 57
     \<or> c = CHR ''_'' \<or> c = CHR ''-'')"

definition field_id :: "string \<Rightarrow> bool" where
  "field_id s = (1 \<le> length s \<and> length s \<le> 32 \<and> list_all id_char s)"

section \<open>Reading an answer\<close>

fun dec_label :: "label decoder" where
  "dec_label (JObj ms) v =
     (let (a, k1) = dec_field ''field_id'' dec_string ms (lb_id v);
          (b, k2) = dec_field ''label'' dec_string ms (lb_label v);
          (c, k3) = dec_field ''kind'' dec_string ms (lb_kind v) in
      (\<lparr>lb_id = a, lb_label = b, lb_kind = c\<rparr>, k1 \<and> k2 \<and> k3))"
| "dec_label JNull v = (v, True)"
| "dec_label _ v = (v, False)"

definition no_label :: label where "no_label = \<lparr>lb_id = [], lb_label = [], lb_kind = []\<rparr>"

fun dec_catalog_item :: "catalog_item decoder" where
  "dec_catalog_item (JObj ms) v =
     (let (a, k1) = dec_field ''item_id'' dec_string ms (ci_id v);
          (b, k2) = dec_field ''name'' dec_string ms (ci_name v);
          (c, k3) = dec_field ''category'' dec_string ms (ci_category v);
          (d, k4) = dec_field ''labels'' (dec_list no_label dec_label) ms (ci_labels v) in
      (\<lparr>ci_id = a, ci_name = b, ci_category = c, ci_labels = d\<rparr>, k1 \<and> k2 \<and> k3 \<and> k4))"
| "dec_catalog_item JNull v = (v, True)"
| "dec_catalog_item _ v = (v, False)"

definition no_catalog_item :: catalog_item where
  "no_catalog_item = \<lparr>ci_id = [], ci_name = [], ci_category = [], ci_labels = None\<rparr>"

fun dec_item_field :: "field decoder" where
  "dec_item_field (JObj ms) v =
     (let (a, k1) = dec_field ''field_id'' dec_string ms (fd_id v);
          (b, k2) = dec_field ''label'' dec_string ms (fd_label v);
          (c, k3) = dec_field ''kind'' dec_string ms (fd_kind v);
          (d, k4) = dec_field ''value'' dec_raw ms (fd_value v) in
      (\<lparr>fd_id = a, fd_label = b, fd_kind = c, fd_value = d\<rparr>, k1 \<and> k2 \<and> k3 \<and> k4))"
| "dec_item_field JNull v = (v, True)"
| "dec_item_field _ v = (v, False)"

definition no_field :: field where
  "no_field = \<lparr>fd_id = [], fd_label = [], fd_kind = [], fd_value = None\<rparr>"

text \<open>Whether a value's text begins with a quotation mark.\<close>

fun is_text :: "json \<Rightarrow> bool" where
  "is_text (JStr _) = True"
| "is_text (JEsc _) = True"
| "is_text _ = False"

fun is_object :: "json \<Rightarrow> bool" where
  "is_object (JObj _) = True"
| "is_object _ = False"

text \<open>One field of \<open>item.get\<close>'s answer, after the ones seen; \<open>None\<close> if it is not valid.\<close>

definition valid_field :: "string list \<Rightarrow> string list \<Rightarrow> field \<Rightarrow> field option" where
  "valid_field asked seen f =
    (if \<not> field_id (fd_id f) \<or> fd_id f \<in> set seen \<or> asked \<noteq> [] \<and> fd_id f \<notin> set asked then None
     else (case fd_value f of
             None \<Rightarrow> Some f
           | Some v \<Rightarrow> if v = JNull then Some (f\<lparr>fd_value := None\<rparr>)
                       else if \<not> is_text v \<and> \<not> is_object v then None
                       else Some f))"

fun valid_fields :: "string list \<Rightarrow> string list \<Rightarrow> field list \<Rightarrow> field list option" where
  "valid_fields asked seen [] = Some []"
| "valid_fields asked seen (f # fs) =
     (case valid_field asked seen f of None \<Rightarrow> None
      | Some g \<Rightarrow> (case valid_fields asked (fd_id f # seen) fs of None \<Rightarrow> None
          | Some gs \<Rightarrow> Some (g # gs)))"

text \<open>\<open>validItem\<close>: the item as it is kept, or \<open>None\<close>; \<open>asked\<close> are the fields asked for.\<close>

definition valid_item :: "string \<Rightarrow> string list \<Rightarrow> item \<Rightarrow> item option" where
  "valid_item wanted asked it =
    (if im_id it \<noteq> wanted then None
     else (case im_fields it of None \<Rightarrow> None | Some fs \<Rightarrow>
       (case valid_fields asked [] fs of None \<Rightarrow> None | Some gs \<Rightarrow>
         (case im_notes it of
            None \<Rightarrow> Some (it\<lparr>im_fields := Some gs\<rparr>)
          | Some n \<Rightarrow> if n = JNull \<or> asked \<noteq> [] then Some (it\<lparr>im_fields := Some gs, im_notes := None\<rparr>)
                      else if \<not> is_text n then None
                      else Some (it\<lparr>im_fields := Some gs\<rparr>)))))"

text \<open>A request, as far as reading its answer needs it.\<close>

record request =
  rq_op :: op
  rq_item :: string
  rq_field :: string
  rq_fields :: "string list"

fun base64_bytes :: "json option \<Rightarrow> string option" where
  "base64_bytes (Some (JStr s)) = b64_decode s"
| "base64_bytes _ = None"

definition parse_catalog :: "(string \<Rightarrow> bool) \<Rightarrow> json option \<Rightarrow> result option" where
  "parse_catalog ulid body = (case struct_members body of None \<Rightarrow> None | Some ms \<Rightarrow>
     (case dec_field ''items'' (dec_ptr None (dec_list no_catalog_item dec_catalog_item)) ms None of
        (Some its, True) \<Rightarrow>
          if list_all (\<lambda>it. ulid (ci_id it)) (case its of None \<Rightarrow> [] | Some xs \<Rightarrow> xs)
          then Some (RCatalog (case its of None \<Rightarrow> [] | Some xs \<Rightarrow> xs)) else None
      | _ \<Rightarrow> None))"

definition parse_get :: "request \<Rightarrow> json option \<Rightarrow> result option" where
  "parse_get rq body = (case struct_members body of None \<Rightarrow> None | Some ms \<Rightarrow>
     (let (a, k1) = dec_field ''item_id'' dec_string ms [];
          (b, k2) = dec_field ''name'' dec_string ms [];
          (c, k3) = dec_field ''category'' dec_string ms [];
          (d, k4) = dec_field ''fields'' (dec_list no_field dec_item_field) ms None;
          (e, k5) = dec_field ''notes'' dec_raw ms None in
      if k1 \<and> k2 \<and> k3 \<and> k4 \<and> k5
      then map_option RItem (valid_item (rq_item rq) (rq_fields rq)
             \<lparr>im_id = a, im_name = b, im_category = c, im_fields = d, im_notes = e\<rparr>)
      else None))"

definition parse_use :: "request \<Rightarrow> json option \<Rightarrow> result option" where
  "parse_use rq body = (case struct_members body of None \<Rightarrow> None | Some ms \<Rightarrow>
     (let (a, k1) = dec_field ''item_id'' dec_string ms [];
          (b, k2) = dec_field ''field_id'' dec_string ms [];
          (c, k3) = dec_field ''action'' dec_string ms [];
          (d, k4) = dec_field ''result'' dec_raw ms None in
      if \<not> (k1 \<and> k2 \<and> k3 \<and> k4) \<or> a \<noteq> rq_item rq \<or> b \<noteq> rq_field rq \<or> c \<noteq> ''hmac-sha256'' then None
      else (case base64_bytes d of None \<Rightarrow> None
            | Some mac \<Rightarrow> if length mac \<noteq> 32 then None
                else Some (RUse \<lparr>us_item = a, us_field = b, us_action = c, us_result = mac\<rparr>))))"

text \<open>\<open>parse\<close>; \<open>ulid\<close> is \<open>envelope.ValidULID\<close>.\<close>

definition parse :: "(string \<Rightarrow> bool) \<Rightarrow> request \<Rightarrow> json option \<Rightarrow> result option" where
  "parse ulid rq body = (case rq_op rq of OpCatalog \<Rightarrow> parse_catalog ulid body
     | OpGet \<Rightarrow> parse_get rq body | OpUse \<Rightarrow> parse_use rq body)"

section \<open>Making a request\<close>

record rerror =
  re_code :: string
  re_text :: string
  re_request :: string
  re_until :: time

abbreviation rerr :: "string \<Rightarrow> string \<Rightarrow> rerror" where
  "rerr c t \<equiv> \<lparr>re_code = c, re_text = t, re_request = [], re_until = 0\<rparr>"

definition bad_input :: "string \<Rightarrow> rerror" where
  "bad_input what = rerr ''bad_request'' (''The request is not valid: '' @ what @ ''.'')"

text \<open>\<open>Catalog\<close>, \<open>Get\<close> (\<open>None\<close>: all fields) and \<open>Use\<close>: the request and its body, or the refusal.\<close>

definition catalog_request :: "request \<times> json" where
  "catalog_request = (\<lparr>rq_op = OpCatalog, rq_item = [], rq_field = [], rq_fields = []\<rparr>,
     JObj [(''op'', JStr ''catalog'')])"

definition get_request :: "(string \<Rightarrow> bool) \<Rightarrow> string \<Rightarrow> string list option \<Rightarrow> rerror + request \<times> json" where
  "get_request ulid item_id asked =
    (if \<not> ulid item_id then Inl (bad_input ''item_id is not an item id'')
     else if (case asked of None \<Rightarrow> False | Some fs \<Rightarrow> fs = [] \<or> MaxFields < length fs)
       then Inl (bad_input ''fields must name 1 to 64 fields'')
     else if \<not> (list_all field_id (case asked of None \<Rightarrow> [] | Some fs \<Rightarrow> fs)
                 \<and> distinct (case asked of None \<Rightarrow> [] | Some fs \<Rightarrow> fs))
       then Inl (bad_input ''fields must be distinct field ids'')
     else Inr (\<lparr>rq_op = OpGet, rq_item = item_id, rq_field = [],
                 rq_fields = (case asked of None \<Rightarrow> [] | Some fs \<Rightarrow> fs)\<rparr>,
               JObj ((case asked of None \<Rightarrow> [] | Some fs \<Rightarrow> [(''fields'', JArr (map JStr fs))])
                 @ [(''item_id'', JStr item_id), (''op'', JStr (op_string OpGet))])))"

definition use_request :: "(string \<Rightarrow> bool) \<Rightarrow> string \<Rightarrow> string \<Rightarrow> string \<Rightarrow> rerror + request \<times> json" where
  "use_request ulid item_id fid data =
    (if \<not> ulid item_id then Inl (bad_input ''item_id is not an item id'')
     else if \<not> field_id fid then Inl (bad_input ''field_id is not a field id'')
     else if data = [] \<or> MaxUseData < length data then Inl (bad_input ''data must be 1 to 16384 bytes'')
     else Inr (\<lparr>rq_op = OpUse, rq_item = item_id, rq_field = fid, rq_fields = []\<rparr>,
               JObj [(''action'', JStr ''hmac-sha256''), (''data'', JStr (b64_std data)),
                     (''field_id'', JStr fid), (''item_id'', JStr item_id), (''op'', JStr (op_string OpUse))]))"

section \<open>Options and errors\<close>

record ropts =
  o_wait :: duration
  o_attempt :: duration
  o_grace :: duration
  o_unanswered :: duration
  o_keep :: duration
  o_retry_pause :: duration
  o_max_pending :: int

definition DefaultWait :: duration where "DefaultWait = 20 * second"
definition DefaultAttempt :: duration where "DefaultAttempt = 90 * second"
definition DefaultGrace :: duration where "DefaultGrace = 30 * second"
definition DefaultUnanswered :: duration where "DefaultUnanswered = 30 * second"
definition DefaultKeep :: duration where "DefaultKeep = 10 * minute"
definition DefaultRetryPause :: duration where "DefaultRetryPause = 2 * second"
definition DefaultMaxPending :: int where "DefaultMaxPending = 32"

definition or_default :: "int \<Rightarrow> int \<Rightarrow> int" where
  "or_default d v = (if d \<le> 0 then v else d)"

definition with_defaults :: "ropts \<Rightarrow> ropts" where
  "with_defaults o' = \<lparr>o_wait = or_default (o_wait o') DefaultWait,
     o_attempt = or_default (o_attempt o') DefaultAttempt, o_grace = or_default (o_grace o') DefaultGrace,
     o_unanswered = or_default (o_unanswered o') DefaultUnanswered,
     o_keep = or_default (o_keep o') DefaultKeep,
     o_retry_pause = or_default (o_retry_pause o') DefaultRetryPause,
     o_max_pending = or_default (o_max_pending o') DefaultMaxPending\<rparr>"

definition RDenied :: rerror where "RDenied = rerr ''denied'' ''Declined on your phone.''"
definition RForbidden :: rerror where
  "RForbidden = rerr ''forbidden''
     ''Your vault does not allow this agent to do that. You can change its permissions on your phone.''"
definition RSuspended :: rerror where
  "RSuspended = rerr ''suspended''
     ''Your vault paused this agent after repeated refused requests. You can resume it on your phone.''"
definition RTimeout :: rerror where
  "RTimeout = rerr ''approval_timeout''
     ''Your phone did not answer in time, and the request was dropped. Make it again if you still need it.''"
definition RExpired :: rerror where
  "RExpired = rerr ''expired''
     ''No result is kept for this request: a result is returned once and kept at most 10 minutes, and none survives a restart of the connector. Make the request again.''"
definition ROwnerCheck :: rerror where "ROwnerCheck = rerr (ae_code ErrOwnerCheck) (ae_text ErrOwnerCheck)"
definition RUnreachable :: rerror where "RUnreachable = rerr (ae_code ErrUnreachable) (ae_text ErrUnreachable)"
definition RSession :: rerror where
  "RSession = rerr ''session_required'' ''Your access session ended before your vault ran this request. Try again.''"
definition RNotFound :: rerror where
  "RNotFound = rerr ''not_found'' ''That item has no such field, or the field cannot be used this way.''"
definition RLimit :: rerror where
  "RLimit = rerr ''limit''
     ''Too many requests are waiting for approval on your phone. Try again after you answer them.''"
definition RTooMany :: rerror where
  "RTooMany = rerr ''rate_limited_local''
     ''Too many requests are waiting for your vault. Check their status, or try again later.''"
definition RProtocol :: rerror where "RProtocol = rerr ''protocol_error'' ''Your vault's answer could not be read.''"
definition RStopped :: rerror where
  "RStopped = rerr ''vault_unreachable'' ''The connection to your vault has stopped.''"
definition RRefused :: rerror where
  "RRefused = rerr ''refused''
     ''Your vault's relay refused this agent. If you removed it on your phone, run `vettid-agent forget`.''"
definition RSuperseded :: rerror where
  "RSuperseded = rerr ''superseded''
     ''Another copy of this request took its place, so its answer cannot be returned here. Make the request again if you still need it.''"

definition TextWaiting :: string where
  "TextWaiting = ''Waiting for your approval on your phone. Check again with leash.check_status.''"
definition TextInFlight :: string where
  "TextInFlight = ''Your vault has not answered yet. Check again with leash.check_status.''"
definition TextApprovalPassed :: string where
  "TextApprovalPassed = ''The time to approve this request on your phone has passed; waiting for your vault's final answer. Check again with leash.check_status.''"

definition sanitize :: "string \<Rightarrow> string" where
  "sanitize s = (let b = take 64 (filter log_char s) in if b = [] then ''error'' else b)"

text \<open>\<open>fromAccess\<close>: internal/access's errors as this package's.\<close>

fun from_access :: "access_err \<Rightarrow> rerror" where
  "from_access (AErr ae) = \<lparr>re_code = ae_code ae, re_text = ae_text ae, re_request = [], re_until = ae_until ae\<rparr>"
| "from_access ARefused = RRefused"
| "from_access (AText t) = rerr ''access_error'' t"

text \<open>What an error code of the vault becomes; \<open>suspended\<close> as internal/leash last learned it.\<close>

definition answer_error :: "string \<Rightarrow> bool \<Rightarrow> rerror" where
  "answer_error code suspended =
    (if code = ''forbidden'' then (if suspended then RSuspended else RForbidden)
     else if code = ''denied'' then RDenied
     else if code = ''approval_timeout'' then RTimeout
     else if code = ''owner_check_required'' then ROwnerCheck
     else if code = ''session_required'' then RSession
     else if code = ''not_found'' then RNotFound
     else if code = ''limit'' then RLimit
     else if code = ''bad_request'' then bad_input ''your vault refused it''
     else rerr (sanitize code) (''Your vault refused the request ('' @ sanitize code @ '').''))"

section \<open>The client's state\<close>

text \<open>\<open>e_body\<close> is \<open>None\<close> once it is zeroed; \<open>e_evict\<close> is when the timer that drops it fires.\<close>

record entry =
  e_id :: string
  e_rq :: request
  e_body :: "json option"
  e_sent_with :: access
  e_created :: time
  e_waiting :: bool
  e_approval :: string
  e_exp :: time
  e_done :: bool
  e_res :: "result option"
  e_err :: "rerror option"
  e_handed :: bool
  e_abandoned :: bool
  e_evict :: "time option"

text \<open>
  The goroutine \<open>run\<close>: about to send copy number \<open>f_n\<close> (from 0), waiting for its answer since a
  time, or pausing after a send that failed.
\<close>

datatype fstate = Ready | Sent time | Pausing time

record flight =
  f_n :: nat
  f_state :: fstate

text \<open>
  \<open>c_store\<close> holds every entry by its id (ids are new ULIDs, so never reused); \<open>c_ids\<close> are the keys
  of \<open>Client.entries\<close>, the entries still reachable by their id.
\<close>

record client =
  c_store :: "string \<rightharpoonup> entry"
  c_ids :: "string list"
  c_flights :: "string \<rightharpoonup> flight"
  c_closed :: bool
  c_stopped :: bool

definition new_client :: client where
  "new_client = \<lparr>c_store = Map.empty, c_ids = [], c_flights = Map.empty, c_closed = False, c_stopped = False\<rparr>"

definition set_entry :: "client \<Rightarrow> string \<Rightarrow> entry \<Rightarrow> client" where
  "set_entry c i e = c\<lparr>c_store := (c_store c)(i \<mapsto> e)\<rparr>"

definition live :: "client \<Rightarrow> string \<Rightarrow> entry option" where
  "live c i = (if i \<in> set (c_ids c) then c_store c i else None)"

text \<open>\<open>heldLocked\<close>: the requests in flight and the results kept.\<close>

definition counts :: "client \<Rightarrow> string \<Rightarrow> bool" where
  "counts c i = (case c_store c i of None \<Rightarrow> False | Some e \<Rightarrow> \<not> e_done e \<or> e_res e \<noteq> None)"

definition held_count :: "client \<Rightarrow> nat" where
  "held_count c = length (filter (counts c) (c_ids c))"

definition drop_entry :: "client \<Rightarrow> string \<Rightarrow> client" where
  "drop_entry c i = (case c_store c i of None \<Rightarrow> c
     | Some e \<Rightarrow> (set_entry c i (e\<lparr>e_res := None, e_evict := None\<rparr>))\<lparr>c_ids := removeAll i (c_ids c)\<rparr>)"

definition take_entry :: "client \<Rightarrow> string \<Rightarrow> entry \<Rightarrow> client \<times> result option \<times> rerror option" where
  "take_entry c i e =
     ((set_entry c i (e\<lparr>e_res := None, e_evict := None\<rparr>))\<lparr>c_ids := removeAll i (c_ids c)\<rparr>, e_res e, e_err e)"

section \<open>A tool call\<close>

datatype call_err = CallCtx | CallErr rerror

text \<open>
  \<open>do\<close> before the request exists: whether the call's context has ended, \<open>Close\<close> was called, the
  vault suspended the agent, and what \<open>Ensure\<close> answered (after which the context is looked at again).
\<close>

definition do_before :: "client \<Rightarrow> bool \<Rightarrow> bool \<Rightarrow> access_err option \<Rightarrow> bool \<Rightarrow> call_err option" where
  "do_before c ctx1 suspended ensured ctx2 =
    (if ctx1 then Some CallCtx
     else if c_closed c then Some (CallErr RStopped)
     else if suspended then Some (CallErr RSuspended)
     else if ctx2 then Some CallCtx
     else map_option (CallErr \<circ> from_access) ensured)"

definition new_entry :: "string \<Rightarrow> request \<Rightarrow> json \<Rightarrow> access \<Rightarrow> time \<Rightarrow> entry" where
  "new_entry i rq body sw now = \<lparr>e_id = i, e_rq = rq, e_body = Some body, e_sent_with = sw, e_created = now,
     e_waiting = False, e_approval = [], e_exp = 0, e_done = False, e_res = None, e_err = None,
     e_handed = False, e_abandoned = False, e_evict = None\<rparr>"

definition do_register ::
  "ropts \<Rightarrow> client \<Rightarrow> string \<Rightarrow> request \<Rightarrow> json \<Rightarrow> access \<Rightarrow> time \<Rightarrow> bool \<Rightarrow> client \<times> call_err option" where
  "do_register Op c i rq body sw now ctx =
    (if c_closed c then (c, Some (CallErr RStopped))
     else if ctx then (c, Some CallCtx)
     else if o_max_pending Op \<le> int (held_count c) then (c, Some (CallErr RTooMany))
     else ((set_entry c i (new_entry i rq body sw now))\<lparr>c_ids := c_ids c @ [i],
              c_flights := (c_flights c)(i \<mapsto> \<lparr>f_n = 0, f_state = Ready\<rparr>)\<rparr>, None))"

record outcome =
  oc_result :: "result option"
  oc_pending :: bool
  oc_request :: string
  oc_waiting :: bool
  oc_text :: string

definition pending :: "entry \<Rightarrow> time \<Rightarrow> outcome" where
  "pending e now =
    (let oc = \<lparr>oc_result = None, oc_pending = True, oc_request = e_id e, oc_waiting = e_waiting e,
               oc_text = TextInFlight\<rparr> in
     if e_waiting e \<and> \<not> now < e_exp e then oc\<lparr>oc_waiting := False, oc_text := TextApprovalPassed\<rparr>
     else if e_waiting e then oc\<lparr>oc_text := TextWaiting\<rparr>
     else oc)"

text \<open>
  \<open>report\<close>: a final outcome as the tool's answer. After \<open>session_required\<close> access is asked for;
  \<open>ensured\<close> is what \<open>Ensure\<close> answers then.
\<close>

definition asks_access :: "client \<Rightarrow> rerror option \<Rightarrow> bool \<Rightarrow> bool" where
  "asks_access c err ctx = (case err of None \<Rightarrow> False
     | Some e \<Rightarrow> re_code e = re_code RSession \<and> \<not> ctx \<and> \<not> c_closed c)"

definition report :: "client \<Rightarrow> result option \<Rightarrow> rerror option \<Rightarrow> bool \<Rightarrow> access_err option \<Rightarrow> rerror + outcome" where
  "report c res err ctx ensured =
    (case err of
       Some e \<Rightarrow> if asks_access c err ctx
                 then (case ensured of Some a \<Rightarrow> Inl (from_access a) | None \<Rightarrow> Inl e) else Inl e
     | None \<Rightarrow> Inr \<lparr>oc_result = res, oc_pending = False, oc_request = [], oc_waiting = False, oc_text = []\<rparr>)"

datatype do_out = Final "result option" "rerror option" | Cancelled | StillPending outcome

text \<open>The end of \<open>do\<close>: the request is done, or the wait or the call's context is over.\<close>

definition do_end :: "client \<Rightarrow> string \<Rightarrow> entry \<Rightarrow> time \<Rightarrow> bool \<Rightarrow> client \<times> do_out" where
  "do_end c i e now ctx =
    (if e_done e then (let (c', res, err) = take_entry c i e in (c', Final res err))
     else if ctx then (set_entry c i (e\<lparr>e_abandoned := True\<rparr>), Cancelled)
     else (set_entry c i (e\<lparr>e_handed := True\<rparr>), StillPending (pending e now)))"

text \<open>\<open>Status\<close>; its second result, where there is one, goes through \<open>report\<close>.\<close>

datatype status_out = StatusErr rerror | StatusPending outcome | StatusFinal "result option" "rerror option"

definition status :: "ropts \<Rightarrow> client \<Rightarrow> string \<Rightarrow> time \<Rightarrow> client \<times> status_out" where
  "status Op c i now = (case live c i of None \<Rightarrow> (c, StatusErr RExpired)
   | Some e \<Rightarrow>
      if \<not> e_handed e then (c, StatusErr RExpired)
      else if \<not> e_done e then
        (if \<not> e_waiting e \<and> o_unanswered Op \<le> now - e_created e
         then (c, StatusErr (RUnreachable\<lparr>re_request := i\<rparr>))
         else (c, StatusPending (pending e now)))
      else if e_res e \<noteq> None then (let (c', res, _) = take_entry c i e in (c', StatusFinal res None))
      else (c, StatusFinal None (e_err e)))"

section \<open>Events\<close>

definition approval_body :: "json option \<Rightarrow> (string \<times> string \<times> string) option" where
  "approval_body body = (case struct_members body of None \<Rightarrow> None | Some ms \<Rightarrow>
     (let (a, k1) = dec_field ''approval_id'' dec_string ms [];
          (r, k2) = dec_field ''request_id'' dec_string ms [];
          (x, k3) = dec_field ''exp'' dec_string ms [] in
      if k1 \<and> k2 \<and> k3 \<and> r \<noteq> [] then Some (a, r, x) else None))"

definition approval_exp :: "env \<Rightarrow> time \<Rightarrow> string \<Rightarrow> time" where
  "approval_exp E now x = (case ptime E x of None \<Rightarrow> now + ApprovalTTL
     | Some t \<Rightarrow> if now + (ApprovalTTL + minute) < t then now + ApprovalTTL else t)"

definition on_approval :: "env \<Rightarrow> client \<Rightarrow> time \<Rightarrow> event \<Rightarrow> client" where
  "on_approval E c now ev =
    (if ev_type ev \<noteq> ''approval.waiting'' then c
     else (case approval_body (ev_body ev) of None \<Rightarrow> c | Some (a, r, x) \<Rightarrow>
       (case live c r of None \<Rightarrow> c | Some e \<Rightarrow>
          if e_done e then c
          else if \<not> e_waiting e \<or> e_exp e < approval_exp E now x
          then set_entry c r (e\<lparr>e_waiting := True, e_exp := approval_exp E now x, e_approval := a\<rparr>)
          else c)))"

section \<open>The goroutine that sends a request\<close>

definition deadline :: "ropts \<Rightarrow> entry \<Rightarrow> time \<Rightarrow> time" where
  "deadline Op e start =
    (let d = start + o_attempt Op in
     if e_waiting e \<and> d < e_exp e + o_grace Op then e_exp e + o_grace Op else d)"

text \<open>\<open>finish\<close>: the final outcome; the entry is dropped, or kept for a while if it was handed out.\<close>

definition finish :: "ropts \<Rightarrow> client \<Rightarrow> string \<Rightarrow> entry \<Rightarrow> time \<Rightarrow> result option \<Rightarrow> rerror option \<Rightarrow> client" where
  "finish Op c i e now res err =
    (let e' = e\<lparr>e_body := None, e_done := True, e_res := res, e_err := err\<rparr>;
         c' = (set_entry c i e')\<lparr>c_flights := (c_flights c)(i := None)\<rparr> in
     if e_abandoned e \<or> c_closed c then drop_entry c' i
     else if e_handed e then set_entry c' i (e'\<lparr>e_evict := Some (now + o_keep Op)\<rparr>)
     else c')"

definition answer :: "(string \<Rightarrow> bool) \<Rightarrow> ropts \<Rightarrow> client \<Rightarrow> string \<Rightarrow> entry \<Rightarrow> time \<Rightarrow> response \<Rightarrow> bool \<Rightarrow> client" where
  "answer ulid Op c i e now rs suspended =
    (if rs_ok rs then
       (case parse ulid (e_rq e) (rs_body rs) of
          None \<Rightarrow> finish Op c i e now None (Some RProtocol)
        | Some res \<Rightarrow> finish Op c i e now (Some res) None)
     else finish Op c i e now None (Some (answer_error (rs_code rs) suspended)))"

text \<open>The code \<open>answer\<close> passes on to the access manager, if it does.\<close>

definition answer_passes_on :: "response \<Rightarrow> string option" where
  "answer_passes_on rs = (if \<not> rs_ok rs \<and> rs_code rs \<in> {''session_required'', ''owner_check_required''}
     then Some (rs_code rs) else None)"

text \<open>
  How one attempt ended: with an answer, at its deadline, or with an error of the connection.
\<close>

datatype attempt_out = Answered response | TimedOut | Failed req_error

definition next_attempt :: "ropts \<Rightarrow> client \<Rightarrow> string \<Rightarrow> entry \<Rightarrow> flight \<Rightarrow> time \<Rightarrow> client" where
  "next_attempt Op c i e f now =
    (if f_n f + 1 \<le> Retransmissions
     then c\<lparr>c_flights := (c_flights c)(i \<mapsto> \<lparr>f_n = f_n f + 1, f_state = Ready\<rparr>)\<rparr>
     else finish Op c i e now None (Some RUnreachable))"

definition attempt_end ::
  "(string \<Rightarrow> bool) \<Rightarrow> ropts \<Rightarrow> client \<Rightarrow> string \<Rightarrow> entry \<Rightarrow> flight \<Rightarrow> time \<Rightarrow> attempt_out \<Rightarrow> bool \<Rightarrow> client" where
  "attempt_end ulid Op c i e f now out suspended =
    (case out of
       Answered rs \<Rightarrow> answer ulid Op c i e now rs suspended
     | TimedOut \<Rightarrow> if c_stopped c then finish Op c i e now None (Some RStopped)
                   else next_attempt Op c i e f now
     | Failed x \<Rightarrow>
         if c_stopped c then finish Op c i e now None (Some RStopped)
         else if x = ReqRefused then finish Op c i e now None (Some RRefused)
         else if x = ReqStopped then finish Op c i e now None (Some RStopped)
         else if x = ReqSuperseded then finish Op c i e now None (Some RSuperseded)
         else c\<lparr>c_flights := (c_flights c)(i \<mapsto> f\<lparr>f_state := Pausing (now + o_retry_pause Op)\<rparr>)\<rparr>)"

text \<open>The end of the pause: its timer fired, or the client stopped first.\<close>

definition pause_end :: "ropts \<Rightarrow> client \<Rightarrow> string \<Rightarrow> entry \<Rightarrow> flight \<Rightarrow> time \<Rightarrow> bool \<Rightarrow> client" where
  "pause_end Op c i e f now fired =
    (if fired then next_attempt Op c i e f now else finish Op c i e now None (Some RStopped))"

definition handed_back :: "req_error option \<Rightarrow> bool" where
  "handed_back err = (case err of None \<Rightarrow> True | Some x \<Rightarrow> \<not> (x = ReqCtx \<or> x = ReqStopped))"

text \<open>\<open>Close\<close>, before it waits for the goroutines and after.\<close>

definition close_begin :: "client \<Rightarrow> client" where
  "close_begin c = c\<lparr>c_closed := True, c_stopped := True\<rparr>"

definition close_end :: "client \<Rightarrow> client" where
  "close_end c = foldl drop_entry c (c_ids c)"

section \<open>The client at work\<close>

text \<open>
  The client with the tool calls waiting in \<open>do\<close> (\<open>q_calls\<close>), the clock, and two records of the
  model's own: how many copies of each request were handed to the connection, and the results
  returned to tool calls.
\<close>

record rworld =
  q_c :: client
  q_calls :: "string set"
  q_clock :: time
  q_sends :: "string \<Rightarrow> nat"
  q_given :: "(string \<times> result) list"

datatype rlabel =
    RRegister string request json access bool
  | RDoEnd string bool
  | RStatus string
  | REvent event
  | RSend string
  | RAttempt string attempt_out bool
  | RPause string bool
  | REvict string
  | RClose
  | RClosed
  | RTick time

definition given_by :: "string \<Rightarrow> result option \<Rightarrow> (string \<times> result) list" where
  "given_by i res = (case res of None \<Rightarrow> [] | Some r \<Rightarrow> [(i, r)])"

definition do_given :: "string \<Rightarrow> do_out \<Rightarrow> (string \<times> result) list" where
  "do_given i out = (case out of Final res None \<Rightarrow> given_by i res | _ \<Rightarrow> [])"

definition status_given :: "string \<Rightarrow> status_out \<Rightarrow> (string \<times> result) list" where
  "status_given i out = (case out of StatusFinal res None \<Rightarrow> given_by i res | _ \<Rightarrow> [])"

inductive rstep :: "(string \<Rightarrow> bool) \<Rightarrow> env \<Rightarrow> ropts \<Rightarrow> rworld \<Rightarrow> rlabel \<Rightarrow> rworld \<Rightarrow> bool"
  for ulid E Op where
  r_register: "c_store (q_c w) i = None \<Longrightarrow> do_register Op (q_c w) i rq body sw (q_clock w) ctx = (c, err)
    \<Longrightarrow> rstep ulid E Op w (RRegister i rq body sw ctx)
          (w\<lparr>q_c := c, q_calls := (if err = None then insert i (q_calls w) else q_calls w)\<rparr>)"
| r_do_end: "i \<in> q_calls w \<Longrightarrow> c_store (q_c w) i = Some e \<Longrightarrow> do_end (q_c w) i e (q_clock w) ctx = (c, out)
    \<Longrightarrow> rstep ulid E Op w (RDoEnd i ctx)
          (w\<lparr>q_c := c, q_calls := q_calls w - {i}, q_given := q_given w @ do_given i out\<rparr>)"
| r_status: "status Op (q_c w) i (q_clock w) = (c, out)
    \<Longrightarrow> rstep ulid E Op w (RStatus i) (w\<lparr>q_c := c, q_given := q_given w @ status_given i out\<rparr>)"
| r_event: "rstep ulid E Op w (REvent ev) (w\<lparr>q_c := on_approval E (q_c w) (q_clock w) ev\<rparr>)"
| r_send: "c_flights (q_c w) i = Some f \<Longrightarrow> f_state f = Ready
    \<Longrightarrow> rstep ulid E Op w (RSend i)
          (w\<lparr>q_c := (q_c w)\<lparr>c_flights := (c_flights (q_c w))(i \<mapsto> f\<lparr>f_state := Sent (q_clock w)\<rparr>)\<rparr>,
             q_sends := (q_sends w)(i := q_sends w i + 1)\<rparr>)"
| r_attempt: "c_flights (q_c w) i = Some f \<Longrightarrow> f_state f = Sent start \<Longrightarrow> c_store (q_c w) i = Some e
    \<Longrightarrow> (out = TimedOut \<Longrightarrow> deadline Op e start \<le> q_clock w)
    \<Longrightarrow> rstep ulid E Op w (RAttempt i out susp)
          (w\<lparr>q_c := attempt_end ulid Op (q_c w) i e f (q_clock w) out susp\<rparr>)"
| r_pause: "c_flights (q_c w) i = Some f \<Longrightarrow> f_state f = Pausing t \<Longrightarrow> c_store (q_c w) i = Some e
    \<Longrightarrow> (if fired then t \<le> q_clock w else c_stopped (q_c w))
    \<Longrightarrow> rstep ulid E Op w (RPause i fired) (w\<lparr>q_c := pause_end Op (q_c w) i e f (q_clock w) fired\<rparr>)"
| r_evict: "live (q_c w) i = Some e \<Longrightarrow> e_evict e = Some t \<Longrightarrow> t \<le> q_clock w
    \<Longrightarrow> rstep ulid E Op w (REvict i) (w\<lparr>q_c := drop_entry (q_c w) i\<rparr>)"
| r_close: "rstep ulid E Op w RClose (w\<lparr>q_c := close_begin (q_c w)\<rparr>)"
| r_closed: "c_closed (q_c w) \<Longrightarrow> c_flights (q_c w) = Map.empty
    \<Longrightarrow> rstep ulid E Op w RClosed (w\<lparr>q_c := close_end (q_c w)\<rparr>)"
| r_tick: "q_clock w \<le> t \<Longrightarrow> rstep ulid E Op w (RTick t) (w\<lparr>q_clock := t\<rparr>)"

inductive_cases rstep_attemptE: "rstep ulid E Op w (RAttempt i out susp) w'"

definition rworld0 :: "time \<Rightarrow> rworld" where
  "rworld0 now = \<lparr>q_c = new_client, q_calls = {}, q_clock = now, q_sends = (\<lambda>_. 0), q_given = []\<rparr>"

section \<open>The invariant\<close>

definition copies :: "flight \<Rightarrow> nat" where
  "copies f = f_n f + (if f_state f = Ready then 0 else 1)"

definition entry_ok :: "rworld \<Rightarrow> string \<Rightarrow> entry \<Rightarrow> bool" where
  "entry_ok w i e =
     ((\<not> e_done e \<longrightarrow> c_flights (q_c w) i \<noteq> None \<and> i \<in> set (c_ids (q_c w)) \<and> e_res e = None)
      \<and> (e_done e \<longrightarrow> c_flights (q_c w) i = None) \<and> (e_evict e \<noteq> None \<longrightarrow> e_done e)
      \<and> (e_abandoned e \<longrightarrow> e_res e = None) \<and> q_sends w i \<le> 3
      \<and> (i \<in> q_calls w \<longrightarrow> \<not> e_handed e \<and> \<not> e_abandoned e)
      \<and> (i \<in> fst ` set (q_given w) \<longrightarrow> e_done e \<and> e_res e = None \<and> \<not> e_abandoned e))"

definition flight_ok :: "rworld \<Rightarrow> string \<Rightarrow> flight \<Rightarrow> bool" where
  "flight_ok w i f = (f_n f \<le> Retransmissions \<and> q_sends w i \<le> copies f
     \<and> (\<exists>e. c_store (q_c w) i = Some e))"

definition rinv :: "ropts \<Rightarrow> rworld \<Rightarrow> bool" where
  "rinv Op w =
     ((\<forall>i e. c_store (q_c w) i = Some e \<longrightarrow> entry_ok w i e)
      \<and> (\<forall>i f. c_flights (q_c w) i = Some f \<longrightarrow> flight_ok w i f)
      \<and> (\<forall>i. c_store (q_c w) i = None \<longrightarrow> q_sends w i = 0 \<and> i \<notin> q_calls w \<and> i \<notin> fst ` set (q_given w))
      \<and> (\<forall>i \<in> set (c_ids (q_c w)). c_store (q_c w) i \<noteq> None)
      \<and> int (held_count (q_c w)) \<le> max 0 (o_max_pending Op) \<and> distinct (map fst (q_given w)))"

lemma length_filter_sub:
  "(\<And>x. x \<in> set xs \<Longrightarrow> P x \<Longrightarrow> Q x) \<Longrightarrow> length (filter P xs) \<le> length (filter Q xs)"
  by (induction xs) (auto simp: le_SucI)

lemma held_count_le:
  assumes "c_ids c' = c_ids c \<or> c_ids c' = removeAll i (c_ids c)"
    and "\<And>k. counts c' k \<Longrightarrow> counts c k"
  shows "held_count c' \<le> held_count c"
proof -
  have "length (filter (counts c') xs) \<le> length (filter (counts c) xs)" for xs
    using assms(2) by (intro length_filter_sub) auto
  moreover have "length (filter P (removeAll i xs)) \<le> length (filter P xs)" for P xs
    by (induction xs) auto
  ultimately show ?thesis using assms(1) unfolding held_count_def by (metis le_trans)
qed

text \<open>An operation that touches one entry, and its flight, keeps the invariant.\<close>

lemma rinv_touch:
  assumes inv: "rinv Op w" and e: "c_store (q_c w) i = Some e"
    and store: "c_store (q_c w') = (c_store (q_c w))(i \<mapsto> e')"
    and flights: "\<And>k. k \<noteq> i \<Longrightarrow> c_flights (q_c w') k = c_flights (q_c w) k"
    and sends: "\<And>k. k \<noteq> i \<Longrightarrow> q_sends w' k = q_sends w k"
    and calls: "\<And>k. k \<noteq> i \<Longrightarrow> (k \<in> q_calls w') = (k \<in> q_calls w)"
    and ids: "c_ids (q_c w') = c_ids (q_c w) \<or> c_ids (q_c w') = removeAll i (c_ids (q_c w))"
    and given: "q_given w' = q_given w \<or> i \<notin> fst ` set (q_given w) \<and> (\<exists>r. q_given w' = q_given w @ [(i, r)])"
    and ok: "entry_ok w' i e'" and fl: "\<And>f. c_flights (q_c w') i = Some f \<Longrightarrow> flight_ok w' i f"
    and cnt: "(\<not> e_done e' \<or> e_res e' \<noteq> None) \<longrightarrow> (\<not> e_done e \<or> e_res e \<noteq> None)"
  shows "rinv Op w'"
proof -
  have given': "k \<noteq> i \<Longrightarrow> (k \<in> fst ` set (q_given w')) = (k \<in> fst ` set (q_given w))" for k
    using given by auto
  have ids': "k \<noteq> i \<Longrightarrow> (k \<in> set (c_ids (q_c w'))) = (k \<in> set (c_ids (q_c w)))" for k
    using ids by auto
  have "entry_ok w' k x" if "c_store (q_c w') k = Some x" for k x
  proof (cases "k = i")
    case True with that store ok show ?thesis by simp
  next
    case False
    with that store inv have "entry_ok w k x" by (simp add: rinv_def)
    with False flights sends calls given' ids' show ?thesis by (simp add: entry_ok_def)
  qed
  moreover have "flight_ok w' k f" if "c_flights (q_c w') k = Some f" for k f
  proof (cases "k = i")
    case True with that fl show ?thesis by simp
  next
    case False
    with that flights inv have "flight_ok w k f" by (simp add: rinv_def)
    with False sends store show ?thesis by (auto simp: flight_ok_def)
  qed
  moreover have "q_sends w' k = 0 \<and> k \<notin> q_calls w' \<and> k \<notin> fst ` set (q_given w')"
    if "c_store (q_c w') k = None" for k
  proof -
    from that store have "k \<noteq> i" "c_store (q_c w) k = None" by (auto split: if_splits)
    with inv sends calls given' show ?thesis by (auto simp: rinv_def)
  qed
  moreover have "c_store (q_c w') k \<noteq> None" if "k \<in> set (c_ids (q_c w'))" for k
    using that ids inv store by (auto simp: rinv_def)
  moreover have "int (held_count (q_c w')) \<le> max 0 (o_max_pending Op)"
  proof -
    have "counts (q_c w') k \<Longrightarrow> counts (q_c w) k" for k
      using store e cnt by (auto simp: counts_def split: if_splits)
    then have "held_count (q_c w') \<le> held_count (q_c w)" using ids by (rule held_count_le [rotated])
    with inv show ?thesis by (auto simp: rinv_def)
  qed
  moreover have "distinct (map fst (q_given w'))" using given inv by (auto simp: rinv_def)
  ultimately show ?thesis by (simp add: rinv_def)
qed

section \<open>What each operation does to its entry\<close>

lemma set_entry_simps [simp]:
  "c_store (set_entry c i e) = (c_store c)(i \<mapsto> e)" "c_ids (set_entry c i e) = c_ids c"
  "c_flights (set_entry c i e) = c_flights c" "c_closed (set_entry c i e) = c_closed c"
  "c_stopped (set_entry c i e) = c_stopped c"
  by (simp_all add: set_entry_def)

definition emptied :: "entry \<Rightarrow> entry" where "emptied e = e\<lparr>e_res := None, e_evict := None\<rparr>"

lemma drop_entry_simps:
  "c_store c i = Some e \<Longrightarrow> c_store (drop_entry c i) = (c_store c)(i \<mapsto> emptied e)"
  "c_store c i = Some e \<Longrightarrow> c_ids (drop_entry c i) = removeAll i (c_ids c)"
  "c_flights (drop_entry c i) = c_flights c" "c_closed (drop_entry c i) = c_closed c"
  "c_stopped (drop_entry c i) = c_stopped c"
  by (auto simp: drop_entry_def emptied_def split: option.split)

lemma take_entry_simps:
  "c_store (fst (take_entry c i e)) = (c_store c)(i \<mapsto> emptied e)"
  "c_ids (fst (take_entry c i e)) = removeAll i (c_ids c)"
  "c_flights (fst (take_entry c i e)) = c_flights c"
  "snd (take_entry c i e) = (e_res e, e_err e)"
  by (auto simp: take_entry_def emptied_def)

lemma emptied_rq [simp]: "e_rq (emptied e) = e_rq e" "e_err (emptied e) = e_err e"
  by (simp_all add: emptied_def)

lemma emptied_simps [simp]:
  "e_done (emptied e) = e_done e" "e_res (emptied e) = None" "e_abandoned (emptied e) = e_abandoned e"
  "e_handed (emptied e) = e_handed e" "e_evict (emptied e) = None"
  by (simp_all add: emptied_def)

lemma finish_simps:
  assumes "c_store c i = Some e0"
  obtains e' where "c_store (finish Op c i e now res err) = (c_store c)(i \<mapsto> e')" "e_done e'"
    "e_body e' = None" "e_rq e' = e_rq e" "e_err e' = err" "e_handed e' = e_handed e" "e_abandoned e' = e_abandoned e"
    "e_abandoned e \<Longrightarrow> e_res e' = None" "e_res e' \<noteq> None \<Longrightarrow> e_res e' = res"
    "c_ids (finish Op c i e now res err) = (if e_abandoned e \<or> c_closed c then removeAll i (c_ids c) else c_ids c)"
    "c_flights (finish Op c i e now res err) = (c_flights c)(i := None)"
proof -
  let ?e' = "e\<lparr>e_body := None, e_done := True, e_res := res, e_err := err\<rparr>"
  let ?c' = "(set_entry c i ?e')\<lparr>c_flights := (c_flights c)(i := None)\<rparr>"
  have s: "c_store ?c' i = Some ?e'" by simp
  consider "e_abandoned e \<or> c_closed c" | "\<not> (e_abandoned e \<or> c_closed c)" "e_handed e"
    | "\<not> (e_abandoned e \<or> c_closed c)" "\<not> e_handed e" by blast
  then show ?thesis
  proof cases
    case 1
    then have "finish Op c i e now res err = drop_entry ?c' i" by (simp add: finish_def Let_def)
    with 1 drop_entry_simps(1,2) [OF s] show ?thesis by (intro that [of "emptied ?e'"]) (auto simp: emptied_def drop_entry_simps)
  next
    case 2
    then have "finish Op c i e now res err = set_entry ?c' i (?e'\<lparr>e_evict := Some (now + o_keep Op)\<rparr>)"
      by (simp add: finish_def Let_def)
    with 2 show ?thesis by (intro that [of "?e'\<lparr>e_evict := Some (now + o_keep Op)\<rparr>"]) auto
  next
    case 3
    then have "finish Op c i e now res err = ?c'" by (simp add: finish_def Let_def)
    with 3 show ?thesis by (intro that [of ?e']) auto
  qed
qed

text \<open>\<open>attempt_end\<close> and \<open>pause_end\<close> finish the request, go on to the next copy, or pause.\<close>

lemma attempt_end_cases:
  obtains res err where "attempt_end ulid Op c i e f now out susp = finish Op c i e now res err"
    "\<And>r. res = Some r \<Longrightarrow> \<exists>rs. out = Answered rs \<and> rs_ok rs \<and> parse ulid (e_rq e) (rs_body rs) = Some r"
  | "attempt_end ulid Op c i e f now out susp = next_attempt Op c i e f now"
  | t where "attempt_end ulid Op c i e f now out susp
      = c\<lparr>c_flights := (c_flights c)(i \<mapsto> f\<lparr>f_state := Pausing t\<rparr>)\<rparr>"
proof (cases out)
  case (Answered rs)
  show ?thesis
  proof (cases "rs_ok rs")
    case True
    with Answered show ?thesis
      by (cases "parse ulid (e_rq e) (rs_body rs)")
        (auto intro: that(1) simp: attempt_end_def answer_def)
  next
    case False
    with Answered show ?thesis
      using that(1) [of None "Some (answer_error (rs_code rs) susp)"]
      by (simp add: attempt_end_def answer_def)
  qed
next
  case TimedOut
  then show ?thesis
    using that(1) [of None "Some RStopped"] that(2)
    by (cases "c_stopped c") (simp_all add: attempt_end_def)
next
  case (Failed x)
  consider "c_stopped c \<or> x = ReqStopped" | "\<not> c_stopped c" "x = ReqRefused"
    | "\<not> c_stopped c" "x = ReqSuperseded" | "\<not> c_stopped c" "x \<notin> {ReqStopped, ReqRefused, ReqSuperseded}"
    by blast
  then show ?thesis
  proof cases
    case 1 with Failed show ?thesis using that(1) [of None "Some RStopped"] by (auto simp: attempt_end_def)
  next
    case 2 with Failed show ?thesis using that(1) [of None "Some RRefused"] by (simp add: attempt_end_def)
  next
    case 3 with Failed show ?thesis using that(1) [of None "Some RSuperseded"] by (simp add: attempt_end_def)
  next
    case 4 with Failed show ?thesis using that(3) by (simp add: attempt_end_def)
  qed
qed

section \<open>Every step keeps the invariant\<close>

lemma rinv_finish:
  assumes "rinv Op w" and "c_flights (q_c w) i \<noteq> None" and "c_store (q_c w) i = Some e"
  shows "rinv Op (w\<lparr>q_c := finish Op (q_c w) i e now res err\<rparr>)"
proof -
  from assms(3) show ?thesis
  proof (cases rule: finish_simps [of "q_c w" i e Op e now res err])
    case (1 e')
    from assms have ok: "entry_ok w i e" by (simp add: rinv_def)
    with assms(2) have nd: "\<not> e_done e" by (auto simp: entry_ok_def)
    from assms(1) show ?thesis
      by (rule rinv_touch [OF _ assms(3)])
        (use 1 ok nd in \<open>auto simp: entry_ok_def split: if_splits\<close>)
  qed
qed

lemma rinv_next:
  assumes inv: "rinv Op w" and f: "c_flights (q_c w) i = Some f" "f_state f \<noteq> Ready"
    and e: "c_store (q_c w) i = Some e"
  shows "rinv Op (w\<lparr>q_c := next_attempt Op (q_c w) i e f now\<rparr>)"
proof (cases "f_n f + 1 \<le> Retransmissions")
  case True
  from inv f have "flight_ok w i f" by (simp add: rinv_def)
  moreover from inv e have ok: "entry_ok w i e" by (simp add: rinv_def)
  ultimately show ?thesis
    using f True e by (intro rinv_touch [OF inv e, of _ e])
      (auto simp: next_attempt_def entry_ok_def flight_ok_def copies_def)
next
  case False
  with inv f e show ?thesis by (simp add: next_attempt_def rinv_finish)
qed

lemma rinv_attempt:
  assumes inv: "rinv Op w" and f: "c_flights (q_c w) i = Some f" "f_state f \<noteq> Ready"
    and e: "c_store (q_c w) i = Some e"
  shows "rinv Op (w\<lparr>q_c := attempt_end ulid Op (q_c w) i e f now out susp\<rparr>)"
proof (cases rule: attempt_end_cases [of ulid Op "q_c w" i e f now out susp])
  case (1 res err)
  with assms show ?thesis by (simp add: rinv_finish)
next
  case 2
  with assms show ?thesis by (simp add: rinv_next)
next
  case (3 t)
  from inv f have "flight_ok w i f" by (simp add: rinv_def)
  moreover from inv e have "entry_ok w i e" by (simp add: rinv_def)
  ultimately show ?thesis
    unfolding 3 using f e by (intro rinv_touch [OF inv e, of _ e])
      (auto simp: entry_ok_def flight_ok_def copies_def)
qed

lemma rinv_drop:
  assumes inv: "rinv Op w" and e: "c_store (q_c w) i = Some e" "e_done e"
  shows "rinv Op (w\<lparr>q_c := drop_entry (q_c w) i\<rparr>)"
proof -
  from inv e have "entry_ok w i e" by (simp add: rinv_def)
  with e show ?thesis
    by (intro rinv_touch [OF inv e(1), of _ "emptied e"])
      (auto simp: drop_entry_simps entry_ok_def)
qed

lemma rinv_do_end:
  assumes inv: "rinv Op w" and i: "i \<in> q_calls w" and e: "c_store (q_c w) i = Some e"
    and d: "do_end (q_c w) i e now ctx = (c, out)"
  shows "rinv Op (w\<lparr>q_c := c, q_calls := q_calls w - {i}, q_given := q_given w @ do_given i out\<rparr>)"
proof -
  from inv e have ok: "entry_ok w i e" by (simp add: rinv_def)
  consider "e_done e" | "\<not> e_done e" "ctx" | "\<not> e_done e" "\<not> ctx" by blast
  then show ?thesis
  proof cases
    case 1
    have out: "c = fst (take_entry (q_c w) i e)" "out = Final (e_res e) (e_err e)"
      using 1 d by (auto simp: do_end_def take_entry_def Let_def)
    have "i \<in> fst ` set (q_given w) \<Longrightarrow> e_res e = None" using ok by (simp add: entry_ok_def)
    then have "q_given w @ do_given i out = q_given w
        \<or> i \<notin> fst ` set (q_given w) \<and> (\<exists>r. q_given w @ do_given i out = q_given w @ [(i, r)])"
      unfolding out do_given_def given_by_def by (force split: option.split)
    moreover have "do_given i out \<noteq> [] \<Longrightarrow> \<not> e_abandoned e"
      using ok unfolding out do_given_def given_by_def by (auto simp: entry_ok_def split: option.splits)
    ultimately show ?thesis
      using 1 ok by (intro rinv_touch [OF inv e, of _ "emptied e"])
        (auto simp: out take_entry_simps entry_ok_def)
  next
    case 2
    with d have out: "c = set_entry (q_c w) i (e\<lparr>e_abandoned := True\<rparr>)" "out = Cancelled"
      by (auto simp: do_end_def)
    show ?thesis using 2 ok inv e by (intro rinv_touch [OF inv e, of _ "e\<lparr>e_abandoned := True\<rparr>"])
        (auto simp: out do_given_def entry_ok_def rinv_def flight_ok_def)
  next
    case 3
    with d have out: "c = set_entry (q_c w) i (e\<lparr>e_handed := True\<rparr>)" "do_given i out = []"
      by (auto simp: do_end_def do_given_def)
    show ?thesis using 3 ok inv e by (intro rinv_touch [OF inv e, of _ "e\<lparr>e_handed := True\<rparr>"])
        (auto simp: out entry_ok_def rinv_def flight_ok_def)
  qed
qed

lemma status_cases:
  assumes "status Op c i now = (c', out)"
  obtains "c' = c" "status_given i out = []"
  | e r where "live c i = Some e" "e_handed e" "e_done e" "e_res e = Some r"
      "c' = fst (take_entry c i e)" "status_given i out = [(i, r)]"
proof (cases "live c i")
  case None
  with assms that(1) show ?thesis by (auto simp: status_def status_given_def)
next
  case (Some e)
  show ?thesis
  proof (cases "e_handed e \<and> e_done e \<and> e_res e \<noteq> None")
    case True
    then obtain r where "e_res e = Some r" by blast
    with True Some assms show ?thesis
      by (intro that(2) [of e r]) (auto simp: status_def take_entry_def status_given_def given_by_def Let_def)
  next
    case False
    with Some assms show ?thesis
      by (intro that(1)) (auto simp: status_def status_given_def given_by_def split: if_splits option.splits)
  qed
qed

lemma live_some: "live c i = Some e \<Longrightarrow> c_store c i = Some e \<and> i \<in> set (c_ids c)"
  by (simp add: live_def split: if_splits)

lemma rinv_status:
  assumes inv: "rinv Op w" and s: "status Op (q_c w) i now = (c, out)"
  shows "rinv Op (w\<lparr>q_c := c, q_given := q_given w @ status_given i out\<rparr>)"
  using s
proof (cases rule: status_cases)
  case 1
  with inv show ?thesis by simp
next
  case (2 e r)
  then have e: "c_store (q_c w) i = Some e" by (simp add: live_some)
  with inv have ok: "entry_ok w i e" by (simp add: rinv_def)
  with 2 have "i \<notin> fst ` set (q_given w)" by (auto simp: entry_ok_def)
  with 2 ok show ?thesis
    by (intro rinv_touch [OF inv e, of _ "emptied e"]) (auto simp: take_entry_simps entry_ok_def)
qed

lemma rinv_event:
  assumes inv: "rinv Op w"
  shows "rinv Op (w\<lparr>q_c := on_approval E (q_c w) now ev\<rparr>)"
proof -
  show ?thesis
  proof (cases "on_approval E (q_c w) now ev = q_c w")
    case True with inv show ?thesis by simp
  next
    case False
    then obtain a r y where b: "ev_type ev = ''approval.waiting''" "approval_body (ev_body ev) = Some (a, r, y)"
      by (auto simp: on_approval_def split: if_splits option.splits)
    with False obtain e where l: "live (q_c w) r = Some e"
      by (cases "live (q_c w) r") (simp_all add: on_approval_def)
    define x where "x = approval_exp E now y"
    from False b l have 2: "live (q_c w) r = Some e" "\<not> e_done e"
        "on_approval E (q_c w) now ev = set_entry (q_c w) r (e\<lparr>e_waiting := True, e_exp := x, e_approval := a\<rparr>)"
      by (auto simp: on_approval_def x_def split: if_splits)
    then have e: "c_store (q_c w) r = Some e" by (simp add: live_some)
    with inv have ok: "entry_ok w r e" by (simp add: rinv_def)
    show ?thesis unfolding 2(3)
      using ok inv e by (intro rinv_touch [OF inv e, of _ "e\<lparr>e_waiting := True, e_exp := x, e_approval := a\<rparr>"])
        (auto simp: entry_ok_def rinv_def flight_ok_def)
  qed
qed

lemma rinv_send:
  assumes inv: "rinv Op w" and f: "c_flights (q_c w) i = Some f" "f_state f = Ready"
  shows "rinv Op (w\<lparr>q_c := (q_c w)\<lparr>c_flights := (c_flights (q_c w))(i \<mapsto> f\<lparr>f_state := Sent now\<rparr>)\<rparr>,
    q_sends := (q_sends w)(i := q_sends w i + 1)\<rparr>)"
proof -
  from inv f have fo: "flight_ok w i f" by (simp add: rinv_def)
  then obtain e where e: "c_store (q_c w) i = Some e" by (auto simp: flight_ok_def)
  with inv have "entry_ok w i e" by (simp add: rinv_def)
  with fo f e show ?thesis
    by (intro rinv_touch [OF inv e, of _ e])
      (auto simp: entry_ok_def flight_ok_def copies_def Retransmissions_def)
qed

lemma held_count_new:
  assumes "i \<notin> set (c_ids c)"
  shows "held_count ((set_entry c i e)\<lparr>c_ids := c_ids c @ [i], c_flights := fl\<rparr>) \<le> held_count c + 1"
proof -
  let ?c = "(set_entry c i e)\<lparr>c_ids := c_ids c @ [i], c_flights := fl\<rparr>"
  have "length (filter (counts ?c) (c_ids c)) \<le> length (filter (counts c) (c_ids c))"
    using assms by (intro length_filter_sub) (auto simp: counts_def split: if_splits)
  then show ?thesis by (simp add: held_count_def)
qed

lemma rinv_register:
  assumes inv: "rinv Op w" and new: "c_store (q_c w) i = None"
    and d: "do_register Op (q_c w) i rq body sw now ctx = (c, err)"
  shows "rinv Op (w\<lparr>q_c := c, q_calls := (if err = None then insert i (q_calls w) else q_calls w)\<rparr>)"
proof (cases "err = None")
  case False
  with d have "c = q_c w" by (auto simp: do_register_def split: if_splits)
  moreover have "w\<lparr>q_c := q_c w, q_calls := q_calls w\<rparr> = w" by simp
  ultimately show ?thesis using False inv by (simp only: if_False)
next
  case True
  let ?fl = "(c_flights (q_c w))(i \<mapsto> \<lparr>f_n = 0, f_state = Ready\<rparr>)"
  from True d have
    c: "c = (set_entry (q_c w) i (new_entry i rq body sw now))\<lparr>c_ids := c_ids (q_c w) @ [i],
      c_flights := ?fl\<rparr>" and room: "int (held_count (q_c w)) < o_max_pending Op"
    by (auto simp: do_register_def split: if_splits)
  let ?w = "w\<lparr>q_c := c, q_calls := insert i (q_calls w)\<rparr>"
  from inv new have z: "q_sends w i = 0" "i \<notin> fst ` set (q_given w)" "i \<notin> set (c_ids (q_c w))"
    by (auto simp: rinv_def)
  have "entry_ok ?w k x" if "c_store c k = Some x" for k x
  proof (cases "k = i")
    case True with that z show ?thesis by (auto simp: c entry_ok_def new_entry_def)
  next
    case False
    with that inv have "entry_ok w k x" by (simp add: rinv_def c)
    with False show ?thesis by (simp add: entry_ok_def c)
  qed
  moreover have "flight_ok ?w k f" if "c_flights c k = Some f" for k f
  proof (cases "k = i")
    case True with that z show ?thesis by (auto simp: c flight_ok_def copies_def Retransmissions_def)
  next
    case False
    with that inv have "flight_ok w k f" by (simp add: rinv_def c)
    then show ?thesis by (auto simp: flight_ok_def c)
  qed
  moreover have "int (held_count c) \<le> max 0 (o_max_pending Op)"
    using held_count_new [OF z(3), where e = "new_entry i rq body sw now" and fl = ?fl] room
    unfolding c by simp
  moreover have "q_sends w k = 0 \<and> k \<notin> insert i (q_calls w) \<and> k \<notin> fst ` set (q_given w)"
    if "c_store c k = None" for k
    using that inv by (auto simp: rinv_def c split: if_splits)
  moreover have "\<forall>k\<in>set (c_ids c). c_store c k \<noteq> None" using inv by (auto simp: rinv_def c)
  ultimately show ?thesis using True inv by (simp add: rinv_def)
qed

lemma rinv_close_end:
  assumes "rinv Op w" and "c_flights (q_c w) = Map.empty"
  shows "rinv Op (w\<lparr>q_c := close_end (q_c w)\<rparr>)"
proof -
  have all: "rinv Op (w\<lparr>q_c := c\<rparr>) \<Longrightarrow> c_flights c = Map.empty \<Longrightarrow> \<forall>i\<in>set xs. c_store c i \<noteq> None
      \<Longrightarrow> rinv Op (w\<lparr>q_c := foldl drop_entry c xs\<rparr>)" for c xs
  proof (induction xs arbitrary: c)
    case (Cons i xs)
    then obtain e where e: "c_store c i = Some e" by auto
    from Cons.prems(1) e have "entry_ok (w\<lparr>q_c := c\<rparr>) i e" by (simp add: rinv_def)
    with Cons.prems(2) have "e_done e" by (auto simp: entry_ok_def)
    with Cons.prems(1) e have "rinv Op (w\<lparr>q_c := drop_entry c i\<rparr>)"
      using rinv_drop [of Op "w\<lparr>q_c := c\<rparr>" i e] by simp
    moreover have "\<forall>k\<in>set xs. c_store (drop_entry c i) k \<noteq> None"
      using Cons.prems(3) by (simp add: drop_entry_simps(1) [OF e])
    moreover have "c_flights (drop_entry c i) = Map.empty" using Cons.prems(2) by (simp add: drop_entry_simps)
    ultimately show ?case using Cons.IH [of "drop_entry c i"] by simp
  qed simp
  have "\<forall>i\<in>set (c_ids (q_c w)). c_store (q_c w) i \<noteq> None" using assms(1) by (simp add: rinv_def)
  moreover have "rinv Op (w\<lparr>q_c := q_c w\<rparr>)" using assms(1) by simp
  ultimately show ?thesis unfolding close_end_def using all assms(2) by blast
qed

lemma rinv_step: "rstep ulid E Op w l w' \<Longrightarrow> rinv Op w \<Longrightarrow> rinv Op w'"
proof (induction rule: rstep.cases)
  case (r_attempt w i f start e out susp)
  then show ?case by (simp add: rinv_attempt)
next
  case (r_pause w i f t e fired)
  then show ?case by (cases fired) (simp_all add: pause_end_def rinv_next rinv_finish)
next
  case (r_evict w i e t)
  then have e: "c_store (q_c w) i = Some e" "entry_ok w i e" by (auto simp: rinv_def dest: live_some)
  with r_evict have "e_done e" by (simp add: entry_ok_def)
  with r_evict e show ?case by (simp add: rinv_drop)
next
  case (r_send w i f)
  then show ?case using rinv_send [of Op w i f "q_clock w"] by simp
next
  case (r_close w)
  then show ?case
    by (simp add: rinv_def close_begin_def entry_ok_def flight_ok_def held_count_def counts_def [abs_def])
next
  case (r_tick w t)
  then show ?case by (simp add: rinv_def entry_ok_def flight_ok_def)
qed (auto simp: rinv_register rinv_do_end rinv_status rinv_event rinv_send rinv_close_end)

interpretation rq: invariant_system "rstep ulid E Op" "rinv Op" for ulid E Op
  by unfold_locales (rule rinv_step)

lemma rworld0_rinv: "rinv Op (rworld0 now)"
  by (simp add: rinv_def rworld0_def new_client_def held_count_def)

text \<open>What is kept and returned for a request was parsed from an answer to that request.\<close>

definition parsed :: "(string \<Rightarrow> bool) \<Rightarrow> entry \<Rightarrow> result \<Rightarrow> bool" where
  "parsed ulid e r = (\<exists>b. parse ulid (e_rq e) b = Some r)"

definition pinv :: "(string \<Rightarrow> bool) \<Rightarrow> rworld \<Rightarrow> bool" where
  "pinv ulid w =
     ((\<forall>i e r. c_store (q_c w) i = Some e \<longrightarrow> e_res e = Some r \<longrightarrow> parsed ulid e r)
      \<and> (\<forall>(i, r) \<in> set (q_given w). \<exists>e. c_store (q_c w) i = Some e \<and> parsed ulid e r))"

lemma pinv_touch:
  assumes inv: "pinv ulid w" and e: "c_store (q_c w) i = Some e"
    and store: "c_store (q_c w') = (c_store (q_c w))(i \<mapsto> e')" and rq: "e_rq e' = e_rq e"
    and res: "\<And>r. e_res e' = Some r \<Longrightarrow> parsed ulid e r"
    and given: "\<And>j r. (j, r) \<in> set (q_given w') \<Longrightarrow> (j, r) \<in> set (q_given w) \<or> j = i \<and> parsed ulid e r"
  shows "pinv ulid w'"
proof -
  have p: "parsed ulid e' r = parsed ulid e r" for r by (simp add: parsed_def rq)
  have "parsed ulid x r" if "c_store (q_c w') j = Some x" "e_res x = Some r" for j x r
    using that inv res p by (cases "j = i") (auto simp: store pinv_def)
  moreover have "\<exists>x. c_store (q_c w') j = Some x \<and> parsed ulid x r" if "(j, r) \<in> set (q_given w')" for j r
  proof (cases "j = i")
    case True
    from given [OF that] have "parsed ulid e r" using True e inv by (fastforce simp: pinv_def)
    with True p store show ?thesis by simp
  next
    case False
    with given [OF that] have "(j, r) \<in> set (q_given w)" by blast
    with False inv store show ?thesis by (fastforce simp: pinv_def)
  qed
  ultimately show ?thesis by (auto simp: pinv_def)
qed

lemma pinv_same:
  "pinv ulid w \<Longrightarrow> c_store (q_c w') = c_store (q_c w) \<Longrightarrow> q_given w' = q_given w \<Longrightarrow> pinv ulid w'"
  by (simp add: pinv_def)

lemma pinv_finish:
  assumes inv: "pinv ulid w" and e: "c_store (q_c w) i = Some e"
    and r: "\<forall>r. res = Some r \<longrightarrow> parsed ulid e r"
  shows "pinv ulid (w\<lparr>q_c := finish Op (q_c w) i e now res err\<rparr>)"
proof -
  from e show ?thesis
  proof (cases rule: finish_simps [of "q_c w" i e Op e now res err])
    case (1 e')
    have "parsed ulid e x" if "e_res e' = Some x" for x using that 1(9) r by auto
    then show ?thesis by (intro pinv_touch [OF inv e, of _ e']) (auto simp: 1)
  qed
qed

lemma pinv_next:
  assumes "pinv ulid w" and "c_store (q_c w) i = Some e"
  shows "pinv ulid (w\<lparr>q_c := next_attempt Op (q_c w) i e f now\<rparr>)"
  using assms by (auto simp: next_attempt_def pinv_finish intro: pinv_same)

lemma pinv_drop:
  assumes "pinv ulid w" and "c_store (q_c w) i = Some e"
  shows "pinv ulid (w\<lparr>q_c := drop_entry (q_c w) i\<rparr>)"
  by (rule pinv_touch [OF assms, of _ "emptied e"]) (auto simp: drop_entry_simps assms(2))

lemma pinv_step: "rstep ulid E Op w l w' \<Longrightarrow> rinv Op w \<and> pinv ulid w \<Longrightarrow> rinv Op w' \<and> pinv ulid w'"
proof (rule conjI)
  assume s: "rstep ulid E Op w l w'" and "rinv Op w \<and> pinv ulid w"
  then have rinv: "rinv Op w" and inv: "pinv ulid w" by blast+
  from s rinv show "rinv Op w'" by (rule rinv_step)
  from s show "pinv ulid w'"
  proof cases
    case (r_register i rq body sw ctx c err)
    then have "c_store c = c_store (q_c w) \<or> c_store c = (c_store (q_c w))(i \<mapsto> new_entry i rq body sw (q_clock w))"
      by (auto simp: do_register_def split: if_splits)
    moreover have "e_res (new_entry i rq body sw (q_clock w)) = None" by (simp add: new_entry_def)
    ultimately show ?thesis using inv r_register by (fastforce simp: pinv_def)
  next
    case (r_do_end i e ctx c out)
    have "(out = Final (e_res e) (e_err e) \<and> c_store c = (c_store (q_c w))(i \<mapsto> emptied e)
        \<or> do_given i out = [] \<and> (\<exists>e'. c_store c = (c_store (q_c w))(i \<mapsto> e') \<and> e_rq e' = e_rq e \<and> e_res e' = e_res e))"
      using r_do_end(5) take_entry_simps(1,4) [of "q_c w" i e]
      by (auto simp: do_end_def do_given_def Let_def case_prod_unfold split: if_splits)
    then show ?thesis
    proof (elim disjE conjE exE)
      assume a: "out = Final (e_res e) (e_err e)" "c_store c = (c_store (q_c w))(i \<mapsto> emptied e)"
      then show ?thesis using r_do_end inv
        by (intro pinv_touch [OF inv r_do_end(4), of _ "emptied e"])
          (auto simp: do_given_def given_by_def pinv_def split: option.splits)
    next
      fix e' assume "do_given i out = []" "c_store c = (c_store (q_c w))(i \<mapsto> e')" "e_rq e' = e_rq e" "e_res e' = e_res e"
      then show ?thesis using r_do_end inv
        by (intro pinv_touch [OF inv r_do_end(4), of _ e']) (auto simp: pinv_def)
    qed
  next
    case (r_status i c out)
    from r_status(3) show ?thesis
    proof (cases rule: status_cases)
      case 1 with r_status inv show ?thesis by (auto intro: pinv_same)
    next
      case (2 e r)
      then have e: "c_store (q_c w) i = Some e" by (simp add: live_some)
      with 2 r_status inv show ?thesis
        by (intro pinv_touch [OF inv e, of _ "emptied e"]) (auto simp: take_entry_simps pinv_def)
    qed
  next
    case (r_event ev)
    show ?thesis
    proof (cases "on_approval E (q_c w) (q_clock w) ev = q_c w")
      case True with r_event inv show ?thesis by (auto intro: pinv_same)
    next
      case False
      then obtain r e x a where e: "c_store (q_c w) r = Some e"
        and c: "on_approval E (q_c w) (q_clock w) ev = set_entry (q_c w) r (e\<lparr>e_waiting := True, e_exp := x, e_approval := a\<rparr>)"
        by (auto simp: on_approval_def dest!: live_some split: if_splits option.splits)
      with r_event inv show ?thesis
        by (intro pinv_touch [OF inv e, of _ "e\<lparr>e_waiting := True, e_exp := x, e_approval := a\<rparr>"])
          (auto simp: c pinv_def)
    qed
  next
    case (r_attempt i f start e out susp)
    show ?thesis
    proof (cases rule: attempt_end_cases [of ulid Op "q_c w" i e f "q_clock w" out susp])
      case (1 res err)
      then have "parsed ulid e r" if "res = Some r" for r using that by (auto simp: parsed_def)
      with 1 r_attempt inv show ?thesis by (simp add: pinv_finish)
    next
      case 2 with r_attempt inv show ?thesis by (simp add: pinv_next)
    next
      case (3 t) with r_attempt inv show ?thesis by (auto intro: pinv_same)
    qed
  next
    case (r_pause i f t e fired)
    with inv show ?thesis by (cases fired) (simp_all add: pause_end_def pinv_next pinv_finish)
  next
    case (r_evict i e t)
    with inv show ?thesis by (auto simp: pinv_drop dest!: live_some)
  next
    case r_closed
    have "pinv ulid (w\<lparr>q_c := c\<rparr>) \<Longrightarrow> \<forall>i\<in>set xs. c_store c i \<noteq> None
        \<Longrightarrow> pinv ulid (w\<lparr>q_c := foldl drop_entry c xs\<rparr>)" for c xs
    proof (induction xs arbitrary: c)
      case (Cons i xs)
      then obtain e where e: "c_store c i = Some e" by auto
      have "pinv ulid (w\<lparr>q_c := drop_entry c i\<rparr>)"
        using pinv_drop [of ulid "w\<lparr>q_c := c\<rparr>" i e] Cons.prems e by simp
      moreover have "\<forall>k\<in>set xs. c_store (drop_entry c i) k \<noteq> None"
        using Cons.prems(2) by (simp add: drop_entry_simps(1) [OF e])
      ultimately show ?case using Cons.IH [of "drop_entry c i"] by simp
    qed simp
    moreover have "\<forall>i\<in>set (c_ids (q_c w)). c_store (q_c w) i \<noteq> None" using rinv by (simp add: rinv_def)
    moreover have "pinv ulid (w\<lparr>q_c := q_c w\<rparr>)" using inv by simp
    ultimately show ?thesis using r_closed unfolding close_end_def by blast
  qed (use inv in \<open>auto simp: close_begin_def intro: pinv_same\<close>)
qed

interpretation rp: invariant_system "rstep ulid E Op" "\<lambda>w. rinv Op w \<and> pinv ulid w" for ulid E Op
  by unfold_locales (rule pinv_step)

section \<open>Facts for the properties\<close>

lemma valid_fields_some:
  assumes "valid_fields asked seen fs = Some gs"
  shows "map fd_id gs = map fd_id fs \<and> distinct (map fd_id fs) \<and> set (map fd_id fs) \<inter> set seen = {}
    \<and> (\<forall>f\<in>set gs. field_id (fd_id f) \<and> (asked \<noteq> [] \<longrightarrow> fd_id f \<in> set asked)
         \<and> (\<forall>v. fd_value f = Some v \<longrightarrow> is_text v \<or> is_object v))"
  using assms
proof (induction fs arbitrary: seen gs)
  case (Cons f fs)
  from Cons.prems obtain g where g: "valid_field asked seen f = Some g"
    by (cases "valid_field asked seen f") simp_all
  with Cons.prems obtain gs' where gs': "valid_fields asked (fd_id f # seen) fs = Some gs'" "gs = g # gs'"
    by (cases "valid_fields asked (fd_id f # seen) fs") simp_all
  have "fd_id g = fd_id f" "field_id (fd_id f)" "fd_id f \<notin> set seen" "asked \<noteq> [] \<longrightarrow> fd_id f \<in> set asked"
      "\<forall>v. fd_value g = Some v \<longrightarrow> is_text v \<or> is_object v"
    using g by (auto simp: valid_field_def split: if_splits option.splits)
  with Cons.IH [OF gs'(1)] gs'(2) show ?case by auto
qed simp

lemma valid_item_some:
  assumes "valid_item wanted asked it = Some im"
  shows "im_id im = wanted \<and> (\<exists>fs. im_fields im = Some fs \<and> distinct (map fd_id fs)
     \<and> (\<forall>f\<in>set fs. field_id (fd_id f) \<and> (asked \<noteq> [] \<longrightarrow> fd_id f \<in> set asked)
          \<and> (\<forall>v. fd_value f = Some v \<longrightarrow> is_text v \<or> is_object v)))
     \<and> (asked \<noteq> [] \<longrightarrow> im_notes im = None) \<and> (\<forall>n. im_notes im = Some n \<longrightarrow> is_text n)"
proof -
  from assms have w: "im_id it = wanted" by (auto simp: valid_item_def split: if_splits)
  with assms obtain fs where fs: "im_fields it = Some fs"
    by (cases "im_fields it") (simp_all add: valid_item_def)
  with assms w obtain gs where gs: "valid_fields asked [] fs = Some gs"
    by (cases "valid_fields asked [] fs") (simp_all add: valid_item_def)
  from assms w fs gs have "im_id im = wanted" "im_fields im = Some gs"
      "asked \<noteq> [] \<longrightarrow> im_notes im = None" "\<forall>n. im_notes im = Some n \<longrightarrow> is_text n"
    by (auto simp: valid_item_def split: if_splits option.splits)
  with valid_fields_some [OF gs] show ?thesis by auto
qed

text \<open>What a result must be about to answer a request.\<close>

definition answers :: "request \<Rightarrow> result \<Rightarrow> bool" where
  "answers rq r = (case r of
     RCatalog _ \<Rightarrow> rq_op rq = OpCatalog
   | RItem im \<Rightarrow> rq_op rq = OpGet \<and> im_id im = rq_item rq
       \<and> (\<exists>fs. im_fields im = Some fs \<and> distinct (map fd_id fs)
            \<and> list_all (\<lambda>f. rq_fields rq \<noteq> [] \<longrightarrow> fd_id f \<in> set (rq_fields rq)) fs)
       \<and> (rq_fields rq \<noteq> [] \<longrightarrow> im_notes im = None)
   | RUse us \<Rightarrow> rq_op rq = OpUse \<and> us_item us = rq_item rq \<and> us_field us = rq_field rq
       \<and> us_action us = ''hmac-sha256'' \<and> length (us_result us) = 32)"

lemma parse_answers: "parse ulid rq body = Some r \<Longrightarrow> answers rq r"
proof (cases "rq_op rq")
  case OpCatalog
  then show "parse ulid rq body = Some r \<Longrightarrow> ?thesis"
    by (auto simp: parse_def parse_catalog_def answers_def split: option.splits prod.splits bool.splits if_splits)
next
  case OpGet
  assume "parse ulid rq body = Some r"
  with OpGet obtain it im where "valid_item (rq_item rq) (rq_fields rq) it = Some im" "r = RItem im"
    by (auto simp: parse_def parse_get_def Let_def split: option.splits prod.splits if_splits)
  with valid_item_some [OF this(1)] OpGet show ?thesis by (auto simp: answers_def list_all_iff)
next
  case OpUse
  assume "parse ulid rq body = Some r"
  with OpUse show ?thesis
    by (auto simp: parse_def parse_use_def answers_def Let_def split: option.splits prod.splits if_splits)
qed

text \<open>Once a request is done its outcome stays, and no copy of it is sent.\<close>

definition settled :: "rworld \<Rightarrow> rworld \<Rightarrow> string \<Rightarrow> bool" where
  "settled w w' i = (\<forall>e. c_store (q_c w) i = Some e \<longrightarrow> e_done e \<longrightarrow>
     q_sends w' i = q_sends w i \<and> (\<exists>e'. c_store (q_c w') i = Some e' \<and> e_done e' \<and> e_err e' = e_err e
       \<and> e_res e' \<in> {None, e_res e}))"

lemma settled_refl: "settled w w i"
  by (simp add: settled_def)

lemma settled_trans: "settled a b i \<Longrightarrow> settled b c i \<Longrightarrow> settled a c i"
  unfolding settled_def by fastforce

lemma drop_settled:
  "c_store (drop_entry c k) i = (if k = i then map_option emptied (c_store c i) else c_store c i)"
  by (auto simp: drop_entry_def emptied_def split: option.split)

lemma close_settled: "c_store (foldl drop_entry c xs) i \<in> {c_store c i, map_option emptied (c_store c i)}"
proof (induction xs arbitrary: c)
  case (Cons x xs)
  have "emptied (emptied e) = emptied e" for e by (simp add: emptied_def)
  with Cons [of "drop_entry c x"] show ?case
    by (cases "c_store c i"; cases "x = i") (auto simp: drop_settled)
qed simp

lemma finish_other: "k \<noteq> i \<Longrightarrow> c_store (finish Op c k e now res err) i = c_store c i"
  by (simp add: finish_def Let_def drop_settled)

lemma attempt_other: "k \<noteq> i \<Longrightarrow> c_store (attempt_end ulid Op c k e f now out susp) i = c_store c i"
  by (cases rule: attempt_end_cases [of ulid Op c k e f now out susp]) (simp_all add: finish_other next_attempt_def)

lemma settled_step:
  assumes "rstep ulid E Op w l w'" and inv: "rinv Op w"
  shows "settled w w' i"
  using assms(1)
proof cases
  case (r_register k rq body sw ctx c err)
  then show ?thesis by (auto simp: settled_def do_register_def split: if_splits)
next
  case (r_do_end k e ctx c out)
  then show ?thesis
    by (auto simp: settled_def do_end_def take_entry_def Let_def split: if_splits)
next
  case (r_status k c out)
  from r_status(3) show ?thesis
    by (cases rule: status_cases)
      (use r_status in \<open>auto simp: settled_def take_entry_simps dest!: live_some\<close>)
next
  case (r_event ev)
  then show ?thesis
    by (auto simp: settled_def on_approval_def dest!: live_some split: option.split)
next
  case (r_send k f)
  with inv have "flight_ok w k f" "\<And>e. c_store (q_c w) k = Some e \<Longrightarrow> entry_ok w k e"
    by (auto simp: rinv_def)
  with r_send show ?thesis by (auto simp: settled_def entry_ok_def)
next
  case (r_attempt k f start e out susp)
  with inv have "entry_ok w k e" by (simp add: rinv_def)
  with r_attempt have "\<not> e_done e" by (auto simp: entry_ok_def)
  with r_attempt show ?thesis by (cases "k = i") (auto simp: settled_def attempt_other)
next
  case (r_pause k f t e fired)
  with inv have "entry_ok w k e" by (simp add: rinv_def)
  with r_pause have "\<not> e_done e" by (auto simp: entry_ok_def)
  with r_pause show ?thesis
    by (cases "k = i") (auto simp: settled_def pause_end_def next_attempt_def finish_other)
next
  case (r_evict k e t)
  then show ?thesis by (auto simp: settled_def drop_settled)
next
  case r_closed
  then show ?thesis using close_settled [of "q_c w" "c_ids (q_c w)" i]
    by (auto simp: settled_def close_end_def)
qed (simp_all add: settled_def close_begin_def)

lemma settled_run: "run (rstep ulid E Op) w ls w' \<Longrightarrow> rinv Op w \<Longrightarrow> settled w w' i"
proof (induction rule: run.induct)
  case (run_Cons s l t ls u)
  then show ?case using settled_step rinv_step settled_trans by metis
qed (simp add: settled_refl)

section \<open>A concrete run\<close>

text \<open>The steps as a function, to run the relation on concrete labels.\<close>

definition rperform :: "(string \<Rightarrow> bool) \<Rightarrow> env \<Rightarrow> ropts \<Rightarrow> rworld \<Rightarrow> rlabel \<Rightarrow> rworld option" where
  "rperform ulid E Op w l = (case l of
     RRegister i rq body sw ctx \<Rightarrow> if c_store (q_c w) i \<noteq> None then None else
       (case do_register Op (q_c w) i rq body sw (q_clock w) ctx of (c, err) \<Rightarrow>
          Some (w\<lparr>q_c := c, q_calls := (if err = None then insert i (q_calls w) else q_calls w)\<rparr>))
   | RDoEnd i ctx \<Rightarrow> (case c_store (q_c w) i of None \<Rightarrow> None | Some e \<Rightarrow>
       if i \<notin> q_calls w then None else
       (case do_end (q_c w) i e (q_clock w) ctx of (c, out) \<Rightarrow>
          Some (w\<lparr>q_c := c, q_calls := q_calls w - {i}, q_given := q_given w @ do_given i out\<rparr>)))
   | RSend i \<Rightarrow> (case c_flights (q_c w) i of None \<Rightarrow> None | Some f \<Rightarrow>
       if f_state f \<noteq> Ready then None else
       Some (w\<lparr>q_c := (q_c w)\<lparr>c_flights := (c_flights (q_c w))(i \<mapsto> f\<lparr>f_state := Sent (q_clock w)\<rparr>)\<rparr>,
               q_sends := (q_sends w)(i := q_sends w i + 1)\<rparr>))
   | RAttempt i out susp \<Rightarrow> (case (c_flights (q_c w) i, c_store (q_c w) i) of
       (Some f, Some e) \<Rightarrow> (case f_state f of
          Sent start \<Rightarrow> if out = TimedOut \<and> \<not> deadline Op e start \<le> q_clock w then None
            else Some (w\<lparr>q_c := attempt_end ulid Op (q_c w) i e f (q_clock w) out susp\<rparr>)
        | _ \<Rightarrow> None)
     | _ \<Rightarrow> None)
   | RTick t \<Rightarrow> if q_clock w \<le> t then Some (w\<lparr>q_clock := t\<rparr>) else None
   | _ \<Rightarrow> None)"

interpretation rx: executable_system "rstep ulid E Op" "rperform ulid E Op" for ulid E Op
proof
  fix w l w' assume "rperform ulid E Op w l = Some w'"
  then show "rstep ulid E Op w l w'"
    unfolding rperform_def
    by (cases l) (auto split: if_splits option.splits prod.splits fstate.splits
        intro: rstep.intros r_register [where err = None, simplified]
          r_register [where err = "Some y" for y, simplified] r_send [simplified])
qed

definition toy_opts :: ropts where
  "toy_opts = with_defaults \<lparr>o_wait = 0, o_attempt = 0, o_grace = 0, o_unanswered = 0, o_keep = 0,
     o_retry_pause = 0, o_max_pending = 0\<rparr>"

definition toy_ulid :: "string \<Rightarrow> bool" where "toy_ulid s = (s \<noteq> [])"

text \<open>A catalog request, sent; its empty answer; and the call that takes it.\<close>

definition toy_begin :: "rlabel list" where
  "toy_begin = [RRegister ''R'' (fst catalog_request) (snd catalog_request) active_open False, RSend ''R'']"

definition toy_reply :: attempt_out where
  "toy_reply = Answered \<lparr>rs_type = [], rs_ok = True, rs_code = [],
     rs_body = Some (JObj [(''items'', JArr [])])\<rparr>"

definition toy_ran :: "rlabel list \<Rightarrow> rworld" where
  "toy_ran ls = the (exec (rperform toy_ulid toy_env toy_opts) (rworld0 0) ls)"

definition toy_sent :: rworld where "toy_sent = toy_ran toy_begin"

definition toy_entry :: entry where
  "toy_entry = new_entry ''R'' (fst catalog_request) (snd catalog_request) active_open 0"

definition toy_approval :: event where
  "toy_approval = \<lparr>ev_id = [], ev_type = ''approval.waiting'',
     ev_body = Some (JObj [(''request_id'', JStr ''R'')])\<rparr>"

lemma toy_ran_run: "exec (rperform toy_ulid toy_env toy_opts) (rworld0 0) ls \<noteq> None
    \<Longrightarrow> run (rstep toy_ulid toy_env toy_opts) (rworld0 0) ls (toy_ran ls)"
  unfolding toy_ran_def by (rule rx.exec_the)

lemma toy_names: "\<not> same_name ''request_id'' ''approval_id''" "\<not> same_name ''request_id'' ''exp''"
  by (simp_all add: same_name_plain plain_name_def byte_def)

lemmas request_eval = toy_ran_def toy_sent_def toy_begin_def toy_reply_def toy_entry_def toy_approval_def
  toy_opts_def toy_ulid_def toy_env_def toy_names rperform_def rworld0_def new_client_def new_entry_def
  catalog_request_def do_register_def do_end_def take_entry_def set_entry_def held_count_def
  with_defaults_def or_default_def DefaultAttempt_def DefaultGrace_def DefaultMaxPending_def
  attempt_end_def answer_def finish_def parse_def parse_catalog_def on_approval_def approval_body_def
  approval_exp_def ApprovalTTL_def live_def Let_def durations do_given_def given_by_def

section \<open>Properties\<close>

text \<open>
  C13. At most once, as far as the connector can make it so: a request is handed to the connection
  under its one id at most three times, however its copies end and whatever events arrive.
\<close>

theorem at_most_three_copies:
  assumes "run (rstep ulid E Op) (rworld0 start) ls w"
  shows "q_sends w i \<le> 3"
proof -
  have inv: "rinv Op w" using rq.inv_run [OF assms rworld0_rinv] .
  show ?thesis
  proof (cases "c_store (q_c w) i")
    case None with inv show ?thesis by (auto simp: rinv_def)
  next
    case (Some e) with inv have "entry_ok w i e" by (simp add: rinv_def)
    then show ?thesis by (simp add: entry_ok_def)
  qed
qed

theorem at_most_three_copies_witness: "q_sends toy_sent ''R'' \<le> 3"
proof -
  have "run (rstep toy_ulid toy_env toy_opts) (rworld0 0) toy_begin (toy_ran toy_begin)"
    by (rule toy_ran_run) (simp add: request_eval)
  from at_most_three_copies [OF this] show ?thesis by (simp add: toy_sent_def)
qed

text \<open>
  Any outcome is final: once a request is done, no copy of it is sent again, its error does not
  change, and its result is the same or has been given away.
\<close>

lemma outcome_is_final:
  assumes "run (rstep ulid E Op) (rworld0 start) ls w" and "run (rstep ulid E Op) w ls' w'"
    and "c_store (q_c w) i = Some e" and "e_done e"
  shows "q_sends w' i = q_sends w i \<and> (\<exists>e'. c_store (q_c w') i = Some e' \<and> e_done e' \<and> e_err e' = e_err e
    \<and> e_res e' \<in> {None, e_res e})"
  using settled_run [OF assms(2) rq.inv_run [OF assms(1) rworld0_rinv], of i] assms(3,4)
  by (simp add: settled_def)

lemma outcome_is_final_witness:
  "q_sends (toy_ran (toy_begin @ [RAttempt ''R'' toy_reply False])) ''R'' = 1"
proof -
  let ?w = "toy_ran (toy_begin @ [RAttempt ''R'' toy_reply False])"
  have r: "run (rstep toy_ulid toy_env toy_opts) (rworld0 0) (toy_begin @ [RAttempt ''R'' toy_reply False]) ?w"
    by (rule toy_ran_run) (simp add: request_eval)
  have s: "run (rstep toy_ulid toy_env toy_opts) ?w [] ?w" by (rule run_Nil)
  have e: "c_store (q_c ?w) ''R'' = Some (toy_entry\<lparr>e_body := None, e_done := True, e_res := Some (RCatalog [])\<rparr>)"
    by (simp add: request_eval)
  from outcome_is_final [OF r s e] show ?thesis by (simp add: request_eval)
qed

text \<open>
  C17. A result is returned at most once, to a call that was not cancelled, and it answers what was
  asked: the same item, only the fields asked for, the same field and action.
\<close>

theorem results_are_returned_once:
  assumes "run (rstep ulid E Op) (rworld0 start) ls w"
  shows "distinct (map fst (q_given w)) \<and> (\<forall>(i, r) \<in> set (q_given w). \<exists>e. c_store (q_c w) i = Some e
    \<and> e_done e \<and> e_res e = None \<and> \<not> e_abandoned e \<and> answers (e_rq e) r)"
proof -
  have "pinv ulid (rworld0 start)" by (simp add: pinv_def rworld0_def new_client_def)
  with rp.inv_run [OF assms] have inv: "rinv Op w" "pinv ulid w" using rworld0_rinv by blast+
  have "\<exists>e. c_store (q_c w) i = Some e \<and> e_done e \<and> e_res e = None \<and> \<not> e_abandoned e \<and> answers (e_rq e) r"
    if "(i, r) \<in> set (q_given w)" for i r
  proof -
    from inv(2) that obtain e where e: "c_store (q_c w) i = Some e" "parsed ulid e r"
      by (fastforce simp: pinv_def)
    moreover from inv(1) e(1) have "entry_ok w i e" by (simp add: rinv_def)
    moreover have "i \<in> fst ` set (q_given w)" using that by force
    ultimately show ?thesis by (auto simp: entry_ok_def parsed_def dest: parse_answers)
  qed
  with inv(1) show ?thesis by (auto simp: rinv_def)
qed

theorem results_are_returned_once_witness:
  "q_given (toy_ran (toy_begin @ [RAttempt ''R'' toy_reply False, RDoEnd ''R'' False])) = [(''R'', RCatalog [])]
   \<and> distinct (map fst (q_given (toy_ran (toy_begin @ [RAttempt ''R'' toy_reply False, RDoEnd ''R'' False]))))"
proof -
  let ?ls = "toy_begin @ [RAttempt ''R'' toy_reply False, RDoEnd ''R'' False]"
  have "run (rstep toy_ulid toy_env toy_opts) (rworld0 0) ?ls (toy_ran ?ls)"
    by (rule toy_ran_run) (simp add: request_eval)
  from results_are_returned_once [OF this] show ?thesis by (simp add: request_eval)
qed

text \<open>
  The requests in flight and the results kept never exceed the bound of the options.
\<close>

lemma held_requests_are_bounded:
  assumes "run (rstep ulid E (with_defaults o')) (rworld0 start) ls w"
  shows "int (held_count (q_c w)) \<le> o_max_pending (with_defaults o')"
proof -
  have "0 < o_max_pending (with_defaults o')"
    by (simp add: with_defaults_def or_default_def DefaultMaxPending_def)
  with rq.inv_run [OF assms rworld0_rinv] show ?thesis by (auto simp: rinv_def)
qed

lemma held_requests_are_bounded_witness: "int (held_count (q_c toy_sent)) \<le> 32"
proof -
  have "run (rstep toy_ulid toy_env toy_opts) (rworld0 0) toy_begin toy_sent"
    unfolding toy_sent_def by (rule toy_ran_run) (simp add: request_eval)
  from held_requests_are_bounded [OF this [unfolded toy_opts_def]] show ?thesis
    by (simp add: with_defaults_def or_default_def DefaultMaxPending_def)
qed

text \<open>
  An \<open>approval.waiting\<close> event never shortens the wait for an answer, whatever time it names, and
  never lengthens it past six minutes from now plus the grace period.
\<close>

lemma approval_moves_the_deadline_within_bounds:
  assumes "c_store c i = Some e" and "c_store (on_approval E c now ev) i = Some e'"
  shows "deadline Op e start \<le> deadline Op e' start
    \<and> deadline Op e' start \<le> max (deadline Op e start) (now + 6 * minute + o_grace Op)"
proof -
  have x: "approval_exp E now x \<le> now + 6 * minute" for x
    by (auto simp: approval_exp_def ApprovalTTL_def durations split: option.split)
  consider "e' = e" | t a where "e' = e\<lparr>e_waiting := True, e_exp := approval_exp E now t, e_approval := a\<rparr>"
      "\<not> e_waiting e \<or> e_exp e < approval_exp E now t"
    using assms by (fastforce simp: on_approval_def dest: live_some split: option.splits if_splits)
  then show ?thesis
  proof cases
    case 1 then show ?thesis by simp
  next
    case (2 t a)
    with x [of t] show ?thesis by (auto simp: deadline_def Let_def)
  qed
qed

lemma approval_moves_the_deadline_within_bounds_witness:
  "deadline toy_opts toy_entry 0 \<le> deadline toy_opts (toy_entry\<lparr>e_waiting := True, e_exp := 5 * minute\<rparr>) 0"
proof -
  have "on_approval toy_env (q_c toy_sent) 0 toy_approval
      = set_entry (q_c toy_sent) ''R'' (toy_entry\<lparr>e_waiting := True, e_exp := 5 * minute\<rparr>)"
    by (simp add: request_eval)
  then have "c_store (on_approval toy_env (q_c toy_sent) 0 toy_approval) ''R''
      = Some (toy_entry\<lparr>e_waiting := True, e_exp := 5 * minute\<rparr>)" by simp
  moreover have "c_store (q_c toy_sent) ''R'' = Some toy_entry" by (simp add: request_eval)
  ultimately show ?thesis using approval_moves_the_deadline_within_bounds by blast
qed

end
