(* ===== verification/PairRecord.thy ===== *)
theory PairRecord
  imports Session
begin

text \<open>
  \<open>internal/pairing/record.go\<close>: the plaintext kept in the state file. A \<open>json.RawMessage\<close> is the
  value its text holds (\<open>None\<close>: text that is not one JSON value); the text itself matters only for
  the bound on its length. \<open>record_text\<close> is what a decoder sees of a record's bytes: their number,
  the first value, and whether anything follows it.
\<close>

section \<open>Records\<close>

datatype phase = PhaseStarted | PhaseWaiting | PhasePaired | PhaseOther string

definition phase_of :: "string \<Rightarrow> phase" where
  "phase_of s = (if s = ''started'' then PhaseStarted else if s = ''waiting'' then PhaseWaiting
     else if s = ''paired'' then PhasePaired else PhaseOther s)"

fun phase_string :: "phase \<Rightarrow> string" where
  "phase_string PhaseStarted = ''started''"
| "phase_string PhaseWaiting = ''waiting''"
| "phase_string PhasePaired = ''paired''"
| "phase_string (PhaseOther s) = s"

text \<open>\<open>pr_leash = None\<close> is a nil \<open>json.RawMessage\<close>; \<open>Some j\<close> is text with the value \<open>j\<close>.\<close>

record prec =
  pr_phase :: phase
  pr_deadline :: time
  pr_device :: "json option"
  pr_access :: access
  pr_leash :: "json option option"

definition recordVersion :: int where "recordVersion = 1"
definition maxRecord :: nat where "maxRecord = 4 * 2 ^ 20"

datatype record_err =
    TooLarge | NotJson | DataAfter | UnknownVersion | AccessUnfinished | InvalidAccess
  | DeadlinePaired | NoDeadline | UnknownPhase | NoDevice | InvalidLeash

fun is_obj :: "json option \<Rightarrow> bool" where
  "is_obj (Some (JObj _)) = True"
| "is_obj _ = False"

definition check_phase :: "prec \<Rightarrow> record_err option" where
  "check_phase r = (case pr_phase r of
       PhasePaired \<Rightarrow> if access_valid (pr_access r) then None else Some InvalidAccess
     | PhaseOther _ \<Rightarrow> Some UnknownPhase
     | _ \<Rightarrow> if pr_deadline r = 0 then Some NoDeadline
            else if acc_state (pr_access r) \<noteq> AccessUnknown then Some AccessUnfinished else None)"

definition check_record :: "prec \<Rightarrow> record_err option" where
  "check_record r = (case check_phase r of
       Some e \<Rightarrow> Some e
     | None \<Rightarrow>
        if \<not> is_obj (pr_device r) then Some NoDevice
        else (case pr_leash r of None \<Rightarrow> None
          | Some l \<Rightarrow> if pr_phase r \<noteq> PhasePaired \<or> \<not> is_obj l then Some InvalidLeash else None))"

section \<open>Encode\<close>

definition access_fields :: "env \<Rightarrow> access \<Rightarrow> fields" where
  "access_fields E a =
     [(''state'', True, JStr (access_state_string (acc_state a))),
      (''session_id'', acc_session a \<noteq> [], JStr (acc_session a)),
      (''expires_at'', acc_expires a \<noteq> 0, JStr (show_time E (acc_expires a)))]"

definition record_fields :: "env \<Rightarrow> prec \<Rightarrow> fields" where
  "record_fields E r =
     [(''v'', True, JNum (show_nat (nat recordVersion))),
      (''phase'', True, JStr (phase_string (pr_phase r))),
      (''deadline'', pr_phase r \<noteq> PhasePaired, JStr (show_time E (pr_deadline r))),
      (''device'', True, (case pr_device r of None \<Rightarrow> JNull | Some j \<Rightarrow> j)),
      (''access'', pr_phase r = PhasePaired \<and> acc_state (pr_access r) \<noteq> AccessUnknown,
         JObj (members (access_fields E (pr_access r)))),
      (''leash'', pr_phase r = PhasePaired \<and> pr_leash r \<noteq> None,
         (case pr_leash r of Some (Some j) \<Rightarrow> j | _ \<Rightarrow> JNull))]"

definition encode_record :: "env \<Rightarrow> prec \<Rightarrow> record_err + json" where
  "encode_record E r = (case check_record r of Some e \<Rightarrow> Inl e
     | None \<Rightarrow> Inr (JObj (members (record_fields E r))))"

section \<open>Decode\<close>

record access_json =
  aj_state :: string
  aj_session :: string
  aj_expires :: "time option"

definition no_access_json :: access_json where
  "no_access_json = \<lparr>aj_state = [], aj_session = [], aj_expires = None\<rparr>"

text \<open>\<open>accessJSON\<close>, with unknown members refused (\<open>DisallowUnknownFields\<close> holds for nested structs).\<close>

fun dec_access :: "env \<Rightarrow> access_json decoder" where
  "dec_access E (JObj ms) v =
     (let (s, k1) = dec_field ''state'' dec_string ms (aj_state v);
          (i, k2) = dec_field ''session_id'' dec_string ms (aj_session v);
          (x, k3) = dec_field ''expires_at'' (dec_ptr 0 (dec_time E)) ms (aj_expires v) in
      (\<lparr>aj_state = s, aj_session = i, aj_expires = x\<rparr>,
       known_members [''state'', ''session_id'', ''expires_at''] ms \<and> k1 \<and> k2 \<and> k3))"
| "dec_access E JNull v = (v, True)"
| "dec_access E _ v = (v, False)"

record record_json =
  rj_v :: int
  rj_phase :: string
  rj_deadline :: "time option"
  rj_device :: "json option"
  rj_access :: "access_json option"
  rj_leash :: "json option"

definition record_names :: "string list" where
  "record_names = [''v'', ''phase'', ''deadline'', ''device'', ''access'', ''leash'']"

definition dec_record_json :: "env \<Rightarrow> json \<Rightarrow> record_json option" where
  "dec_record_json E j = (case struct_members (Some j) of None \<Rightarrow> None | Some ms \<Rightarrow>
     (let (v, k1) = dec_field ''v'' dec_int ms 0;
          (p, k2) = dec_field ''phase'' dec_string ms [];
          (d, k3) = dec_field ''deadline'' (dec_ptr 0 (dec_time E)) ms None;
          (dev, k4) = dec_field ''device'' dec_raw ms None;
          (a, k5) = dec_field ''access'' (dec_ptr no_access_json (dec_access E)) ms None;
          (l, k6) = dec_field ''leash'' dec_raw ms None in
      if known_members record_names ms \<and> k1 \<and> k2 \<and> k3 \<and> k4 \<and> k5 \<and> k6
      then Some \<lparr>rj_v = v, rj_phase = p, rj_deadline = d, rj_device = dev, rj_access = a, rj_leash = l\<rparr>
      else None))"

record record_text =
  rt_length :: nat
  rt_first :: "json option"
  rt_more :: bool

text \<open>The access session of a decoded record, or why it is refused.\<close>

definition access_of_json :: "phase \<Rightarrow> access_json option \<Rightarrow> record_err + access" where
  "access_of_json ph j = (case j of None \<Rightarrow> Inr unknown_access
     | Some a \<Rightarrow>
        if ph \<noteq> PhasePaired then Inl AccessUnfinished
        else if access_state_of (aj_state a) = AccessUnknown then Inl InvalidAccess
        else Inr \<lparr>acc_state = access_state_of (aj_state a), acc_session = aj_session a,
                  acc_expires = (case aj_expires a of None \<Rightarrow> 0 | Some t \<Rightarrow> t)\<rparr>)"

definition deadline_of_json :: "phase \<Rightarrow> time option \<Rightarrow> record_err + time" where
  "deadline_of_json ph d = (case d of
       Some t \<Rightarrow> if ph = PhasePaired then Inl DeadlinePaired else Inr t
     | None \<Rightarrow> if ph \<noteq> PhasePaired then Inl NoDeadline else Inr 0)"

definition decode_record :: "env \<Rightarrow> record_text \<Rightarrow> record_err + prec" where
  "decode_record E b =
    (if maxRecord < rt_length b then Inl TooLarge
     else case (case rt_first b of None \<Rightarrow> None | Some j \<Rightarrow> dec_record_json E j) of
       None \<Rightarrow> Inl NotJson
     | Some j \<Rightarrow>
        if rt_more b then Inl DataAfter
        else if rj_v j \<noteq> recordVersion then Inl UnknownVersion
        else (case access_of_json (phase_of (rj_phase j)) (rj_access j) of Inl e \<Rightarrow> Inl e
          | Inr a \<Rightarrow> (case deadline_of_json (phase_of (rj_phase j)) (rj_deadline j) of Inl e \<Rightarrow> Inl e
             | Inr t \<Rightarrow>
                (let r = \<lparr>pr_phase = phase_of (rj_phase j), pr_deadline = t, pr_device = rj_device j,
                          pr_access = a, pr_leash = map_option Some (rj_leash j)\<rparr> in
                 case check_record r of Some e \<Rightarrow> Inl e | None \<Rightarrow> Inr r))))"

section \<open>Lemmas\<close>

lemma phase_of_string [simp]: "p = PhaseStarted \<or> p = PhaseWaiting \<or> p = PhasePaired \<Longrightarrow> phase_of (phase_string p) = p"
  by (auto simp: phase_of_def)

lemma access_state_of_string [simp]:
  "s = AccessUnknown \<or> s = AccessNone \<or> s = AccessActive \<Longrightarrow> access_state_of (access_state_string s) = s"
  by (auto simp: access_state_of_def)

lemma decoded_is_checked: "decode_record E b = Inr r \<Longrightarrow> check_record r = None"
  by (auto simp: decode_record_def Let_def split: if_splits option.splits sum.splits)

lemma check_recordD:
  assumes "check_record r = None"
  shows "check_phase r = None" and "is_obj (pr_device r)"
    and "\<forall>l. pr_leash r = Some l \<longrightarrow> pr_phase r = PhasePaired \<and> is_obj l"
  using assms by (auto simp: check_record_def split: option.splits if_splits)

lemma is_objE: "is_obj j \<Longrightarrow> (\<And>ms. j = Some (JObj ms) \<Longrightarrow> P) \<Longrightarrow> P"
  by (cases j rule: is_obj.cases) auto

lemma record_names_ok: "list_all plain_name record_names" "distinct record_names"
  "map fst (record_fields E r) = record_names"
  by (simp_all add: record_names_def plain_name_def byte_def record_fields_def)

lemma access_names_ok: "list_all plain_name (map fst (access_fields E a))" "distinct (map fst (access_fields E a))"
  "map fst (access_fields E a) = [''state'', ''session_id'', ''expires_at'']"
  by (simp_all add: access_fields_def plain_name_def byte_def)

text \<open>
  A record with nothing \<open>Encode\<close> leaves out: no deadline once paired, no access before. Its times can
  be written: \<open>time.RFC3339Nano\<close> writes the years 0 to 9999.
\<close>

definition record_normal :: "prec \<Rightarrow> bool" where
  "record_normal r = (if pr_phase r = PhasePaired then pr_deadline r = 0 else pr_access r = unknown_access)"

definition writable :: "env \<Rightarrow> time \<Rightarrow> bool" where
  "writable E t = (ptime E (show_time E t) = Some t)"

definition text_of :: "nat \<Rightarrow> json \<Rightarrow> record_text" where
  "text_of n j = \<lparr>rt_length = n, rt_first = Some j, rt_more = False\<rparr>"

lemma dec_access_fields:
  assumes "acc_expires a \<noteq> 0 \<longrightarrow> writable E (acc_expires a)"
  shows "dec_access E (JObj (members (access_fields E a))) no_access_json =
    (\<lparr>aj_state = access_state_string (acc_state a), aj_session = acc_session a,
      aj_expires = (if acc_expires a = 0 then None else Some (acc_expires a))\<rparr>, True)"
proof -
  have names: "list_all plain_name (map fst (access_fields E a))" "distinct (map fst (access_fields E a))"
    using access_names_ok by blast+
  have plain: "plain_name ''state''" "plain_name ''session_id''" "plain_name ''expires_at''"
    by (simp_all add: plain_name_def byte_def)
  have known: "known_members [''state'', ''session_id'', ''expires_at''] (members (access_fields E a))"
    using known_members_fields [of "access_fields E a"] by (simp only: access_names_ok(3))
  show ?thesis
    using assms
    by (simp add: dec_field_members [OF plain(1) names] dec_field_members [OF plain(2) names]
        dec_field_members [OF plain(3) names] known no_access_json_def Let_def)
      (auto simp: access_fields_def writable_def)
qed

lemma dec_record_fields:
  assumes "pr_phase r \<noteq> PhasePaired \<longrightarrow> writable E (pr_deadline r)"
    and "acc_expires (pr_access r) \<noteq> 0 \<longrightarrow> writable E (acc_expires (pr_access r))"
    and "pr_device r \<noteq> None"
  shows "dec_record_json E (JObj (members (record_fields E r))) = Some
    \<lparr>rj_v = recordVersion, rj_phase = phase_string (pr_phase r),
     rj_deadline = (if pr_phase r = PhasePaired then None else Some (pr_deadline r)),
     rj_device = pr_device r,
     rj_access = (if pr_phase r = PhasePaired \<and> acc_state (pr_access r) \<noteq> AccessUnknown
        then Some (fst (dec_access E (JObj (members (access_fields E (pr_access r)))) no_access_json)) else None),
     rj_leash = (if pr_phase r = PhasePaired \<and> pr_leash r \<noteq> None
        then Some (case pr_leash r of Some (Some j) \<Rightarrow> j | _ \<Rightarrow> JNull) else None)\<rparr>"
proof -
  have names: "list_all plain_name (map fst (record_fields E r))" "distinct (map fst (record_fields E r))"
    using record_names_ok by simp_all
  have plain: "plain_name ''v''" "plain_name ''phase''" "plain_name ''deadline''" "plain_name ''device''"
    "plain_name ''access''" "plain_name ''leash''"
    by (simp_all add: plain_name_def byte_def)
  have known: "known_members record_names (members (record_fields E r))"
    using known_members_fields [of "record_fields E r"] by (simp only: record_names_ok(3))
  have one: "parse_int (show_nat 1) = Some 1" using parse_int_show [of 1] by simp
  note look = dec_field_members [OF _ names]
  let ?ms = "members (record_fields E r)"
  have v: "dec_field ''v'' dec_int ?ms 0 = (recordVersion, True)"
    unfolding look [OF plain(1)] by (simp add: record_fields_def recordVersion_def one)
  have ph: "dec_field ''phase'' dec_string ?ms [] = (phase_string (pr_phase r), True)"
    unfolding look [OF plain(2)] by (simp add: record_fields_def)
  have dl: "dec_field ''deadline'' (dec_ptr 0 (dec_time E)) ?ms None
      = (if pr_phase r = PhasePaired then None else Some (pr_deadline r), True)"
    unfolding look [OF plain(3)] using assms(1) by (simp add: record_fields_def writable_def)
  have dev: "dec_field ''device'' dec_raw ?ms None = (pr_device r, True)"
    unfolding look [OF plain(4)] using assms(3) by (auto simp: record_fields_def)
  have acc: "dec_field ''access'' (dec_ptr no_access_json (dec_access E)) ?ms None
      = (if pr_phase r = PhasePaired \<and> acc_state (pr_access r) \<noteq> AccessUnknown
         then Some (fst (dec_access E (JObj (members (access_fields E (pr_access r)))) no_access_json)) else None, True)"
    unfolding look [OF plain(5)] dec_access_fields [OF assms(2)] fst_conv
    by (simp add: record_fields_def dec_access_fields [OF assms(2)] del: dec_access.simps)
  have le: "dec_field ''leash'' dec_raw ?ms None = (if pr_phase r = PhasePaired \<and> pr_leash r \<noteq> None
        then Some (case pr_leash r of Some (Some j) \<Rightarrow> j | _ \<Rightarrow> JNull) else None, True)"
    unfolding look [OF plain(6)] by (simp add: record_fields_def)
  show ?thesis
    unfolding dec_record_json_def struct_members.simps option.case v ph dl dev acc le
    by (simp only: prod.case Let_def known simp_thms if_True)
qed

lemma record_read_back:
  assumes "check_record r = None" and "record_normal r" and "n \<le> maxRecord"
    and "pr_phase r \<noteq> PhasePaired \<longrightarrow> writable E (pr_deadline r)"
    and "acc_expires (pr_access r) \<noteq> 0 \<longrightarrow> writable E (acc_expires (pr_access r))"
  shows "decode_record E (text_of n (JObj (members (record_fields E r)))) = Inr r"
proof -
  note c = check_recordD [OF assms(1)]
  obtain ms where dev: "pr_device r = Some (JObj ms)" using c(2) by (rule is_objE)
  obtain l where leash: "pr_leash r = None \<or> pr_phase r = PhasePaired \<and> pr_leash r = Some (Some l)"
    using c(3) by (cases "pr_leash r") (auto elim: is_objE)
  have phase: "pr_phase r = PhaseStarted \<or> pr_phase r = PhaseWaiting \<or> pr_phase r = PhasePaired"
    using c(1) by (auto simp: check_phase_def split: phase.splits)
  let ?j = "if pr_phase r = PhasePaired \<and> acc_state (pr_access r) \<noteq> AccessUnknown
    then Some (fst (dec_access E (JObj (members (access_fields E (pr_access r)))) no_access_json)) else None"
  have dl: "deadline_of_json (pr_phase r) (if pr_phase r = PhasePaired then None else Some (pr_deadline r))
      = Inr (pr_deadline r)"
    using assms(2) by (simp add: deadline_of_json_def record_normal_def)
  have le: "map_option Some (if pr_phase r = PhasePaired \<and> pr_leash r \<noteq> None
        then Some (case pr_leash r of Some (Some j) \<Rightarrow> j | _ \<Rightarrow> JNull) else None) = pr_leash r"
    using leash by auto
  have more: "dec_record_json E (JObj (members (record_fields E r))) = Some
    \<lparr>rj_v = recordVersion, rj_phase = phase_string (pr_phase r),
     rj_deadline = (if pr_phase r = PhasePaired then None else Some (pr_deadline r)),
     rj_device = pr_device r, rj_access = ?j,
     rj_leash = (if pr_phase r = PhasePaired \<and> pr_leash r \<noteq> None
        then Some (case pr_leash r of Some (Some j) \<Rightarrow> j | _ \<Rightarrow> JNull) else None)\<rparr>"
    using dev by (intro dec_record_fields assms(4,5)) simp
  have same: "r\<lparr>pr_access := a\<rparr> = \<lparr>pr_phase = pr_phase r, pr_deadline = pr_deadline r, pr_device = pr_device r,
      pr_access = a, pr_leash = pr_leash r\<rparr>" for a
    by simp
  have dec: "decode_record E (text_of n (JObj (members (record_fields E r)))) =
      (case access_of_json (pr_phase r) ?j of Inl e \<Rightarrow> Inl e
       | Inr a \<Rightarrow> (let q = r\<lparr>pr_access := a\<rparr> in case check_record q of Some e \<Rightarrow> Inl e | None \<Rightarrow> Inr q))"
    using assms(3) unfolding decode_record_def text_of_def record_text.simps option.case more record_json.simps
      phase_of_string [OF phase] dl le Let_def
    by (cases "access_of_json (pr_phase r) ?j") (simp_all only: sum.case if_False simp_thms same not_less
        if_not_P refl not_le)
  have fin: ?thesis if "access_of_json (pr_phase r) ?j = Inr (pr_access r)"
    using dec assms(1) unfolding that by (simp del: dec_access.simps)
  show ?thesis
  proof (cases "pr_phase r = PhasePaired")
    case True
    then have v: "access_valid (pr_access r)" using c(1) by (simp add: check_phase_def split: if_splits)
    then have st: "acc_state (pr_access r) = AccessUnknown \<or> acc_state (pr_access r) = AccessNone
        \<or> acc_state (pr_access r) = AccessActive"
      by (auto simp: access_valid_def split: access_state.splits)
    show ?thesis
    proof (cases "acc_state (pr_access r) = AccessUnknown")
      case U: True
      with v show ?thesis by (intro fin) (simp add: access_of_json_def access_valid_def unknown_access_def)
    next
      case False
      with True st show ?thesis
        by (intro fin) (auto simp: access_of_json_def dec_access_fields [OF assms(5)] simp del: dec_access.simps)
    qed
  next
    case False
    with assms(2) show ?thesis by (intro fin) (simp add: access_of_json_def record_normal_def)
  qed
qed

lemma decoded_normal: "decode_record E b = Inr r \<Longrightarrow> record_normal r"
  by (auto simp: decode_record_def Let_def record_normal_def access_of_json_def deadline_of_json_def
      split: if_splits option.splits sum.splits)

section \<open>Properties\<close>

text \<open>
  What is encoded is decoded as it was: a record that \<open>Encode\<close> accepts, with nothing it leaves
  out and with times that can be written, is read back equal, and refused only for its length.
\<close>

lemma record_roundtrip:
  assumes "encode_record E r = Inr j" and "record_normal r"
    and "pr_phase r \<noteq> PhasePaired \<longrightarrow> writable E (pr_deadline r)"
    and "acc_expires (pr_access r) \<noteq> 0 \<longrightarrow> writable E (acc_expires (pr_access r))"
  shows "decode_record E (text_of n j) = (if maxRecord < n then Inl TooLarge else Inr r)"
proof -
  have "check_record r = None" and j: "j = JObj (members (record_fields E r))"
    using assms(1) by (auto simp: encode_record_def split: option.splits)
  then have "decode_record E (text_of n j) = Inr r" if "\<not> maxRecord < n"
    unfolding j using assms that by (intro record_read_back) auto
  moreover have "decode_record E (text_of n j) = Inl TooLarge" if "maxRecord < n"
    using that by (simp add: decode_record_def text_of_def)
  ultimately show ?thesis by simp
qed

definition toy_clock :: env where
  "toy_clock = \<lparr>ptime = (\<lambda>s. if s = ''T'' then Some 7 else None), hm = (\<lambda>_. []), ymdhm = (\<lambda>_. []),
     show_time = (\<lambda>_. ''T'')\<rparr>"

definition toy_record :: prec where
  "toy_record = \<lparr>pr_phase = PhasePaired, pr_deadline = 0, pr_device = Some (JObj []),
     pr_access = \<lparr>acc_state = AccessActive, acc_session = ''s'', acc_expires = 7\<rparr>,
     pr_leash = Some (Some (JObj []))\<rparr>"

lemmas record_eval = toy_clock_def toy_record_def encode_record_def check_record_def check_phase_def
  access_valid_def max_session_id_def record_normal_def writable_def maxRecord_def

lemma record_roundtrip_witness:
  "decode_record toy_clock (text_of 200 (JObj (members (record_fields toy_clock toy_record)))) = Inr toy_record"
proof -
  have "encode_record toy_clock toy_record = Inr (JObj (members (record_fields toy_clock toy_record)))"
    and "record_normal toy_record" and "\<not> maxRecord < 200"
    and "pr_phase toy_record \<noteq> PhasePaired \<longrightarrow> writable toy_clock (pr_deadline toy_record)"
    and "acc_expires (pr_access toy_record) \<noteq> 0 \<longrightarrow> writable toy_clock (acc_expires (pr_access toy_record))"
    by (simp_all add: record_eval)
  with record_roundtrip [of toy_clock toy_record] show ?thesis by simp
qed

text \<open>
  C40. A record that decodes has the form the program counts on: a known phase, a device object, a
  deadline exactly while pairing is unfinished, and only once it is complete an access session, of a
  consistent form, and an object of grants.
\<close>

theorem decoded_record_form:
  assumes "decode_record E b = Inr r"
  shows "rt_length b \<le> maxRecord \<and> \<not> rt_more b
    \<and> (pr_phase r = PhaseStarted \<or> pr_phase r = PhaseWaiting \<or> pr_phase r = PhasePaired)
    \<and> (pr_deadline r \<noteq> 0) = (pr_phase r \<noteq> PhasePaired) \<and> is_obj (pr_device r) \<and> access_valid (pr_access r)
    \<and> (acc_state (pr_access r) \<noteq> AccessUnknown \<longrightarrow> pr_phase r = PhasePaired)
    \<and> (\<forall>l. pr_leash r = Some l \<longrightarrow> pr_phase r = PhasePaired \<and> is_obj l)"
proof -
  note c = check_recordD [OF decoded_is_checked [OF assms]]
  have "rt_length b \<le> maxRecord \<and> \<not> rt_more b"
    using assms by (auto simp: decode_record_def split: if_splits option.splits)
  moreover have "pr_phase r = PhaseStarted \<or> pr_phase r = PhaseWaiting \<or> pr_phase r = PhasePaired"
    using c(1) by (auto simp: check_phase_def split: phase.splits)
  moreover have "(pr_deadline r \<noteq> 0) = (pr_phase r \<noteq> PhasePaired) \<and> access_valid (pr_access r)
      \<and> (acc_state (pr_access r) \<noteq> AccessUnknown \<longrightarrow> pr_phase r = PhasePaired)"
    using c(1) decoded_normal [OF assms]
    by (auto simp: check_phase_def record_normal_def unknown_access_def split: phase.splits if_splits)
      (simp_all add: access_valid_def)
  ultimately show ?thesis using c(2,3) by blast
qed

theorem decoded_record_form_witness: "access_valid (pr_access toy_record) \<and> is_obj (pr_device toy_record)"
proof -
  have "decode_record toy_clock (text_of 200 (JObj (members (record_fields toy_clock toy_record)))) = Inr toy_record"
    by (rule record_read_back) (simp_all add: record_eval)
  from decoded_record_form [OF this] show ?thesis by blast
qed

end
