(* ===== verification/Grant.thy ===== *)
theory Grant
  imports Session
begin

text \<open>
  \<open>internal/leash/grant.go\<close>: a grant as the vault sends it, the checks it passes before the
  connector holds it, and the check of a status statement. What comes from the vault's own
  packages (\<open>leashwire\<close>, \<open>envelope\<close>, \<open>handshake\<close>, \<open>suite\<close>) is the parameter \<open>wire_lib\<close>.
\<close>

section \<open>The vault's packages\<close>

text \<open>The members of \<open>leashwire.Delegation\<close> that the code reads; \<open>d_limits\<close> is per hour, per day.\<close>

record delegation =
  d_iss :: string
  d_sub :: string
  d_issued :: time
  d_grant :: string
  d_version :: nat
  d_op :: string
  d_conns :: "string list"
  d_tags :: "string list"
  d_match :: string
  d_access :: string
  d_uses :: nat
  d_approval :: string
  d_ttl :: duration
  d_limits :: "(nat \<times> nat) option"
  d_expires :: time

text \<open>What is presented to a relying party; a parsed rotation is named by its text.\<close>

record presented =
  pr_delegation :: string
  pr_sig :: string
  pr_status :: string
  pr_status_sig :: string
  pr_rotations :: "string list"

record wire_lib =
  valid_ulid :: "string \<Rightarrow> bool"
  parse_canonical :: "string \<Rightarrow> delegation option"
  verify_delegation :: "string \<Rightarrow> string \<Rightarrow> string \<Rightarrow> time \<Rightarrow> bool"
  parse_rotation :: "json \<Rightarrow> string option"
  verify_presented :: "(string \<Rightarrow> bool) \<Rightarrow> presented \<Rightarrow> time \<Rightarrow> bool"
  parse_status :: "string \<Rightarrow> (time \<times> time) option"
  equal_public :: "string \<Rightarrow> string \<Rightarrow> bool"
  scope_items :: string
  max_list :: nat
  max_tags :: nat
  max_uses :: nat
  max_per_hour :: nat
  max_per_day :: nat
  min_status_ttl :: duration
  max_status_ttl :: duration
  max_rotations :: nat
  status_skew :: duration

definition ed25519_signature_size :: nat where "ed25519_signature_size = 64"

section \<open>Grants\<close>

definition MaxGrants :: nat where "MaxGrants = 32"
definition max_scope :: nat where "max_scope = 64"

text \<open>A nil slice of \<open>Grant\<close> is the empty list; \<open>g_delegation\<close> and \<open>g_sig\<close> keep nil apart.\<close>

record grant =
  g_id :: string
  g_agent :: string
  g_version :: nat
  g_scope :: string
  g_approval :: string
  g_conns :: "string list"
  g_tags :: "string list"
  g_match :: string
  g_access :: string
  g_uses :: nat
  g_per_hour :: nat
  g_per_day :: nat
  g_expires :: time
  g_issued :: time
  g_ttl :: duration
  g_delegation :: "string option"
  g_sig :: "string option"
  g_del :: "delegation option"

definition expired :: "grant \<Rightarrow> time \<Rightarrow> bool" where
  "expired g now = (g_expires g \<noteq> 0 \<and> \<not> now < g_expires g)"

record wire_grant =
  w_id :: string
  w_agent :: string
  w_version :: nat
  w_scope :: string
  w_approval :: string
  w_conns :: "string list option"
  w_tags :: "string list option"
  w_match :: string
  w_access :: string
  w_uses :: nat
  w_per_hour :: nat
  w_per_day :: nat
  w_expires :: string
  w_ttl :: nat
  w_issued :: string
  w_delegation :: "string option"
  w_sig :: "string option"
  w_status :: "string option"
  w_status_sig :: "string option"
  w_rotations :: "json list option"

text \<open>A slice read through its option: nil has no elements.\<close>

definition elems :: "'a list option \<Rightarrow> 'a list" where
  "elems xs = (case xs of None \<Rightarrow> [] | Some ys \<Rightarrow> ys)"

text \<open>\<open>json.Unmarshal\<close> into a \<open>wireGrant\<close>; \<open>None\<close> if it fails.\<close>

definition dec_wire_grant :: "json \<Rightarrow> wire_grant option" where
  "dec_wire_grant j = (case struct_members (Some j) of None \<Rightarrow> None
   | Some ms \<Rightarrow>
      (let (f1, k1) = dec_field ''grant_id'' dec_string ms [];
           (f2, k2) = dec_field ''agent_id'' dec_string ms [];
           (f3, k3) = dec_field ''version'' dec_uint64 ms 0;
           (f4, k4) = dec_field ''scope'' dec_string ms [];
           (f5, k5) = dec_field ''approval'' dec_string ms [];
           (f6, k6) = dec_field ''connections'' (dec_list [] dec_string) ms None;
           (f7, k7) = dec_field ''tags'' (dec_list [] dec_string) ms None;
           (f8, k8) = dec_field ''match'' dec_string ms [];
           (f9, k9) = dec_field ''access'' dec_string ms [];
           (f10, k10) = dec_field ''uses'' dec_uint64 ms 0;
           (f11, k11) = dec_field ''per_hour'' dec_uint64 ms 0;
           (f12, k12) = dec_field ''per_day'' dec_uint64 ms 0;
           (f13, k13) = dec_field ''expires_at'' dec_string ms [];
           (f14, k14) = dec_field ''status_ttl'' dec_uint64 ms 0;
           (f15, k15) = dec_field ''issued_at'' dec_string ms [];
           (f16, k16) = dec_field ''delegation'' dec_bytes ms None;
           (f17, k17) = dec_field ''sig'' dec_bytes ms None;
           (f18, k18) = dec_field ''status'' dec_bytes ms None;
           (f19, k19) = dec_field ''status_sig'' dec_bytes ms None;
           (f20, k20) = dec_field ''rotations'' (dec_list JNull dec_value) ms None
       in if list_all id [k1, k2, k3, k4, k5, k6, k7, k8, k9, k10, k11, k12, k13, k14, k15, k16,
               k17, k18, k19, k20]
          then Some \<lparr>w_id = f1, w_agent = f2, w_version = f3, w_scope = f4, w_approval = f5,
            w_conns = f6, w_tags = f7, w_match = f8, w_access = f9, w_uses = f10, w_per_hour = f11,
            w_per_day = f12, w_expires = f13, w_ttl = f14, w_issued = f15, w_delegation = f16,
            w_sig = f17, w_status = f18, w_status_sig = f19, w_rotations = f20\<rparr>
          else None))"

section \<open>The patterns\<close>

definition lower :: "char \<Rightarrow> bool" where "lower c = (97 \<le> byte c \<and> byte c \<le> 122)"
definition digit :: "char \<Rightarrow> bool" where "digit c = (48 \<le> byte c \<and> byte c \<le> 57)"

fun split_on :: "char \<Rightarrow> string \<Rightarrow> string list" where
  "split_on x [] = [[]]"
| "split_on x (c # cs) = (case split_on x cs of
     [] \<Rightarrow> [] | p # ps \<Rightarrow> if c = x then [] # p # ps else (c # p) # ps)"

definition op_part :: "string \<Rightarrow> bool" where
  "op_part s = (case s of [] \<Rightarrow> False
     | c # cs \<Rightarrow> lower c \<and> list_all (\<lambda>c. lower c \<or> digit c \<or> c = CHR ''-'') cs)"

text \<open>\<open>opRE\<close>: at least two parts, between dots.\<close>

definition op_match :: "string \<Rightarrow> bool" where
  "op_match s = (2 \<le> length (split_on (CHR ''.'') s) \<and> list_all op_part (split_on (CHR ''.'') s))"

definition tag_match :: "string \<Rightarrow> bool" where
  "tag_match s = (case s of [] \<Rightarrow> False
     | c # cs \<Rightarrow> (lower c \<or> digit c) \<and> length cs \<le> 31
         \<and> list_all (\<lambda>c. lower c \<or> digit c \<or> c = CHR '' '' \<or> c = CHR ''_'' \<or> c = CHR ''-'') cs)"

section \<open>Checking a grant\<close>

text \<open>
  \<open>time.Duration(w.StatusTTL) * time.Second\<close>: the conversion and the product wrap at 64 bits.
\<close>

definition status_ttl_of :: "nat \<Rightarrow> duration" where
  "status_ttl_of n = sint (word_of_nat n * word_of_int second :: 64 word)"

definition same_as_delegation :: "grant \<Rightarrow> delegation \<Rightarrow> bool" where
  "same_as_delegation g d =
     (if d_grant d \<noteq> g_id g \<or> d_version d \<noteq> g_version g \<or> d_op d \<noteq> g_scope g
         \<or> d_approval d \<noteq> g_approval g \<or> d_ttl d \<noteq> g_ttl g \<or> d_conns d \<noteq> g_conns g
         \<or> d_tags d \<noteq> g_tags g \<or> d_match d \<noteq> g_match g \<or> d_access d \<noteq> g_access g
         \<or> d_uses d \<noteq> g_uses g then False
      else if (case d_limits d of None \<Rightarrow> g_per_hour g \<noteq> 0
               | Some (h, dy) \<Rightarrow> h \<noteq> g_per_hour g \<or> dy \<noteq> g_per_day g) then False
      else if (d_expires d = 0) \<noteq> (g_expires g = 0) then False
      else d_expires d = 0 \<or> d_expires d div second = g_expires g div second)"

text \<open>The members as they are taken over before any check.\<close>

definition grant_of :: "wire_grant \<Rightarrow> grant" where
  "grant_of w = \<lparr>g_id = w_id w, g_agent = w_agent w, g_version = w_version w, g_scope = w_scope w,
     g_approval = w_approval w, g_conns = elems (w_conns w), g_tags = elems (w_tags w),
     g_match = w_match w, g_access = w_access w, g_uses = w_uses w, g_per_hour = w_per_hour w,
     g_per_day = w_per_day w, g_expires = 0, g_issued = 0, g_ttl = status_ttl_of (w_ttl w),
     g_delegation = None, g_sig = None, g_del = None\<rparr>"

text \<open>The checks of the members, in the order of the code; each failure is \<open>errGrant\<close>.\<close>

definition id_ok :: "wire_lib \<Rightarrow> grant \<Rightarrow> string \<Rightarrow> bool" where
  "id_ok L g agent = (\<not> (\<not> valid_ulid L (g_id g) \<or> agent = [] \<or> g_agent g \<noteq> agent \<or> g_version g < 1))"

definition scope_ok :: "grant \<Rightarrow> bool" where
  "scope_ok g = (\<not> (max_scope < length (g_scope g) \<or> \<not> op_match (g_scope g)
     \<or> g_approval g \<noteq> ''ask'' \<and> g_approval g \<noteq> ''auto''))"

definition conns_ok :: "wire_lib \<Rightarrow> bool \<Rightarrow> grant \<Rightarrow> bool" where
  "conns_ok L given g = (given \<longrightarrow>
     \<not> (g_scope g = scope_items L \<or> g_conns g = [] \<or> max_list L < length (g_conns g))
     \<and> list_all (valid_ulid L) (g_conns g))"

definition share_ok :: "wire_lib \<Rightarrow> bool \<Rightarrow> grant \<Rightarrow> bool" where
  "share_ok L tags_given g =
     (if g_scope g = scope_items L
      then \<not> (g_tags g = [] \<or> max_tags L < length (g_tags g) \<or> g_match g \<noteq> ''any'' \<and> g_match g \<noteq> ''all''
             \<or> g_access g \<noteq> ''read'' \<or> max_uses L < g_uses g) \<and> list_all tag_match (g_tags g)
      else \<not> (tags_given \<or> g_match g \<noteq> [] \<or> g_access g \<noteq> [] \<or> g_uses g \<noteq> 0))"

definition limits_ok :: "wire_lib \<Rightarrow> grant \<Rightarrow> bool" where
  "limits_ok L g = (\<not> ((g_per_hour g = 0) \<noteq> (g_per_day g = 0) \<or> max_per_hour L < g_per_hour g
     \<or> max_per_day L < g_per_day g
     \<or> (g_per_hour g \<noteq> 0) \<noteq> (g_approval g = ''auto'' \<or> g_scope g = scope_items L)))"

definition ttl_ok :: "wire_lib \<Rightarrow> grant \<Rightarrow> bool" where
  "ttl_ok L g = (\<not> (g_ttl g < min_status_ttl L \<or> max_status_ttl L < g_ttl g))"

definition members_ok :: "wire_lib \<Rightarrow> wire_grant \<Rightarrow> string \<Rightarrow> bool" where
  "members_ok L w agent =
    (let g = grant_of w in
     id_ok L g agent \<and> scope_ok g \<and> conns_ok L (w_conns w \<noteq> None) g
     \<and> share_ok L (w_tags w \<noteq> None) g \<and> limits_ok L g \<and> ttl_ok L g)"

definition expiry_of :: "env \<Rightarrow> string \<Rightarrow> time option" where
  "expiry_of E s = (if s = [] then Some 0 else ptime E s)"

definition parse_grant :: "env \<Rightarrow> wire_lib \<Rightarrow> wire_grant \<Rightarrow> string \<Rightarrow> grant option" where
  "parse_grant E L w agent =
    (if \<not> members_ok L w agent then None
     else (case ptime E (w_issued w) of None \<Rightarrow> None | Some issued \<Rightarrow>
       (case expiry_of E (w_expires w) of None \<Rightarrow> None | Some exp \<Rightarrow>
         (let g = (grant_of w)\<lparr>g_issued := issued, g_expires := exp\<rparr> in
          if w_delegation w = None \<and> w_sig w = None then Some g
          else if length (elems (w_sig w)) \<noteq> ed25519_signature_size then None
          else (case parse_canonical L (elems (w_delegation w)) of None \<Rightarrow> None | Some d \<Rightarrow>
            if \<not> verify_delegation L (d_iss d) (elems (w_delegation w)) (elems (w_sig w)) (d_issued d) then None
            else if \<not> same_as_delegation g d then None
            else Some (g\<lparr>g_delegation := w_delegation w, g_sig := w_sig w, g_del := Some d\<rparr>))))))"

text \<open>The saved form: members that are empty are left out (\<open>omitempty\<close>).\<close>

definition nonempty :: "'a list \<Rightarrow> 'a list option" where
  "nonempty xs = (if xs = [] then None else Some xs)"

definition wire :: "env \<Rightarrow> grant \<Rightarrow> wire_grant" where
  "wire E g = \<lparr>w_id = g_id g, w_agent = g_agent g, w_version = g_version g, w_scope = g_scope g,
     w_approval = g_approval g, w_conns = nonempty (g_conns g), w_tags = nonempty (g_tags g),
     w_match = g_match g, w_access = g_access g, w_uses = g_uses g, w_per_hour = g_per_hour g,
     w_per_day = g_per_day g, w_expires = (if g_expires g = 0 then [] else show_time E (g_expires g)),
     w_ttl = nat (g_ttl g div second), w_issued = show_time E (g_issued g),
     w_delegation = (case g_delegation g of None \<Rightarrow> None | Some b \<Rightarrow> nonempty b),
     w_sig = (case g_sig g of None \<Rightarrow> None | Some b \<Rightarrow> nonempty b),
     w_status = None, w_status_sig = None, w_rotations = None\<rparr>"

section \<open>Status statements\<close>

record statement =
  st_status :: string
  st_sig :: string
  st_rotations :: "string list"
  st_issued :: time
  st_not_after :: time

definition ttl :: "statement \<Rightarrow> duration" where "ttl st = st_not_after st - st_issued st"

definition refresh_at :: "statement \<Rightarrow> time" where
  "refresh_at st = st_not_after st - max (ttl st div 4) minute"

fun parse_rotations :: "wire_lib \<Rightarrow> json list \<Rightarrow> string list option" where
  "parse_rotations L [] = Some []"
| "parse_rotations L (r # rs) = (case parse_rotation L r of None \<Rightarrow> None | Some x \<Rightarrow>
     (case parse_rotations L rs of None \<Rightarrow> None | Some xs \<Rightarrow> Some (x # xs)))"

definition presented_of :: "grant \<Rightarrow> statement \<Rightarrow> presented" where
  "presented_of g st = \<lparr>pr_delegation = elems (g_delegation g), pr_sig = elems (g_sig g),
     pr_status = st_status st, pr_status_sig = st_sig st, pr_rotations = st_rotations st\<rparr>"

definition check_statement ::
  "wire_lib \<Rightarrow> grant \<Rightarrow> string \<Rightarrow> string \<Rightarrow> json list \<Rightarrow> time \<Rightarrow> statement option" where
  "check_statement L g status sig rots now =
    (case g_del g of None \<Rightarrow> None | Some d \<Rightarrow>
     if length sig \<noteq> ed25519_signature_size \<or> max_rotations L < length rots then None
     else (case parse_rotations L rots of None \<Rightarrow> None | Some rs \<Rightarrow>
       (let st = \<lparr>st_status = status, st_sig = sig, st_rotations = rs, st_issued = 0, st_not_after = 0\<rparr> in
        if \<not> verify_presented L (\<lambda>k. equal_public L k (d_iss d)) (presented_of g st) now then None
        else (case parse_status L status of None \<Rightarrow> None
              | Some (i, n) \<Rightarrow> Some (st\<lparr>st_issued := i, st_not_after := n\<rparr>)))))"

section \<open>Facts of the check\<close>

lemma parse_grant_some:
  assumes "parse_grant E L w agent = Some g"
  obtains issued exp where "members_ok L w agent" "ptime E (w_issued w) = Some issued"
    "expiry_of E (w_expires w) = Some exp"
    "w_delegation w = None" "w_sig w = None"
    "g = (grant_of w)\<lparr>g_issued := issued, g_expires := exp\<rparr>"
  | issued exp d where "members_ok L w agent" "ptime E (w_issued w) = Some issued"
    "expiry_of E (w_expires w) = Some exp"
    "\<not> (w_delegation w = None \<and> w_sig w = None)" "length (elems (w_sig w)) = ed25519_signature_size"
    "parse_canonical L (elems (w_delegation w)) = Some d"
    "verify_delegation L (d_iss d) (elems (w_delegation w)) (elems (w_sig w)) (d_issued d)"
    "same_as_delegation ((grant_of w)\<lparr>g_issued := issued, g_expires := exp\<rparr>) d"
    "g = (grant_of w)\<lparr>g_issued := issued, g_expires := exp, g_delegation := w_delegation w,
       g_sig := w_sig w, g_del := Some d\<rparr>"
proof -
  from assms have ok: "members_ok L w agent" by (simp add: parse_grant_def split: if_splits)
  with assms obtain i where i: "ptime E (w_issued w) = Some i"
    by (cases "ptime E (w_issued w)") (simp_all add: parse_grant_def)
  with ok assms obtain e where e: "expiry_of E (w_expires w) = Some e"
    by (cases "expiry_of E (w_expires w)") (simp_all add: parse_grant_def)
  let ?g = "(grant_of w)\<lparr>g_issued := i, g_expires := e\<rparr>"
  show ?thesis
  proof (cases "w_delegation w = None \<and> w_sig w = None")
    case True
    with assms ok i e have "g = ?g" by (simp add: parse_grant_def Let_def)
    with True ok i e show ?thesis by (intro that(1)) auto
  next
    case False
    have sig: "length (elems (w_sig w)) = ed25519_signature_size"
      using assms ok i e False by (simp add: parse_grant_def Let_def split: if_splits)
    then obtain d where d: "parse_canonical L (elems (w_delegation w)) = Some d"
      using assms ok i e False
      by (cases "parse_canonical L (elems (w_delegation w))") (simp_all add: parse_grant_def Let_def)
    have "verify_delegation L (d_iss d) (elems (w_delegation w)) (elems (w_sig w)) (d_issued d)
        \<and> same_as_delegation ?g d
        \<and> g = ?g\<lparr>g_delegation := w_delegation w, g_sig := w_sig w, g_del := Some d\<rparr>"
      using assms ok i e False sig d by (simp add: parse_grant_def Let_def split: if_splits)
    with False ok i e sig d show ?thesis by (intro that(2)) auto
  qed
qed

lemma status_ttl_exact:
  assumes "n \<le> 9223372036"
  shows "status_ttl_of n = int n * second"
proof -
  have "(word_of_nat n * word_of_int second :: 64 word) = word_of_int (int n * second)" by simp
  then have "status_ttl_of n = signed_take_bit 63 (int n * second)"
    unfolding status_ttl_of_def by (simp only: sint_sbintrunc') simp
  moreover have "- (2 ^ 63) \<le> int n * second" "int n * second < 2 ^ 63"
    using assms by (simp_all add: second_def)
  ultimately show ?thesis by (simp only: signed_take_bit_int_eq_self)
qed

lemma status_ttl_back: "n \<le> 9223372036 \<Longrightarrow> nat (status_ttl_of n div second) = n"
  by (simp add: status_ttl_exact second_def)

lemma elems_nonempty [simp]: "elems (nonempty xs) = xs"
  by (simp add: elems_def nonempty_def)

lemma grant_of_wire:
  assumes "members_ok L w agent" and "w_ttl w \<le> 9223372036"
    and "g = (grant_of w)\<lparr>g_issued := i, g_expires := e, g_delegation := dl, g_sig := sg, g_del := d\<rparr>"
  shows "grant_of (wire E g) = grant_of w" and "members_ok L (wire E g) agent"
proof -
  show g: "grant_of (wire E g) = grant_of w"
    using assms(2) by (simp add: grant_of_def wire_def assms(3) status_ttl_back)
  have c: "w_conns w \<noteq> None \<Longrightarrow> elems (w_conns w) \<noteq> []"
    using assms(1) by (simp add: members_ok_def Let_def conns_ok_def grant_of_def)
  have "(w_conns (wire E g) \<noteq> None) = (w_conns w \<noteq> None)"
    using c by (cases "w_conns w") (simp_all add: wire_def assms(3) grant_of_def nonempty_def elems_def)
  moreover have "w_tags w = None \<Longrightarrow> w_tags (wire E g) = None"
    by (simp add: wire_def assms(3) grant_of_def nonempty_def elems_def)
  then have "share_ok L (w_tags w \<noteq> None) (grant_of w) \<Longrightarrow> share_ok L (w_tags (wire E g) \<noteq> None) (grant_of w)"
    by (auto simp: share_ok_def)
  ultimately show "members_ok L (wire E g) agent"
    using assms(1) g by (simp add: members_ok_def Let_def)
qed

text \<open>A grant that passed the check passes it again when it is read back from its saved form.\<close>

lemma parse_grant_wire:
  assumes "parse_grant E L w agent = Some g" and "w_ttl w \<le> 9223372036"
    and "parse_canonical L [] = None"
    and "ptime E (show_time E (g_issued g)) = Some (g_issued g)"
    and "g_expires g \<noteq> 0 \<Longrightarrow> show_time E (g_expires g) \<noteq> []
           \<and> ptime E (show_time E (g_expires g)) = Some (g_expires g)"
  shows "parse_grant E L (wire E g) agent = Some g"
proof -
  have e: "expiry_of E (w_expires (wire E g)) = Some (g_expires g)"
    using assms(5) by (cases "g_expires g = 0") (simp_all add: wire_def expiry_of_def)
  have i: "ptime E (w_issued (wire E g)) = Some (g_issued g)" using assms(4) by (simp add: wire_def)
  from assms(1) show ?thesis
  proof (cases rule: parse_grant_some)
    case (1 issued exp)
    have "g = (grant_of w)\<lparr>g_issued := issued, g_expires := exp, g_delegation := None, g_sig := None,
        g_del := None\<rparr>" using 1(6) by (simp add: grant_of_def)
    note gw = grant_of_wire [OF 1(1) assms(2) this, of E]
    have "w_delegation (wire E g) = None \<and> w_sig (wire E g) = None"
      using 1(6) by (simp add: wire_def grant_of_def)
    with gw i e 1(6) show ?thesis by (simp add: parse_grant_def Let_def)
  next
    case (2 issued exp d)
    note gw = grant_of_wire [OF 2(1) assms(2) 2(9), of E]
    have "elems (w_sig w) \<noteq> []" using 2(5) by (auto simp: ed25519_signature_size_def)
    then have s: "w_sig (wire E g) = w_sig w"
      using 2(9) by (cases "w_sig w") (simp_all add: wire_def nonempty_def elems_def)
    have "elems (w_delegation w) \<noteq> []" using 2(6) assms(3) by auto
    then have dl: "w_delegation (wire E g) = w_delegation w"
      using 2(9) by (cases "w_delegation w") (simp_all add: wire_def nonempty_def elems_def)
    obtain sg where "w_sig w = Some sg"
      using \<open>elems (w_sig w) \<noteq> []\<close> by (cases "w_sig w") (simp_all add: elems_def)
    moreover have "g_issued g = issued" "g_expires g = exp" using 2(9) by simp_all
    ultimately show ?thesis using gw i e s dl 2 by (simp add: parse_grant_def Let_def)
  qed
qed

section \<open>Examples\<close>

text \<open>A small vault: one member key, one delegation, one statement.\<close>

definition toy_delegation :: delegation where
  "toy_delegation = \<lparr>d_iss = ''M'', d_sub = ''K'', d_issued = 0, d_grant = ''G'', d_version = 1,
     d_op = ''items.read'', d_conns = [], d_tags = [''mail''], d_match = ''any'', d_access = ''read'',
     d_uses = 0, d_approval = ''ask'', d_ttl = hour, d_limits = Some (5, 20), d_expires = 0\<rparr>"

definition toy_lib :: wire_lib where
  "toy_lib = \<lparr>valid_ulid = (\<lambda>s. s \<noteq> []),
     parse_canonical = (\<lambda>b. if b = ''D'' then Some toy_delegation else None),
     verify_delegation = (\<lambda>k b s t. k = ''M''), parse_rotation = (\<lambda>_. None),
     verify_presented = (\<lambda>trust p t. trust ''M'' \<and> pr_delegation p = ''D''),
     parse_status = (\<lambda>s. if s = ''S'' then Some (0, hour) else None),
     equal_public = (=), scope_items = ''items.read'', max_list = 100, max_tags = 16, max_uses = 100,
     max_per_hour = 100, max_per_day = 1000, min_status_ttl = minute, max_status_ttl = 24 * hour,
     max_rotations = 16, status_skew = minute\<rparr>"

definition toy_times :: env where
  "toy_times = \<lparr>ptime = (\<lambda>s. if s = ''now'' then Some hour else None), hm = (\<lambda>_. []), ymdhm = (\<lambda>_. []),
     show_time = (\<lambda>_. ''now'')\<rparr>"

definition toy_sig :: string where "toy_sig = replicate 64 CHR ''s''"

definition toy_wire :: wire_grant where
  "toy_wire = \<lparr>w_id = ''G'', w_agent = ''A'', w_version = 1, w_scope = ''items.read'', w_approval = ''ask'',
     w_conns = None, w_tags = Some [''mail''], w_match = ''any'', w_access = ''read'', w_uses = 0,
     w_per_hour = 5, w_per_day = 20, w_expires = [], w_ttl = 3600, w_issued = ''now'',
     w_delegation = Some ''D'', w_sig = Some toy_sig, w_status = Some ''S'', w_status_sig = Some toy_sig,
     w_rotations = None\<rparr>"

definition toy_grant :: grant where
  "toy_grant = (grant_of toy_wire)\<lparr>g_issued := hour, g_delegation := Some ''D'', g_sig := Some toy_sig,
     g_del := Some toy_delegation\<rparr>"

lemma toy_ttl: "status_ttl_of 3600 = hour"
  by (simp add: status_ttl_exact durations)

lemma toy_sig_length [simp]: "length toy_sig = 64"
  by (simp add: toy_sig_def)

lemmas grant_eval = toy_lib_def toy_times_def toy_wire_def toy_grant_def toy_delegation_def toy_ttl
  parse_grant_def expiry_of_def grant_of_def members_ok_def id_ok_def scope_ok_def conns_ok_def share_ok_def
  limits_ok_def ttl_ok_def elems_def same_as_delegation_def max_scope_def op_match_def op_part_def
  tag_match_def lower_def digit_def byte_def ed25519_signature_size_def durations

lemma toy_parses: "parse_grant toy_times toy_lib toy_wire ''A'' = Some toy_grant"
  by (simp add: grant_eval Let_def)

section \<open>Properties\<close>

text \<open>
  What the connector shows of a grant is what it would present: a grant that carries a
  delegation was checked to be for this agent's device, its signature verifies under the key the
  delegation names, and its members are the delegation's.
\<close>

lemma grant_says_what_its_delegation_says:
  assumes "parse_grant E L w agent = Some g" and "g_del g = Some d"
  shows "g_agent g = agent \<and> parse_canonical L (elems (g_delegation g)) = Some d
    \<and> verify_delegation L (d_iss d) (elems (g_delegation g)) (elems (g_sig g)) (d_issued d)
    \<and> g_id g = d_grant d \<and> g_version g = d_version d \<and> g_scope g = d_op d \<and> g_approval g = d_approval d
    \<and> g_conns g = d_conns d \<and> g_tags g = d_tags d \<and> g_ttl g = d_ttl d
    \<and> (g_expires g = 0) = (d_expires d = 0) \<and> g_expires g div second = d_expires d div second"
  using assms(1)
proof (cases rule: parse_grant_some)
  case 1
  with assms(2) show ?thesis by (simp add: grant_of_def)
next
  case (2 issued exp d')
  with assms(2) have "d' = d" by simp
  moreover have "g_agent g = agent" using 2(1,9) by (simp add: members_ok_def id_ok_def Let_def)
  ultimately show ?thesis using 2(6-9) by (auto simp: same_as_delegation_def split: if_splits)
qed

lemma grant_says_what_its_delegation_says_witness:
  "g_agent toy_grant = ''A'' \<and> g_id toy_grant = d_grant toy_delegation"
  using grant_says_what_its_delegation_says [OF toy_parses, of toy_delegation]
  by (simp add: toy_grant_def)

text \<open>
  The bound on \<open>status_ttl\<close> is checked after a 64-bit product that wraps: a grant without a
  delegation whose \<open>status_ttl\<close> is more than a billion years of seconds is accepted, as one of 60 s.
\<close>

lemma status_ttl_wraps:
  "\<exists>g. parse_grant toy_times toy_lib
     (toy_wire\<lparr>w_ttl := 60 + 2 ^ 55, w_delegation := None, w_sig := None\<rparr>) ''A'' = Some g
     \<and> g_ttl g = 60 * second"
proof -
  have "status_ttl_of (60 + 2 ^ 55) = 60 * second"
    by (simp add: status_ttl_of_def second_def)
  then have t: "status_ttl_of 36028797018964028 = 60000000000" by (simp add: second_def)
  show ?thesis by (simp add: grant_eval t Let_def)
qed

end
