(* ===== verification/Leash.thy ===== *)
theory Leash
  imports Grant
begin

text \<open>
  \<open>internal/leash/leash.go\<close>: the manager of the connector's grants. The record \<open>leash\<close> is
  \<open>Manager\<close>'s state under \<open>mu\<close>; \<open>Apply\<close>, \<open>List\<close>, \<open>Present\<close>, \<open>refresh\<close> and the
  background loop's \<open>step\<close> are its operations, those that wait for the vault split in two.
  The connection's session (\<open>access\<close>), the clock and the vault's packages are arguments.
\<close>

section \<open>Timing and errors\<close>

definition listGrace :: duration where "listGrace = 30 * second"
definition minGap :: duration where "minGap = 15 * second"
definition bgMinGap :: duration where "bgMinGap = minute"
definition wantedFor :: duration where "wantedFor = 15 * minute"
definition retryMax :: duration where "retryMax = 5 * minute"
definition idle :: duration where "idle = minute"
definition listTries :: nat where "listTries = 3"

datatype leash_err =
    ErrSuspended | ErrNotGranted | ErrNotPresentable | ErrNoSession | ErrUnconfirmed | ErrNoDevice
  | UnconfirmedCode string
  | LRefused
  | LOwnerCheck
  | LUnreachable

text \<open>The stable code of an error; \<open>None\<close> where it has none of its own.\<close>

fun err_code :: "leash_err \<Rightarrow> string option" where
  "err_code ErrSuspended = Some ''suspended''"
| "err_code ErrNotGranted = Some ''not_granted''"
| "err_code ErrNotPresentable = Some ''not_presentable''"
| "err_code ErrNoSession = Some ''session_required''"
| "err_code ErrUnconfirmed = Some ''vault_unreachable''"
| "err_code (UnconfirmedCode _) = Some ''vault_unreachable''"
| "err_code LOwnerCheck = Some ''owner_check_required''"
| "err_code LUnreachable = Some ''vault_unreachable''"
| "err_code ErrNoDevice = None"
| "err_code LRefused = None"

text \<open>\<open>errText\<close>: an error for the log, a code and never a body.\<close>

definition err_text :: "leash_err \<Rightarrow> string" where
  "err_text e = (case err_code e of Some c \<Rightarrow> c
     | None \<Rightarrow> if e = LRefused then ''refused'' else ''error'')"

text \<open>\<open>logID\<close>: keeps an gid or a code from the vault printable and short.\<close>

definition log_id :: "string \<Rightarrow> string" where
  "log_id s = (let b = take 64 (filter log_char s) in if b = [] then ''-'' else b)"

section \<open>The manager's state\<close>

record leash =
  l_device :: string
  l_ik :: string
  l_grants :: "grant list"
  l_suspended :: bool
  l_as_of :: time
  l_saved :: bool
  l_gen :: nat
  l_lists :: "string \<rightharpoonup> nat"
  l_listed :: bool
  l_need_list :: bool
  l_listing :: bool
  l_list_fails :: nat
  l_next_list :: time
  l_held :: bool
  l_statements :: "string \<rightharpoonup> statement"
  l_fetched :: "string \<rightharpoonup> time"
  l_refreshed :: "string \<rightharpoonup> time"
  l_wanted :: "string \<rightharpoonup> time"
  l_fails :: "string \<Rightarrow> nat"
  l_dead :: "string \<Rightarrow> bool"
  l_started :: time
  l_wake :: bool

definition new_leash :: "time \<Rightarrow> leash" where
  "new_leash now = \<lparr>l_device = [], l_ik = [], l_grants = [], l_suspended = False, l_as_of = 0,
     l_saved = False, l_gen = 0, l_lists = Map.empty, l_listed = False, l_need_list = False,
     l_listing = False, l_list_fails = 0, l_next_list = 0, l_held = False,
     l_statements = Map.empty, l_fetched = Map.empty, l_refreshed = Map.empty, l_wanted = Map.empty,
     l_fails = (\<lambda>_. 0), l_dead = (\<lambda>_. False), l_started = now, l_wake = False\<rparr>"

definition signal :: "leash \<Rightarrow> leash" where "signal m = m\<lparr>l_wake := True\<rparr>"

text \<open>\<open>forMe\<close>: drops grants whose delegation names another agent key.\<close>

definition is_mine :: "wire_lib \<Rightarrow> string \<Rightarrow> grant \<Rightarrow> bool" where
  "is_mine L ik g = (case g_del g of None \<Rightarrow> True | Some d \<Rightarrow> equal_public L (d_sub d) ik)"

definition for_me :: "wire_lib \<Rightarrow> string \<Rightarrow> grant list \<Rightarrow> grant list" where
  "for_me L ik gs = filter (is_mine L ik) gs"

definition find_grant :: "string \<Rightarrow> grant list \<Rightarrow> grant option" where
  "find_grant gid gs = find (\<lambda>g. g_id g = gid) gs"

text \<open>
  \<open>Bind\<close>: \<open>saved_grants\<close> is what \<open>decodeSaved\<close> read of the record's \<open>leash\<close> member
  (grants, suspended, as of), \<open>None\<close> if there is none or it was not valid.
\<close>

definition bind :: "wire_lib \<Rightarrow> leash \<Rightarrow> string \<Rightarrow> string \<Rightarrow> (grant list \<times> bool \<times> time) option \<Rightarrow> leash_err + leash" where
  "bind L m device ik saved_grants =
    (if device = [] then Inl ErrNoDevice
     else (let m = m\<lparr>l_device := device, l_ik := ik\<rparr> in
       Inr (case saved_grants of None \<Rightarrow> m
            | Some (gs, susp, asof) \<Rightarrow>
                m\<lparr>l_grants := for_me L ik gs, l_suspended := susp, l_as_of := asof, l_saved := True\<rparr>)))"

section \<open>Applying a grant set\<close>

datatype mode = ModeList | ModeNarrow

text \<open>The body: the grants and \<open>suspended\<close>, or \<open>None\<close> if it does not parse as a set.\<close>

definition grant_set :: "json option \<Rightarrow> (json list \<times> bool) option" where
  "grant_set body = (case struct_members body of None \<Rightarrow> None
   | Some ms \<Rightarrow>
      (let (gs, k1) = dec_field ''grants'' (dec_ptr None (dec_list JNull dec_value)) ms None;
           (su, k2) = dec_field ''suspended'' (dec_ptr False dec_bool) ms None in
       if \<not> k1 \<or> \<not> k2 then None
       else (case (gs, su) of
               (Some js, Some s) \<Rightarrow> if MaxGrants < length (elems js) then None else Some (elems js, s)
             | _ \<Rightarrow> None)))"

text \<open>The members of a set that parse, each with its wire form.\<close>

fun parse_set :: "env \<Rightarrow> wire_lib \<Rightarrow> string \<Rightarrow> json list \<Rightarrow> (wire_grant \<times> grant) list" where
  "parse_set E L dev [] = []"
| "parse_set E L dev (j # js) =
     (case dec_wire_grant j of None \<Rightarrow> parse_set E L dev js
      | Some w \<Rightarrow> (case parse_grant E L w dev of None \<Rightarrow> parse_set E L dev js
          | Some g \<Rightarrow> (w, g) # parse_set E L dev js))"

text \<open>Grants listed twice are dropped, and so are other agents' grants.\<close>

definition incoming :: "env \<Rightarrow> wire_lib \<Rightarrow> leash \<Rightarrow> json list \<Rightarrow> (wire_grant \<times> grant) list" where
  "incoming E L m js =
    (let ps = parse_set E L (l_device m) js;
         once = filter (\<lambda>p. count_list (map (g_id \<circ> snd) ps) (g_id (snd p)) \<le> 1) ps in
     filter (is_mine L (l_ik m) \<circ> snd) once)"

definition apply_narrow :: "leash \<Rightarrow> time \<Rightarrow> grant list \<Rightarrow> bool \<Rightarrow> leash" where
  "apply_narrow m now news susp =
    (let same = (\<lambda>g. case find_grant (g_id g) news of None \<Rightarrow> False | Some n \<Rightarrow> g_version n = g_version g);
         kept = filter same (l_grants m);
         gone = filter (\<lambda>g. \<not> same g) (l_grants m);
         stmts = foldl (\<lambda>s g. s(g_id g := None)) (l_statements m) gone;
         newly = (susp \<and> \<not> l_suspended m);
         m = m\<lparr>l_statements := (if newly then Map.empty else stmts), l_suspended := (l_suspended m \<or> susp)\<rparr>;
         m = (if gone \<noteq> [] \<or> newly
              then m\<lparr>l_grants := kept, l_as_of := now, l_saved := True, l_gen := l_gen m + 1\<rparr> else m) in
     signal (m\<lparr>l_need_list := True\<rparr>))"

definition older :: "leash \<Rightarrow> grant \<Rightarrow> bool" where
  "older m g = (case find_grant (g_id g) (l_grants m) of None \<Rightarrow> False | Some old \<Rightarrow> g_version g < g_version old)"

text \<open>The statement sent with a grant, if it was sent with one that passes the check.\<close>

definition sent_statement :: "wire_lib \<Rightarrow> time \<Rightarrow> wire_grant \<Rightarrow> grant \<Rightarrow> statement option" where
  "sent_statement L now w g =
    (if w_status w = None \<and> w_status_sig w = None then None
     else check_statement L g (elems (w_status w)) (elems (w_status_sig w)) (elems (w_rotations w)) now)"

fun statements_of :: "wire_lib \<Rightarrow> time \<Rightarrow> (wire_grant \<times> grant) list \<Rightarrow> (string \<times> statement) list" where
  "statements_of L now [] = []"
| "statements_of L now ((w, g) # ps) =
     (case sent_statement L now w g of None \<Rightarrow> statements_of L now ps
      | Some st \<Rightarrow> (g_id g, st) # statements_of L now ps)"

definition apply_list :: "wire_lib \<Rightarrow> leash \<Rightarrow> time \<Rightarrow> (wire_grant \<times> grant) list \<Rightarrow> bool \<Rightarrow> leash" where
  "apply_list L m now ps susp =
    (let cur = sort_key (g_id \<circ> snd) (filter (\<lambda>p. \<not> older m (snd p)) ps);
         m = (if list_ex (\<lambda>p. older m (snd p)) ps then m\<lparr>l_need_list := True\<rparr> else m);
         m = m\<lparr>l_grants := map snd cur, l_suspended := susp, l_as_of := now, l_saved := True,
               l_statements := (if susp then Map.empty else map_of (statements_of L now cur)),
               l_fails := (\<lambda>_. 0), l_dead := (\<lambda>_. False), l_listed := True\<rparr>;
         m = (if \<not> l_need_list m then m\<lparr>l_list_fails := 0, l_next_list := 0\<rparr> else m) in
     signal m)"

definition apply_set :: "env \<Rightarrow> wire_lib \<Rightarrow> leash \<Rightarrow> time \<Rightarrow> json option \<Rightarrow> mode \<Rightarrow> leash" where
  "apply_set E L m now body md =
    (case grant_set body of
       None \<Rightarrow> signal (m\<lparr>l_listed := False, l_need_list := True\<rparr>)
     | Some (js, susp) \<Rightarrow>
         (let ps = incoming E L m js in
          case md of
            ModeNarrow \<Rightarrow> apply_narrow m now (map snd ps) susp
          | ModeList \<Rightarrow> apply_list L m now ps susp))"

text \<open>\<open>Apply\<close>, one message and a batch.\<close>

definition apply_msg :: "env \<Rightarrow> wire_lib \<Rightarrow> time \<Rightarrow> leash \<Rightarrow> message \<Rightarrow> leash" where
  "apply_msg E L now m msg =
    (if ms_re msg = [] \<and> ms_type msg = ''leash.grant.updated'' then
       (let m = apply_set E L m now (ms_body msg) ModeNarrow in m\<lparr>l_gen := l_gen m + 1\<rparr>)
     else if ms_re msg \<noteq> [] \<and> ms_type msg = ''leash.grant.list'' \<and> ms_ok msg then
       (let md = (if l_lists m (ms_re msg) = Some (l_gen m) then ModeList else ModeNarrow) in
        apply_set E L (m\<lparr>l_lists := (l_lists m)(ms_re msg := None)\<rparr>) now (ms_body msg) md)
     else if ms_re msg = [] \<and> ms_type msg = ''device.session.granted'' then
       signal (m\<lparr>l_listed := False, l_need_list := True, l_list_fails := 0, l_next_list := 0\<rparr>)
     else if ms_re msg = [] \<and> ms_type msg = ''device.session.ended'' then m\<lparr>l_listed := False\<rparr>
     else m)"

definition apply_batch :: "env \<Rightarrow> wire_lib \<Rightarrow> time \<Rightarrow> leash \<Rightarrow> message list \<Rightarrow> leash" where
  "apply_batch E L now m batch = foldl (apply_msg E L now) m batch"

definition leash_on_status :: "leash \<Rightarrow> string \<Rightarrow> leash" where
  "leash_on_status m oc = (if oc \<noteq> ''held'' \<and> l_held m then signal (m\<lparr>l_held := False\<rparr>) else m)"

section \<open>Listing\<close>

fun double_until :: "nat \<Rightarrow> duration \<Rightarrow> duration \<Rightarrow> duration" where
  "double_until 0 limit d = d"
| "double_until (Suc k) limit d = (if d < limit then double_until k limit (2 * d) else d)"

definition backoff :: "duration \<Rightarrow> duration \<Rightarrow> nat \<Rightarrow> duration" where
  "backoff base limit n = min (double_until (n - 1) limit base) limit"

definition list_failed :: "leash \<Rightarrow> time \<Rightarrow> leash" where
  "list_failed m now =
    (let n = l_list_fails m + 1 in m\<lparr>l_list_fails := n, l_next_list := now + backoff minGap retryMax n\<rparr>)"

text \<open>\<open>listOnce\<close> up to its request; \<open>gid\<close> is the new ULID.\<close>

definition list_begin :: "leash \<Rightarrow> string \<Rightarrow> leash" where
  "list_begin m gid = m\<lparr>l_lists := (l_lists m)(gid \<mapsto> l_gen m), l_need_list := False\<rparr>"

datatype list_out = ListOk | ListErr leash_err | ListAgain

text \<open>Its end; the second result is the code given to \<open>OnAnswer\<close>, if any.\<close>

definition list_end :: "leash \<Rightarrow> time \<Rightarrow> string \<Rightarrow> reply \<Rightarrow> leash \<times> list_out \<times> string option" where
  "list_end m now gid r =
    (case r of
       Inl e \<Rightarrow>
         (list_failed (m\<lparr>l_lists := (l_lists m)(gid := None), l_need_list := True\<rparr>) now,
          ListErr (if e = ReqRefused then LRefused else ErrUnconfirmed), None)
     | Inr rs \<Rightarrow>
         if \<not> rs_ok rs then
           (let m = m\<lparr>l_lists := (l_lists m)(gid := None), l_need_list := True\<rparr>; code = rs_code rs in
            if code = ''session_required'' then (m\<lparr>l_listed := False\<rparr>, ListErr ErrNoSession, Some code)
            else if code = ''owner_check_required'' then (m\<lparr>l_held := True\<rparr>, ListErr LOwnerCheck, Some code)
            else (list_failed m now, ListErr (UnconfirmedCode (log_id code)), Some code))
         else if l_lists m gid \<noteq> None then
           (list_failed (m\<lparr>l_lists := (l_lists m)(gid := None), l_need_list := True\<rparr>) now,
            ListErr ErrUnconfirmed, None)
         else if l_need_list m then (m, ListAgain, None)
         else if \<not> l_listed m then (list_failed m now, ListErr ErrUnconfirmed, None)
         else (m, ListOk, None))"

text \<open>
  \<open>List\<close>'s loop over what its tries came to: at most \<open>listTries\<close>, then it counts as a failed
  list. The result is the error, if any, and whether \<open>listFailed\<close> is called at the end.
\<close>

fun list_loop :: "nat \<Rightarrow> list_out list \<Rightarrow> (leash_err option \<times> bool) option" where
  "list_loop 0 outs = Some (Some ErrUnconfirmed, True)"
| "list_loop (Suc n) [] = None"
| "list_loop (Suc n) (ListOk # outs) = Some (None, False)"
| "list_loop (Suc n) (ListErr e # outs) = Some (Some e, False)"
| "list_loop (Suc n) (ListAgain # outs) = list_loop n outs"

definition list_tries :: "list_out list \<Rightarrow> (leash_err option \<times> bool) option" where
  "list_tries outs = list_loop listTries outs"

text \<open>\<open>List\<close> when one is under way: what the caller that waited for it answers.\<close>

definition list_joined :: "leash \<Rightarrow> leash_err option" where
  "list_joined m = (if \<not> l_listed m \<or> l_need_list m then Some ErrUnconfirmed else None)"

section \<open>Refreshing a statement\<close>

definition refresh_begin :: "leash \<Rightarrow> time \<Rightarrow> string \<Rightarrow> leash" where
  "refresh_begin m now gid = m\<lparr>l_fetched := (l_fetched m)(gid \<mapsto> now)\<rparr>"

definition fail_refresh :: "leash \<Rightarrow> string \<Rightarrow> leash" where
  "fail_refresh m gid = m\<lparr>l_fails := (l_fails m)(gid := l_fails m gid + 1)\<rparr>"

definition status_answer :: "json option \<Rightarrow> (string \<times> string \<times> string \<times> json list) option" where
  "status_answer body = (case struct_members body of None \<Rightarrow> None
   | Some ms \<Rightarrow>
      (let (i, k1) = dec_field ''grant_id'' dec_string ms [];
           (s, k2) = dec_field ''status'' dec_bytes ms None;
           (g, k3) = dec_field ''status_sig'' dec_bytes ms None;
           (r, k4) = dec_field ''rotations'' (dec_list JNull dec_value) ms None in
       if k1 \<and> k2 \<and> k3 \<and> k4 then Some (i, elems s, elems g, elems r) else None))"

text \<open>The vault's answer: an error code, or the statement.\<close>

definition refresh_refused :: "leash \<Rightarrow> string \<Rightarrow> string \<Rightarrow> leash \<times> leash_err option \<times> string option" where
  "refresh_refused m gid code =
    (if code = ''not_found'' then
       (signal (m\<lparr>l_statements := (l_statements m)(gid := None), l_dead := (l_dead m)(gid := True),
                 l_gen := l_gen m + 1, l_need_list := True\<rparr>), Some ErrNotGranted, Some code)
     else if code = ''forbidden'' then
       (signal (m\<lparr>l_suspended := True, l_saved := True, l_statements := Map.empty,
                 l_gen := l_gen m + 1, l_need_list := True\<rparr>), Some ErrSuspended, Some code)
     else if code = ''owner_check_required'' then
       (signal (m\<lparr>l_held := True\<rparr>), Some LOwnerCheck, Some code)
     else if code = ''session_required'' then
       (signal (m\<lparr>l_listed := False\<rparr>), Some ErrNoSession, Some code)
     else (signal (fail_refresh m gid), Some (UnconfirmedCode (log_id code)), Some code))"

definition refresh_ok :: "wire_lib \<Rightarrow> leash \<Rightarrow> time \<Rightarrow> string \<Rightarrow> json option \<Rightarrow> leash \<times> leash_err option" where
  "refresh_ok L m now gid body =
    (case find_grant gid (l_grants m) of None \<Rightarrow> (m, Some ErrNotGranted)
     | Some g \<Rightarrow>
         if l_dead m gid then (m, Some ErrNotGranted)
         else if l_suspended m then (m, Some ErrSuspended)
         else (case status_answer body of
                 None \<Rightarrow> (fail_refresh m gid, Some ErrUnconfirmed)
               | Some (i, s, sg, rots) \<Rightarrow>
                   if i \<noteq> gid then (fail_refresh m gid, Some ErrUnconfirmed)
                   else (case check_statement L g s sg rots now of
                           None \<Rightarrow> (fail_refresh m gid, Some ErrUnconfirmed)
                         | Some st \<Rightarrow>
                             (m\<lparr>l_statements := (l_statements m)(gid \<mapsto> st),
                               l_refreshed := (l_refreshed m)(gid \<mapsto> now),
                               l_fails := (l_fails m)(gid := 0)\<rparr>, None))))"

definition refresh_end :: "wire_lib \<Rightarrow> leash \<Rightarrow> time \<Rightarrow> string \<Rightarrow> reply \<Rightarrow> leash \<times> leash_err option \<times> string option" where
  "refresh_end L m now gid r =
    (case r of
       Inl e \<Rightarrow> (fail_refresh m gid, Some (if e = ReqRefused then LRefused else LUnreachable), None)
     | Inr rs \<Rightarrow>
         if \<not> rs_ok rs then refresh_refused m gid (rs_code rs)
         else (let (m, e) = refresh_ok L m now gid (rs_body rs) in (m, e, None)))"

section \<open>Presenting a grant\<close>

definition presentable :: "wire_lib \<Rightarrow> leash \<Rightarrow> access \<Rightarrow> string \<Rightarrow> time \<Rightarrow> leash_err + grant" where
  "presentable L m a gid now =
    (if l_suspended m then Inl ErrSuspended
     else if \<not> active a now then Inl ErrNoSession
     else if \<not> l_listed m then Inl ErrUnconfirmed
     else (case find_grant gid (l_grants m) of None \<Rightarrow> Inl ErrNotGranted
       | Some g \<Rightarrow> if expired g now \<or> l_dead m gid then Inl ErrNotGranted
           else (case g_del g of None \<Rightarrow> Inl ErrNotPresentable
             | Some d \<Rightarrow> if l_ik m = [] \<or> \<not> equal_public L (d_sub d) (l_ik m)
               then Inl ErrNotPresentable else Inr g)))"

definition usable :: "wire_lib \<Rightarrow> leash \<Rightarrow> string \<Rightarrow> statement option \<Rightarrow> time \<Rightarrow> bool" where
  "usable L m gid st now =
    (case st of None \<Rightarrow> False
     | Some s \<Rightarrow>
         if now < st_issued s - status_skew L \<or> \<not> now < st_not_after s then False
         else if now < refresh_at s then True
         else (case l_refreshed m gid of None \<Rightarrow> False | Some r \<Rightarrow> now < r + minGap))"

definition want :: "leash \<Rightarrow> time \<Rightarrow> string \<Rightarrow> leash" where
  "want m now gid = m\<lparr>l_wanted := (l_wanted m)(gid \<mapsto> now)\<rparr>"

text \<open>
  \<open>Present\<close>: its first look decides whether the grants are listed first; then it presents, or
  asks for a refresh, or fails; after the refresh it looks once more.
\<close>

datatype present_out = Presented presented | NeedRefresh | PresentErr leash_err

definition present_first :: "wire_lib \<Rightarrow> leash \<Rightarrow> access \<Rightarrow> string \<Rightarrow> time \<Rightarrow> leash_err option" where
  "present_first L m a gid now = (case presentable L m a gid now of
     Inl ErrUnconfirmed \<Rightarrow> Some ErrUnconfirmed | Inl e \<Rightarrow> Some e | Inr _ \<Rightarrow> None)"

definition present_look :: "wire_lib \<Rightarrow> leash \<Rightarrow> access \<Rightarrow> string \<Rightarrow> time \<Rightarrow> present_out" where
  "present_look L m a gid now = (case presentable L m a gid now of
     Inl e \<Rightarrow> PresentErr e
   | Inr g \<Rightarrow> (case l_statements m gid of
       Some st \<Rightarrow> if usable L m gid (Some st) now then Presented (presented_of g st) else NeedRefresh
     | None \<Rightarrow> NeedRefresh))"

definition present_last :: "wire_lib \<Rightarrow> leash \<Rightarrow> access \<Rightarrow> string \<Rightarrow> time \<Rightarrow> present_out" where
  "present_last L m a gid now = (case present_look L m a gid now of
     NeedRefresh \<Rightarrow> PresentErr ErrUnconfirmed | out \<Rightarrow> out)"

section \<open>Facts of the operations\<close>

lemma count_list_filter: "count_list (filter P xs) x = (if P x then count_list xs x else 0)"
  by (induction xs) auto

lemma distinct_of_counts: "\<forall>x. count_list xs x \<le> 1 \<Longrightarrow> distinct xs"
proof (induction xs)
  case (Cons y xs)
  have "count_list (y # xs) y \<le> 1" using Cons.prems by blast
  then have "y \<notin> set xs" by (simp add: count_list_0_iff [symmetric])
  moreover have "count_list xs x \<le> 1" for x
    using Cons.prems [rule_format, of x] by (simp split: if_splits)
  ultimately show ?case using Cons.IH by simp
qed simp

lemma incoming_distinct: "distinct (map (g_id \<circ> snd) (incoming E L m js))"
proof -
  let ?ps = "parse_set E L (l_device m) js"
  let ?once = "filter (\<lambda>p. count_list (map (g_id \<circ> snd) ?ps) (g_id (snd p)) \<le> 1) ?ps"
  have "map (g_id \<circ> snd) ?once
      = filter (\<lambda>i. count_list (map (g_id \<circ> snd) ?ps) i \<le> 1) (map (g_id \<circ> snd) ?ps)"
    by (simp add: filter_map comp_def)
  then have "distinct (map (g_id \<circ> snd) ?once)"
    by (simp only:) (auto intro: distinct_of_counts simp: count_list_filter)
  then have "distinct (map (g_id \<circ> snd) (filter (is_mine L (l_ik m) \<circ> snd) ?once))"
    by (rule distinct_map_filter)
  then show ?thesis by (simp only: incoming_def Let_def)
qed

lemma incoming_mine: "p \<in> set (incoming E L m js) \<Longrightarrow> is_mine L (l_ik m) (snd p)"
  by (simp add: incoming_def Let_def)

lemma find_grant_some: "find_grant i gs = Some g \<Longrightarrow> g \<in> set gs \<and> g_id g = i"
  by (auto simp: find_grant_def find_Some_iff)

lemma find_grant_distinct: "distinct (map g_id gs) \<Longrightarrow> g \<in> set gs \<Longrightarrow> find_grant (g_id g) gs = Some g"
  by (induction gs) (auto simp: find_grant_def)

lemma statements_of_some:
  "map_of (statements_of L now ps) i = Some st \<Longrightarrow>
     \<exists>w g. (w, g) \<in> set ps \<and> g_id g = i \<and> sent_statement L now w g = Some st"
  by (induction ps rule: statements_of.induct) (auto split: option.splits if_splits)

lemma drop_statements:
  "foldl (\<lambda>s g. s(g_id g := None)) s gs i = (if i \<in> g_id ` set gs then None else s i)"
  by (induction gs arbitrary: s) auto

text \<open>What a grant set applied as a narrowing leaves, member by member.\<close>

definition same_version :: "grant list \<Rightarrow> grant \<Rightarrow> bool" where
  "same_version news g = (case find_grant (g_id g) news of None \<Rightarrow> False | Some n \<Rightarrow> g_version n = g_version g)"

lemma apply_narrow_simps:
  "l_grants (apply_narrow m now news susp) = filter (same_version news) (l_grants m)"
  "l_statements (apply_narrow m now news susp) i =
     (if susp \<and> \<not> l_suspended m then None
      else if i \<in> g_id ` set (filter (\<lambda>g. \<not> same_version news g) (l_grants m)) then None
      else l_statements m i)"
  "l_suspended (apply_narrow m now news susp) = (l_suspended m \<or> susp)"
  "l_dead (apply_narrow m now news susp) = l_dead m"
  "l_lists (apply_narrow m now news susp) = l_lists m"
  "l_listed (apply_narrow m now news susp) = l_listed m"
  "l_ik (apply_narrow m now news susp) = l_ik m"
  "l_device (apply_narrow m now news susp) = l_device m"
  "l_held (apply_narrow m now news susp) = l_held m"
  "l_gen m \<le> l_gen (apply_narrow m now news susp)"
  by (auto simp add: apply_narrow_def Let_def signal_def drop_statements same_version_def [abs_def]
      filter_empty_conv filter_id_conv)

section \<open>What only narrows\<close>

text \<open>\<open>m'\<close> lets the connector present nothing that \<open>m\<close> does not.\<close>

definition narrower :: "leash \<Rightarrow> leash \<Rightarrow> bool" where
  "narrower m' m =
     (set (l_grants m') \<subseteq> set (l_grants m) \<and> (l_suspended m \<longrightarrow> l_suspended m')
      \<and> (\<forall>i st. l_statements m' i = Some st \<longrightarrow> l_statements m i = Some st)
      \<and> (\<forall>i. l_dead m i \<longrightarrow> l_dead m' i) \<and> (l_listed m' \<longrightarrow> l_listed m))"

lemma narrower_refl [simp]: "narrower m m"
  by (simp add: narrower_def)

lemma narrower_trans: "narrower a b \<Longrightarrow> narrower b c \<Longrightarrow> narrower a c"
  unfolding narrower_def by blast

lemma narrower_same:
  "l_grants m' = l_grants m \<Longrightarrow> l_suspended m' = l_suspended m \<Longrightarrow> l_statements m' = l_statements m
   \<Longrightarrow> l_dead m' = l_dead m \<Longrightarrow> (l_listed m' \<Longrightarrow> l_listed m) \<Longrightarrow> narrower m' m"
  by (simp add: narrower_def)

lemma apply_narrow_narrower: "narrower (apply_narrow m now news susp) m"
  unfolding narrower_def apply_narrow_simps by (auto split: if_splits)

lemma signal_simps [simp]:
  "l_grants (signal m) = l_grants m" "l_suspended (signal m) = l_suspended m"
  "l_statements (signal m) = l_statements m" "l_dead (signal m) = l_dead m"
  "l_listed (signal m) = l_listed m" "l_lists (signal m) = l_lists m" "l_gen (signal m) = l_gen m"
  "l_ik (signal m) = l_ik m" "l_device (signal m) = l_device m" "l_held (signal m) = l_held m"
  by (simp_all add: signal_def)

lemma apply_set_narrower: "narrower (apply_set E L m now body ModeNarrow) m"
  by (auto simp: apply_set_def Let_def apply_narrow_narrower intro: narrower_same split: option.split)

text \<open>The message that may widen: the answer to a list this process sent, nothing learned since.\<close>

definition confirms :: "leash \<Rightarrow> message \<Rightarrow> bool" where
  "confirms m msg = (ms_re msg \<noteq> [] \<and> ms_type msg = ''leash.grant.list'' \<and> ms_ok msg
     \<and> l_lists m (ms_re msg) = Some (l_gen m))"

lemma apply_msg_narrower: "\<not> confirms m msg \<Longrightarrow> narrower (apply_msg E L now m msg) m"
proof -
  assume c: "\<not> confirms m msg"
  let ?u = "apply_set E L m now (ms_body msg) ModeNarrow"
  let ?m = "m\<lparr>l_lists := (l_lists m)(ms_re msg := None)\<rparr>"
  have "narrower (?u\<lparr>l_gen := l_gen ?u + 1\<rparr>) m"
    by (rule narrower_trans [OF narrower_same apply_set_narrower]) simp_all
  moreover have "narrower (apply_set E L ?m now (ms_body msg) ModeNarrow) m"
    by (rule narrower_trans [OF apply_set_narrower narrower_same]) simp_all
  ultimately show ?thesis
    using c by (auto simp: apply_msg_def confirms_def Let_def intro: narrower_same)
qed

text \<open>The lists waited for are only taken off, the one a message answers among them.\<close>

lemma apply_set_lists [simp]: "l_lists (apply_set E L m now body md) = l_lists m"
  by (simp add: apply_set_def apply_list_def apply_narrow_simps Let_def split: option.split mode.split)

lemma apply_msg_lists:
  "l_lists (apply_msg E L now m msg) =
     (if ms_re msg \<noteq> [] \<and> ms_type msg = ''leash.grant.list'' \<and> ms_ok msg
      then (l_lists m)(ms_re msg := None) else l_lists m)"
  by (simp add: apply_msg_def Let_def)

lemma apply_batch_lists:
  "l_lists m i = None \<Longrightarrow> l_lists (apply_batch E L now m b) i = None"
  "msg \<in> set b \<Longrightarrow> ms_re msg \<noteq> [] \<Longrightarrow> ms_type msg = ''leash.grant.list'' \<Longrightarrow> ms_ok msg
     \<Longrightarrow> l_lists (apply_batch E L now m b) (ms_re msg) = None"
proof -
  show none: "l_lists m i = None \<Longrightarrow> l_lists (apply_batch E L now m b) i = None" for m b i
    unfolding apply_batch_def by (induction b arbitrary: m) (simp_all add: apply_msg_lists)
  show "msg \<in> set b \<Longrightarrow> ms_re msg \<noteq> [] \<Longrightarrow> ms_type msg = ''leash.grant.list'' \<Longrightarrow> ms_ok msg
     \<Longrightarrow> l_lists (apply_batch E L now m b) (ms_re msg) = None"
  proof (induction b arbitrary: m)
    case (Cons x b)
    then show ?case
      using none [of "apply_msg E L now m x" "ms_re msg" b]
      by (cases "x = msg") (auto simp: apply_batch_def apply_msg_lists)
  qed simp
qed

lemma apply_batch_narrower:
  "\<forall>msg\<in>set b. ms_re msg \<noteq> [] \<and> ms_type msg = ''leash.grant.list'' \<and> ms_ok msg
     \<longrightarrow> l_lists m (ms_re msg) = None
   \<Longrightarrow> narrower (apply_batch E L now m b) m"
proof (induction b arbitrary: m)
  case (Cons x b)
  have "\<not> confirms m x" using Cons.prems by (auto simp: confirms_def)
  then have "narrower (apply_msg E L now m x) m" by (rule apply_msg_narrower)
  moreover have "narrower (apply_batch E L now (apply_msg E L now m x) b) (apply_msg E L now m x)"
    using Cons.prems by (intro Cons.IH) (auto simp: apply_msg_lists)
  ultimately show ?case by (auto simp: apply_batch_def intro: narrower_trans)
qed (simp add: apply_batch_def)

section \<open>The manager at work\<close>

text \<open>
  The manager beside its connection: the session, the clock. Lists and refreshes are begun and
  ended in any order, answered with anything; \<open>v_asked\<close> holds the ids of the lists under way.
\<close>

record lworld =
  v_m :: leash
  v_cur :: access
  v_clock :: time

datatype llabel =
    LApply "message list"
  | LListBegin string
  | LListEnd string reply
  | LWant string
  | LRefreshBegin string
  | LRefreshEnd string reply
  | LOwner string
  | LSession access
  | LClock time

inductive lstep :: "env \<Rightarrow> wire_lib \<Rightarrow> lworld \<Rightarrow> llabel \<Rightarrow> lworld \<Rightarrow> bool" for E L where
  l_apply: "lstep E L w (LApply b) (w\<lparr>v_m := apply_batch E L (v_clock w) (v_m w) b\<rparr>)"
| l_list_begin: "lstep E L w (LListBegin i) (w\<lparr>v_m := list_begin (v_m w) i\<rparr>)"
| l_list_end: "lstep E L w (LListEnd i r) (w\<lparr>v_m := fst (list_end (v_m w) (v_clock w) i r)\<rparr>)"
| l_want: "lstep E L w (LWant i) (w\<lparr>v_m := want (v_m w) (v_clock w) i\<rparr>)"
| l_refresh_begin: "lstep E L w (LRefreshBegin i) (w\<lparr>v_m := refresh_begin (v_m w) (v_clock w) i\<rparr>)"
| l_refresh_end: "lstep E L w (LRefreshEnd i r) (w\<lparr>v_m := fst (refresh_end L (v_m w) (v_clock w) i r)\<rparr>)"
| l_owner: "lstep E L w (LOwner oc) (w\<lparr>v_m := leash_on_status (v_m w) oc\<rparr>)"
| l_session: "lstep E L w (LSession a) (w\<lparr>v_cur := a\<rparr>)"
| l_clock: "v_clock w \<le> t \<Longrightarrow> lstep E L w (LClock t) (w\<lparr>v_clock := t\<rparr>)"

inductive_cases lstep_refreshE: "lstep E L w (LRefreshEnd i r) w'"

text \<open>A statement that passed the check for its grant, at some time so far.\<close>

definition checked :: "wire_lib \<Rightarrow> grant \<Rightarrow> statement \<Rightarrow> time \<Rightarrow> bool" where
  "checked L g st now =
     (\<exists>t\<le>now. \<exists>rots. check_statement L g (st_status st) (st_sig st) rots t = Some st)"

definition linv :: "wire_lib \<Rightarrow> string \<Rightarrow> leash \<Rightarrow> time \<Rightarrow> bool" where
  "linv L ik m now =
     (l_ik m = ik \<and> (\<forall>g\<in>set (l_grants m). is_mine L ik g) \<and> distinct (map g_id (l_grants m))
      \<and> (\<forall>i st. l_statements m i = Some st \<longrightarrow>
           (\<exists>g\<in>set (l_grants m). g_id g = i \<and> checked L g st now) \<and> \<not> l_suspended m \<and> \<not> l_dead m i))"

lemma check_statement_texts:
  "check_statement L g status sig rots now = Some st \<Longrightarrow> st_status st = status \<and> st_sig st = sig"
  by (auto simp: check_statement_def Let_def split: option.splits if_splits)

lemma checked_now: "check_statement L g status sig rots now = Some st \<Longrightarrow> checked L g st now"
  using check_statement_texts [of L g status sig rots now st] unfolding checked_def by auto

lemma linv_same:
  "linv L ik m now \<Longrightarrow> l_ik m' = l_ik m \<Longrightarrow> l_grants m' = l_grants m \<Longrightarrow> l_suspended m' = l_suspended m
   \<Longrightarrow> l_statements m' = l_statements m \<Longrightarrow> l_dead m' = l_dead m \<Longrightarrow> linv L ik m' now"
  by (simp add: linv_def)

lemma linv_narrow: "linv L ik m now \<Longrightarrow> linv L ik (apply_narrow m now' news susp) now"
  unfolding linv_def apply_narrow_simps
  by (auto simp: distinct_map_filter split: if_splits) blast

lemma linv_list:
  assumes "linv L ik m now" and "\<forall>p\<in>set ps. is_mine L ik (snd p)" and "distinct (map (g_id \<circ> snd) ps)"
  shows "linv L ik (apply_list L m now ps susp) now"
proof -
  let ?cur = "sort_key (g_id \<circ> snd) (filter (\<lambda>p. \<not> older m (snd p)) ps)"
  let ?m = "apply_list L m now ps susp"
  have f: "l_grants ?m = map snd ?cur" "l_suspended ?m = susp" "l_dead ?m = (\<lambda>_. False)" "l_ik ?m = l_ik m"
      "l_statements ?m = (if susp then Map.empty else map_of (statements_of L now ?cur))"
    by (simp_all add: apply_list_def Let_def)
  have "distinct (map (g_id \<circ> snd) ?cur)"
    using assms(3) by (simp add: distinct_map distinct_map_filter inj_on_def distinct_filter)
  moreover have "\<exists>g\<in>set (map snd ?cur). g_id g = i \<and> checked L g st now"
    if "map_of (statements_of L now ?cur) i = Some st" for i st
  proof -
    from statements_of_some [OF that] obtain w g where p: "(w, g) \<in> set ?cur" "g_id g = i"
        "sent_statement L now w g = Some st" by blast
    then have "checked L g st now" by (auto simp: sent_statement_def intro: checked_now split: if_splits)
    with p show ?thesis by force
  qed
  ultimately show ?thesis
    using assms(1,2) unfolding linv_def f by auto
qed

lemma apply_narrow_as: "l_as_of (apply_narrow m now news susp) \<in> {l_as_of m, now}"
  by (simp add: apply_narrow_def Let_def signal_def)

lemma linv_set: "linv L ik m now \<Longrightarrow> linv L ik (apply_set E L m now body md) now"
proof (cases "grant_set body")
  case None
  then show "linv L ik m now \<Longrightarrow> ?thesis" by (auto simp: apply_set_def intro: linv_same)
next
  case (Some p)
  obtain js susp where p: "p = (js, susp)" by fastforce
  assume inv: "linv L ik m now"
  then have "\<forall>q\<in>set (incoming E L m js). is_mine L ik (snd q)"
    using incoming_mine by (auto simp: linv_def)
  with inv Some p show ?thesis
    by (cases md) (simp_all add: apply_set_def Let_def linv_narrow linv_list incoming_distinct)
qed

lemma linv_msg: "linv L ik m now \<Longrightarrow> linv L ik (apply_msg E L now m msg) now"
proof -
  assume inv: "linv L ik m now"
  have "linv L ik (m\<lparr>l_lists := ls\<rparr>) now" for ls by (rule linv_same [OF inv]) simp_all
  then have "linv L ik (apply_set E L (m\<lparr>l_lists := ls\<rparr>) now body md) now" for ls body md
    by (rule linv_set)
  moreover have "linv L ik (u\<lparr>l_gen := n\<rparr>) now" if "linv L ik u now" for u n
    by (rule linv_same [OF that]) simp_all
  ultimately show ?thesis
    using inv by (auto simp: apply_msg_def Let_def linv_set intro: linv_same [OF inv])
qed

lemma linv_batch: "linv L ik m now \<Longrightarrow> linv L ik (apply_batch E L now m b) now"
  unfolding apply_batch_def by (induction b arbitrary: m) (simp_all add: linv_msg)

lemma list_end_frame:
  "l_grants (fst (list_end m now i r)) = l_grants m"
  "l_suspended (fst (list_end m now i r)) = l_suspended m"
  "l_statements (fst (list_end m now i r)) = l_statements m"
  "l_dead (fst (list_end m now i r)) = l_dead m"
  "l_ik (fst (list_end m now i r)) = l_ik m"
  "l_gen (fst (list_end m now i r)) = l_gen m"
  "l_lists (fst (list_end m now i r)) j \<in> {None, l_lists m j}"
  "l_listed (fst (list_end m now i r)) \<Longrightarrow> l_listed m"
  by (cases r; simp add: list_end_def list_failed_def Let_def split: if_splits)+

lemma fail_refresh_simps [simp]:
  "l_grants (fail_refresh m i) = l_grants m" "l_suspended (fail_refresh m i) = l_suspended m"
  "l_statements (fail_refresh m i) = l_statements m" "l_dead (fail_refresh m i) = l_dead m"
  "l_lists (fail_refresh m i) = l_lists m" "l_gen (fail_refresh m i) = l_gen m"
  "l_ik (fail_refresh m i) = l_ik m"
  by (simp_all add: fail_refresh_def)

text \<open>A statement fetched by \<open>refresh\<close> is kept only for a grant that is current and not refused.\<close>

definition with_statement :: "leash \<Rightarrow> string \<Rightarrow> statement \<Rightarrow> time \<Rightarrow> leash" where
  "with_statement m i st now = m\<lparr>l_statements := (l_statements m)(i \<mapsto> st),
     l_refreshed := (l_refreshed m)(i \<mapsto> now), l_fails := (l_fails m)(i := 0)\<rparr>"

lemma refresh_ok_cases:
  obtains "fst (refresh_ok L m now i body) = m"
  | "fst (refresh_ok L m now i body) = fail_refresh m i"
  | g st where "g \<in> set (l_grants m)" "g_id g = i" "\<not> l_dead m i" "\<not> l_suspended m"
      "checked L g st now" "fst (refresh_ok L m now i body) = with_statement m i st now"
proof (cases "find_grant i (l_grants m)")
  case None
  then show ?thesis using that(1) by (simp add: refresh_ok_def)
next
  case (Some g)
  show ?thesis
  proof (cases "l_dead m i \<or> l_suspended m")
    case True
    with Some show ?thesis using that(1) by (auto simp: refresh_ok_def)
  next
    case ok: False
    show ?thesis
    proof (cases "status_answer body")
      case None
      with Some ok show ?thesis using that(2) by (simp add: refresh_ok_def)
    next
      case (Some a)
      obtain i' s sg rots where a: "a = (i', s, sg, rots)" by (cases a)
      show ?thesis
      proof (cases "i' = i \<and> check_statement L g s sg rots now \<noteq> None")
        case False
        with \<open>find_grant i (l_grants m) = Some g\<close> ok Some a show ?thesis
          using that(2) by (auto simp: refresh_ok_def)
      next
        case True
        then obtain st where st: "check_statement L g s sg rots now = Some st" by blast
        with \<open>find_grant i (l_grants m) = Some g\<close> ok Some a True
        have "fst (refresh_ok L m now i body) = with_statement m i st now"
          by (simp add: refresh_ok_def with_statement_def)
        with \<open>find_grant i (l_grants m) = Some g\<close> ok st show ?thesis
          using that(3) [of g st] find_grant_some checked_now by blast
      qed
    qed
  qed
qed

lemma refresh_end_state:
  obtains "fst (refresh_end L m now i r) = fail_refresh m i"
  | code where "fst (refresh_end L m now i r) = fst (refresh_refused m i code)"
  | body where "fst (refresh_end L m now i r) = fst (refresh_ok L m now i body)"
proof (cases r)
  case (Inl e)
  then show ?thesis using that(1) by (simp add: refresh_end_def)
next
  case (Inr rs)
  then show ?thesis
    using that(2) [of "rs_code rs"] that(3) [of "rs_body rs"]
    by (cases "rs_ok rs") (simp_all add: refresh_end_def case_prod_unfold Let_def)
qed

lemma linv_refresh_refused: "linv L ik m now \<Longrightarrow> linv L ik (fst (refresh_refused m i code)) now"
proof -
  assume inv: "linv L ik m now"
  have nf: "linv L ik (m\<lparr>l_statements := (l_statements m)(i := None), l_dead := (l_dead m)(i := True)\<rparr>) now"
    and fb: "linv L ik (m\<lparr>l_suspended := True, l_statements := Map.empty\<rparr>) now"
    using inv by (auto simp: linv_def)
  consider "code = ''not_found''" | "code = ''forbidden''"
    | "code \<notin> {''not_found'', ''forbidden''}" by blast
  then show ?thesis
  proof cases
    case 1 then show ?thesis by (intro linv_same [OF nf]) (simp_all add: refresh_refused_def)
  next
    case 2 then show ?thesis by (intro linv_same [OF fb]) (simp_all add: refresh_refused_def)
  next
    case 3 then show ?thesis by (intro linv_same [OF inv]) (simp_all add: refresh_refused_def)
  qed
qed

lemma linv_refresh_end:
  assumes inv: "linv L ik m now"
  shows "linv L ik (fst (refresh_end L m now i r)) now"
proof (cases rule: refresh_end_state [of L m now i r])
  case 1
  then show ?thesis by (auto intro: linv_same [OF inv])
next
  case (2 code)
  then show ?thesis by (simp add: linv_refresh_refused inv)
next
  case (3 body)
  show ?thesis
  proof (cases rule: refresh_ok_cases [of L m now i body])
    case 1 with 3 inv show ?thesis by simp
  next
    case 2 with 3 show ?thesis by (auto intro: linv_same [OF inv])
  next
    case (3 g st)
    with inv \<open>fst (refresh_end L m now i r) = fst (refresh_ok L m now i body)\<close> show ?thesis
      by (auto simp: linv_def with_statement_def)
  qed
qed

lemma linv_step: "lstep E L w l w' \<Longrightarrow> linv L ik (v_m w) (v_clock w) \<Longrightarrow> linv L ik (v_m w') (v_clock w')"
proof (induction rule: lstep.cases)
  case (l_list_end w i r)
  then show ?case by (auto simp: list_end_frame intro: linv_same)
next
  case (l_clock w t)
  have "checked L g st t" if "checked L g st (v_clock w)" for g st
    using that l_clock order_trans unfolding checked_def by blast
  with l_clock show ?case by (fastforce simp: linv_def)
qed (auto simp: linv_batch linv_refresh_end list_begin_def want_def refresh_begin_def leash_on_status_def
       intro: linv_same)

interpretation lm: invariant_system "lstep E L" "\<lambda>w. linv L ik (v_m w) (v_clock w)" for E L ik
  by unfold_locales (rule linv_step)

text \<open>A grant refused as not found, and every grant once the agent is suspended, until a list.\<close>

definition refused :: "string \<Rightarrow> leash \<Rightarrow> bool" where
  "refused i m = ((l_dead m i \<or> l_suspended m) \<and> (\<forall>r n. l_lists m r = Some n \<longrightarrow> n < l_gen m))"

lemma apply_set_gen: "l_gen m \<le> l_gen (apply_set E L m now body ModeNarrow)"
  by (simp add: apply_set_def Let_def apply_narrow_simps(10) split: option.split)

lemma apply_msg_gen: "\<not> confirms m msg \<Longrightarrow> l_gen m \<le> l_gen (apply_msg E L now m msg)"
proof -
  assume c: "\<not> confirms m msg"
  have "l_gen m \<le> l_gen (apply_set E L (m\<lparr>l_lists := ls\<rparr>) now body ModeNarrow)" for ls body
    using apply_set_gen [of "m\<lparr>l_lists := ls\<rparr>"] by simp
  with c show ?thesis
    using apply_set_gen [of m E L now "ms_body msg"] by (auto simp: apply_msg_def confirms_def Let_def)
qed

lemma refused_msg: "refused i m \<Longrightarrow> refused i (apply_msg E L now m msg)"
proof -
  assume r: "refused i m"
  then have c: "\<not> confirms m msg" by (auto simp: refused_def confirms_def)
  have "n < l_gen m" if "l_lists (apply_msg E L now m msg) k = Some n" for k n
    using that r by (auto simp: refused_def apply_msg_lists split: if_splits)
  with apply_msg_gen [OF c, of E L now] have "\<forall>k n. l_lists (apply_msg E L now m msg) k = Some n
      \<longrightarrow> n < l_gen (apply_msg E L now m msg)"
    using less_le_trans by blast
  with apply_msg_narrower [OF c, of E L now] r show ?thesis
    unfolding refused_def narrower_def by blast
qed

lemma refused_batch: "refused i m \<Longrightarrow> refused i (apply_batch E L now m b)"
  unfolding apply_batch_def by (induction b arbitrary: m) (simp_all add: refused_msg)

definition begins_list :: "llabel \<Rightarrow> bool" where
  "begins_list l = (case l of LListBegin _ \<Rightarrow> True | _ \<Rightarrow> False)"

lemma refused_refresh_end: "refused i m \<Longrightarrow> refused i (fst (refresh_end L m now j r))"
proof (cases rule: refresh_end_state [of L m now j r])
  case 1
  then show "refused i m \<Longrightarrow> ?thesis" by (simp add: refused_def)
next
  case (2 code)
  then show "refused i m \<Longrightarrow> ?thesis"
    by (fastforce simp: refused_def refresh_refused_def less_Suc_eq)
next
  case (3 body)
  then show "refused i m \<Longrightarrow> ?thesis"
    by (cases rule: refresh_ok_cases [of L m now j body]) (simp_all add: refused_def with_statement_def)
qed

lemma refused_list_end: "refused i m \<Longrightarrow> refused i (fst (list_end m now j r))"
proof -
  assume r: "refused i m"
  have "l_lists (fst (list_end m now j r)) k = Some n \<Longrightarrow> l_lists m k = Some n" for k n
    using list_end_frame(7) [of m now j r k] by auto
  with r show ?thesis by (simp add: refused_def list_end_frame) blast
qed

lemma refused_step: "lstep E L w l w' \<Longrightarrow> \<not> begins_list l \<Longrightarrow> refused i (v_m w) \<Longrightarrow> refused i (v_m w')"
proof (induction rule: lstep.cases)
  case (l_owner w oc)
  then show ?case by (simp add: refused_def leash_on_status_def)
qed (simp_all add: refused_batch refused_refresh_end refused_list_end begins_list_def,
     simp_all add: refused_def want_def refresh_begin_def)

text \<open>No list waited for carries a later count than the current one.\<close>

definition counts_ok :: "leash \<Rightarrow> bool" where
  "counts_ok m = (\<forall>r n. l_lists m r = Some n \<longrightarrow> n \<le> l_gen m)"

lemma counts_msg: "counts_ok m \<Longrightarrow> counts_ok (apply_msg E L now m msg)"
proof -
  assume c: "counts_ok m"
  have "l_gen (apply_list L m' now ps su) = l_gen m'" for m' ps su
    by (simp add: apply_list_def Let_def)
  then have "l_gen m' \<le> l_gen (apply_set E L m' now b md)" for m' b md
    by (cases md) (simp_all add: apply_set_gen, simp add: apply_set_def Let_def split: option.split)
  then have "l_gen (m\<lparr>l_lists := ls\<rparr>) \<le> l_gen (apply_set E L (m\<lparr>l_lists := ls\<rparr>) now b md)"
    and "l_gen m \<le> l_gen (apply_set E L m now b md)" for ls b md by blast+
  then have "l_gen m \<le> l_gen (apply_msg E L now m msg)"
    by (auto simp: apply_msg_def Let_def intro: le_SucI)
  with c show ?thesis
    unfolding counts_ok_def apply_msg_lists by (auto split: if_splits intro: order_trans)
qed

lemma counts_batch: "counts_ok m \<Longrightarrow> counts_ok (apply_batch E L now m b)"
  unfolding apply_batch_def by (induction b arbitrary: m) (simp_all add: counts_msg)

lemma counts_refresh_end: "counts_ok m \<Longrightarrow> counts_ok (fst (refresh_end L m now j r))"
proof (cases rule: refresh_end_state [of L m now j r])
  case (3 body)
  then show "counts_ok m \<Longrightarrow> ?thesis"
    by (cases rule: refresh_ok_cases [of L m now j body]) (simp_all add: counts_ok_def with_statement_def)
qed (auto simp: counts_ok_def refresh_refused_def le_SucI)

lemma counts_list_end: "counts_ok m \<Longrightarrow> counts_ok (fst (list_end m now j r))"
proof -
  assume r: "counts_ok m"
  have "l_lists (fst (list_end m now j r)) k = Some n \<Longrightarrow> l_lists m k = Some n" for k n
    using list_end_frame(7) [of m now j r k] by auto
  with r show ?thesis by (simp add: counts_ok_def list_end_frame) blast
qed

lemma counts_step: "lstep E L w l w' \<Longrightarrow> counts_ok (v_m w) \<Longrightarrow> counts_ok (v_m w')"
proof (induction rule: lstep.cases)
  case (l_owner w oc)
  then show ?case by (simp add: counts_ok_def leash_on_status_def)
qed (simp_all add: counts_batch counts_refresh_end counts_list_end,
     simp_all add: counts_ok_def want_def refresh_begin_def list_begin_def)

interpretation lc: invariant_system "lstep E L" "\<lambda>w. counts_ok (v_m w)" for E L
  by unfold_locales (rule counts_step)

lemma refused_run:
  "run (lstep E L) w ls w' \<Longrightarrow> list_all (\<lambda>l. \<not> begins_list l) ls \<Longrightarrow> refused i (v_m w) \<Longrightarrow> refused i (v_m w')"
  by (induction rule: run.induct) (auto dest: refused_step)

section \<open>Backing off\<close>

lemma double_until_bounds:
  "0 < d \<Longrightarrow> d \<le> double_until k limit d \<and> double_until k limit d \<le> double_until (Suc k) limit d"
proof (induction k arbitrary: d)
  case (Suc k)
  show ?case
  proof (cases "d < limit")
    case True
    with Suc.IH [of "2 * d"] Suc.prems show ?thesis by simp
  qed simp
qed simp

lemma backoff_mono: "0 < base \<Longrightarrow> m \<le> n \<Longrightarrow> backoff base limit m \<le> backoff base limit n"
proof -
  assume b: "0 < base" and "m \<le> n"
  have "j \<le> k \<Longrightarrow> double_until j limit base \<le> double_until k limit base" for j k
    by (induction k) (use b double_until_bounds in
        \<open>auto simp: le_Suc_eq simp del: double_until.simps intro: order_trans\<close>)
  with \<open>m \<le> n\<close> have "double_until (m - 1) limit base \<le> double_until (n - 1) limit base"
    by (simp add: diff_le_mono)
  then show ?thesis by (simp add: backoff_def)
qed

section \<open>An example\<close>

text \<open>One grant, listed in a session that is active: its state, computed.\<close>

definition toy_json :: json where
  "toy_json = JObj [(''grant_id'', JStr ''G''), (''agent_id'', JStr ''A''), (''version'', JNum ''1''),
     (''scope'', JStr ''items.read''), (''approval'', JStr ''ask''), (''tags'', JArr [JStr ''mail'']),
     (''match'', JStr ''any''), (''access'', JStr ''read''), (''per_hour'', JNum ''5''),
     (''per_day'', JNum ''20''), (''status_ttl'', JNum ''3600''), (''issued_at'', JStr ''now''),
     (''delegation'', JStr (b64_std ''D'')), (''sig'', JStr (b64_std toy_sig)),
     (''status'', JStr (b64_std ''S'')), (''status_sig'', JStr (b64_std toy_sig))]"

definition toy_answer :: message where
  "toy_answer = \<lparr>ms_id = ''m'', ms_type = ''leash.grant.list'', ms_re = ''L'', ms_ok = True, ms_code = [],
     ms_body = Some (JObj [(''grants'', JArr [toy_json]), (''suspended'', JBool False)])\<rparr>"

lemma plain_names:
  "plain_name ''grant_id''" "plain_name ''agent_id''" "plain_name ''version''" "plain_name ''scope''"
  "plain_name ''approval''" "plain_name ''connections''" "plain_name ''tags''" "plain_name ''match''"
  "plain_name ''access''" "plain_name ''uses''" "plain_name ''per_hour''" "plain_name ''per_day''"
  "plain_name ''expires_at''" "plain_name ''status_ttl''" "plain_name ''issued_at''"
  "plain_name ''delegation''" "plain_name ''sig''" "plain_name ''status''" "plain_name ''status_sig''"
  "plain_name ''rotations''" "plain_name ''grants''" "plain_name ''suspended''"
  by (simp_all add: plain_name_def byte_def)

lemma toy_wire_decoded: "dec_wire_grant toy_json = Some toy_wire"
  by (simp add: dec_wire_grant_def toy_json_def dec_field_plain plain_names toy_wire_def
      parse_uint_def digit_val_def Let_def del: dec_field.simps b64_encode.simps)

definition toy_bound :: leash where
  "toy_bound = (new_leash minute)\<lparr>l_device := ''A'', l_ik := ''K''\<rparr>"

definition toy_statement :: statement where
  "toy_statement = \<lparr>st_status = ''S'', st_sig = toy_sig, st_rotations = [], st_issued = 0,
     st_not_after = hour\<rparr>"

definition toy_listed :: leash where
  "toy_listed = toy_bound\<lparr>l_grants := [toy_grant], l_as_of := minute, l_saved := True, l_listed := True,
     l_statements := [''G'' \<mapsto> toy_statement], l_wake := True\<rparr>"

lemma toy_bind: "bind toy_lib (new_leash minute) ''A'' ''K'' None = Inr toy_bound"
  by (simp add: bind_def toy_bound_def Let_def)

lemma toy_set: "grant_set (ms_body toy_answer) = Some ([toy_json], False)"
  by (simp add: grant_set_def toy_answer_def dec_field_plain plain_names elems_def
      MaxGrants_def toy_json_def Let_def del: dec_field.simps)

lemma toy_incoming: "incoming toy_times toy_lib (toy_bound\<lparr>l_lists := ls\<rparr>) [toy_json] = [(toy_wire, toy_grant)]"
proof -
  have "g_id toy_grant = ''G''" "g_del toy_grant = Some toy_delegation" "d_sub toy_delegation = ''K''"
      "equal_public toy_lib ''K'' ''K''"
    by (simp_all add: grant_eval)
  then show ?thesis
    by (simp add: incoming_def toy_wire_decoded toy_parses toy_bound_def is_mine_def Let_def)
qed

lemma toy_checked: "sent_statement toy_lib now toy_wire toy_grant = Some toy_statement"
  by (simp add: sent_statement_def check_statement_def grant_eval presented_of_def toy_statement_def Let_def)

lemma toy_applied: "apply_batch toy_times toy_lib minute (list_begin toy_bound ''L'') [toy_answer] = toy_listed"
proof -
  have a: "ms_re toy_answer = ''L''" "ms_type toy_answer = ''leash.grant.list''" "ms_ok toy_answer"
    by (simp_all add: toy_answer_def)
  have b: "l_need_list toy_bound = False" "l_grants toy_bound = []" "l_gen toy_bound = 0"
      "l_lists toy_bound = Map.empty" "l_dead toy_bound = (\<lambda>_. False)" "l_fails toy_bound = (\<lambda>_. 0)"
      "l_list_fails toy_bound = 0" "l_next_list toy_bound = 0" "l_suspended toy_bound = False"
    by (simp_all add: toy_bound_def new_leash_def)
  have l: "list_begin toy_bound ''L'' = toy_bound\<lparr>l_lists := [''L'' \<mapsto> 0]\<rparr>"
    by (simp add: list_begin_def toy_bound_def new_leash_def)
  have i: "g_id toy_grant = ''G''" by (simp add: grant_eval)
  show ?thesis
    by (simp add: apply_batch_def apply_msg_def a l b apply_set_def toy_set toy_incoming apply_list_def
        older_def find_grant_def toy_checked i signal_def Let_def)
      (simp add: toy_listed_def toy_bound_def new_leash_def)
qed

lemma toy_run: "run (lstep toy_times toy_lib) \<lparr>v_m = toy_bound, v_cur = active_open, v_clock = minute\<rparr>
   [LListBegin ''L'', LApply [toy_answer]] \<lparr>v_m = toy_listed, v_cur = active_open, v_clock = minute\<rparr>"
proof -
  have "lstep toy_times toy_lib \<lparr>v_m = list_begin toy_bound ''L'', v_cur = active_open, v_clock = minute\<rparr>
      (LApply [toy_answer]) \<lparr>v_m = toy_listed, v_cur = active_open, v_clock = minute\<rparr>"
    using l_apply [of toy_times toy_lib "\<lparr>v_m = list_begin toy_bound ''L'', v_cur = active_open,
        v_clock = minute\<rparr>" "[toy_answer]"] by (simp add: toy_applied)
  moreover have "lstep toy_times toy_lib \<lparr>v_m = toy_bound, v_cur = active_open, v_clock = minute\<rparr>
      (LListBegin ''L'') \<lparr>v_m = list_begin toy_bound ''L'', v_cur = active_open, v_clock = minute\<rparr>"
    using l_list_begin [of toy_times toy_lib "\<lparr>v_m = toy_bound, v_cur = active_open, v_clock = minute\<rparr>" "''L''"]
    by simp
  ultimately show ?thesis by (auto intro: run.intros)
qed

lemma toy_presented: "present_look toy_lib toy_listed active_open ''G'' minute
    = Presented (presented_of toy_grant toy_statement)"
proof -
  have i: "g_id toy_grant = ''G''" "g_del toy_grant = Some toy_delegation" "d_sub toy_delegation = ''K''"
      "\<not> expired toy_grant minute"
    by (simp_all add: grant_eval expired_def)
  have "usable toy_lib toy_listed ''G'' (Some toy_statement) minute"
    by (simp add: usable_def toy_statement_def toy_lib_def refresh_at_def ttl_def durations)
  then show ?thesis
    by (simp add: present_look_def presentable_def toy_listed_def toy_bound_def new_leash_def find_grant_def i)
      (simp add: toy_lib_def)
qed

section \<open>Properties\<close>

text \<open>What is presented, read off one look at the manager.\<close>

lemma present_look_some:
  assumes "present_look L m a i now = Presented p"
  obtains g d st where "\<not> l_suspended m" "active a now" "l_listed m" "g \<in> set (l_grants m)" "g_id g = i"
    "find_grant i (l_grants m) = Some g"
    "\<not> expired g now" "\<not> l_dead m i" "g_del g = Some d" "equal_public L (d_sub d) (l_ik m)"
    "l_statements m i = Some st" "usable L m i (Some st) now" "p = presented_of g st"
proof -
  from assms obtain g where g: "presentable L m a i now = Inr g"
    by (auto simp: present_look_def split: sum.splits)
  then have c: "\<not> l_suspended m" "active a now" "l_listed m" by (auto simp: presentable_def split: if_splits)
  with g obtain g' where f: "find_grant i (l_grants m) = Some g'"
    by (cases "find_grant i (l_grants m)") (simp_all add: presentable_def)
  with g c have e: "g' = g" "\<not> expired g now" "\<not> l_dead m i"
    by (auto simp: presentable_def split: if_splits option.splits)
  with g c f obtain d where d: "g_del g = Some d" "equal_public L (d_sub d) (l_ik m)"
    by (auto simp: presentable_def split: if_splits option.splits)
  from assms g obtain st where "l_statements m i = Some st" "usable L m i (Some st) now" "p = presented_of g st"
    by (auto simp: present_look_def split: option.splits if_splits)
  with c f e d that show ?thesis using find_grant_some [OF f] by metis
qed

lemma check_statement_some:
  assumes "check_statement L g s sg rots t = Some st"
  shows "\<exists>d. g_del g = Some d \<and> verify_presented L (\<lambda>k. equal_public L k (d_iss d)) (presented_of g st) t
    \<and> parse_status L s = Some (st_issued st, st_not_after st)"
proof -
  from assms obtain d where d: "g_del g = Some d"
    by (cases "g_del g") (simp_all add: check_statement_def)
  with assms obtain rs where rs: "parse_rotations L rots = Some rs"
    by (cases "parse_rotations L rots") (simp_all add: check_statement_def split: if_splits)
  let ?st = "\<lparr>st_status = s, st_sig = sg, st_rotations = rs, st_issued = 0, st_not_after = 0\<rparr>"
  have v: "verify_presented L (\<lambda>k. equal_public L k (d_iss d)) (presented_of g ?st) t"
    and p: "map_option (\<lambda>(i, n). ?st\<lparr>st_issued := i, st_not_after := n\<rparr>) (parse_status L s) = Some st"
    using assms d rs by (auto simp: check_statement_def Let_def split: if_splits option.splits)
  from p obtain i n where "parse_status L s = Some (i, n)" "st = ?st\<lparr>st_issued := i, st_not_after := n\<rparr>"
    by (auto split: prod.splits)
  with d v show ?thesis by (simp add: presented_of_def)
qed

lemma checked_verifies:
  "checked L g st now \<Longrightarrow> g_del g = Some d \<Longrightarrow>
     (\<exists>t\<le>now. verify_presented L (\<lambda>k. equal_public L k (d_iss d)) (presented_of g st) t)
     \<and> parse_status L (st_status st) = Some (st_issued st, st_not_after st)"
  using check_statement_some unfolding checked_def by fastforce

text \<open>
  C1. The safety of presenting: whatever messages, answers and requests came before, what
  \<open>Present\<close> hands out is one of the current grants, unexpired, for this agent's key, in an access
  session and after the grants were listed, while the agent is not suspended and the grant not
  refused; and the whole of it passed the reference verifier, trusting only the key the delegation
  names, at some time so far, with a status statement that is current now.
\<close>

theorem presented_is_verified:
  assumes "bind L (new_leash t0) dev ik saved_grants = Inr m0"
    and "\<forall>gs su ao. saved_grants = Some (gs, su, ao) \<longrightarrow> distinct (map g_id gs)"
    and "run (lstep E L) \<lparr>v_m = m0, v_cur = a0, v_clock = t0\<rparr> ls w"
    and "present_look L (v_m w) (v_cur w) i (v_clock w) = Presented p"
  shows "\<exists>g d. g \<in> set (l_grants (v_m w)) \<and> g_id g = i \<and> g_del g = Some d
     \<and> \<not> expired g (v_clock w) \<and> equal_public L (d_sub d) ik
     \<and> active (v_cur w) (v_clock w) \<and> l_listed (v_m w) \<and> \<not> l_suspended (v_m w) \<and> \<not> l_dead (v_m w) i
     \<and> (\<exists>t\<le>v_clock w. verify_presented L (\<lambda>k. equal_public L k (d_iss d)) p t)
     \<and> (\<exists>from until. parse_status L (pr_status p) = Some (from, until)
          \<and> from - status_skew L \<le> v_clock w \<and> v_clock w < until)"
proof -
  have m0: "l_ik m0 = ik" "l_statements m0 = Map.empty"
    using assms(1) by (auto simp: bind_def new_leash_def Let_def split: if_splits option.splits prod.splits)
  have "l_grants m0 = [] \<or> (\<exists>gs su ao. saved_grants = Some (gs, su, ao) \<and> l_grants m0 = for_me L ik gs)"
    using assms(1) by (auto simp: bind_def new_leash_def Let_def split: if_splits option.splits prod.splits)
  then have "(\<forall>g\<in>set (l_grants m0). is_mine L ik g) \<and> distinct (map g_id (l_grants m0))"
    using assms(2) by (auto simp: for_me_def distinct_map_filter)
  with m0 have "linv L ik m0 t0" by (simp add: linv_def)
  with lm.inv_run [OF assms(3)] have inv: "linv L ik (v_m w) (v_clock w)" by simp
  from assms(4) show ?thesis
  proof (cases rule: present_look_some)
    case (1 g d st)
    from inv 1(11) have "\<exists>g'\<in>set (l_grants (v_m w)). g_id g' = i \<and> checked L g' st (v_clock w)"
      and dist: "distinct (map g_id (l_grants (v_m w)))" by (auto simp: linv_def)
    then obtain g' where g': "g' \<in> set (l_grants (v_m w))" "g_id g' = i" "checked L g' st (v_clock w)"
      by blast
    with find_grant_distinct [OF dist g'(1)] 1(6) have "g' = g" by simp
    with g' checked_verifies 1(9) have v:
      "\<exists>t\<le>v_clock w. verify_presented L (\<lambda>k. equal_public L k (d_iss d)) (presented_of g st) t"
      "parse_status L (st_status st) = Some (st_issued st, st_not_after st)" by blast+
    have "st_issued st - status_skew L \<le> v_clock w" "v_clock w < st_not_after st"
      using 1(12) by (auto simp: usable_def split: if_splits)
    with v 1 inv show ?thesis by (auto simp: linv_def presented_of_def)
  qed
qed

theorem presented_is_verified_witness:
  "\<exists>d. g_del toy_grant = Some d \<and> equal_public toy_lib (d_sub d) ''K''"
  using presented_is_verified [OF toy_bind _ toy_run, of "''G''" "presented_of toy_grant toy_statement"]
  by (simp add: toy_presented) (auto simp: toy_listed_def)

text \<open>
  C2. Only the answer to a list this process sent, with nothing learned since, can widen what the
  connector presents: every other message leaves the same grants and statements or fewer, ends no
  suspension, revives no refused grant and confirms nothing.
\<close>

theorem only_a_confirming_list_widens:
  assumes "\<not> confirms m msg"
  shows "narrower (apply_msg E L now m msg) m"
  using assms by (rule apply_msg_narrower)

theorem only_a_confirming_list_widens_witness:
  "narrower (apply_msg toy_times toy_lib minute toy_bound toy_answer) toy_bound"
  by (rule only_a_confirming_list_widens) (simp add: confirms_def toy_bound_def new_leash_def)

text \<open>
  A batch that is delivered again gives the same or something narrower: at-least-once delivery
  never makes the connector present more.
\<close>

lemma batch_again_only_narrows:
  "narrower (apply_batch E L now' (apply_batch E L now m b) b) (apply_batch E L now m b)"
  by (rule apply_batch_narrower) (auto simp: apply_batch_lists)

text \<open>
  C3. After the vault said a grant is not in force, or that the agent is suspended, the grant is
  not presented until a list is sent after that, whatever lists sent before still answer.
\<close>

theorem refusal_lasts_until_a_new_list:
  assumes "bind L (new_leash t0) dev ik saved_grants = Inr m0"
    and "run (lstep E L) \<lparr>v_m = m0, v_cur = a0, v_clock = t0\<rparr> ls0 w"
    and "lstep E L w (LRefreshEnd i (Inr rs)) w1" and "\<not> rs_ok rs"
    and "rs_code rs \<in> {''not_found'', ''forbidden''}"
    and "run (lstep E L) w1 ls w2" and "list_all (\<lambda>l. \<not> begins_list l) ls"
  shows "present_look L (v_m w2) (v_cur w2) i (v_clock w2) \<noteq> Presented p"
proof
  assume p: "present_look L (v_m w2) (v_cur w2) i (v_clock w2) = Presented p"
  have "counts_ok m0"
    using assms(1) by (auto simp: counts_ok_def bind_def new_leash_def Let_def split: if_splits option.splits)
  with lc.inv_run [OF assms(2)] have "counts_ok (v_m w)" by simp
  then have "refused i (v_m w1)"
    using assms(3-5) by (auto elim!: lstep_refreshE simp: refresh_end_def refresh_refused_def refused_def
        counts_ok_def le_imp_less_Suc)
  with refused_run [OF assms(6,7)] have "refused i (v_m w2)" by blast
  with p show False by (auto simp: refused_def elim: present_look_some)
qed

theorem refusal_lasts_until_a_new_list_witness:
  "present_look toy_lib (fst (refresh_end toy_lib toy_listed minute ''G''
      (Inr \<lparr>rs_type = [], rs_ok = False, rs_code = ''not_found'', rs_body = None\<rparr>))) active_open ''G'' minute
     \<noteq> Presented (presented_of toy_grant toy_statement)"
proof -
  let ?rs = "\<lparr>rs_type = [], rs_ok = False, rs_code = ''not_found'', rs_body = None\<rparr>"
  let ?w = "\<lparr>v_m = toy_listed, v_cur = active_open, v_clock = minute\<rparr>"
  let ?w1 = "?w\<lparr>v_m := fst (refresh_end toy_lib toy_listed minute ''G'' (Inr ?rs))\<rparr>"
  have "lstep toy_times toy_lib ?w (LRefreshEnd ''G'' (Inr ?rs)) ?w1"
    using l_refresh_end [of toy_times toy_lib ?w "''G''" "Inr ?rs"] by simp
  from refusal_lasts_until_a_new_list [OF toy_bind toy_run this _ _ run_Nil,
      of "presented_of toy_grant toy_statement"]
  show ?thesis by simp
qed

text \<open>
  The pause after failed requests never exceeds its limit, never gets shorter with more
  failures, and is never shorter than the base.
\<close>

lemma backoff_bounds:
  assumes "0 < base" and "base \<le> limit"
  shows "base \<le> backoff base limit n \<and> backoff base limit n \<le> limit
     \<and> backoff base limit n \<le> backoff base limit (Suc n)"
  using assms double_until_bounds [OF assms(1), of "n - 1" limit] backoff_mono [OF assms(1), of n "Suc n"]
  by (auto simp: backoff_def)

lemma backoff_bounds_witness:
  "minGap \<le> backoff minGap retryMax 3 \<and> backoff minGap retryMax 3 \<le> retryMax
     \<and> backoff minGap retryMax 3 \<le> backoff minGap retryMax (Suc 3)"
  by (rule backoff_bounds) (simp_all add: minGap_def retryMax_def durations)

text \<open>
  What goes into a log or a text of an id or a code the vault sent is at most 64 characters,
  letters, digits, underscore, hyphen and dot, and not empty.
\<close>

lemma log_id_is_plain:
  "log_id s \<noteq> [] \<and> length (log_id s) \<le> 64 \<and> list_all log_char (log_id s)"
proof -
  have "list_all log_char (take 64 (filter log_char s))"
    by (auto simp: list_all_iff dest: in_set_takeD)
  moreover have "log_char CHR ''-''" by (simp add: log_char_def)
  ultimately show ?thesis by (simp add: log_id_def Let_def)
qed

end
