(* ===== verification/Conn.thy ===== *)
theory Conn
  imports PairRecord Leash
begin

text \<open>
  \<open>internal/vaultconn/vaultconn.go\<close>: the connection to the vault. \<open>conn\<close> is what \<open>Run\<close>'s goroutine
  and \<open>accMu\<close> guard; the operations are the functions of the file, in its order. The vault client
  (github.com/vettid/vettid-vault/client) is outside the repository: what a send answered, the
  messages a collect handed over and the client's saved state are arguments. \<open>kstep\<close> interleaves
  \<open>Run\<close> with the calls of other goroutines, the events' effects on the access session and the part of
  the record another package keeps (\<open>part_ops\<close>).
\<close>

section \<open>Errors and texts\<close>

definition TextUnlinked :: string where
  "TextUnlinked = ''This agent was removed from your vault. Its keys have been deleted from this computer.''"
definition TextRefused :: string where
  "TextRefused = ''Your vault's relay refused this agent. If you removed it on your phone, run `vettid-agent forget`.''"

text \<open>The client's errors, as far as the code looks at them.\<close>

datatype client_err = RelayErr nat string | CtxEnded | NotPairedErr | TransportErr

definition code_char :: "char \<Rightarrow> bool" where
  "code_char c = (97 \<le> byte c \<and> byte c \<le> 122 \<or> 65 \<le> byte c \<and> byte c \<le> 90 \<or> 48 \<le> byte c \<and> byte c \<le> 57
     \<or> c = CHR ''_'' \<or> c = CHR ''-'')"

definition sanitize_code :: "string \<Rightarrow> string" where
  "sanitize_code s = (let b = take 64 (filter code_char s) in if b = [] then ''-'' else b)"

fun relay_err_code :: "client_err \<Rightarrow> string" where
  "relay_err_code (RelayErr status code) = ''relay HTTP '' @ show_nat status @ '' '' @ sanitize_code code"
| "relay_err_code CtxEnded = ''canceled''"
| "relay_err_code NotPairedErr = ''not paired''"
| "relay_err_code TransportErr = ''transport error''"

fun token_revoked :: "client_err \<Rightarrow> bool" where
  "token_revoked (RelayErr _ code) = (code = ''token_revoked'')"
| "token_revoked _ = False"

section \<open>State\<close>

text \<open>A request handed to \<open>Run\<close>'s goroutine; \<open>ca_no\<close> stands for its \<open>done\<close> channel.\<close>

record call =
  ca_no :: nat
  ca_id :: string
  ca_type :: string
  ca_body :: "json option"

record conn =
  k_pending :: "(string \<times> nat) list"
  k_events :: "message list"
  k_unlinked :: bool
  k_wipe_err :: "string option"
  k_persist_err :: "string option"
  k_refused :: bool
  k_refused_at :: time
  k_drains :: nat
  k_collected :: bool
  k_save_fails :: nat
  k_status_backoff :: duration
  k_refresh_at :: time
  k_status_id :: string
  k_owner :: string
  k_access :: access
  k_contact :: time

definition DefaultStatusEvery :: duration where "DefaultStatusEvery = 6 * hour"

definition status_every :: "duration \<Rightarrow> duration" where
  "status_every d = (if d = 0 then DefaultStatusEvery else d)"

text \<open>
  What \<open>New\<close> looks at in the saved device state (\<open>client.State\<close>): its role, its device id and whether
  it has a vault.
\<close>

record device_state =
  ds_role :: string
  ds_device :: string
  ds_vault :: bool

definition conn_of :: "access \<Rightarrow> time \<Rightarrow> conn" where
  "conn_of a now = \<lparr>k_pending = [], k_events = [], k_unlinked = False, k_wipe_err = None, k_persist_err = None,
     k_refused = False, k_refused_at = 0, k_drains = 0, k_collected = False, k_save_fails = 0,
     k_status_backoff = 0, k_refresh_at = now, k_status_id = [], k_owner = [], k_access = a, k_contact = 0\<rparr>"

text \<open>\<open>New\<close>: the connection, or whether it is not paired or the client refused its state (\<open>Inl\<close>).\<close>

definition new_conn :: "prec option \<Rightarrow> device_state option \<Rightarrow> string option \<Rightarrow> time \<Rightarrow> string option + conn" where
  "new_conn r st load_err now = (case r of None \<Rightarrow> Inl None | Some r \<Rightarrow>
     if pr_phase r \<noteq> PhasePaired then Inl None
     else (case st of None \<Rightarrow> Inl None | Some d \<Rightarrow>
        if ds_role d \<noteq> ''agent'' \<or> ds_device d = [] \<or> \<not> ds_vault d then Inl None
        else (case load_err of Some e \<Rightarrow> Inl (Some e) | None \<Rightarrow> Inr (conn_of (pr_access r) now))))"

section \<open>The access session\<close>

definition conn_cas :: "conn \<Rightarrow> access \<Rightarrow> access \<Rightarrow> conn \<times> bool" where
  "conn_cas c old a =
     (if \<not> access_valid a then (c, False)
      else if k_access c \<noteq> old then (c, False)
      else (c\<lparr>k_access := a\<rparr>, True))"

interpretation conn_cell: session_cell k_access conn_cas
  by unfold_locales (auto simp: conn_cas_def)

definition parse_granted :: "env \<Rightarrow> json option \<Rightarrow> access option" where
  "parse_granted E body = (case struct_members body of None \<Rightarrow> None | Some ms \<Rightarrow>
     (let (s, k1) = dec_field ''session_id'' dec_string ms [];
          (x, k2) = dec_field ''expires_at'' dec_string ms [] in
      if \<not> (k1 \<and> k2) \<or> s = [] then None
      else (case ptime E x of None \<Rightarrow> None
        | Some t \<Rightarrow> (let a = \<lparr>acc_state = AccessActive, acc_session = s, acc_expires = t\<rparr> in
            if access_valid a then Some a else None))))"

definition apply_access_msg :: "env \<Rightarrow> access \<Rightarrow> message \<Rightarrow> access" where
  "apply_access_msg E a m =
     (if ms_re m \<noteq> [] then a
      else if ms_type m = ''device.session.granted''
        then (case parse_granted E (ms_body m) of None \<Rightarrow> a | Some g \<Rightarrow> g)
      else if ms_type m = ''device.session.ended'' then no_access
      else a)"

definition apply_access :: "env \<Rightarrow> access \<Rightarrow> message list \<Rightarrow> access" where
  "apply_access E a evs = foldl (apply_access_msg E) a evs"

section \<open>Saving a batch\<close>

text \<open>\<open>persist\<close> up to the wipe, or up to the use of the part that is kept for another package.\<close>

definition is_unlinked :: "message \<Rightarrow> bool" where
  "is_unlinked m = (ms_re m = [] \<and> ms_type m = ''device.unlinked'')"

definition collect :: "env \<Rightarrow> conn \<Rightarrow> time \<Rightarrow> message list \<Rightarrow> conn" where
  "collect E c now evs =
     (let c = c\<lparr>k_collected := True, k_events := k_events c @ evs,
                k_contact := (if evs = [] then k_contact c else now),
                k_unlinked := k_unlinked c \<or> list_ex is_unlinked evs\<rparr> in
      if k_unlinked c then c else c\<lparr>k_access := apply_access E (k_access c) evs\<rparr>)"

text \<open>\<open>Store.Wipe\<close>'s answer: \<open>ErrNothingToWipe\<close> counts as done.\<close>

datatype wipe_out = WipeOk | WipeNothing | WipeFailed string

definition wipe_end :: "conn \<Rightarrow> wipe_out \<Rightarrow> conn" where
  "wipe_end c out = c\<lparr>k_wipe_err := (case out of WipeFailed e \<Rightarrow> Some e | _ \<Rightarrow> None)\<rparr>"

definition save_record :: "conn \<Rightarrow> json option \<Rightarrow> json option option \<Rightarrow> prec" where
  "save_record c st leash = \<lparr>pr_phase = PhasePaired, pr_deadline = 0, pr_device = st,
     pr_access = k_access c, pr_leash = leash\<rparr>"

text \<open>The end of \<open>persist\<close>: the error of \<open>Encode\<close> or of \<open>Store.Save\<close>, if any.\<close>

definition save_end :: "conn \<Rightarrow> string option \<Rightarrow> conn" where
  "save_end c err = (case err of Some e \<Rightarrow> c\<lparr>k_persist_err := Some e\<rparr>
     | None \<Rightarrow> if 0 < k_save_fails c then c\<lparr>k_save_fails := 0\<rparr> else c)"

section \<open>Sending\<close>

definition retryBase :: duration where "retryBase = second"
definition connRetryMax :: duration where "connRetryMax = 30 * second"
definition statusRetryMax :: duration where "statusRetryMax = 5 * minute"
definition drainMaxCollect :: nat where "drainMaxCollect = 5"
definition drainMaxTime :: duration where "drainMaxTime = minute"

definition fail_pending :: "conn \<Rightarrow> req_error \<Rightarrow> conn \<times> (nat \<times> reply) list" where
  "fail_pending c e = (c\<lparr>k_pending := []\<rparr>, map (\<lambda>p. (snd p, Inl e)) (k_pending c))"

definition send_failed :: "conn \<Rightarrow> time \<Rightarrow> client_err \<Rightarrow> conn \<times> (nat \<times> reply) list" where
  "send_failed c now e =
     (if token_revoked e \<and> \<not> k_refused c
      then fail_pending (c\<lparr>k_refused := True, k_refused_at := now\<rparr>) ReqRefused
      else (c, []))"

text \<open>\<open>sendStatus\<close> with the answer of \<open>Send\<close>: the message's id, or the error.\<close>

definition send_status :: "conn \<Rightarrow> duration \<Rightarrow> time \<Rightarrow> client_err + string \<Rightarrow> conn \<times> (nat \<times> reply) list" where
  "send_status c every now out = (case out of
       Inl e \<Rightarrow>
        (let (c, ans) = send_failed c now e;
             b = (if k_status_backoff c = 0 then retryBase else min (2 * k_status_backoff c) statusRetryMax) in
         (c\<lparr>k_status_backoff := b, k_refresh_at := now + b\<rparr>, ans))
     | Inr i \<Rightarrow> (c\<lparr>k_status_backoff := 0, k_refresh_at := now + every, k_status_id := i\<rparr>, []))"

text \<open>
  One round of \<open>takeCalls\<close>: a call that waited is taken; \<open>over\<close> says whether its context has ended,
  and \<open>out\<close> is what \<open>SendWithID\<close> answered (the id it was sent under).
\<close>

definition take_call ::
  "conn \<Rightarrow> time \<Rightarrow> call \<Rightarrow> bool \<Rightarrow> client_err + string \<Rightarrow> conn \<times> (nat \<times> reply) list" where
  "take_call c now cl over out =
    (if over then (c, [(ca_no cl, Inl ReqCtx)])
     else if k_refused c then (c, [(ca_no cl, Inl ReqRefused)])
     else (case out of
         Inl e \<Rightarrow> (let (c', ans) = send_failed c now e in
             (c', ans @ [(ca_no cl, Inl (if k_refused c' then ReqRefused
                else ReqNotSent (''could not send '' @ ca_type cl @ '' to the vault: '' @ relay_err_code e)))]))
       | Inr i \<Rightarrow> (c\<lparr>k_pending := filter (\<lambda>p. fst p \<noteq> i) (k_pending c) @ [(i, ca_no cl)]\<rparr>,
             (case map_of (k_pending c) i of None \<Rightarrow> [] | Some old \<Rightarrow> [(old, Inl ReqSuperseded)]))))"

text \<open>Whether the call's message reached the client's \<open>SendWithID\<close>.\<close>

definition call_sends :: "conn \<Rightarrow> bool \<Rightarrow> bool" where
  "call_sends c over = (\<not> over \<and> \<not> k_refused c)"

section \<open>Dispatch\<close>

definition response_of :: "message \<Rightarrow> response" where
  "response_of m = \<lparr>rs_type = ms_type m, rs_ok = ms_ok m, rs_code = ms_code m, rs_body = ms_body m\<rparr>"

definition read_owner_check :: "json option \<Rightarrow> string option" where
  "read_owner_check body = (case struct_members body of None \<Rightarrow> None | Some ms \<Rightarrow>
     (let (s, k) = dec_field ''owner_check'' (\<lambda>j s. (case j of
             JObj ns \<Rightarrow> dec_field ''state'' dec_string ns s | JNull \<Rightarrow> (s, True) | _ \<Rightarrow> (s, False))) ms [] in
      if k then Some s else None))"

text \<open>\<open>readStatus\<close>: the state kept, and what \<open>OnStatus\<close> is called with.\<close>

definition read_status :: "conn \<Rightarrow> response \<Rightarrow> conn \<times> string option" where
  "read_status c r =
    (if \<not> rs_ok r then (c, None)
     else (case read_owner_check (rs_body r) of None \<Rightarrow> (c, None)
       | Some s \<Rightarrow> (c\<lparr>k_owner := s\<rparr>, if s = [] then None else Some s)))"

text \<open>What one message makes \<open>dispatch\<close> do.\<close>

datatype delivery = ToCall nat response | ToStatus string | ToEvent event | Dropped

definition dispatch_msg :: "conn \<Rightarrow> message \<Rightarrow> conn \<times> delivery" where
  "dispatch_msg c m =
    (if ms_re m \<noteq> [] then
       (if ms_re m = k_status_id c
        then (let (c', s) = read_status (c\<lparr>k_status_id := []\<rparr>) (response_of m) in
              (c', case s of None \<Rightarrow> Dropped | Some s \<Rightarrow> ToStatus s))
        else (case map_of (k_pending c) (ms_re m) of None \<Rightarrow> (c, Dropped)
          | Some n \<Rightarrow> (c\<lparr>k_pending := filter (\<lambda>p. fst p \<noteq> ms_re m) (k_pending c)\<rparr>, ToCall n (response_of m))))
     else if ms_type m = ''device.unlinked'' then (c, Dropped)
     else (c, ToEvent \<lparr>ev_id = ms_id m, ev_type = ms_type m, ev_body = ms_body m\<rparr>))"

fun dispatch_msgs :: "conn \<Rightarrow> message list \<Rightarrow> conn \<times> delivery list" where
  "dispatch_msgs c [] = (c, [])"
| "dispatch_msgs c (m # ms) =
     (let (c1, d) = dispatch_msg c m; (c2, ds) = dispatch_msgs c1 ms in (c2, d # ds))"

text \<open>\<open>dispatch\<close>: calls whose context has ended (\<open>over\<close>) are forgotten first.\<close>

definition dispatch :: "conn \<Rightarrow> nat set \<Rightarrow> conn \<times> delivery list" where
  "dispatch c over =
     dispatch_msgs (c\<lparr>k_events := [], k_pending := filter (\<lambda>p. snd p \<notin> over) (k_pending c)\<rparr>) (k_events c)"

section \<open>The loop\<close>

datatype run_end = EndCtx | EndUnlinked | EndWipeFailed string | EndRefused

text \<open>
  \<open>Run\<close> after \<open>dispatch\<close>: the pause it makes (zero: none) and whether it returns; \<open>ctx\<close> says whether
  its context has ended, before and after the pause.
\<close>

definition after_poll :: "conn \<Rightarrow> bool \<Rightarrow> bool \<Rightarrow> conn \<times> duration \<times> run_end option" where
  "after_poll c perr ctx =
    (if k_unlinked c then (c, 0, Some (case k_wipe_err c of Some e \<Rightarrow> EndWipeFailed e | None \<Rightarrow> EndUnlinked))
     else if ctx then (c, 0, Some EndCtx)
     else if k_persist_err c \<noteq> None then
       (let c' = c\<lparr>k_save_fails := k_save_fails c + 1, k_persist_err := None\<rparr> in
        (c', backoff retryBase connRetryMax (k_save_fails c'), None))
     else if perr then (c, retryBase, None)
     else (c, 0, None))"

definition drain :: "conn \<Rightarrow> bool \<Rightarrow> time \<Rightarrow> conn \<times> run_end option" where
  "drain c perr now =
    (if \<not> k_refused c then (c, None)
     else (let c' = c\<lparr>k_drains := k_drains c + 1\<rparr> in
       (c', if \<not> perr \<and> \<not> k_collected c' \<or> drainMaxCollect \<le> k_drains c'
               \<or> drainMaxTime \<le> now - k_refused_at c' then Some EndRefused else None)))"

section \<open>The connection at work\<close>

text \<open>The part of the record that another package keeps (\<open>Part\<close>); the connection may have none.\<close>

record 'p part_ops =
  po_apply :: "'p \<Rightarrow> message list \<Rightarrow> 'p"
  po_snapshot :: "'p \<Rightarrow> json option option"

definition part_apply :: "'p part_ops option \<Rightarrow> 'p \<Rightarrow> message list \<Rightarrow> 'p" where
  "part_apply G p evs = (case G of None \<Rightarrow> p | Some g \<Rightarrow> po_apply g p evs)"

definition part_snapshot :: "'p part_ops option \<Rightarrow> json option option \<Rightarrow> 'p \<Rightarrow> json option option" where
  "part_snapshot G loaded p = (case G of None \<Rightarrow> loaded | Some g \<Rightarrow> po_snapshot g p)"

text \<open>
  Where \<open>Run\<close> is: at the top of its loop, in \<open>takeCalls\<close>, in the client's \<open>Poll\<close>, inside \<open>persist\<close>
  (before the wipe; before \<open>Apply\<close>; before the save), or returned.
\<close>

datatype kat = AtTop | AtCalls | AtPoll | AtWipe "message list" | AtApply "json option" "message list"
  | AtSave "json option" "message list" | AtEnded run_end

text \<open>
  The connection with the goroutines that call it: every call by its number, those blocked until
  \<open>takeCalls\<close>, those that have not returned, those whose context has ended, and what was put into the
  calls' \<open>done\<close> channels (\<open>y_answers\<close>). The model's own records: the ids calls were sent under, what
  calls returned, every message collected, the records saved, the wipes, the batches \<open>persist\<close> accepted (which the
  client then acknowledges), the events handed on, and the messages given to the client to send.
\<close>

record 'p kworld =
  y_c :: conn
  y_at :: kat
  y_part :: 'p
  y_calls :: "nat \<rightharpoonup> call"
  y_waiting :: "nat set"
  y_open :: "nat set"
  y_over :: "nat set"
  y_answers :: "(nat \<times> reply) list"
  y_ctx :: bool
  y_clock :: time
  y_sent :: "(nat \<times> string) list"
  y_returned :: "(nat \<times> reply) list"
  y_got :: "message list"
  y_saves :: "prec list"
  y_acked :: "message list list"
  y_events :: "event list"
  y_wipes :: "wipe_out list"
  y_sends :: nat

datatype 'p klabel =
    KCall call
  | KOver nat
  | KReturn nat reply
  | KCas access access
  | KPart 'p
  | KTick time
  | KCtx
  | KStop
  | KStatus "client_err + string"
  | KTop
  | KTake nat "client_err + string"
  | KPoll
  | KCollect "json option" "message list"
  | KWipe wipe_out
  | KApply
  | KSave "string option"
  | KPolled bool

definition may_return :: "'p kworld \<Rightarrow> nat \<Rightarrow> reply \<Rightarrow> bool" where
  "may_return w n r = ((n, r) \<in> set (y_answers w) \<or> r = Inl ReqCtx \<and> n \<in> y_over w
     \<or> r = Inl ReqStopped \<and> (\<exists>e. y_at w = AtEnded e) \<and> n \<notin> fst ` set (y_answers w))"

text \<open>\<open>Run\<close>'s deferred function: the calls still pending end with \<open>ErrStopped\<close>.\<close>

definition run_over :: "'p kworld \<Rightarrow> run_end \<Rightarrow> 'p kworld" where
  "run_over w e = (let (c, ans) = fail_pending (y_c w) ReqStopped in
     w\<lparr>y_c := c, y_at := AtEnded e, y_answers := y_answers w @ ans\<rparr>)"

fun call_answers :: "delivery list \<Rightarrow> (nat \<times> reply) list" where
  "call_answers [] = []"
| "call_answers (ToCall n r # ds) = (n, Inr r) # call_answers ds"
| "call_answers (_ # ds) = call_answers ds"

fun event_deliveries :: "delivery list \<Rightarrow> event list" where
  "event_deliveries [] = []"
| "event_deliveries (ToEvent e # ds) = e # event_deliveries ds"
| "event_deliveries (_ # ds) = event_deliveries ds"

definition save_error :: "env \<Rightarrow> prec \<Rightarrow> string option \<Rightarrow> string option" where
  "save_error E r err = (case encode_record E r of Inl _ \<Rightarrow> Some ''record'' | Inr _ \<Rightarrow> err)"

text \<open>The end of a round: \<open>dispatch\<close>, then the rest of the loop's body.\<close>

definition polled :: "'p kworld \<Rightarrow> bool \<Rightarrow> 'p kworld" where
  "polled w perr =
    (let (c1, ds) = dispatch (y_c w) (y_over w);
         (c2, _, e) = after_poll c1 perr (y_ctx w);
         w1 = (\<lambda>c. w\<lparr>y_c := c, y_at := AtTop, y_answers := y_answers w @ call_answers ds,
                  y_events := y_events w @ event_deliveries ds\<rparr>) in
     case e of Some e \<Rightarrow> run_over (w1 c2) e
     | None \<Rightarrow> (let (c3, e) = drain c2 perr (y_clock w) in
         case e of Some e \<Rightarrow> run_over (w1 c3) e | None \<Rightarrow> w1 c3))"

inductive kstep ::
  "env \<Rightarrow> (string \<Rightarrow> bool) \<Rightarrow> duration \<Rightarrow> 'p part_ops option \<Rightarrow> json option option
   \<Rightarrow> 'p kworld \<Rightarrow> 'p klabel \<Rightarrow> 'p kworld \<Rightarrow> bool"
  for E ulid every G loaded where
  k_call: "y_calls w (ca_no cl) = None \<Longrightarrow> ca_id cl = [] \<or> ulid (ca_id cl)
    \<Longrightarrow> kstep E ulid every G loaded w (KCall cl)
          (w\<lparr>y_calls := (y_calls w)(ca_no cl \<mapsto> cl), y_waiting := insert (ca_no cl) (y_waiting w),
             y_open := insert (ca_no cl) (y_open w)\<rparr>)"
| k_bad_id: "y_calls w (ca_no cl) = None \<Longrightarrow> ca_id cl \<noteq> [] \<and> \<not> ulid (ca_id cl)
    \<Longrightarrow> kstep E ulid every G loaded w (KCall cl)
          (w\<lparr>y_calls := (y_calls w)(ca_no cl \<mapsto> cl), y_returned := y_returned w @ [(ca_no cl, Inl ReqBadID)]\<rparr>)"
| k_over: "kstep E ulid every G loaded w (KOver n) (w\<lparr>y_over := insert n (y_over w)\<rparr>)"
| k_return: "n \<in> y_open w \<Longrightarrow> may_return w n r
    \<Longrightarrow> kstep E ulid every G loaded w (KReturn n r)
          (w\<lparr>y_open := y_open w - {n}, y_waiting := y_waiting w - {n}, y_returned := y_returned w @ [(n, r)]\<rparr>)"
| k_cas: "kstep E ulid every G loaded w (KCas old a) (w\<lparr>y_c := fst (conn_cas (y_c w) old a)\<rparr>)"
| k_part: "kstep E ulid every G loaded w (KPart p) (w\<lparr>y_part := p\<rparr>)"
| k_tick: "y_clock w \<le> t \<Longrightarrow> kstep E ulid every G loaded w (KTick t) (w\<lparr>y_clock := t\<rparr>)"
| k_ctx: "kstep E ulid every G loaded w KCtx (w\<lparr>y_ctx := True\<rparr>)"
| k_stop: "y_at w = AtTop \<Longrightarrow> y_ctx w \<Longrightarrow> kstep E ulid every G loaded w KStop (run_over w EndCtx)"
| k_status: "y_at w = AtTop \<Longrightarrow> \<not> y_ctx w \<Longrightarrow> \<not> k_refused (y_c w) \<Longrightarrow> k_refresh_at (y_c w) \<le> y_clock w
    \<Longrightarrow> send_status (y_c w) every (y_clock w) out = (c, ans)
    \<Longrightarrow> kstep E ulid every G loaded w (KStatus out)
          (w\<lparr>y_c := c, y_at := AtCalls, y_answers := y_answers w @ ans, y_sends := y_sends w + 1\<rparr>)"
| k_top: "y_at w = AtTop \<Longrightarrow> \<not> y_ctx w \<Longrightarrow> k_refused (y_c w) \<or> y_clock w < k_refresh_at (y_c w)
    \<Longrightarrow> kstep E ulid every G loaded w KTop (w\<lparr>y_at := AtCalls\<rparr>)"
| k_take: "y_at w = AtCalls \<Longrightarrow> n \<in> y_waiting w \<Longrightarrow> y_calls w n = Some cl
    \<Longrightarrow> (\<And>i. out = Inr i \<Longrightarrow> ca_id cl \<noteq> [] \<Longrightarrow> i = ca_id cl)
    \<Longrightarrow> take_call (y_c w) (y_clock w) cl (n \<in> y_over w) out = (c, ans)
    \<Longrightarrow> kstep E ulid every G loaded w (KTake n out)
          (w\<lparr>y_c := c, y_waiting := y_waiting w - {n}, y_answers := y_answers w @ ans,
             y_sends := (if call_sends (y_c w) (n \<in> y_over w) then y_sends w + 1 else y_sends w),
             y_sent := (case out of Inr i \<Rightarrow> if call_sends (y_c w) (n \<in> y_over w) then y_sent w @ [(n, i)]
                else y_sent w | Inl _ \<Rightarrow> y_sent w)\<rparr>)"
| k_poll: "y_at w = AtCalls
    \<Longrightarrow> kstep E ulid every G loaded w KPoll (w\<lparr>y_c := (y_c w)\<lparr>k_collected := False\<rparr>, y_at := AtPoll\<rparr>)"
| k_collect: "y_at w = AtPoll \<Longrightarrow> collect E (y_c w) (y_clock w) evs = c
    \<Longrightarrow> kstep E ulid every G loaded w (KCollect st evs)
          (w\<lparr>y_c := c, y_got := y_got w @ evs, y_at := (if k_unlinked c then AtWipe evs else AtApply st evs)\<rparr>)"
| k_wipe: "y_at w = AtWipe evs
    \<Longrightarrow> kstep E ulid every G loaded w (KWipe out)
          (w\<lparr>y_c := wipe_end (y_c w) out, y_at := AtPoll, y_wipes := y_wipes w @ [out],
             y_acked := (case out of WipeFailed _ \<Rightarrow> y_acked w | _ \<Rightarrow> y_acked w @ [evs])\<rparr>)"
| k_apply: "y_at w = AtApply st evs
    \<Longrightarrow> kstep E ulid every G loaded w KApply (w\<lparr>y_part := part_apply G (y_part w) evs, y_at := AtSave st evs\<rparr>)"
| k_save: "y_at w = AtSave st evs \<Longrightarrow> save_record (y_c w) st (part_snapshot G loaded (y_part w)) = r
    \<Longrightarrow> save_error E r err = err'
    \<Longrightarrow> kstep E ulid every G loaded w (KSave err)
          (w\<lparr>y_c := save_end (y_c w) err', y_at := AtPoll,
             y_saves := (if err' = None then y_saves w @ [r] else y_saves w),
             y_acked := (if err' = None then y_acked w @ [evs] else y_acked w)\<rparr>)"
| k_polled: "y_at w = AtPoll \<Longrightarrow> kstep E ulid every G loaded w (KPolled perr) (polled w perr)"

definition kworld0 :: "conn \<Rightarrow> 'p \<Rightarrow> time \<Rightarrow> 'p kworld" where
  "kworld0 c p now = \<lparr>y_c = c, y_at = AtTop, y_part = p, y_calls = Map.empty, y_waiting = {}, y_open = {},
     y_over = {}, y_answers = [], y_ctx = False, y_clock = now, y_sent = [], y_returned = [], y_got = [],
     y_saves = [], y_acked = [], y_events = [], y_wipes = [], y_sends = 0\<rparr>"

section \<open>Calls and their answers\<close>

text \<open>
  The calls pending (\<open>P\<close>), answered (\<open>A\<close>) and not yet taken (\<open>W\<close>) are different ones among those made
  (\<open>D\<close>), each answered at most once, and an answer of the vault answers the id the call was sent under.
\<close>

definition answer_fits :: "(nat \<times> string) list \<Rightarrow> message list \<Rightarrow> nat \<times> reply \<Rightarrow> bool" where
  "answer_fits S G a = (case snd a of Inl _ \<Rightarrow> True
     | Inr x \<Rightarrow> \<exists>m \<in> set G. x = response_of m \<and> (fst a, ms_re m) \<in> set S)"

definition calls_ok ::
  "nat set \<Rightarrow> (string \<times> nat) list \<Rightarrow> (nat \<times> reply) list \<Rightarrow> nat set \<Rightarrow> (nat \<times> string) list \<Rightarrow> message list \<Rightarrow> bool" where
  "calls_ok D P A W S G =
     (distinct (map fst P) \<and> distinct (map snd P) \<and> distinct (map fst A)
      \<and> snd ` set P \<inter> W = {} \<and> snd ` set P \<inter> fst ` set A = {} \<and> fst ` set A \<inter> W = {}
      \<and> snd ` set P \<subseteq> D \<and> fst ` set A \<subseteq> D \<and> W \<subseteq> D
      \<and> (\<forall>p \<in> set P. (snd p, fst p) \<in> set S) \<and> (\<forall>a \<in> set A. answer_fits S G a))"

lemma answer_fits_mono: "answer_fits S G a \<Longrightarrow> set S \<subseteq> set S' \<Longrightarrow> set G \<subseteq> set G' \<Longrightarrow> answer_fits S' G' a"
  unfolding answer_fits_def by (cases "snd a"; simp; blast)

lemma answer_fits_Inl [simp]: "answer_fits S G (n, Inl e)"
  by (simp add: answer_fits_def)

lemma calls_okI:
  assumes "distinct (map fst P)" "distinct (map snd P)" "distinct (map fst A)"
    and "snd ` set P \<inter> W = {}" "snd ` set P \<inter> fst ` set A = {}" "fst ` set A \<inter> W = {}"
    and "snd ` set P \<subseteq> D" "fst ` set A \<subseteq> D" "W \<subseteq> D"
    and "\<And>p. p \<in> set P \<Longrightarrow> (snd p, fst p) \<in> set S" "\<And>a. a \<in> set A \<Longrightarrow> answer_fits S G a"
  shows "calls_ok D P A W S G"
  unfolding calls_ok_def by (intro conjI ballI assms)

lemma calls_okD:
  assumes "calls_ok D P A W S G"
  shows "distinct (map fst P)" "distinct (map snd P)" "distinct (map fst A)"
    "snd ` set P \<inter> W = {}" "snd ` set P \<inter> fst ` set A = {}" "fst ` set A \<inter> W = {}"
    "snd ` set P \<subseteq> D" "fst ` set A \<subseteq> D" "W \<subseteq> D"
    "\<And>p. p \<in> set P \<Longrightarrow> (snd p, fst p) \<in> set S" "\<And>a. a \<in> set A \<Longrightarrow> answer_fits S G a"
  using assms by (simp_all only: calls_ok_def)

lemma calls_ok_mono:
  assumes "calls_ok D P A W S G" and "D \<subseteq> D'" and "W' \<subseteq> W" and "set G \<subseteq> set G'"
  shows "calls_ok D' P A W' S G'"
proof -
  note c = calls_okD [OF assms(1)]
  show ?thesis
  proof (rule calls_okI)
    show "snd ` set P \<inter> W' = {}" using c(4) assms(3) by blast
    show "fst ` set A \<inter> W' = {}" using c(6) assms(3) by blast
    show "snd ` set P \<subseteq> D'" "fst ` set A \<subseteq> D'" "W' \<subseteq> D'" using c(7-9) assms(2,3) by blast+
    show "answer_fits S G' a" if "a \<in> set A" for a
      by (rule answer_fits_mono [OF c(11) [OF that] subset_refl assms(4)])
  qed (rule c | assumption)+
qed

lemma calls_ok_wait:
  assumes "calls_ok D P A W S G" and "n \<notin> D"
  shows "calls_ok (insert n D) P A (insert n W) S G"
proof -
  note c = calls_okD [OF assms(1)]
  show ?thesis
  proof (rule calls_okI)
    show "snd ` set P \<inter> insert n W = {}" using c(4,7) assms(2) by blast
    show "fst ` set A \<inter> insert n W = {}" using c(6,8) assms(2) by blast
    show "snd ` set P \<subseteq> insert n D" "fst ` set A \<subseteq> insert n D" "insert n W \<subseteq> insert n D"
      using c(7-9) by blast+
  qed (rule c | assumption)+
qed

lemma calls_ok_filter:
  assumes "calls_ok D P A W S G"
  shows "calls_ok D (filter Q P) A W S G"
proof -
  note c = calls_okD [OF assms]
  have f: "snd ` set (filter Q P) \<subseteq> snd ` set P" by auto
  show ?thesis
  proof (rule calls_okI)
    show "distinct (map fst (filter Q P))" by (rule distinct_map_filter [OF c(1)])
    show "distinct (map snd (filter Q P))" by (rule distinct_map_filter [OF c(2)])
    show "snd ` set (filter Q P) \<inter> W = {}" "snd ` set (filter Q P) \<inter> fst ` set A = {}"
      "snd ` set (filter Q P) \<subseteq> D" using f c(4,5,7) by blast+
    show "(snd p, fst p) \<in> set S" if "p \<in> set (filter Q P)" for p using c(10) [of p] that by simp
  qed (rule c | assumption)+
qed

lemma calls_ok_fail:
  assumes "calls_ok D P A W S G"
  shows "calls_ok D [] (A @ map (\<lambda>p. (snd p, Inl e)) P) W S G"
proof -
  note c = calls_okD [OF assms]
  have m: "map fst (A @ map (\<lambda>p. (snd p, Inl e :: reply)) P) = map fst A @ map snd P" by simp
  then have s: "fst ` set (A @ map (\<lambda>p. (snd p, Inl e :: reply)) P) = fst ` set A \<union> snd ` set P"
    by (metis set_append set_map)
  show ?thesis
  proof (rule calls_okI)
    show "distinct (map fst (A @ map (\<lambda>p. (snd p, Inl e)) P))"
      unfolding m using c(2,3,5) by (simp del: set_map add: Int_commute) (simp add: Int_commute)
    show "answer_fits S G a" if "a \<in> set (A @ map (\<lambda>p. (snd p, Inl e)) P)" for a
      using c(11) [of a] that by auto
    show "fst ` set (A @ map (\<lambda>p. (snd p, Inl e)) P) \<inter> W = {}"
      "fst ` set (A @ map (\<lambda>p. (snd p, Inl e)) P) \<subseteq> D"
      unfolding s using c(4,6,7,8) by blast+
  qed (simp_all add: c)
qed

lemma calls_ok_answer:
  assumes "calls_ok D P A W S G" and "n \<in> D" "n \<notin> snd ` set P" "n \<notin> fst ` set A" "n \<notin> W"
    and "answer_fits S G (n, r)"
  shows "calls_ok D P (A @ [(n, r)]) W S G"
proof -
  note c = calls_okD [OF assms(1)]
  have s: "fst ` set (A @ [(n, r)]) = insert n (fst ` set A)" by simp
  show ?thesis
  proof (rule calls_okI)
    show "distinct (map fst (A @ [(n, r)]))" using c(3) assms(4) by simp
    show "snd ` set P \<inter> fst ` set (A @ [(n, r)]) = {}" "fst ` set (A @ [(n, r)]) \<inter> W = {}"
      "fst ` set (A @ [(n, r)]) \<subseteq> D"
      unfolding s using c(5,6,8) assms(2,3,5) by blast+
    show "answer_fits S G a" if "a \<in> set (A @ [(n, r)])" for a using c(11) [of a] assms(6) that by auto
  qed (rule c | assumption)+
qed

lemma calls_ok_reject:
  assumes "calls_ok D P A W S G" and "n \<in> W"
  shows "calls_ok D P (A @ [(n, Inl e)]) (W - {n}) S G"
proof (rule calls_ok_answer)
  note c = calls_okD [OF assms(1)]
  show "calls_ok D P A (W - {n}) S G" by (rule calls_ok_mono [OF assms(1)]) auto
  show "n \<in> D" "n \<notin> snd ` set P" "n \<notin> fst ` set A" using c(4,6,9) assms(2) by blast+
qed simp_all

text \<open>The call pending under an id is taken off.\<close>

lemma calls_ok_remove:
  assumes "calls_ok D P A W S G" and "map_of P i = Some n"
  shows "calls_ok D (filter (\<lambda>p. fst p \<noteq> i) P) A W S G" and "n \<in> D" and "n \<notin> fst ` set A" and "n \<notin> W"
    and "(n, i) \<in> set S" and "n \<notin> snd ` set (filter (\<lambda>p. fst p \<noteq> i) P)"
proof -
  note c = calls_okD [OF assms(1)]
  have P: "(i, n) \<in> set P" by (rule map_of_SomeD [OF assms(2)])
  then have n: "n \<in> snd ` set P" by force
  show "calls_ok D (filter (\<lambda>p. fst p \<noteq> i) P) A W S G" by (rule calls_ok_filter [OF assms(1)])
  show "n \<in> D" "n \<notin> fst ` set A" "n \<notin> W" using c(4,5,7) n by blast+
  show "(n, i) \<in> set S" using c(10) [OF P] by simp
  have "p = (i, n)" if "p \<in> set P" "snd p = n" for p
    using P that c(2) by (metis distinct_map inj_onD snd_conv)
  then show "n \<notin> snd ` set (filter (\<lambda>p. fst p \<noteq> i) P)" by auto
qed

lemma calls_ok_deliver:
  assumes "calls_ok D P A W S G" and "map_of P (ms_re m) = Some n" and "m \<in> set G"
  shows "calls_ok D (filter (\<lambda>p. fst p \<noteq> ms_re m) P) (A @ [(n, Inr (response_of m))]) W S G"
  using calls_ok_remove [OF assms(1,2)] assms(3) by (intro calls_ok_answer) (auto simp: answer_fits_def)

lemma calls_ok_add:
  assumes "calls_ok D P A W S G" and "n \<in> W" and "i \<notin> fst ` set P"
  shows "calls_ok D (P @ [(i, n)]) A (W - {n}) (S @ [(n, i)]) G"
proof -
  note c = calls_okD [OF assms(1)]
  have s: "snd ` set (P @ [(i, n)]) = insert n (snd ` set P)" by simp
  have n: "n \<notin> snd ` set P" "n \<notin> fst ` set A" "n \<in> D" using c(4,6,9) assms(2) by blast+
  show ?thesis
  proof (rule calls_okI)
    show "distinct (map fst (P @ [(i, n)]))" using c(1) assms(3) by simp
    show "distinct (map snd (P @ [(i, n)]))" using c(2) n(1) by simp
    show "snd ` set (P @ [(i, n)]) \<inter> (W - {n}) = {}" unfolding s using c(4) by blast
    show "snd ` set (P @ [(i, n)]) \<inter> fst ` set A = {}" unfolding s using c(5) n(2) by blast
    show "snd ` set (P @ [(i, n)]) \<subseteq> D" unfolding s using c(7) n(3) by blast
    show "fst ` set A \<inter> (W - {n}) = {}" "W - {n} \<subseteq> D" using c(6,9) by blast+
    show "answer_fits (S @ [(n, i)]) G a" if "a \<in> set A" for a
      by (rule answer_fits_mono [OF c(11) [OF that]]) auto
    show "(snd p, fst p) \<in> set (S @ [(n, i)])" if "p \<in> set (P @ [(i, n)])" for p
      using c(10) [of p] that by auto
  qed (rule c | assumption)+
qed

lemma calls_ok_take:
  assumes "calls_ok D P A W S G" and "n \<in> W"
  shows "calls_ok D (filter (\<lambda>p. fst p \<noteq> i) P @ [(i, n)])
    (A @ (case map_of P i of None \<Rightarrow> [] | Some old \<Rightarrow> [(old, Inl e)])) (W - {n}) (S @ [(n, i)]) G"
proof -
  have i: "i \<notin> fst ` set (filter (\<lambda>p. fst p \<noteq> i) P)" by auto
  show ?thesis
  proof (cases "map_of P i")
    case None
    with calls_ok_add [OF calls_ok_filter [OF assms(1)] assms(2) i] show ?thesis by simp
  next
    case (Some old)
    note r = calls_ok_remove [OF assms(1) Some]
    have "calls_ok D (filter (\<lambda>p. fst p \<noteq> i) P) (A @ [(old, Inl e)]) W S G"
      using r by (intro calls_ok_answer) auto
    from calls_ok_add [OF this assms(2) i] Some show ?thesis by simp
  qed
qed

subsection \<open>The operations keep them so\<close>

lemma send_failed_calls:
  "calls_ok D (k_pending c) A W S G \<Longrightarrow> send_failed c now e = (c', ans)
   \<Longrightarrow> calls_ok D (k_pending c') (A @ ans) W S G"
  by (auto simp: send_failed_def fail_pending_def split: if_splits intro: calls_ok_fail)

lemma send_status_calls:
  "calls_ok D (k_pending c) A W S G \<Longrightarrow> send_status c every now out = (c', ans)
   \<Longrightarrow> calls_ok D (k_pending c') (A @ ans) W S G"
  by (auto simp: send_status_def Let_def split: sum.splits prod.splits dest: send_failed_calls)

lemma take_call_calls:
  assumes "calls_ok D (k_pending c) A W S G" and "n \<in> W" and "ca_no cl = n"
    and "take_call c now cl over out = (c', ans)"
  shows "calls_ok D (k_pending c') (A @ ans) (W - {n})
    (case out of Inr i \<Rightarrow> if call_sends c over then S @ [(n, i)] else S | Inl _ \<Rightarrow> S) G"
proof (cases "over \<or> k_refused c")
  case True
  with assms show ?thesis
    by (auto simp: take_call_def call_sends_def intro: calls_ok_reject split: sum.split if_splits)
next
  case False
  show ?thesis
  proof (cases out)
    case (Inl e)
    obtain c1 a1 where s: "send_failed c now e = (c1, a1)" by fastforce
    from send_failed_calls [OF assms(1) s] have "calls_ok D (k_pending c1) (A @ a1) W S G" .
    from calls_ok_reject [OF this assms(2)] False Inl assms s show ?thesis
      by (auto simp: take_call_def)
  next
    case (Inr i)
    with False assms calls_ok_take [OF assms(1,2), of i ReqSuperseded] show ?thesis
      by (auto simp: take_call_def call_sends_def)
  qed
qed

lemma read_status_pending: "k_pending (fst (read_status c r)) = k_pending c"
  by (simp add: read_status_def split: option.split)

lemma dispatch_msg_calls:
  assumes "calls_ok D (k_pending c) A W S G" and "m \<in> set G" and "dispatch_msg c m = (c', d)"
  shows "calls_ok D (k_pending c') (A @ call_answers [d]) W S G"
proof -
  consider n where "map_of (k_pending c) (ms_re m) = Some n" "d = ToCall n (response_of m)"
      "k_pending c' = filter (\<lambda>p. fst p \<noteq> ms_re m) (k_pending c)"
    | "k_pending c' = k_pending c" "call_answers [d] = []"
  proof (cases "ms_re m = [] \<or> ms_re m = k_status_id c")
    case True
    obtain c1 r where "read_status (c\<lparr>k_status_id := []\<rparr>) (response_of m) = (c1, r)" by fastforce
    moreover from this have "k_pending c1 = k_pending c"
      using read_status_pending [of "c\<lparr>k_status_id := []\<rparr>" "response_of m"] by simp
    ultimately show ?thesis using True assms(3) that(2)
      by (simp add: dispatch_msg_def split: if_splits option.splits) auto
  next
    case False
    with assms(3) that show ?thesis
      by (cases "map_of (k_pending c) (ms_re m)") (auto simp: dispatch_msg_def)
  qed
  then show ?thesis
  proof cases
    case (1 n)
    then show ?thesis using calls_ok_deliver [OF assms(1) 1(1) assms(2)] by simp
  qed (use assms(1) in simp)
qed

lemma call_answers_append: "call_answers (a @ b) = call_answers a @ call_answers b"
  by (induction a rule: call_answers.induct) simp_all

lemma dispatch_msgs_calls:
  "calls_ok D (k_pending c) A W S G \<Longrightarrow> set ms \<subseteq> set G \<Longrightarrow> dispatch_msgs c ms = (c', ds)
   \<Longrightarrow> calls_ok D (k_pending c') (A @ call_answers ds) W S G"
proof (induction c ms arbitrary: A c' ds rule: dispatch_msgs.induct)
  case (2 c m ms)
  obtain c1 d where d: "dispatch_msg c m = (c1, d)" by fastforce
  obtain c2 ds2 where r: "dispatch_msgs c1 ms = (c2, ds2)" by fastforce
  have "calls_ok D (k_pending c1) (A @ call_answers [d]) W S G"
    using 2(2,3) d by (intro dispatch_msg_calls) auto
  then have "calls_ok D (k_pending c2) ((A @ call_answers [d]) @ call_answers ds2) W S G"
    using 2(3) by (intro "2.IH" [OF d [symmetric] refl _ _ r]) auto
  with 2(4) d r call_answers_append [of "[d]" ds2] show ?case by simp
qed simp

lemma dispatch_calls:
  "calls_ok D (k_pending c) A W S G \<Longrightarrow> set (k_events c) \<subseteq> set G \<Longrightarrow> dispatch c over = (c', ds)
   \<Longrightarrow> calls_ok D (k_pending c') (A @ call_answers ds) W S G"
  unfolding dispatch_def by (erule dispatch_msgs_calls [rotated 2]) (simp_all add: calls_ok_filter)

section \<open>What the operations leave alone\<close>

text \<open>Everything but the pending calls, the refusal and the status request.\<close>

definition kept :: "conn \<Rightarrow> conn \<Rightarrow> bool" where
  "kept c c' = (k_events c' = k_events c \<and> k_unlinked c' = k_unlinked c \<and> k_drains c' = k_drains c
     \<and> k_access c' = k_access c \<and> k_collected c' = k_collected c \<and> k_wipe_err c' = k_wipe_err c
     \<and> (k_refused c \<longrightarrow> k_refused c'))"

lemma kept_refl [simp]: "kept c c"
  by (simp add: kept_def)

lemma send_failed_kept: "send_failed c now e = (c', ans) \<Longrightarrow> kept c c'"
  by (auto simp: send_failed_def fail_pending_def kept_def split: if_splits)

lemma send_status_kept: "send_status c every now out = (c', ans) \<Longrightarrow> kept c c'"
  by (auto simp: send_status_def Let_def split: sum.splits prod.splits dest!: send_failed_kept)
    (auto simp: kept_def)

lemma take_call_kept: "take_call c now cl over out = (c', ans) \<Longrightarrow> kept c c'"
  by (auto simp: take_call_def split: if_splits sum.splits prod.splits dest!: send_failed_kept)
    (auto simp: kept_def)

lemma read_status_kept: "kept c (fst (read_status c r))"
  by (simp add: read_status_def kept_def split: option.split)

lemma dispatch_msg_kept: "kept c (fst (dispatch_msg c m))"
  using read_status_kept [of "c\<lparr>k_status_id := []\<rparr>" "response_of m"]
  by (auto simp: dispatch_msg_def kept_def split: prod.split option.split)

lemma kept_trans: "kept a b \<Longrightarrow> kept b c \<Longrightarrow> kept a c"
  by (simp add: kept_def)

lemma dispatch_msgs_kept: "kept c (fst (dispatch_msgs c ms))"
proof (induction c ms rule: dispatch_msgs.induct)
  case (2 c m ms)
  obtain c1 d where d: "dispatch_msg c m = (c1, d)" by fastforce
  have "kept c1 (fst (dispatch_msgs c1 ms))" using "2.IH" d by simp
  moreover have "kept c c1" using dispatch_msg_kept [of c m] d by simp
  ultimately have "kept c (fst (dispatch_msgs c1 ms))" by (rule kept_trans [rotated])
  with d show ?case by (auto split: prod.split)
qed simp

lemma dispatch_kept:
  assumes "dispatch c over = (c', ds)"
  shows "k_events c' = []" and "k_unlinked c' = k_unlinked c" and "k_drains c' = k_drains c"
    and "k_access c' = k_access c" and "k_collected c' = k_collected c" and "k_refused c \<Longrightarrow> k_refused c'"
    and "k_wipe_err c' = k_wipe_err c"
  using dispatch_msgs_kept [of "c\<lparr>k_events := [], k_pending := filter (\<lambda>p. snd p \<notin> over) (k_pending c)\<rparr>" "k_events c"]
    assms
  by (simp_all add: dispatch_def kept_def)

lemma dispatch_msg_refused: "k_refused (fst (dispatch_msg c m)) = k_refused c"
proof -
  have rs: "k_refused (fst (read_status c x)) = k_refused c" for c x
    by (simp add: read_status_def split: option.split)
  show ?thesis
    using rs [of "c\<lparr>k_status_id := []\<rparr>" "response_of m"]
    by (auto simp: dispatch_msg_def split: prod.split option.split)
qed

lemma dispatch_msgs_refused: "k_refused (fst (dispatch_msgs c ms)) = k_refused c"
proof (induction ms arbitrary: c)
  case (Cons m ms)
  then show ?case using dispatch_msg_refused [of c m] by (auto simp: split_beta Let_def)
qed simp

lemma dispatch_refused: "k_refused (fst (dispatch c over)) = k_refused c"
  by (simp add: dispatch_def dispatch_msgs_refused)

lemma after_poll_kept:
  assumes "after_poll c perr ctx = (c', p, e)"
  shows "k_pending c' = k_pending c" and "k_events c' = k_events c" and "k_unlinked c' = k_unlinked c"
    and "k_drains c' = k_drains c" and "k_access c' = k_access c" and "k_collected c' = k_collected c"
    and "k_refused c' = k_refused c" and "e = None \<Longrightarrow> \<not> k_unlinked c \<and> \<not> ctx"
  using assms by (auto simp: after_poll_def Let_def split: if_splits)

lemma drain_kept:
  assumes "drain c perr now = (c', e)"
  shows "k_pending c' = k_pending c" and "k_events c' = k_events c" and "k_unlinked c' = k_unlinked c"
    and "k_access c' = k_access c" and "k_refused c' = k_refused c"
    and "k_drains c' = (if k_refused c then k_drains c + 1 else k_drains c)"
    and "e = None \<Longrightarrow> k_refused c \<Longrightarrow> k_drains c' < drainMaxCollect"
  using assms by (auto simp: drain_def Let_def split: if_splits)

lemma collect_events: "k_events (collect E c now evs) = k_events c @ evs"
  and collect_pending: "k_pending (collect E c now evs) = k_pending c"
  and collect_drains: "k_drains (collect E c now evs) = k_drains c"
  and collect_refused: "k_refused (collect E c now evs) = k_refused c"
  by (simp_all add: collect_def Let_def)

lemma collect_access:
  "\<not> k_unlinked (collect E c now evs) \<Longrightarrow> k_access (collect E c now evs) = apply_access E (k_access c) evs"
  by (cases "k_unlinked c \<or> list_ex is_unlinked evs") (auto simp: collect_def)

lemma conn_cas_kept:
  "k_pending (fst (conn_cas c old a)) = k_pending c" "k_events (fst (conn_cas c old a)) = k_events c"
  "k_drains (fst (conn_cas c old a)) = k_drains c" "k_refused (fst (conn_cas c old a)) = k_refused c"
  "k_unlinked (fst (conn_cas c old a)) = k_unlinked c"
  by (simp_all add: conn_cas_def)

lemma wipe_end_kept:
  "k_pending (wipe_end c out) = k_pending c" "k_events (wipe_end c out) = k_events c"
  "k_drains (wipe_end c out) = k_drains c" "k_refused (wipe_end c out) = k_refused c"
  "k_unlinked (wipe_end c out) = k_unlinked c"
  by (simp_all add: wipe_end_def)

lemma save_end_kept:
  "k_pending (save_end c err) = k_pending c" "k_events (save_end c err) = k_events c"
  "k_drains (save_end c err) = k_drains c" "k_refused (save_end c err) = k_refused c"
  "k_unlinked (save_end c err) = k_unlinked c" "k_access (save_end c err) = k_access c"
  by (simp_all add: save_end_def split: option.split)

lemmas conn_kept = collect_events collect_pending collect_drains collect_refused conn_cas_kept wipe_end_kept
  save_end_kept

section \<open>The invariant of the calls\<close>

definition returned_ok :: "'p kworld \<Rightarrow> nat \<times> reply \<Rightarrow> bool" where
  "returned_ok w a = (fst a \<notin> y_open w \<and> y_calls w (fst a) \<noteq> None
     \<and> (\<forall>x. snd a = Inr x \<longrightarrow> a \<in> set (y_answers w)))"

definition cinv :: "'p kworld \<Rightarrow> bool" where
  "cinv w = (calls_ok (dom (y_calls w)) (k_pending (y_c w)) (y_answers w) (y_waiting w) (y_sent w) (y_got w)
     \<and> set (k_events (y_c w)) \<subseteq> set (y_got w) \<and> y_open w \<subseteq> dom (y_calls w)
     \<and> (\<forall>n cl. y_calls w n = Some cl \<longrightarrow> ca_no cl = n)
     \<and> distinct (map fst (y_returned w)) \<and> (\<forall>a \<in> set (y_returned w). returned_ok w a))"

lemma run_over_cinv:
  assumes "cinv w"
  shows "cinv (run_over w e)"
  using assms calls_ok_fail [of "dom (y_calls w)" "k_pending (y_c w)" "y_answers w" "y_waiting w" "y_sent w"
      "y_got w" ReqStopped]
  by (auto simp: cinv_def run_over_def fail_pending_def returned_ok_def Let_def split: sum.splits)

text \<open>A step that only adds answers and keeps the events.\<close>

lemma cinv_answers:
  assumes "cinv w" and "calls_ok (dom (y_calls w)) (k_pending c) (y_answers w @ ans) W S (y_got w)"
    and "set (k_events c) \<subseteq> set (y_got w)"
  shows "cinv (w\<lparr>y_c := c, y_at := a, y_answers := y_answers w @ ans, y_waiting := W, y_sent := S,
     y_sends := k, y_events := evs\<rparr>)"
  using assms by (auto simp: cinv_def returned_ok_def split: sum.splits)

lemma polled_cinv:
  assumes "cinv w"
  shows "cinv (polled w perr)"
proof -
  obtain c1 ds where d: "dispatch (y_c w) (y_over w) = (c1, ds)" by fastforce
  obtain c2 p e where a: "after_poll c1 perr (y_ctx w) = (c2, p, e)" by (cases "after_poll c1 perr (y_ctx w)")
  obtain c3 e' where r: "drain c2 perr (y_clock w) = (c3, e')" by fastforce
  have ok: "calls_ok (dom (y_calls w)) (k_pending c1) (y_answers w @ call_answers ds) (y_waiting w) (y_sent w) (y_got w)"
    using assms by (intro dispatch_calls [OF _ _ d]) (simp_all add: cinv_def)
  let ?w = "\<lambda>c at'. w\<lparr>y_c := c, y_at := at', y_answers := y_answers w @ call_answers ds,
      y_waiting := y_waiting w, y_sent := y_sent w, y_sends := y_sends w,
      y_events := y_events w @ event_deliveries ds\<rparr>"
  have "cinv (?w c2 at')" "cinv (?w c3 at')" for at'
    using ok after_poll_kept(1,2) [OF a] drain_kept(1,2) [OF r] dispatch_kept(1) [OF d]
    by (rule_tac [!] cinv_answers [OF assms]) simp_all
  moreover have "polled w perr = (case e of Some e \<Rightarrow> run_over (?w c2 AtTop) e
      | None \<Rightarrow> (case e' of Some e \<Rightarrow> run_over (?w c3 AtTop) e | None \<Rightarrow> ?w c3 AtTop))"
    using d a r by (simp add: polled_def split: option.split)
  ultimately show ?thesis by (auto intro: run_over_cinv split: option.split)
qed

text \<open>One lemma per kind of step.\<close>

lemma call_cinv:
  assumes "cinv w" and "y_calls w (ca_no cl) = None"
  shows "cinv (w\<lparr>y_calls := (y_calls w)(ca_no cl \<mapsto> cl), y_waiting := insert (ca_no cl) (y_waiting w),
      y_open := insert (ca_no cl) (y_open w)\<rparr>)"
    and "cinv (w\<lparr>y_calls := (y_calls w)(ca_no cl \<mapsto> cl), y_returned := y_returned w @ [(ca_no cl, Inl e)]\<rparr>)"
proof -
  let ?n = "ca_no cl"
  have fresh: "?n \<notin> dom (y_calls w)" using assms(2) by auto
  have ok: "calls_ok (dom (y_calls w)) (k_pending (y_c w)) (y_answers w) (y_waiting w) (y_sent w) (y_got w)"
    using assms(1) by (simp add: cinv_def)
  from assms fresh have ret: "fst a \<noteq> ?n" if "a \<in> set (y_returned w)" for a
    using that by (auto simp: cinv_def returned_ok_def)
  have "calls_ok (insert ?n (dom (y_calls w))) (k_pending (y_c w)) (y_answers w) (y_waiting w) (y_sent w) (y_got w)"
    by (rule calls_ok_mono [OF ok]) auto
  then show "cinv (w\<lparr>y_calls := (y_calls w)(?n \<mapsto> cl), y_returned := y_returned w @ [(?n, Inl e)]\<rparr>)"
    using assms ret by (auto simp: cinv_def returned_ok_def split: sum.splits)
  from calls_ok_wait [OF ok fresh]
  show "cinv (w\<lparr>y_calls := (y_calls w)(?n \<mapsto> cl), y_waiting := insert ?n (y_waiting w),
      y_open := insert ?n (y_open w)\<rparr>)"
    using assms ret by (auto simp: cinv_def returned_ok_def)
qed

lemma return_cinv:
  assumes "cinv w" and "n \<in> y_open w" and "may_return w n r"
  shows "cinv (w\<lparr>y_open := y_open w - {n}, y_waiting := y_waiting w - {n}, y_returned := y_returned w @ [(n, r)]\<rparr>)"
proof -
  have "calls_ok (dom (y_calls w)) (k_pending (y_c w)) (y_answers w) (y_waiting w - {n}) (y_sent w) (y_got w)"
    using assms(1) by (auto simp: cinv_def intro: calls_ok_mono)
  moreover have "\<forall>x. r = Inr x \<longrightarrow> (n, r) \<in> set (y_answers w)"
    using assms(3) by (auto simp: may_return_def)
  moreover have "n \<notin> fst ` set (y_returned w)" using assms(1,2) by (auto simp: cinv_def returned_ok_def)
  ultimately show ?thesis using assms(1,2) by (auto simp: cinv_def returned_ok_def)
qed

lemma take_cinv:
  assumes "cinv w" and "n \<in> y_waiting w" and "y_calls w n = Some cl"
    and "take_call (y_c w) now cl over out = (c, ans)"
    and "S = (case out of Inr i \<Rightarrow> if call_sends (y_c w) over then y_sent w @ [(n, i)] else y_sent w
          | Inl _ \<Rightarrow> y_sent w)"
  shows "cinv (w\<lparr>y_c := c, y_waiting := y_waiting w - {n}, y_answers := y_answers w @ ans, y_sends := k, y_sent := S\<rparr>)"
proof -
  have "calls_ok (dom (y_calls w)) (k_pending c) (y_answers w @ ans) (y_waiting w - {n}) S (y_got w)"
    unfolding assms(5) using assms(1-3) by (intro take_call_calls [OF _ assms(2) _ assms(4)]) (auto simp: cinv_def)
  moreover have "set (k_events c) \<subseteq> set (y_got w)"
    using assms(1) take_call_kept [OF assms(4)] by (simp add: cinv_def kept_def)
  ultimately show ?thesis using assms(1) by (auto simp: cinv_def returned_ok_def)
qed

lemma collect_cinv:
  assumes "cinv w"
  shows "cinv (w\<lparr>y_c := collect E (y_c w) now evs, y_got := y_got w @ evs, y_at := a\<rparr>)"
  using assms calls_ok_mono [of "dom (y_calls w)" "k_pending (y_c w)" "y_answers w" "y_waiting w" "y_sent w"
      "y_got w" "dom (y_calls w)" "y_waiting w" "y_got w @ evs"]
  by (auto simp: cinv_def returned_ok_def conn_kept)

lemma cinv_frame:
  assumes "cinv w" and "k_pending c = k_pending (y_c w)" and "k_events c = k_events (y_c w)"
  shows "cinv (w\<lparr>y_c := c, y_at := a, y_part := p, y_over := ov, y_ctx := x, y_clock := t, y_wipes := wi, y_saves := sv,
    y_acked := ak\<rparr>)"
  using assms by (auto simp: cinv_def returned_ok_def)

lemma cinv_step:
  assumes "kstep E ulid every G loaded w l w'" and "cinv w"
  shows "cinv w'"
  using assms
proof cases
  case (k_status out c ans)
  have "calls_ok (dom (y_calls w)) (k_pending c) (y_answers w @ ans) (y_waiting w) (y_sent w) (y_got w)"
    using assms(2) k_status(7) by (auto simp: cinv_def intro: send_status_calls)
  moreover have "set (k_events c) \<subseteq> set (y_got w)"
    using assms(2) send_status_kept [OF k_status(7)] by (simp add: cinv_def kept_def)
  ultimately show ?thesis unfolding k_status(2)
    using cinv_answers [OF assms(2), of c ans "y_waiting w" "y_sent w", where a = AtCalls and k = "y_sends w + 1"
        and evs = "y_events w"] by simp
next
  case (k_take n cl out c ans)
  show ?thesis unfolding k_take(2) by (rule take_cinv [OF assms(2) k_take(4,5,7) refl])
next
  case (k_collect evs c st)
  show ?thesis unfolding k_collect(2) k_collect(4) [symmetric] by (rule collect_cinv [OF assms(2)])
next
  case (k_cas old a)
  show ?thesis unfolding k_cas(2)
    using cinv_frame [OF assms(2), where c = "fst (conn_cas (y_c w) old a)" and a = "y_at w" and p = "y_part w" and ov = "y_over w" and x = "y_ctx w" and t = "y_clock w" and wi = "y_wipes w"
        and sv = "y_saves w" and ak = "y_acked w"] by (simp add: conn_kept)
next
  case (k_wipe evs out)
  show ?thesis unfolding k_wipe(2)
    using cinv_frame [OF assms(2), where c = "wipe_end (y_c w) out" and a = AtPoll and p = "y_part w" and ov = "y_over w" and x = "y_ctx w" and t = "y_clock w" and wi = "y_wipes w @ [out]"
        and sv = "y_saves w"] by (simp add: conn_kept)
next
  case (k_save st evs r err err')
  show ?thesis unfolding k_save(2)
    using cinv_frame [OF assms(2), where c = "save_end (y_c w) err'" and a = AtPoll and p = "y_part w" and ov = "y_over w" and x = "y_ctx w" and t = "y_clock w" and wi = "y_wipes w"
        ] by (simp add: conn_kept)
next
  case k_poll
  show ?thesis unfolding k_poll(2)
    using cinv_frame [OF assms(2), where c = "(y_c w)\<lparr>k_collected := False\<rparr>" and a = AtPoll and p = "y_part w" and ov = "y_over w" and x = "y_ctx w" and t = "y_clock w" and wi = "y_wipes w"
        and sv = "y_saves w" and ak = "y_acked w"] by (simp add: conn_kept)
qed (use assms(2) in \<open>simp_all add: call_cinv return_cinv run_over_cinv polled_cinv\<close>,
     (use assms(2) in \<open>auto simp: cinv_def returned_ok_def\<close>)?)

interpretation kc: invariant_system "kstep E ulid every G loaded" cinv for E ulid every G loaded
  by unfold_locales (rule cinv_step)

lemma cinv_start: "k_pending c = [] \<Longrightarrow> k_events c = [] \<Longrightarrow> cinv (kworld0 c p now)"
  by (simp add: cinv_def kworld0_def calls_ok_def)

section \<open>Removal and refusal\<close>

definition wipe_failed :: "wipe_out \<Rightarrow> bool" where
  "wipe_failed out = (case out of WipeFailed _ \<Rightarrow> True | _ \<Rightarrow> False)"

text \<open>
  Once \<open>device.unlinked\<close> was collected \<open>Run\<close> only wipes; \<open>k_drains\<close> counts the rounds since the
  relay's refusal.
\<close>

definition dinv :: "'p kworld \<Rightarrow> bool" where
  "dinv w = ((case y_at w of AtPoll \<Rightarrow> k_drains (y_c w) < drainMaxCollect
          \<and> (k_unlinked (y_c w) \<longrightarrow> y_wipes w \<noteq> [] \<and> (k_wipe_err (y_c w) = None) = (\<not> wipe_failed (last (y_wipes w))))
      | AtWipe _ \<Rightarrow> k_unlinked (y_c w) \<and> k_drains (y_c w) < drainMaxCollect
      | AtEnded e \<Rightarrow> k_pending (y_c w) = [] \<and> (k_unlinked (y_c w) \<longrightarrow> y_wipes w \<noteq> []
          \<and> (if wipe_failed (last (y_wipes w)) then \<exists>m. e = EndWipeFailed m else e = EndUnlinked))
      | _ \<Rightarrow> \<not> k_unlinked (y_c w) \<and> k_drains (y_c w) < drainMaxCollect)
     \<and> (\<not> k_refused (y_c w) \<longrightarrow> k_drains (y_c w) = 0))"

lemma run_over_dinv:
  assumes "\<not> k_refused (y_c w) \<longrightarrow> k_drains (y_c w) = 0"
    and "k_unlinked (y_c w) \<longrightarrow> y_wipes w \<noteq> []
      \<and> (if wipe_failed (last (y_wipes w)) then \<exists>m. e = EndWipeFailed m else e = EndUnlinked)"
  shows "dinv (run_over w e)"
  using assms by (auto simp: dinv_def run_over_def fail_pending_def)

text \<open>How a round ends.\<close>

lemma polled_cases:
  assumes "y_at w = AtPoll"
  obtains c e ans evs where "polled w perr = run_over (w\<lparr>y_c := c, y_at := AtTop, y_answers := ans, y_events := evs\<rparr>) e"
      and "k_unlinked c = k_unlinked (y_c w)" and "k_refused c = k_refused (y_c w)"
      and "\<not> k_refused c \<longrightarrow> k_drains c = k_drains (y_c w)"
      and "k_unlinked c \<longrightarrow> (case k_wipe_err (y_c w) of Some m \<Rightarrow> e = EndWipeFailed m | None \<Rightarrow> e = EndUnlinked)"
    | c ans evs where "polled w perr = w\<lparr>y_c := c, y_at := AtTop, y_answers := ans, y_events := evs\<rparr>"
      and "\<not> k_unlinked c" and "\<not> k_unlinked (y_c w)" and "k_refused c = k_refused (y_c w)"
      and "k_drains c = (if k_refused c then k_drains (y_c w) + 1 else k_drains (y_c w))"
      and "k_refused c \<longrightarrow> k_drains c < drainMaxCollect"
proof -
  obtain c1 ds where d: "dispatch (y_c w) (y_over w) = (c1, ds)" by fastforce
  obtain c2 p e where a: "after_poll c1 perr (y_ctx w) = (c2, p, e)" by (cases "after_poll c1 perr (y_ctx w)")
  obtain c3 e' where r: "drain c2 perr (y_clock w) = (c3, e')" by fastforce
  have wipe: "k_wipe_err c1 = k_wipe_err (y_c w) \<and> k_refused c1 = k_refused (y_c w)"
  using dispatch_kept(7) [OF d] dispatch_refused [of "y_c w" "y_over w"] d by simp
  note k = dispatch_kept [OF d] after_poll_kept [OF a] drain_kept [OF r]
  let ?w = "\<lambda>c. w\<lparr>y_c := c, y_at := AtTop, y_answers := y_answers w @ call_answers ds,
      y_events := y_events w @ event_deliveries ds\<rparr>"
  have p: "polled w perr = (case e of Some e \<Rightarrow> run_over (?w c2) e
      | None \<Rightarrow> (case e' of Some e \<Rightarrow> run_over (?w c3) e | None \<Rightarrow> ?w c3))"
    using d a r by (simp add: polled_def split: option.split)
  show thesis
  proof (cases e)
    case (Some x)
    have "k_unlinked c2 \<longrightarrow> (case k_wipe_err (y_c w) of Some m \<Rightarrow> x = EndWipeFailed m | None \<Rightarrow> x = EndUnlinked)"
      using a Some wipe k(2) by (auto simp: after_poll_def Let_def split: if_splits option.splits)
    with Some p k wipe that(1) [where c = c2 and e = x] show ?thesis by simp
  next
    case None
    then have u: "\<not> k_unlinked c1" using k by simp
    have dr: "\<not> k_refused c3 \<longrightarrow> k_drains c3 = k_drains (y_c w)"
      "k_drains c3 = (if k_refused c3 then k_drains (y_c w) + 1 else k_drains (y_c w))"
      "k_refused c3 = k_refused (y_c w)" "\<not> k_unlinked c3" "\<not> k_unlinked (y_c w)"
      using k(3) after_poll_kept(3,4,7) [OF a] drain_kept(3,5,6) [OF r] dispatch_kept(2) [OF d] wipe u by simp_all
    show ?thesis
    proof (cases e')
      case (Some x)
      show ?thesis
        by (rule that(1) [where c = c3 and e = x]) (use p None Some dr in simp_all)
    next
      case N: None
      have "k_refused c3 \<longrightarrow> k_drains c3 < drainMaxCollect"
        using drain_kept(5,7) [OF r] N by simp
      with p None N dr show ?thesis by (intro that(2) [where c = c3]) simp_all
    qed
  qed
qed

lemma polled_dinv:
  assumes "dinv w" and "y_at w = AtPoll"
  shows "dinv (polled w perr)"
proof -
  have w: "k_drains (y_c w) < drainMaxCollect" "\<not> k_refused (y_c w) \<longrightarrow> k_drains (y_c w) = 0"
    and u: "k_unlinked (y_c w) \<longrightarrow> y_wipes w \<noteq> [] \<and> (k_wipe_err (y_c w) = None) = (\<not> wipe_failed (last (y_wipes w)))"
    using assms by (simp_all add: dinv_def)
  show ?thesis
  proof (cases rule: polled_cases [OF assms(2), of perr])
    case (1 c e ans evs)
    show ?thesis unfolding 1(1)
      by (rule run_over_dinv) (use 1(2-5) w u in \<open>auto split: option.splits\<close>)
  next
    case (2 c ans evs)
    then show ?thesis using w by (simp add: dinv_def)
  qed
qed

lemma run_over_sends: "y_sends (run_over w e) = y_sends w" "y_saves (run_over w e) = y_saves w"
  "k_refused (y_c (run_over w e)) = k_refused (y_c w)" "k_unlinked (y_c (run_over w e)) = k_unlinked (y_c w)"
  "k_drains (y_c (run_over w e)) = k_drains (y_c w)" "y_at (run_over w e) = AtEnded e"
  by (simp_all add: run_over_def fail_pending_def)

lemma polled_sends:
  assumes "y_at w = AtPoll"
  shows "y_sends (polled w perr) = y_sends w" "y_saves (polled w perr) = y_saves w"
    "k_refused (y_c (polled w perr)) = k_refused (y_c w)" "k_unlinked (y_c (polled w perr)) = k_unlinked (y_c w)"
  by (cases rule: polled_cases [OF assms, of perr]; simp add: run_over_sends)+

lemma ended_pending: "dinv w \<Longrightarrow> y_at w = AtEnded e \<Longrightarrow> k_pending (y_c w) = []"
  by (simp add: dinv_def)

lemma conn_cas_wipe: "k_wipe_err (fst (conn_cas c old a)) = k_wipe_err c"
  by (simp add: conn_cas_def)

lemma collect_unlinked: "k_unlinked c \<Longrightarrow> k_unlinked (collect E c now evs)"
  by (simp add: collect_def Let_def)

lemma send_status_drains:
  assumes "send_status c every now out = (c', ans)"
  shows "k_drains c' = k_drains c" "k_unlinked c' = k_unlinked c" "k_refused c \<Longrightarrow> k_refused c'"
  using send_status_kept [OF assms] by (simp_all add: kept_def)

lemma take_call_drains:
  assumes "take_call c now cl over out = (c', ans)"
  shows "k_drains c' = k_drains c" "k_unlinked c' = k_unlinked c" "k_refused c \<Longrightarrow> k_refused c'"
  using take_call_kept [OF assms] by (simp_all add: kept_def)

lemma dinv_frame:
  assumes "dinv w" and "k_pending c = k_pending (y_c w)" and "k_drains c = k_drains (y_c w)"
    and "k_refused c = k_refused (y_c w)" and "k_unlinked c = k_unlinked (y_c w)"
    and "k_wipe_err c = k_wipe_err (y_c w)"
  shows "dinv (w\<lparr>y_c := c\<rparr>)"
  using assms by (cases "y_at w") (simp_all add: dinv_def)

lemma dinv_step:
  assumes "kstep E ulid every G loaded w l w'" and "dinv w"
  shows "dinv w'"
  using assms
proof cases
  case (k_status out c ans)
  with assms(2) send_status_drains [OF k_status(7)] show ?thesis by (auto simp: dinv_def)
next
  case (k_take n cl out c ans)
  with assms(2) take_call_drains [OF k_take(7)] show ?thesis by (auto simp: dinv_def)
next
  case (k_collect evs c st)
  with assms(2) show ?thesis by (auto simp: dinv_def conn_kept)
next
  case (k_wipe evs out)
  with assms(2) show ?thesis
    by (auto simp: dinv_def conn_kept) (auto simp: wipe_end_def wipe_failed_def split: wipe_out.splits)
next
  case (k_save st evs r err err')
  with assms(2) show ?thesis by (auto simp: dinv_def conn_kept)
next
  case (k_polled perr)
  with assms(2) show ?thesis by (simp add: polled_dinv)
next
  case k_stop
  show ?thesis unfolding k_stop(2)
    by (rule run_over_dinv) (use assms(2) k_stop in \<open>auto simp: dinv_def\<close>)
next
  case (k_cas old a)
  with assms(2) show ?thesis by (auto simp: conn_kept conn_cas_wipe intro: dinv_frame)
qed (use assms(2) in \<open>auto simp: dinv_def split: kat.splits\<close>)

interpretation kd: invariant_system "kstep E ulid every G loaded" dinv for E ulid every G loaded
  by unfold_locales (rule dinv_step)

subsection \<open>After a refusal\<close>

definition is_polled :: "'p klabel \<Rightarrow> bool" where
  "is_polled l = (case l of KPolled _ \<Rightarrow> True | _ \<Rightarrow> False)"

definition polls_left :: "'p kworld \<Rightarrow> nat" where
  "polls_left w = (case y_at w of AtEnded _ \<Rightarrow> 0 | _ \<Rightarrow> drainMaxCollect - k_drains (y_c w))"

definition refused_inv :: "'p kworld \<Rightarrow> bool" where
  "refused_inv w = (k_refused (y_c w) \<and> dinv w)"

lemma relay_refused_step:
  assumes "kstep E ulid every G loaded w l w'" and "refused_inv w"
  shows "refused_inv w'" and "y_sends w' = y_sends w"
    and "polls_left w' + (if is_polled l then 1 else 0) \<le> polls_left w"
proof -
  have r: "k_refused (y_c w)" and d: "dinv w" using assms(2) by (simp_all add: refused_inv_def)
  have "k_refused (y_c w')"
    using assms(1) r by cases
      (auto simp: conn_kept run_over_sends polled_sends dest: send_status_drains take_call_drains)
  with dinv_step [OF assms(1) d] show "refused_inv w'" by (simp add: refused_inv_def)
  show "y_sends w' = y_sends w"
    using assms(1) r by cases (auto simp: run_over_sends polled_sends call_sends_def)
  show "polls_left w' + (if is_polled l then 1 else 0) \<le> polls_left w"
    using assms(1)
  proof cases
    case (k_polled perr)
    have b: "k_drains (y_c w) < drainMaxCollect" using d k_polled by (simp add: dinv_def)
    show ?thesis
    proof (cases rule: polled_cases [OF k_polled(3), of perr])
      case (1 c e ans evs)
      with b k_polled show ?thesis by (simp add: polls_left_def is_polled_def run_over_sends)
    next
      case (2 c ans evs)
      with b r k_polled show ?thesis by (simp add: polls_left_def is_polled_def)
    qed
  next
    case (k_status out c ans)
    with r show ?thesis by simp
  next
    case (k_take n cl out c ans)
    with take_call_drains [OF k_take(7)] show ?thesis by (simp add: polls_left_def is_polled_def)
  qed (auto simp: polls_left_def is_polled_def conn_kept run_over_sends split: kat.splits)
qed

interpretation kr: budgeted_system "kstep E ulid every G loaded" refused_inv polls_left
    "\<lambda>l. if is_polled l then 1 else 0" for E ulid every G loaded
  by unfold_locales (erule (1) relay_refused_step)+

lemma refused_sends:
  "run (kstep E ulid every G loaded) w ls w' \<Longrightarrow> refused_inv w \<Longrightarrow> y_sends w' = y_sends w"
proof (induction rule: run.induct)
  case (run_Cons s l t ls u)
  with relay_refused_step [OF run_Cons(1,4)] show ?case by simp
qed simp

subsection \<open>After the removal\<close>

definition unlinked_inv :: "'p kworld \<Rightarrow> bool" where
  "unlinked_inv w = (k_unlinked (y_c w) \<and> dinv w)"

lemma unlinked_step:
  assumes "kstep E ulid every G loaded w l w'" and "unlinked_inv w"
  shows "unlinked_inv w' \<and> y_sends w' = y_sends w \<and> y_saves w' = y_saves w"
proof -
  have u: "k_unlinked (y_c w)" and d: "dinv w" using assms(2) by (simp_all add: unlinked_inv_def)
  have "k_unlinked (y_c w') \<and> y_sends w' = y_sends w \<and> y_saves w' = y_saves w"
    using assms(1)
  proof cases
    case (k_collect evs c st)
    with u show ?thesis by (auto simp: collect_unlinked)
  qed (use u d in \<open>auto simp: dinv_def conn_kept run_over_sends polled_sends\<close>)
  with dinv_step [OF assms(1) d] show ?thesis by (simp add: unlinked_inv_def)
qed

lemma unlinked_run:
  "run (kstep E ulid every G loaded) w ls w' \<Longrightarrow> unlinked_inv w
   \<Longrightarrow> unlinked_inv w' \<and> y_sends w' = y_sends w \<and> y_saves w' = y_saves w"
  by (induction rule: run.induct) (auto dest: unlinked_step)

lemma dinv_start: "dinv (kworld0 (conn_of a now) p now)"
  by (simp add: dinv_def kworld0_def conn_of_def drainMaxCollect_def)

section \<open>Access events\<close>

text \<open>What a batch makes of the session, whatever it was: the last event that says something.\<close>

definition session_after :: "env \<Rightarrow> message list \<Rightarrow> access option" where
  "session_after E evs = foldl (\<lambda>s m. if apply_access_msg E unknown_access m = unknown_access then s
     else Some (apply_access_msg E unknown_access m)) None evs"

lemma granted_known: "parse_granted E b = Some a \<Longrightarrow> a \<noteq> unknown_access \<and> access_valid a"
  by (auto simp: parse_granted_def Let_def unknown_access_def split: option.splits prod.splits if_splits)

lemma apply_access_msg_cases:
  "apply_access_msg E a m = (if apply_access_msg E unknown_access m = unknown_access then a
     else apply_access_msg E unknown_access m)"
  using granted_known [of E "ms_body m"]
  by (auto simp: apply_access_msg_def no_access_def unknown_access_def split: option.split)

lemma apply_access_after:
  "apply_access E a evs = (case session_after E evs of None \<Rightarrow> a | Some s \<Rightarrow> s)"
proof (induction evs rule: rev_induct)
  case (snoc m evs)
  have "apply_access E a (evs @ [m]) = apply_access_msg E (apply_access E a evs) m"
    by (simp add: apply_access_def)
  also have "\<dots> = (if apply_access_msg E unknown_access m = unknown_access then apply_access E a evs
      else apply_access_msg E unknown_access m)"
    by (rule apply_access_msg_cases)
  finally show ?case using snoc by (simp add: session_after_def)
qed (simp add: apply_access_def session_after_def)

lemma apply_access_valid: "access_valid a \<Longrightarrow> access_valid (apply_access E a evs)"
proof (induction evs rule: rev_induct)
  case (snoc m evs)
  then show ?case
    by (auto simp: apply_access_def apply_access_msg_def dest: granted_known split: option.split)
qed (simp add: apply_access_def)

section \<open>The ids of calls\<close>

definition sent_ids_ok :: "'p kworld \<Rightarrow> bool" where
  "sent_ids_ok w = (\<forall>(n, i) \<in> set (y_sent w). \<exists>cl. y_calls w n = Some cl \<and> (ca_id cl = [] \<or> i = ca_id cl))"

lemma sent_ids_step: "kstep E ulid every G loaded w l w' \<Longrightarrow> sent_ids_ok w \<Longrightarrow> sent_ids_ok w'"
  by (cases rule: kstep.cases)
    (fastforce simp: sent_ids_ok_def run_over_def polled_def Let_def split: sum.splits prod.splits option.splits)+

interpretation ki: invariant_system "kstep E ulid every G loaded" sent_ids_ok for E ulid every G loaded
  by unfold_locales (rule sent_ids_step)

section \<open>A concrete run\<close>

definition kperform ::
  "env \<Rightarrow> (string \<Rightarrow> bool) \<Rightarrow> duration \<Rightarrow> 'p part_ops option \<Rightarrow> json option option
   \<Rightarrow> 'p kworld \<Rightarrow> 'p klabel \<Rightarrow> 'p kworld option" where
  "kperform E ulid every G loaded w l = (case l of
     KCall cl \<Rightarrow> if y_calls w (ca_no cl) = None \<and> (ca_id cl = [] \<or> ulid (ca_id cl))
       then Some (w\<lparr>y_calls := (y_calls w)(ca_no cl \<mapsto> cl), y_waiting := insert (ca_no cl) (y_waiting w),
             y_open := insert (ca_no cl) (y_open w)\<rparr>) else None
   | KReturn n r \<Rightarrow> if n \<in> y_open w \<and> (n, r) \<in> set (y_answers w)
       then Some (w\<lparr>y_open := y_open w - {n}, y_waiting := y_waiting w - {n},
             y_returned := y_returned w @ [(n, r)]\<rparr>) else None
   | KStatus out \<Rightarrow> if y_at w = AtTop \<and> \<not> y_ctx w \<and> \<not> k_refused (y_c w) \<and> k_refresh_at (y_c w) \<le> y_clock w
       then (case send_status (y_c w) every (y_clock w) out of (c, ans) \<Rightarrow>
          Some (w\<lparr>y_c := c, y_at := AtCalls, y_answers := y_answers w @ ans, y_sends := y_sends w + 1\<rparr>)) else None
   | KTop \<Rightarrow> if y_at w = AtTop \<and> \<not> y_ctx w \<and> (k_refused (y_c w) \<or> y_clock w < k_refresh_at (y_c w))
       then Some (w\<lparr>y_at := AtCalls\<rparr>) else None
   | KTake n out \<Rightarrow> (case y_calls w n of None \<Rightarrow> None | Some cl \<Rightarrow>
       if y_at w = AtCalls \<and> n \<in> y_waiting w \<and> (case out of Inr i \<Rightarrow> ca_id cl = [] \<or> i = ca_id cl | Inl _ \<Rightarrow> True)
       then (case take_call (y_c w) (y_clock w) cl (n \<in> y_over w) out of (c, ans) \<Rightarrow>
          Some (w\<lparr>y_c := c, y_waiting := y_waiting w - {n}, y_answers := y_answers w @ ans,
             y_sends := (if call_sends (y_c w) (n \<in> y_over w) then y_sends w + 1 else y_sends w),
             y_sent := (case out of Inr i \<Rightarrow> if call_sends (y_c w) (n \<in> y_over w) then y_sent w @ [(n, i)]
                else y_sent w | Inl _ \<Rightarrow> y_sent w)\<rparr>)) else None)
   | KPoll \<Rightarrow> if y_at w = AtCalls then Some (w\<lparr>y_c := (y_c w)\<lparr>k_collected := False\<rparr>, y_at := AtPoll\<rparr>) else None
   | KCollect st evs \<Rightarrow> if y_at w = AtPoll
       then (let c = collect E (y_c w) (y_clock w) evs in
          Some (w\<lparr>y_c := c, y_got := y_got w @ evs, y_at := (if k_unlinked c then AtWipe evs else AtApply st evs)\<rparr>))
       else None
   | KWipe out \<Rightarrow> (case y_at w of AtWipe evs \<Rightarrow>
       Some (w\<lparr>y_c := wipe_end (y_c w) out, y_at := AtPoll, y_wipes := y_wipes w @ [out],
             y_acked := (case out of WipeFailed _ \<Rightarrow> y_acked w | _ \<Rightarrow> y_acked w @ [evs])\<rparr>) | _ \<Rightarrow> None)
   | KApply \<Rightarrow> (case y_at w of AtApply st evs \<Rightarrow>
       Some (w\<lparr>y_part := part_apply G (y_part w) evs, y_at := AtSave st evs\<rparr>) | _ \<Rightarrow> None)
   | KSave err \<Rightarrow> (case y_at w of AtSave st evs \<Rightarrow>
       (let r = save_record (y_c w) st (part_snapshot G loaded (y_part w)); err' = save_error E r err in
        Some (w\<lparr>y_c := save_end (y_c w) err', y_at := AtPoll,
             y_saves := (if err' = None then y_saves w @ [r] else y_saves w),
             y_acked := (if err' = None then y_acked w @ [evs] else y_acked w)\<rparr>)) | _ \<Rightarrow> None)
   | KPolled perr \<Rightarrow> if y_at w = AtPoll then Some (polled w perr) else None
   | _ \<Rightarrow> None)"

interpretation kx: executable_system "kstep E ulid every G loaded" "kperform E ulid every G loaded"
  for E ulid every G loaded
proof
  fix w l w' assume p: "kperform E ulid every G loaded w l = Some w'"
  show "kstep E ulid every G loaded w l w'"
  proof (cases "\<exists>n out. l = KTake n out")
    case True
    then obtain n out where l: "l = KTake n out" by blast
    obtain cl c ans where t: "y_calls w n = Some cl" "y_at w = AtCalls" "n \<in> y_waiting w"
      "\<And>i. out = Inr i \<Longrightarrow> ca_id cl \<noteq> [] \<Longrightarrow> i = ca_id cl"
      "take_call (y_c w) (y_clock w) cl (n \<in> y_over w) out = (c, ans)"
      using p unfolding l kperform_def by (auto split: option.splits if_splits prod.splits sum.splits)
    have c: "case out of Inr i \<Rightarrow> ca_id cl = [] \<or> i = ca_id cl | Inl _ \<Rightarrow> True"
      using t(4) by (auto split: sum.split)
    have w': "w' = w\<lparr>y_c := c, y_waiting := y_waiting w - {n}, y_answers := y_answers w @ ans,
        y_sends := (if call_sends (y_c w) (n \<in> y_over w) then y_sends w + 1 else y_sends w),
        y_sent := (case out of Inr i \<Rightarrow> if call_sends (y_c w) (n \<in> y_over w) then y_sent w @ [(n, i)]
           else y_sent w | Inl _ \<Rightarrow> y_sent w)\<rparr>"
      using p unfolding l kperform_def klabel.case t(1) option.case t(5) prod.case
      using t(2,3) c by (simp only: if_True simp_thms option.inject)
    show ?thesis unfolding l w' by (rule k_take [OF t(2,3,1,4,5)])
  next
    case False
    show ?thesis
    proof (cases l)
      case (KCollect st evs)
      then have "y_at w = AtPoll" and "w' = w\<lparr>y_c := collect E (y_c w) (y_clock w) evs, y_got := y_got w @ evs,
          y_at := (if k_unlinked (collect E (y_c w) (y_clock w) evs) then AtWipe evs else AtApply st evs)\<rparr>"
        using p by (simp_all add: kperform_def Let_def split: if_split_asm)
      then show ?thesis unfolding KCollect by (simp only: k_collect [OF _ refl])
    next
      case (KWipe out)
      then obtain evs where "y_at w = AtWipe evs" and "w' = w\<lparr>y_c := wipe_end (y_c w) out, y_at := AtPoll,
          y_wipes := y_wipes w @ [out], y_acked := (case out of WipeFailed _ \<Rightarrow> y_acked w | _ \<Rightarrow> y_acked w @ [evs])\<rparr>"
        using p unfolding kperform_def by (simp only: klabel.case) (simp split: kat.split_asm)
      then show ?thesis unfolding KWipe by (simp only: k_wipe)
    next
      case (KSave err)
      let ?r = "\<lambda>st. save_record (y_c w) st (part_snapshot G loaded (y_part w))"
      obtain st evs where "y_at w = AtSave st evs" and "w' = w\<lparr>y_c := save_end (y_c w) (save_error E (?r st) err),
          y_at := AtPoll, y_saves := (if save_error E (?r st) err = None then y_saves w @ [?r st] else y_saves w),
          y_acked := (if save_error E (?r st) err = None then y_acked w @ [evs] else y_acked w)\<rparr>"
        using p KSave unfolding kperform_def by (simp only: klabel.case Let_def) (simp only: option.inject option.distinct split: kat.split_asm)
      then show ?thesis unfolding KSave by (simp only: k_save [OF _ refl refl])
    next
      case (KStatus out)
      then show ?thesis using p by (auto simp: kperform_def split: if_splits prod.splits intro!: k_status [simplified])
    next
      case (KTake n out)
      with False show ?thesis by blast
    qed (use p in \<open>auto simp: kperform_def may_return_def split: if_splits option.splits prod.splits kat.splits
          intro!: kstep.intros\<close>)
  qed
qed

definition conn_ran :: "unit klabel list \<Rightarrow> unit kworld" where
  "conn_ran ls = the (exec (kperform toy_clock (\<lambda>_. True) hour None None) (kworld0 (conn_of no_access 0) () 0) ls)"

definition toy_call :: "nat \<Rightarrow> call" where
  "toy_call n = \<lparr>ca_no = n, ca_id = ''R'', ca_type = ''agent.request'', ca_body = None\<rparr>"

definition toy_message :: "string \<Rightarrow> string \<Rightarrow> message" where
  "toy_message t re = \<lparr>ms_id = ''M'', ms_type = t, ms_re = re, ms_ok = True, ms_code = [], ms_body = None\<rparr>"

definition toy_removed :: "unit klabel list" where
  "toy_removed = [KStatus (Inr ''S''), KPoll, KCollect (Some (JObj [])) [toy_message ''device.unlinked'' []]]"

definition toy_refused :: "unit klabel list" where
  "toy_refused = [KStatus (Inl (RelayErr 401 ''token_revoked''))]"

definition toy_answered :: "unit klabel list" where
  "toy_answered = [KCall (toy_call 1), KStatus (Inr ''S''), KTake 1 (Inr ''R''), KPoll,
     KCollect (Some (JObj [])) [toy_message ''done'' ''R''], KApply, KSave None, KPolled False,
     KReturn 1 (Inr (response_of (toy_message ''done'' ''R'')))]"

lemma conn_ran_run: "exec (kperform toy_clock (\<lambda>_. True) hour None None) (kworld0 (conn_of no_access 0) () 0) ls \<noteq> None
    \<Longrightarrow> run (kstep toy_clock (\<lambda>_. True) hour None None) (kworld0 (conn_of no_access 0) () 0) ls (conn_ran ls)"
  unfolding conn_ran_def by (rule kx.exec_the)

lemmas conn_eval = conn_ran_def toy_call_def toy_message_def toy_removed_def toy_refused_def toy_answered_def
  kperform_def kworld0_def conn_of_def send_status_def send_failed_def fail_pending_def collect_def
  is_unlinked_def apply_access_def apply_access_msg_def take_call_def call_sends_def save_error_def save_record_def
  encode_record_def check_record_def check_phase_def part_snapshot_def part_apply_def save_end_def polled_def
  dispatch_def dispatch_msg_def response_of_def after_poll_def drain_def run_over_def Let_def retryBase_def
  no_access_def access_valid_def wipe_end_def

section \<open>Properties\<close>



text \<open>
  C7. Once \<open>device.unlinked\<close> was collected, the state is only wiped: no record is saved and nothing is
  sent any more, and \<open>Run\<close> returns with \<open>ErrUnlinked\<close> exactly if its last wipe succeeded.
\<close>

theorem removal_wipes_and_saves_nothing:
  assumes "run (kstep E ulid every G loaded) (kworld0 (conn_of a now) p now) ls w" and "k_unlinked (y_c w)"
    and "run (kstep E ulid every G loaded) w ls' w'"
  shows "y_saves w' = y_saves w \<and> y_sends w' = y_sends w
    \<and> (\<forall>e. y_at w' = AtEnded e \<longrightarrow> y_wipes w' \<noteq> [] \<and> (e = EndUnlinked) = (\<not> wipe_failed (last (y_wipes w'))))"
proof -
  have "unlinked_inv w" using kd.inv_run [OF assms(1) dinv_start] assms(2) by (simp add: unlinked_inv_def)
  from unlinked_run [OF assms(3) this] show ?thesis
    by (auto simp: unlinked_inv_def dinv_def split: if_splits)
qed

theorem removal_wipes_and_saves_nothing_witness:
  "y_at (conn_ran (toy_removed @ [KWipe WipeOk, KPolled False])) = AtEnded EndUnlinked
   \<and> y_saves (conn_ran (toy_removed @ [KWipe WipeOk, KPolled False])) = []"
proof -
  let ?w = "conn_ran (toy_removed @ [KWipe WipeOk, KPolled False])"
  have r: "run (kstep toy_clock (\<lambda>_. True) hour None None) (kworld0 (conn_of no_access 0) () 0)
      (toy_removed @ [KWipe WipeOk, KPolled False]) ?w"
    by (rule conn_ran_run) (simp add: conn_eval)
  have "k_unlinked (y_c ?w)" by (simp add: conn_eval)
  from removal_wipes_and_saves_nothing [OF r this run_Nil] show ?thesis by (simp add: conn_eval)
qed

text \<open>
  After the relay refused this agent nothing is sent to it any more, and the mailbox is collected at
  most five more times before \<open>Run\<close> returns.
\<close>

lemma refusal_drains_at_most_five:
  assumes "run (kstep E ulid every G loaded) (kworld0 (conn_of a now) p now) ls w" and "k_refused (y_c w)"
    and "run (kstep E ulid every G loaded) w ls' w'"
  shows "length (filter is_polled ls') \<le> 5 \<and> y_sends w' = y_sends w"
proof -
  have inv: "refused_inv w" using kd.inv_run [OF assms(1) dinv_start] assms(2) by (simp add: refused_inv_def)
  have "sum_list (map (\<lambda>l. if is_polled l then 1 else 0) ls') = length (filter is_polled ls')"
    by (induction ls') auto
  moreover have "polls_left w \<le> 5" by (simp add: polls_left_def drainMaxCollect_def split: kat.split)
  ultimately have "length (filter is_polled ls') \<le> 5" using kr.cost_run [OF assms(3) inv] by simp
  with refused_sends [OF assms(3) inv] show ?thesis by simp
qed

lemma refusal_drains_at_most_five_witness:
  "y_at (conn_ran (toy_refused @ [KPoll, KPolled False])) = AtEnded EndRefused
   \<and> y_sends (conn_ran (toy_refused @ [KPoll, KPolled False])) = 1"
proof -
  have r: "run (kstep toy_clock (\<lambda>_. True) hour None None) (kworld0 (conn_of no_access 0) () 0)
      (toy_refused @ [KPoll, KPolled False]) (conn_ran (toy_refused @ [KPoll, KPolled False]))"
    by (rule conn_ran_run) (simp add: conn_eval)
  have "k_refused (y_c (conn_ran (toy_refused @ [KPoll, KPolled False])))" by (simp add: conn_eval)
  from refusal_drains_at_most_five [OF r this run_Nil] show ?thesis by (simp add: conn_eval)
qed

text \<open>
  Delivering a batch again, as after a crash between the save and the acknowledgement, leaves the
  access session as the saved record has it; a consistent session stays one.
\<close>

lemma access_events_are_idempotent:
  "apply_access E (apply_access E a evs) evs = apply_access E a evs
   \<and> (access_valid a \<longrightarrow> access_valid (apply_access E a evs))"
  by (simp add: apply_access_after [of E _ evs] apply_access_valid [unfolded apply_access_after] split: option.split)

lemma access_events_are_idempotent_witness:
  "access_valid (apply_access toy_clock no_access [toy_message ''device.session.ended'' []])"
  using access_events_are_idempotent [of toy_clock no_access] by simp



end
