(* ===== verification/Encode.thy ===== *)
theory Encode
  imports Request
begin

text \<open>
  \<open>internal/mcp/encode.go\<close> and the hand-written results of \<open>internal/mcp/tools.go\<close>
  (\<open>itemJSON\<close>, \<open>useJSON\<close>) and \<open>server.go\<close> (\<open>writeToolResult\<close>): JSON written into one slice sized up
  front. The first section is Go's \<open>unicode/utf8\<close>, as far as the encoder uses it.
\<close>

section \<open>UTF-8\<close>

definition cont :: "nat \<Rightarrow> nat \<Rightarrow> char \<Rightarrow> bool" where
  "cont lo hi c = (lo \<le> byte c \<and> byte c \<le> hi)"

text \<open>The range of the second byte after a first byte, and how many bytes follow it.\<close>

definition rune_class :: "nat \<Rightarrow> (nat \<times> nat \<times> nat) option" where
  "rune_class b =
     (if 0xC2 \<le> b \<and> b \<le> 0xDF then Some (1, 0x80, 0xBF)
      else if b = 0xE0 then Some (2, 0xA0, 0xBF)
      else if 0xE1 \<le> b \<and> b \<le> 0xEF then Some (2, 0x80, if b = 0xED then 0x9F else 0xBF)
      else if b = 0xF0 then Some (3, 0x90, 0xBF)
      else if 0xF1 \<le> b \<and> b \<le> 0xF3 then Some (3, 0x80, 0xBF)
      else if b = 0xF4 then Some (3, 0x80, 0x8F)
      else None)"

text \<open>
  \<open>utf8.DecodeRune\<close> on text that begins with a byte of 0x80 or more: how many bytes the character
  takes, or \<open>None\<close> where it returns \<open>RuneError\<close> and 1.
\<close>

fun rune_len :: "string \<Rightarrow> nat option" where
  "rune_len [] = None"
| "rune_len (c # cs) = (case rune_class (byte c) of None \<Rightarrow> None
     | Some (n, lo, hi) \<Rightarrow>
        if n \<le> length cs \<and> cont lo hi (cs ! 0) \<and> list_all (cont 0x80 0xBF) (take (n - 1) (tl cs))
        then Some (n + 1) else None)"

section \<open>Strings\<close>

definition hex_digit :: "nat \<Rightarrow> char" where
  "hex_digit n = ''0123456789abcdef'' ! n"

definition ascii_quoted :: "char \<Rightarrow> string" where
  "ascii_quoted c =
     (if c = CHR 0x22 \<or> c = CHR 0x5C then [CHR 0x5C, c]
      else if byte c = 10 then [CHR 0x5C, CHR ''n'']
      else if byte c = 13 then [CHR 0x5C, CHR ''r'']
      else if byte c = 9 then [CHR 0x5C, CHR ''t'']
      else if byte c < 0x20 \<or> byte c = 0x7F
        then [CHR 0x5C, CHR ''u'', CHR ''0'', CHR ''0'', hex_digit (byte c div 16), hex_digit (byte c mod 16)]
      else [c])"

text \<open>U+2028 and U+2029, by their bytes.\<close>

definition line_sep :: "string \<Rightarrow> bool" where
  "line_sep s = (length s = 3 \<and> byte (s ! 0) = 0xE2 \<and> byte (s ! 1) = 0x80 \<and> (byte (s ! 2) = 0xA8 \<or> byte (s ! 2) = 0xA9))"

text \<open>A character of \<open>n\<close> bytes, or (\<open>None\<close>) a byte of an invalid sequence.\<close>

definition rune_quoted :: "string \<Rightarrow> nat option \<Rightarrow> string" where
  "rune_quoted s n = (case n of None \<Rightarrow> CHR 0x5C # ''ufffd''
     | Some k \<Rightarrow> if line_sep (take k s) then CHR 0x5C # ''u202'' @ [hex_digit (byte (s ! 2) mod 16)]
                 else take k s)"

definition rune_step :: "nat option \<Rightarrow> nat" where
  "rune_step n = (case n of None \<Rightarrow> 1 | Some k \<Rightarrow> k)"

lemma rune_len_pos: "rune_len s = Some k \<Longrightarrow> 2 \<le> k \<and> k \<le> 4 \<and> k \<le> length s"
  by (cases s) (auto simp: rune_class_def split: option.splits if_splits)

lemma rune_step_pos: "0 < rune_step (rune_len s)"
  by (auto simp: rune_step_def split: option.split dest: rune_len_pos)

fun quoted_body :: "string \<Rightarrow> string" where
  "quoted_body [] = []"
| "quoted_body (c # cs) =
     (if byte c < 0x80 then ascii_quoted c @ quoted_body cs
      else rune_quoted (c # cs) (rune_len (c # cs)) @ quoted_body (drop (rune_step (rune_len (c # cs)) - 1) cs))"

definition append_quoted :: "string \<Rightarrow> string \<Rightarrow> string" where
  "append_quoted dst b = dst @ [CHR 0x22] @ quoted_body b @ [CHR 0x22]"

definition quotedBound :: "nat \<Rightarrow> nat" where "quotedBound n = 6 * n + 2"

section \<open>Values\<close>

definition json_space :: "char \<Rightarrow> bool" where
  "json_space c = (c = CHR '' '' \<or> byte c = 9 \<or> byte c = 10 \<or> byte c = 13)"

text \<open>\<open>appendCompact\<close>'s loop; the first argument is \<open>inString\<close>.\<close>

fun compact_body :: "bool \<Rightarrow> string \<Rightarrow> string" where
  "compact_body in_string [] = []"
| "compact_body in_string (c # cs) =
     (if \<not> in_string then
        (if json_space c then compact_body False cs
         else c # compact_body (c = CHR 0x22) cs)
      else if c = CHR 0x5C \<and> cs \<noteq> [] then c # hd cs # compact_body True (tl cs)
      else if c = CHR 0x22 then c # compact_body False cs
      else if byte c < 0x80 then c # compact_body True cs
      else rune_quoted (c # cs) (rune_len (c # cs))
        @ compact_body True (drop (rune_step (rune_len (c # cs)) - 1) cs))"

definition append_compact :: "string \<Rightarrow> string \<Rightarrow> string" where
  "append_compact dst raw = dst @ compact_body False raw"

definition compactBound :: "nat \<Rightarrow> nat" where "compactBound n = 6 * n"

section \<open>Bounds\<close>

lemma ascii_quoted_length: "length (ascii_quoted c) \<le> 6"
  by (simp add: ascii_quoted_def)

lemma rune_quoted_length: "length (rune_quoted s (rune_len s)) \<le> 6 * rune_step (rune_len s)"
  by (auto simp: rune_quoted_def rune_step_def split: option.split dest: rune_len_pos)

lemma rest_length:
  assumes "rune_step (rune_len (c # cs)) = k"
  shows "length (drop (k - 1) cs) + k = Suc (length cs)"
  using assms rune_step_pos [of "c # cs"] rune_len_pos [of "c # cs"]
  by (auto simp: rune_step_def split: option.splits)

lemma quoted_body_length: "length (quoted_body b) \<le> 6 * length b"
proof (induction b rule: quoted_body.induct)
  case (2 c cs)
  show ?case
  proof (cases "byte c < 0x80")
    case True
    with 2 ascii_quoted_length [of c] show ?thesis by simp
  next
    case False
    with 2(2) rune_quoted_length [of "c # cs"] rest_length [OF refl, of c cs]
    show ?thesis by (simp del: rune_len.simps)
  qed
qed simp

lemma append_quoted_length: "length (append_quoted dst b) \<le> length dst + quotedBound (length b)"
  using quoted_body_length [of b] by (simp add: append_quoted_def quotedBound_def)

text \<open>The branches of the two loops, one by one.\<close>

lemma quoted_branches:
  "byte c < 0x80 \<Longrightarrow> quoted_body (c # cs) = ascii_quoted c @ quoted_body cs"
  "\<not> byte c < 0x80 \<Longrightarrow> quoted_body (c # cs) = rune_quoted (c # cs) (rune_len (c # cs))
     @ quoted_body (drop (rune_step (rune_len (c # cs)) - 1) cs)"
  by (simp_all del: rune_len.simps)

lemma ascii_special: "byte CHR 0x22 = 0x22" "byte CHR 0x5C = 0x5C"
  by (simp_all add: byte_def)

lemma compact_branches:
  "json_space c \<Longrightarrow> compact_body False (c # cs) = compact_body False cs"
  "\<not> json_space c \<Longrightarrow> compact_body False (c # cs) = c # compact_body (c = CHR 0x22) cs"
  "compact_body True (CHR 0x5C # d # cs) = CHR 0x5C # d # compact_body True cs"
  "compact_body True [CHR 0x5C] = [CHR 0x5C]"
  "compact_body True (CHR 0x22 # cs) = CHR 0x22 # compact_body False cs"
  "byte c < 0x80 \<Longrightarrow> c \<noteq> CHR 0x22 \<Longrightarrow> c \<noteq> CHR 0x5C \<Longrightarrow> compact_body True (c # cs) = c # compact_body True cs"
  "\<not> byte c < 0x80 \<Longrightarrow> compact_body True (c # cs) = rune_quoted (c # cs) (rune_len (c # cs))
     @ compact_body True (drop (rune_step (rune_len (c # cs)) - 1) cs)"
proof -
  assume c: "\<not> byte c < 0x80"
  then have "c \<noteq> CHR 0x22" "c \<noteq> CHR 0x5C" by (auto simp: ascii_special)
  with c show "compact_body True (c # cs) = rune_quoted (c # cs) (rune_len (c # cs))
     @ compact_body True (drop (rune_step (rune_len (c # cs)) - 1) cs)"
    by (simp only: compact_body.simps if_False simp_thms)
qed (simp_all add: ascii_special)

declare quoted_body.simps(2) [simp del] compact_body.simps(2) [simp del] rune_len.simps(2) [simp del]

text \<open>An induction along the branches of \<open>appendCompact\<close>'s loop.\<close>

lemma compact_induct [case_names Nil Space Open Escape Backslash Close Ascii Rune]:
  assumes "\<And>s. P s []"
    and "\<And>c cs. json_space c \<Longrightarrow> P False cs \<Longrightarrow> P False (c # cs)"
    and "\<And>c cs. \<not> json_space c \<Longrightarrow> P (c = CHR 0x22) cs \<Longrightarrow> P False (c # cs)"
    and "\<And>d cs. P True cs \<Longrightarrow> P True (CHR 0x5C # d # cs)"
    and "P True [CHR 0x5C]"
    and "\<And>cs. P False cs \<Longrightarrow> P True (CHR 0x22 # cs)"
    and "\<And>c cs. byte c < 0x80 \<Longrightarrow> c \<noteq> CHR 0x22 \<Longrightarrow> c \<noteq> CHR 0x5C \<Longrightarrow> P True cs \<Longrightarrow> P True (c # cs)"
    and "\<And>c cs. \<not> byte c < 0x80 \<Longrightarrow> P True (drop (rune_step (rune_len (c # cs)) - 1) cs) \<Longrightarrow> P True (c # cs)"
  shows "P s raw"
proof (induction s raw rule: compact_body.induct)
  case (1 s)
  show ?case by (rule assms(1))
next
  case ih: (2 s c cs)
  consider "\<not> s" "json_space c" | "\<not> s" "\<not> json_space c" | d ds where "s" "c = CHR 0x5C" "cs = d # ds"
    | "s" "c = CHR 0x5C" "cs = []" | "s" "c = CHR 0x22"
    | "s" "byte c < 0x80" "c \<noteq> CHR 0x22" "c \<noteq> CHR 0x5C" | "s" "\<not> byte c < 0x80" "c \<noteq> CHR 0x5C" "c \<noteq> CHR 0x22"
    by (cases cs) (auto simp: ascii_special)
  then show ?case
  proof cases
    case 1 then show ?thesis using ih(1) assms(2) by simp
  next
    case 2 then show ?thesis using ih(2) assms(3) by simp
  next
    case (3 d ds) then show ?thesis using ih(3) assms(4) by simp
  next
    case 4 then show ?thesis using assms(5) by simp
  next
    case 5 then show ?thesis using ih(4) assms(6) by simp
  next
    case 6 then show ?thesis using ih(5) assms(7) by simp
  next
    case 7 then show ?thesis using ih(6) assms(8) by simp
  qed
qed

lemma compact_body_length: "length (compact_body s raw) \<le> 6 * length raw"
proof (induction s raw rule: compact_induct)
  case (Rune c cs)
  with rune_quoted_length [of "c # cs"] rest_length [OF refl, of c cs]
  show ?case by (simp add: compact_branches)
qed (simp_all add: compact_branches)

lemma append_compact_length: "length (append_compact dst raw) \<le> length dst + compactBound (length raw)"
  using compact_body_length [of False raw] by (simp add: append_compact_def compactBound_def)

section \<open>One line, nothing but characters\<close>

definition plain_char :: "char \<Rightarrow> bool" where
  "plain_char c = (0x20 \<le> byte c \<and> byte c \<noteq> 0x7F)"

lemma hex_digit_bytes: "n < 16 \<Longrightarrow> byte (hex_digit n) = (if n < 10 then 48 + n else 87 + n)"
proof -
  assume "n < 16"
  then have "n \<in> set [0..<16]" by simp
  then show ?thesis by (auto simp: upt_rec hex_digit_def byte_def)
qed

lemma high_byte: "byte c < 0x20 \<Longrightarrow> byte c div 16 < 16" "byte c = 0x7F \<Longrightarrow> byte c div 16 < 16"
  by simp_all

lemma plain_escapes: "plain_char CHR 0x5C" "plain_char CHR 0x22" "list_all plain_char ''ufffd''"
  "list_all plain_char ''u202''" "list_all plain_char ''u00''" "plain_char CHR ''n''" "plain_char CHR ''r''" "plain_char CHR ''t''"
  by (simp_all add: plain_char_def byte_def)

lemma hex_plain: "n < 16 \<Longrightarrow> plain_char (hex_digit n)"
  by (simp add: plain_char_def hex_digit_bytes)

lemma ascii_quoted_plain: "list_all plain_char (ascii_quoted c)"
proof -
  have "byte c < 0x20 \<or> byte c = 0x7F \<Longrightarrow> byte c div 16 < 16" by auto
  then show ?thesis using plain_escapes hex_plain
    by (auto simp: ascii_quoted_def) (auto simp: plain_char_def)
qed

lemma rune_len_bytes:
  assumes "rune_len s = Some k"
  shows "\<forall>c \<in> set (take k s). 0x80 \<le> byte c"
proof (cases s)
  case (Cons c cs)
  obtain n lo hi where r: "rune_class (byte c) = Some (n, lo, hi)" and k: "k = n + 1" and n: "n \<le> length cs"
      and f: "cont lo hi (cs ! 0)" and l: "list_all (cont 0x80 0xBF) (take (n - 1) (tl cs))"
    using assms Cons by (auto simp: rune_len.simps split: option.splits if_splits)
  have lo: "0x80 \<le> lo" "0x80 \<le> byte c" "0 < n" using r by (auto simp: rune_class_def split: if_splits)
  obtain d ds where cs: "cs = d # ds" using n lo(3) by (cases cs) auto
  have "take k s = c # d # take (n - 1) ds" using Cons cs k lo(3) by (cases n) auto
  with lo f l cs show ?thesis by (auto simp: cont_def list_all_iff)
qed (use assms in simp)

lemma rune_quoted_plain: "list_all plain_char (rune_quoted s (rune_len s))"
proof (cases "rune_len s")
  case None
  with plain_escapes show ?thesis by (simp add: rune_quoted_def)
next
  case (Some k)
  have "byte (s ! 2) mod 16 < 16" by simp
  with Some plain_escapes hex_plain rune_len_bytes [OF Some] show ?thesis
    by (auto simp: rune_quoted_def list_all_iff plain_char_def)
qed

lemma quoted_plain: "list_all plain_char (quoted_body b)"
proof (induction b rule: quoted_body.induct)
  case (2 c cs)
  then show ?case using ascii_quoted_plain [of c] rune_quoted_plain [of "c # cs"]
    by (cases "byte c < 0x80") (simp_all add: quoted_branches)
qed simp

text \<open>
  Text as \<open>encoding/json\<close> accepts it: outside strings white space and ASCII characters, inside strings
  no control characters. The first argument says whether a string has begun.
\<close>

fun json_chars :: "bool \<Rightarrow> string \<Rightarrow> bool" where
  "json_chars in_string [] = True"
| "json_chars in_string (c # cs) =
     (if \<not> in_string then (json_space c \<or> 0x20 < byte c \<and> byte c < 0x7F) \<and> json_chars (c = CHR 0x22) cs
      else 0x20 \<le> byte c \<and> (if c = CHR 0x5C \<and> cs \<noteq> [] then 0x20 < byte (hd cs) \<and> byte (hd cs) < 0x7F
                                 \<and> json_chars True (tl cs)
                            else json_chars (c \<noteq> CHR 0x22) cs))"

text \<open>The same without the deletion character, which JSON allows inside strings.\<close>

definition one_line :: "string \<Rightarrow> bool" where
  "one_line s = list_all (\<lambda>c. 0x20 \<le> byte c) s"

lemma plain_one_line: "list_all plain_char s \<Longrightarrow> one_line s"
  by (auto simp: one_line_def list_all_iff plain_char_def)

lemma one_line_simps [simp]: "one_line []" "one_line (c # s) = (0x20 \<le> byte c \<and> one_line s)"
  "one_line (s @ t) = (one_line s \<and> one_line t)"
  by (simp_all add: one_line_def)

lemma json_chars_drop:
  "json_chars True cs \<Longrightarrow> \<forall>c \<in> set (take k cs). 0x80 \<le> byte c \<Longrightarrow> json_chars True (drop k cs)"
proof (induction k arbitrary: cs)
  case (Suc k)
  then show ?case
  proof (cases cs)
    case (Cons c ds)
    with Suc.prems(2) have "c \<noteq> CHR 0x5C" "c \<noteq> CHR 0x22" by (auto simp: ascii_special)
    with Cons Suc show ?thesis by simp
  qed simp
qed simp

lemma compact_one_line: "json_chars s raw \<Longrightarrow> one_line (compact_body s raw)"
proof (induction s raw rule: compact_induct)
  case (Rune c cs)
  have "\<forall>x \<in> set (take (rune_step (rune_len (c # cs)) - 1) cs). 0x80 \<le> byte x"
  proof (cases "rune_len (c # cs)")
    case (Some k)
    from rune_len_pos [OF this] have "take k (c # cs) = c # take (k - 1) cs" by (cases k) auto
    with rune_len_bytes [OF Some] Some show ?thesis by (simp add: rune_step_def)
  qed (simp add: rune_step_def)
  moreover have "json_chars True cs"
  proof -
    have "c \<noteq> CHR 0x22" "c \<noteq> CHR 0x5C" using Rune(1) by (auto simp: ascii_special)
    with Rune(3) show ?thesis by simp
  qed
  ultimately have "json_chars True (drop (rune_step (rune_len (c # cs)) - 1) cs)" by (intro json_chars_drop)
  with Rune rune_quoted_plain [of "c # cs"] show ?case
    by (simp add: compact_branches plain_one_line)
next
  case (Space c cs)
  then have "c \<noteq> CHR 0x22" by (auto simp: json_space_def byte_def)
  with Space show ?case by (simp add: compact_branches)
qed (auto simp: compact_branches ascii_special)

section \<open>Reading a string back\<close>

text \<open>
  How a JSON reader takes a string, after its opening quotation mark: the value and what follows the
  closing one.
\<close>

definition unhex :: "char \<Rightarrow> nat option" where
  "unhex c = (let n = byte c in
     if 48 \<le> n \<and> n \<le> 57 then Some (n - 48) else if 97 \<le> n \<and> n \<le> 102 then Some (n - 87)
     else if 65 \<le> n \<and> n \<le> 70 then Some (n - 55) else None)"

definition encode_rune :: "nat \<Rightarrow> string" where
  "encode_rune r = (if r < 0x80 then [char_byte r]
     else if r < 0x800 then [char_byte (0xC0 + r div 64), char_byte (0x80 + r mod 64)]
     else [char_byte (0xE0 + r div 4096), char_byte (0x80 + r div 64 mod 64), char_byte (0x80 + r mod 64)])"

text \<open>One escape after its backslash: its value and the number of characters it takes. Surrogates are not read.\<close>

definition unescape :: "string \<Rightarrow> (string \<times> nat) option" where
  "unescape s = (case s of [] \<Rightarrow> None | d # ds \<Rightarrow>
     if d = CHR 0x22 \<or> d = CHR 0x5C \<or> d = CHR ''/'' then Some ([d], 1)
     else if d = CHR ''n'' then Some ([char_byte 10], 1)
     else if d = CHR ''r'' then Some ([char_byte 13], 1)
     else if d = CHR ''t'' then Some ([char_byte 9], 1)
     else if d = CHR ''b'' then Some ([char_byte 8], 1)
     else if d = CHR ''f'' then Some ([char_byte 12], 1)
     else if d = CHR ''u'' then
       (case map unhex (take 4 ds) of
          [Some w, Some x, Some y, Some z] \<Rightarrow>
            (let r = ((w * 16 + x) * 16 + y) * 16 + z in
             if 0xD800 \<le> r \<and> r < 0xE000 then None else Some (encode_rune r, 5))
        | _ \<Rightarrow> None)
     else None)"

lemma unescape_pos: "unescape s = Some (v, n) \<Longrightarrow> 0 < n"
  by (auto simp: unescape_def Let_def split: list.splits if_splits option.splits)

function json_unquote :: "string \<Rightarrow> (string \<times> string) option" where
  "json_unquote [] = None"
| "json_unquote (c # cs) =
     (if c = CHR 0x22 then Some ([], cs)
      else if c = CHR 0x5C then
        (case unescape cs of None \<Rightarrow> None
         | Some (v, n) \<Rightarrow> map_option (\<lambda>(x, r). (v @ x, r)) (json_unquote (drop n cs)))
      else if byte c < 0x20 then None
      else map_option (\<lambda>(x, r). (c # x, r)) (json_unquote cs))"
  by pat_completeness auto
termination
  by (relation "measure length") (auto simp: less_Suc_eq_le)

declare json_unquote.simps(2) [simp del]

text \<open>A byte string with each byte of an invalid UTF-8 sequence replaced by U+FFFD.\<close>

fun scrub :: "string \<Rightarrow> string" where
  "scrub [] = []"
| "scrub (c # cs) =
     (if byte c < 0x80 then c # scrub cs
      else (case rune_len (c # cs) of None \<Rightarrow> encode_rune 0xFFFD | Some k \<Rightarrow> take k (c # cs))
        @ scrub (drop (rune_step (rune_len (c # cs)) - 1) cs))"

fun valid_utf8 :: "string \<Rightarrow> bool" where
  "valid_utf8 [] = True"
| "valid_utf8 (c # cs) =
     (if byte c < 0x80 then valid_utf8 cs
      else rune_len (c # cs) \<noteq> None \<and> valid_utf8 (drop (rune_step (rune_len (c # cs)) - 1) cs))"

declare scrub.simps(2) [simp del] valid_utf8.simps(2) [simp del]

lemma rune_take_drop: "rune_len (c # cs) = Some k \<Longrightarrow> take k (c # cs) @ drop (k - 1) cs = c # cs"
  by (cases k) (auto dest: rune_len_pos)

lemma scrub_valid: "valid_utf8 s \<Longrightarrow> scrub s = s"
proof (induction s rule: scrub.induct)
  case (2 c cs)
  show ?case
  proof (cases "byte c < 0x80")
    case True
    with 2 show ?thesis by (simp add: scrub.simps valid_utf8.simps)
  next
    case False
    with 2(3) obtain k where "rune_len (c # cs) = Some k" by (auto simp: valid_utf8.simps)
    with False 2 rune_take_drop [OF this] show ?thesis
      by (simp add: scrub.simps valid_utf8.simps rune_step_def)
  qed
qed simp

lemma unquote_char:
  "0x20 \<le> byte c \<Longrightarrow> c \<noteq> CHR 0x22 \<Longrightarrow> c \<noteq> CHR 0x5C
   \<Longrightarrow> json_unquote (c # cs) = map_option (\<lambda>(x, r). (c # x, r)) (json_unquote cs)"
  by (simp add: json_unquote.simps)

lemma unquote_chars:
  "\<forall>c \<in> set s. 0x80 \<le> byte c \<Longrightarrow> json_unquote (s @ t) = map_option (\<lambda>(x, r). (s @ x, r)) (json_unquote t)"
proof (induction s)
  case Nil
  show ?case by (cases "json_unquote t") auto
next
  case (Cons c s)
  then have "c \<noteq> CHR 0x22" "c \<noteq> CHR 0x5C" "0x20 \<le> byte c" by (auto simp: ascii_special)
  with Cons show ?case by (cases "json_unquote t") (auto simp: unquote_char)
qed

lemma unquote_escape:
  "unescape (s @ t) = Some (v, length s)
   \<Longrightarrow> json_unquote (CHR 0x5C # s @ t) = map_option (\<lambda>(x, r). (v @ x, r)) (json_unquote t)"
  by (simp add: json_unquote.simps)

lemma unhex_digit: "n < 16 \<Longrightarrow> unhex (hex_digit n) = Some n"
  by (auto simp: unhex_def hex_digit_bytes Let_def)

lemma unescape_u:
  assumes "w < 16" "x < 16" "y < 16" "z < 16" and "r = ((w * 16 + x) * 16 + y) * 16 + z" and "r < 0xD800 \<or> 0xE000 \<le> r"
  shows "unescape (CHR ''u'' # hex_digit w # hex_digit x # hex_digit y # hex_digit z # t) = Some (encode_rune r, 5)"
  using assms by (auto simp: unescape_def unhex_digit Let_def)

lemma hex_texts: "CHR ''0'' = hex_digit 0" "CHR ''2'' = hex_digit 2" "CHR ''f'' = hex_digit 15" "CHR ''d'' = hex_digit 13"
  by (simp_all add: hex_digit_def)

lemma ascii_quoted_back:
  assumes "byte c < 0x80"
  shows "json_unquote (ascii_quoted c @ t) = map_option (\<lambda>(x, r). (c # x, r)) (json_unquote t)"
proof -
  have c: "char_byte (byte c) = c" by simp
  consider "c = CHR 0x22 \<or> c = CHR 0x5C" | "byte c = 10" | "byte c = 13" | "byte c = 9"
    | "byte c < 0x20 \<or> byte c = 0x7F" "byte c \<noteq> 10" "byte c \<noteq> 13" "byte c \<noteq> 9" "c \<noteq> CHR 0x22" "c \<noteq> CHR 0x5C"
    | "0x20 \<le> byte c" "byte c \<noteq> 0x7F" "byte c \<noteq> 10" "byte c \<noteq> 13" "byte c \<noteq> 9" "c \<noteq> CHR 0x22" "c \<noteq> CHR 0x5C"
    by fastforce
  then show ?thesis
  proof cases
    case 1
    then have "unescape ([c] @ t) = Some ([c], length [c])" by (auto simp: unescape_def)
    from unquote_escape [OF this] 1 show ?thesis by (auto simp: ascii_quoted_def)
  next
    case 2
    have "unescape (''n'' @ t) = Some ([c], length ''n'')" using c 2 by (simp add: unescape_def)
    from unquote_escape [OF this] 2 show ?thesis by (auto simp: ascii_quoted_def ascii_special)
  next
    case 3
    have "unescape (''r'' @ t) = Some ([c], length ''r'')" using c 3 by (simp add: unescape_def)
    from unquote_escape [OF this] 3 show ?thesis by (auto simp: ascii_quoted_def ascii_special)
  next
    case 4
    have "unescape (''t'' @ t) = Some ([c], length ''t'')" using c 4 by (simp add: unescape_def)
    from unquote_escape [OF this] 4 show ?thesis by (auto simp: ascii_quoted_def ascii_special)
  next
    case 5
    have r: "byte c = ((0 * 16 + 0) * 16 + byte c div 16) * 16 + byte c mod 16" by simp
    have h: "byte c div 16 < 16" using assms by linarith
    have "unescape (CHR ''u'' # hex_digit 0 # hex_digit 0 # hex_digit (byte c div 16) # hex_digit (byte c mod 16) # t)
        = Some (encode_rune (byte c), 5)"
      by (rule unescape_u [OF _ _ h _ r]) (use assms in auto)
    moreover have "encode_rune (byte c) = [c]" using assms c by (simp add: encode_rune_def)
    ultimately have "unescape ([CHR ''u'', CHR ''0'', CHR ''0'', hex_digit (byte c div 16), hex_digit (byte c mod 16)] @ t)
        = Some ([c], length [CHR ''u'', CHR ''0'', CHR ''0'', hex_digit (byte c div 16), hex_digit (byte c mod 16)])"
      by (simp add: hex_texts)
    from unquote_escape [OF this] 5 show ?thesis by (simp add: ascii_quoted_def)
  next
    case 6
    then show ?thesis by (simp add: ascii_quoted_def unquote_char)
  qed
qed

lemma length_three:
  assumes "length s = 3"
  shows "s = [s ! 0, s ! 1, s ! 2]"
proof -
  obtain a b c where "s = [a, b, c]"
    using assms by (metis (no_types) length_0_conv length_Suc_conv numeral_3_eq_3)
  then show ?thesis by simp
qed

lemma line_sep_bytes:
  assumes "line_sep s"
  shows "s = encode_rune (0x2020 + byte (s ! 2) mod 16)" and "byte (s ! 2) mod 16 < 16"
proof -
  have l: "length s = 3" "byte (s ! 0) = 0xE2" "byte (s ! 1) = 0x80" "byte (s ! 2) = 0xA8 \<or> byte (s ! 2) = 0xA9"
    using assms by (auto simp: line_sep_def)
  have "s ! 0 = char_byte 0xE2" "s ! 1 = char_byte 0x80" "s ! 2 = char_byte (byte (s ! 2))"
    using l(2,3) char_byte_byte [of "s ! 0"] char_byte_byte [of "s ! 1"] by simp_all
  then have s: "s = [char_byte 0xE2, char_byte 0x80, char_byte (byte (s ! 2))]"
    using length_three [OF l(1)] by simp
  have "encode_rune (0x2020 + n mod 16) = [char_byte 0xE2, char_byte 0x80, char_byte n]"
    if "n = 0xA8 \<or> n = 0xA9" for n
    using that by (auto simp: encode_rune_def)
  then show "s = encode_rune (0x2020 + byte (s ! 2) mod 16)" using s l(4) by metis
qed simp

lemma rune_quoted_back:
  "json_unquote (rune_quoted s (rune_len s) @ t) = map_option (\<lambda>(x, r). ((case rune_len s of
     None \<Rightarrow> encode_rune 0xFFFD | Some k \<Rightarrow> take k s) @ x, r)) (json_unquote t)"
proof (cases "rune_len s")
  case None
  have "unescape (CHR ''u'' # hex_digit 15 # hex_digit 15 # hex_digit 15 # hex_digit 13 # t)
      = Some (encode_rune 0xFFFD, 5)"
    by (rule unescape_u) simp_all
  then have "unescape (''ufffd'' @ t) = Some (encode_rune 0xFFFD, length ''ufffd'')" by (simp add: hex_texts)
  from unquote_escape [OF this] None show ?thesis by (simp add: rune_quoted_def)
next
  case (Some k)
  show ?thesis
  proof (cases "line_sep (take k s)")
    case True
    have k: "3 \<le> k" using True by (auto simp: line_sep_def)
    then have s2: "take k s ! 2 = s ! 2" by simp
    let ?u = "''u202'' @ [hex_digit (byte (s ! 2) mod 16)]"
    obtain m where m: "byte (s ! 2) mod 16 = m" "m < 16" by simp
    have "unescape (CHR ''u'' # hex_digit 2 # hex_digit 0 # hex_digit 2 # hex_digit m # t)
        = Some (encode_rune (0x2020 + m), 5)"
      by (rule unescape_u [OF _ _ _ m(2)]) (use m(2) in auto)
    then have "unescape (?u @ t) = Some (take k s, length ?u)"
      using line_sep_bytes(1) [OF True] s2 m(1) by (simp add: hex_texts)
    from unquote_escape [OF this] True Some show ?thesis by (simp add: rune_quoted_def)
  next
    case False
    with Some unquote_chars [OF rune_len_bytes [OF Some]] show ?thesis by (simp add: rune_quoted_def)
  qed
qed

lemma quoted_read_back: "json_unquote (quoted_body b @ CHR 0x22 # t) = Some (scrub b, t)"
proof (induction b rule: quoted_body.induct)
  case 1
  show ?case by (simp add: json_unquote.simps)
next
  case (2 c cs)
  show ?case
  proof (cases "byte c < 0x80")
    case True
    with 2 show ?thesis by (simp add: quoted_branches scrub.simps ascii_quoted_back)
  next
    case False
    with 2(2) rune_quoted_back [of "c # cs"] show ?thesis by (simp add: quoted_branches scrub.simps)
  qed
qed

section \<open>The results written by hand\<close>

text \<open>
  A value and a note are kept as their JSON text (\<open>json.RawMessage\<close>); \<open>raw\<close> gives the text of a value
  as the vault sent it.
\<close>

definition item_json_field :: "(json \<Rightarrow> string) \<Rightarrow> field \<Rightarrow> string" where
  "item_json_field raw f =
     append_quoted (append_quoted (append_quoted ''{\"field_id\":'' (fd_id f) @ '',\"label\":'') (fd_label f)
       @ '',\"kind\":'') (fd_kind f)
     @ (case fd_value f of None \<Rightarrow> [] | Some v \<Rightarrow> append_compact '',\"value\":'' (raw v)) @ ''}''"

fun item_json_fields :: "(json \<Rightarrow> string) \<Rightarrow> field list \<Rightarrow> string" where
  "item_json_fields raw [] = []"
| "item_json_fields raw [f] = item_json_field raw f"
| "item_json_fields raw (f # fs) = item_json_field raw f @ '','' @ item_json_fields raw fs"

definition fields_of :: "item \<Rightarrow> field list" where
  "fields_of it = (case im_fields it of None \<Rightarrow> [] | Some fs \<Rightarrow> fs)"

definition item_json :: "(json \<Rightarrow> string) \<Rightarrow> item \<Rightarrow> string" where
  "item_json raw it =
     append_quoted (append_quoted (append_quoted ''{\"status\":\"ok\",\"item\":{\"item_id\":'' (im_id it)
       @ '',\"name\":'') (im_name it) @ '',\"category\":'') (im_category it)
     @ '',\"fields\":['' @ item_json_fields raw (fields_of it) @ '']''
     @ (case im_notes it of None \<Rightarrow> [] | Some n \<Rightarrow> append_compact '',\"notes\":'' (raw n)) @ ''}}''"

definition raw_length :: "(json \<Rightarrow> string) \<Rightarrow> json option \<Rightarrow> nat" where
  "raw_length raw v = (case v of None \<Rightarrow> 0 | Some j \<Rightarrow> length (raw j))"

definition field_json_size :: "(json \<Rightarrow> string) \<Rightarrow> field \<Rightarrow> nat" where
  "field_json_size raw f = 48 + quotedBound (length (fd_id f)) + quotedBound (length (fd_label f))
     + quotedBound (length (fd_kind f)) + compactBound (raw_length raw (fd_value f))"

definition item_json_size :: "(json \<Rightarrow> string) \<Rightarrow> item \<Rightarrow> nat" where
  "item_json_size raw it = 80 + quotedBound (length (im_id it)) + quotedBound (length (im_name it))
     + quotedBound (length (im_category it)) + compactBound (raw_length raw (im_notes it))
     + sum_list (map (field_json_size raw) (fields_of it))"

definition use_json :: "use_result \<Rightarrow> string" where
  "use_json u =
     append_quoted (append_quoted (append_quoted ''{\"status\":\"ok\",\"item_id\":'' (us_item u)
       @ '',\"field_id\":'') (us_field u) @ '',\"action\":'') (us_action u)
     @ '',\"result\":\"'' @ b64_std (us_result u) @ ''\"}''"

definition use_json_size :: "use_result \<Rightarrow> nat" where
  "use_json_size u = 64 + quotedBound (length (us_item u)) + quotedBound (length (us_field u))
     + quotedBound (length (us_action u)) + 4 * ((length (us_result u) + 2) div 3)"

definition trHead :: string where "trHead = ''{\"jsonrpc\":\"2.0\",\"id\":''"
definition trMid1 :: string where
  "trMid1 = '',\"result\":{\"content\":[{\"type\":\"text\",\"text\":''"
definition trMid2 :: string where "trMid2 = ''}],\"structuredContent\":''"
definition trMid3 :: string where "trMid3 = '',\"isError\":''"
definition trTail :: string where "trTail = ''}}'' @ [char_byte 10]"

definition tool_result :: "string \<Rightarrow> string \<Rightarrow> bool \<Rightarrow> string" where
  "tool_result i body is_error =
     append_quoted (trHead @ i @ trMid1) body @ trMid2 @ body @ trMid3
     @ (if is_error then ''true'' else ''false'') @ trTail"

definition tool_result_size :: "string \<Rightarrow> string \<Rightarrow> nat" where
  "tool_result_size i body = length trHead + length i + length trMid1 + quotedBound (length body) + length trMid2
     + length body + length trMid3 + length ''false'' + length trTail"

lemma opt_compact_length:
  "length (case v of None \<Rightarrow> [] | Some j \<Rightarrow> append_compact pre (raw j)) \<le> length pre + compactBound (raw_length raw v)"
  using append_compact_length [of pre] by (cases v) (simp_all add: raw_length_def)

lemma item_json_field_length: "length (item_json_field raw f) + 8 \<le> field_json_size raw f"
proof -
  note opt_compact_length [where v = "fd_value f" and pre = "'',\"value\":''" and raw = raw]
  moreover note append_quoted_length [of "''{\"field_id\":''" "fd_id f"]
    append_quoted_length [of "append_quoted ''{\"field_id\":'' (fd_id f) @ '',\"label\":''" "fd_label f"]
    append_quoted_length [of "append_quoted (append_quoted ''{\"field_id\":'' (fd_id f) @ '',\"label\":'') (fd_label f)
       @ '',\"kind\":''" "fd_kind f"]
  ultimately show ?thesis by (simp add: item_json_field_def field_json_size_def)
qed

lemma item_json_fields_length:
  "length (item_json_fields raw fs) \<le> sum_list (map (field_json_size raw) fs)"
proof (induction raw fs rule: item_json_fields.induct)
  case (2 raw f)
  then show ?case using item_json_field_length [of raw f] by simp
next
  case (3 raw f g fs)
  then show ?case using item_json_field_length [of raw f] by simp
qed simp

lemma item_json_length: "length (item_json raw it) \<le> item_json_size raw it"
proof -
  note opt_compact_length [where v = "im_notes it" and pre = "'',\"notes\":''" and raw = raw]
  moreover note append_quoted_length [of "''{\"status\":\"ok\",\"item\":{\"item_id\":''" "im_id it"]
    append_quoted_length [of "append_quoted ''{\"status\":\"ok\",\"item\":{\"item_id\":'' (im_id it) @ '',\"name\":''" "im_name it"]
    append_quoted_length [of "append_quoted (append_quoted ''{\"status\":\"ok\",\"item\":{\"item_id\":'' (im_id it)
       @ '',\"name\":'') (im_name it) @ '',\"category\":''" "im_category it"]
    item_json_fields_length [of raw "fields_of it"]
  ultimately show ?thesis by (simp add: item_json_def item_json_size_def)
qed

lemma use_json_length: "length (use_json u) \<le> use_json_size u"
proof -
  note append_quoted_length [of "''{\"status\":\"ok\",\"item_id\":''" "us_item u"]
    append_quoted_length [of "append_quoted ''{\"status\":\"ok\",\"item_id\":'' (us_item u) @ '',\"field_id\":''" "us_field u"]
    append_quoted_length [of "append_quoted (append_quoted ''{\"status\":\"ok\",\"item_id\":'' (us_item u)
       @ '',\"field_id\":'') (us_field u) @ '',\"action\":''" "us_action u"]
  then show ?thesis by (simp add: use_json_def use_json_size_def b64_std_length)
qed

lemma tool_result_length: "length (tool_result i body e) \<le> tool_result_size i body"
  using append_quoted_length [of "trHead @ i @ trMid1" body]
  by (auto simp: tool_result_def tool_result_size_def)

section \<open>Results on one line\<close>

lemma one_line_quoted: "one_line (append_quoted dst b) = one_line dst"
  using plain_one_line [OF quoted_plain [of b]] by (auto simp: append_quoted_def ascii_special)

lemma one_line_compact: "one_line dst \<Longrightarrow> json_chars False raw \<Longrightarrow> one_line (append_compact dst raw)"
  by (simp add: append_compact_def compact_one_line)

lemma b64_char_plain: "n < 64 \<Longrightarrow> 0x20 \<le> byte (b64_char True n)"
  by (auto simp: b64_char_def byte_def)

lemma one_line_b64: "one_line (b64_std s)"
proof -
  have "0x20 \<le> byte CHR ''=''" by (simp add: byte_def)
  then show ?thesis
    by (induction "True" "True" s rule: b64_encode.induct) (auto simp: b64_char_plain six_bits)
qed

text \<open>The texts of an item's values and note, as the vault sent them, are JSON.\<close>

definition item_texts :: "item \<Rightarrow> json set" where
  "item_texts it = set_option (im_notes it) \<union> (\<Union>f \<in> set (fields_of it). set_option (fd_value f))"

lemma one_line_field:
  "\<forall>v \<in> set_option (fd_value f). json_chars False (raw v) \<Longrightarrow> one_line (item_json_field raw f)"
  by (cases "fd_value f") (simp_all add: item_json_field_def one_line_quoted one_line_compact byte_def)

lemma one_line_fields:
  "\<forall>f \<in> set fs. \<forall>v \<in> set_option (fd_value f). json_chars False (raw v) \<Longrightarrow> one_line (item_json_fields raw fs)"
  by (induction raw fs rule: item_json_fields.induct) (simp_all add: one_line_field byte_def)

lemma one_line_item:
  assumes "\<forall>v \<in> item_texts it. json_chars False (raw v)"
  shows "one_line (item_json raw it)"
proof -
  have "one_line (item_json_fields raw (fields_of it))"
    using assms by (intro one_line_fields) (auto simp: item_texts_def)
  moreover have "one_line (case im_notes it of None \<Rightarrow> [] | Some n \<Rightarrow> append_compact '',\"notes\":'' (raw n))"
    using assms by (cases "im_notes it") (simp_all add: item_texts_def one_line_compact byte_def)
  ultimately show ?thesis by (simp add: item_json_def one_line_quoted byte_def)
qed

lemma one_line_use: "one_line (use_json u)"
  by (simp add: use_json_def one_line_quoted one_line_b64 byte_def)

lemma one_line_tool_result:
  assumes "one_line i" and "one_line body"
  obtains l where "tool_result i body e = l @ [char_byte 10]" and "one_line l"
proof -
  let ?l = "append_quoted (trHead @ i @ trMid1) body @ trMid2 @ body @ trMid3
     @ (if e then ''true'' else ''false'') @ ''}}''"
  show thesis
  proof (rule that)
    show "tool_result i body e = ?l @ [char_byte 10]" by (simp add: tool_result_def trTail_def)
    show "one_line ?l" using assms
      by (cases e) (simp_all add: one_line_quoted trHead_def trMid1_def trMid2_def trMid3_def byte_def)
  qed
qed

section \<open>Properties\<close>

text \<open>
  A string written by \<open>appendQuoted\<close> holds only printable characters and bytes of multi-byte
  characters, and a JSON reader takes from it the bytes written, up to the closing quotation mark and no
  further, with each byte of an invalid UTF-8 sequence replaced by U+FFFD.
\<close>

lemma quoted_strings_read_back:
  "json_unquote (drop (length dst + 1) (append_quoted dst b) @ t) = Some (scrub b, t)
   \<and> (valid_utf8 b \<longrightarrow> scrub b = b) \<and> list_all plain_char (append_quoted [] b)"
  using quoted_read_back [of b t] quoted_plain [of b] plain_escapes
  by (simp add: append_quoted_def scrub_valid)

lemma quoted_strings_read_back_witness:
  "scrub (''a'' @ [CHR 0x22]) = ''a'' @ [CHR 0x22]"
  using quoted_strings_read_back [of "[]" "''a'' @ [CHR 0x22]" "[]"] by (simp add: valid_utf8.simps byte_def)

text \<open>
  The slices are large enough: an item's result, an action's result and the message around a
  result never outgrow the size they are made with, so no copy of a secret is left by a reallocation.
\<close>

lemma results_fit_their_slices:
  "length (item_json raw it) \<le> item_json_size raw it \<and> length (use_json u) \<le> use_json_size u
   \<and> length (tool_result i body e) \<le> tool_result_size i body"
  by (simp only: item_json_length use_json_length tool_result_length simp_thms)

end
