(* ===== verification/LeashInfo.thy ===== *)
theory LeashInfo
  imports Leash
begin

text \<open>
  What \<open>internal/leash\<close> does with the grants it holds besides presenting them: the background
  loop's \<open>step\<close> (\<open>leash.go\<close>), what \<open>leash.connection_info\<close> shows (\<open>info.go\<close>), and
  the saved form in the record (\<open>saved.go\<close>).
\<close>

section \<open>The background loop\<close>

definition earliest :: "time \<Rightarrow> time \<Rightarrow> time" where
  "earliest a b = (if a = 0 \<or> b < a then b else a)"

definition latest :: "time \<Rightarrow> time \<Rightarrow> time" where
  "latest a b = (if a < b then b else a)"

text \<open>When a grant's statement is next refreshed in the background; \<open>None\<close>: not at all.\<close>

definition refresh_due :: "leash \<Rightarrow> time \<Rightarrow> grant \<Rightarrow> time option" where
  "refresh_due m now g =
    (case l_wanted m (g_id g) of None \<Rightarrow> None
     | Some w \<Rightarrow>
        if g_del g = None \<or> expired g now \<or> l_dead m (g_id g) \<or> \<not> now < w + wantedFor then None
        else
          (let t = (case l_statements m (g_id g) of None \<Rightarrow> now | Some st \<Rightarrow> refresh_at st);
               t = (case l_refreshed m (g_id g) of None \<Rightarrow> t | Some r \<Rightarrow> latest t (r + bgMinGap));
               t = (case l_fetched m (g_id g) of None \<Rightarrow> t
                    | Some f \<Rightarrow> if 0 < l_fails m (g_id g)
                        then latest t (f + backoff minGap retryMax (l_fails m (g_id g))) else t)
           in Some t))"

definition due :: "leash \<Rightarrow> time \<Rightarrow> grant \<Rightarrow> bool" where
  "due m now g = (case refresh_due m now g of None \<Rightarrow> False | Some t \<Rightarrow> \<not> now < t)"

definition next_look :: "leash \<Rightarrow> time \<Rightarrow> time" where
  "next_look m now = foldl (\<lambda>n g. case refresh_due m now g of None \<Rightarrow> n
       | Some t \<Rightarrow> if \<not> now < t then n else earliest n t) (now + idle) (l_grants m)"

datatype step_out = SleepUntil time | ListNow | RefreshNow "string list"

text \<open>The refreshes of one step: those due, or when to look again.\<close>

definition step_refresh :: "leash \<Rightarrow> time \<Rightarrow> step_out" where
  "step_refresh m now =
    (if l_suspended m then SleepUntil (now + idle)
     else (let ids = map g_id (filter (due m now) (l_grants m)) in
       if ids \<noteq> [] then RefreshNow ids else SleepUntil (next_look m now)))"

definition step_begin :: "leash \<Rightarrow> access \<Rightarrow> time \<Rightarrow> step_out" where
  "step_begin m a now =
    (if l_held m \<or> \<not> active a now then SleepUntil (now + idle)
     else if l_need_list m \<or> \<not> l_listed m then
       (let t = (if l_need_list m then l_next_list m else latest (l_next_list m) (l_started m + listGrace)) in
        if now < t then SleepUntil (earliest t (now + idle)) else ListNow)
     else step_refresh m now)"

text \<open>After its list.\<close>

definition step_listed :: "leash \<Rightarrow> time \<Rightarrow> step_out" where
  "step_listed m now =
    (if \<not> l_listed m \<or> l_need_list m then SleepUntil (earliest (l_next_list m) (now + idle))
     else step_refresh m now)"

section \<open>What is shown\<close>

record grant_info =
  gi_id :: string
  gi_scope :: string
  gi_approval :: string
  gi_per_hour :: nat
  gi_per_day :: nat
  gi_expires :: "time option"
  gi_conns :: "string list"
  gi_status_until :: "time option"

record info =
  in_vault :: string
  in_device :: string
  in_name :: string
  in_contact :: "time option"
  in_session :: string
  in_until :: "time option"
  in_suspended :: bool
  in_grants :: "grant_info list"
  in_as_of :: "time option"
  in_confirmed :: bool

definition time_ptr :: "time \<Rightarrow> time option" where
  "time_ptr t = (if t = 0 then None else Some t)"

fun infos :: "grant list \<Rightarrow> (string \<rightharpoonup> statement) \<Rightarrow> time \<Rightarrow> grant_info list" where
  "infos [] stmts now = []"
| "infos (g # gs) stmts now =
     (if expired g now then infos gs stmts now
      else \<lparr>gi_id = g_id g, gi_scope = g_scope g, gi_approval = g_approval g, gi_per_hour = g_per_hour g,
             gi_per_day = g_per_day g, gi_expires = time_ptr (g_expires g), gi_conns = g_conns g,
             gi_status_until = (case stmts (g_id g) of None \<Rightarrow> None
               | Some st \<Rightarrow> if now < st_not_after st then time_ptr (st_not_after st) else None)\<rparr>
           # infos gs stmts now)"

definition connection_info :: "leash \<Rightarrow> string \<Rightarrow> string \<Rightarrow> access \<Rightarrow> time \<Rightarrow> time \<Rightarrow> info" where
  "connection_info m vault name a contact now =
    (let session = (if active a now then ''active''
                    else if acc_state a = AccessActive \<or> acc_state a = AccessNone then ''none''
                    else ''unknown'');
         confirmed = (l_listed m \<and> session = ''active'');
         gs = filter (\<lambda>g. \<not> l_dead m (g_id g)) (l_grants m);
         stmts = (if l_suspended m \<or> \<not> confirmed then Map.empty else l_statements m)
     in \<lparr>in_vault = vault, in_device = l_device m, in_name = name, in_contact = time_ptr contact,
         in_session = session, in_until = (if active a now then time_ptr (acc_expires a) else None),
         in_suspended = l_suspended m, in_grants = infos gs stmts now, in_as_of = time_ptr (l_as_of m),
         in_confirmed = confirmed\<rparr>)"

section \<open>The saved grants\<close>

definition savedVersion :: nat where "savedVersion = 1"

definition wire_fields :: "wire_grant \<Rightarrow> fields" where
  "wire_fields w =
     [(''grant_id'', True, JStr (w_id w)), (''agent_id'', True, JStr (w_agent w)),
      (''version'', True, JNum (show_nat (w_version w))), (''scope'', True, JStr (w_scope w)),
      (''approval'', True, JStr (w_approval w)),
      (''connections'', elems (w_conns w) \<noteq> [], JArr (map JStr (elems (w_conns w)))),
      (''tags'', elems (w_tags w) \<noteq> [], JArr (map JStr (elems (w_tags w)))),
      (''match'', w_match w \<noteq> [], JStr (w_match w)), (''access'', w_access w \<noteq> [], JStr (w_access w)),
      (''uses'', w_uses w \<noteq> 0, JNum (show_nat (w_uses w))),
      (''per_hour'', w_per_hour w \<noteq> 0, JNum (show_nat (w_per_hour w))),
      (''per_day'', w_per_day w \<noteq> 0, JNum (show_nat (w_per_day w))),
      (''expires_at'', w_expires w \<noteq> [], JStr (w_expires w)),
      (''status_ttl'', True, JNum (show_nat (w_ttl w))), (''issued_at'', True, JStr (w_issued w)),
      (''delegation'', elems (w_delegation w) \<noteq> [], JStr (b64_std (elems (w_delegation w)))),
      (''sig'', elems (w_sig w) \<noteq> [], JStr (b64_std (elems (w_sig w)))),
      (''status'', elems (w_status w) \<noteq> [], JStr (b64_std (elems (w_status w)))),
      (''status_sig'', elems (w_status_sig w) \<noteq> [], JStr (b64_std (elems (w_status_sig w)))),
      (''rotations'', elems (w_rotations w) \<noteq> [], JArr (elems (w_rotations w)))]"

definition wire_names :: "string list" where
  "wire_names = [''grant_id'', ''agent_id'', ''version'', ''scope'', ''approval'', ''connections'',
     ''tags'', ''match'', ''access'', ''uses'', ''per_hour'', ''per_day'', ''expires_at'',
     ''status_ttl'', ''issued_at'', ''delegation'', ''sig'', ''status'', ''status_sig'', ''rotations'']"

definition encode_saved :: "env \<Rightarrow> grant list \<Rightarrow> bool \<Rightarrow> time \<Rightarrow> json" where
  "encode_saved E gs suspended as_of = JObj
     [(''v'', JNum (show_nat savedVersion)), (''as_of'', JStr (show_time E as_of)),
      (''suspended'', JBool suspended), (''grants'', JArr (map (\<lambda>g. JObj (members (wire_fields (wire E g)))) gs))]"

text \<open>One saved grant: no unknown member, no status members, and the check it passed when it arrived.\<close>

definition decode_saved_grant :: "env \<Rightarrow> wire_lib \<Rightarrow> string \<Rightarrow> json \<Rightarrow> grant option" where
  "decode_saved_grant E L agent j =
    (case struct_members (Some j) of None \<Rightarrow> None
     | Some ms \<Rightarrow>
        if \<not> known_members wire_names ms then None
        else (case dec_wire_grant j of None \<Rightarrow> None
          | Some w \<Rightarrow>
              if w_status w \<noteq> None \<or> w_status_sig w \<noteq> None \<or> w_rotations w \<noteq> None then None
              else parse_grant E L w agent))"

fun decode_grants :: "env \<Rightarrow> wire_lib \<Rightarrow> string \<Rightarrow> json list \<Rightarrow> grant list \<Rightarrow> grant list option" where
  "decode_grants E L agent [] out = Some out"
| "decode_grants E L agent (j # js) out =
     (case decode_saved_grant E L agent j of None \<Rightarrow> None
      | Some g \<Rightarrow> if list_ex (\<lambda>o'. g_id o' = g_id g) out then None
                  else decode_grants E L agent js (out @ [g]))"

definition decode_saved :: "env \<Rightarrow> wire_lib \<Rightarrow> json option \<Rightarrow> string \<Rightarrow> (grant list \<times> bool \<times> time) option" where
  "decode_saved E L raw agent =
    (case struct_members raw of None \<Rightarrow> None
     | Some ms \<Rightarrow>
        (let (v, k1) = dec_field ''v'' dec_uint64 ms 0;
             (ao, k2) = dec_field ''as_of'' (dec_time E) ms 0;
             (su, k3) = dec_field ''suspended'' dec_bool ms False;
             (gs, k4) = dec_field ''grants'' (dec_list JNull dec_value) ms None in
         if \<not> (known_members [''v'', ''as_of'', ''suspended'', ''grants''] ms \<and> k1 \<and> k2 \<and> k3 \<and> k4) then None
         else if v \<noteq> savedVersion \<or> ao = 0 \<or> MaxGrants < length (elems gs) then None
         else (case decode_grants E L agent (elems gs) [] of None \<Rightarrow> None
               | Some out \<Rightarrow> Some (sort_key g_id out, su, ao))))"

definition read_saved ::
  "env \<Rightarrow> wire_lib \<Rightarrow> json option option \<Rightarrow> string \<Rightarrow> time \<Rightarrow> (grant_info list \<times> bool \<times> time) option option" where
  "read_saved E L raw device now =
    (case raw of None \<Rightarrow> Some None
     | Some j \<Rightarrow> (case decode_saved E L j device of None \<Rightarrow> None
         | Some (gs, su, ao) \<Rightarrow> Some (Some (infos gs Map.empty now, su, ao))))"

text \<open>\<open>Snapshot\<close>: the record's member, the one it was started with until something was learned.\<close>

definition snapshot :: "env \<Rightarrow> leash \<Rightarrow> json option \<Rightarrow> json option" where
  "snapshot E m loaded =
     (if \<not> l_saved m then loaded else Some (encode_saved E (l_grants m) (l_suspended m) (l_as_of m)))"

section \<open>Reading back what was saved\<close>

lemma opt_elems: "o' \<noteq> Some [] \<Longrightarrow>
    (elems o' \<noteq> [] \<longrightarrow> Some (elems o') = o') \<and> (elems o' = [] \<longrightarrow> None = o')"
  by (cases o') (simp_all add: elems_def)

lemma elems_case: "elems o' \<noteq> [] \<Longrightarrow> (case o' of None \<Rightarrow> (None, False) | Some b \<Rightarrow> (Some b, True)) = (o', True)"
  by (cases o') (simp_all add: elems_def)

lemma wire_names_fields: "map fst (wire_fields w) = wire_names"
  by (simp add: wire_fields_def wire_names_def)

lemma wire_names_ok: "list_all plain_name wire_names" "distinct wire_names"
  by (simp_all add: wire_names_def plain_names)

lemma dec_wire_field:
  "plain_name n \<Longrightarrow> dec_field n d (members (wire_fields w)) v =
    (case map_of (wire_fields w) n of None \<Rightarrow> (v, True) | Some (b, j) \<Rightarrow> if b then d j v else (v, True))"
  by (rule dec_field_members) (simp_all add: wire_names_fields wire_names_ok)

text \<open>A wire form whose optional lists are not empty when present and whose numbers fit 64 bits.\<close>

definition wire_normal :: "wire_grant \<Rightarrow> bool" where
  "wire_normal w = (w_version w < 2 ^ 64 \<and> w_uses w < 2 ^ 64 \<and> w_per_hour w < 2 ^ 64
     \<and> w_per_day w < 2 ^ 64 \<and> w_ttl w < 2 ^ 64 \<and> w_conns w \<noteq> Some [] \<and> w_tags w \<noteq> Some []
     \<and> w_delegation w \<noteq> Some [] \<and> w_sig w \<noteq> Some [] \<and> w_status w \<noteq> Some [] \<and> w_status_sig w \<noteq> Some []
     \<and> w_rotations w \<noteq> Some [])"

lemma wire_field_values:
  assumes "wire_normal w"
  shows
    "dec_field ''grant_id'' dec_string (members (wire_fields w)) [] = (w_id w, True)"
    "dec_field ''agent_id'' dec_string (members (wire_fields w)) [] = (w_agent w, True)"
    "dec_field ''version'' dec_uint64 (members (wire_fields w)) 0 = (w_version w, True)"
    "dec_field ''scope'' dec_string (members (wire_fields w)) [] = (w_scope w, True)"
    "dec_field ''approval'' dec_string (members (wire_fields w)) [] = (w_approval w, True)"
    "dec_field ''connections'' (dec_list [] dec_string) (members (wire_fields w)) None = (w_conns w, True)"
    "dec_field ''tags'' (dec_list [] dec_string) (members (wire_fields w)) None = (w_tags w, True)"
    "dec_field ''match'' dec_string (members (wire_fields w)) [] = (w_match w, True)"
    "dec_field ''access'' dec_string (members (wire_fields w)) [] = (w_access w, True)"
    "dec_field ''uses'' dec_uint64 (members (wire_fields w)) 0 = (w_uses w, True)"
    "dec_field ''per_hour'' dec_uint64 (members (wire_fields w)) 0 = (w_per_hour w, True)"
    "dec_field ''per_day'' dec_uint64 (members (wire_fields w)) 0 = (w_per_day w, True)"
    "dec_field ''expires_at'' dec_string (members (wire_fields w)) [] = (w_expires w, True)"
    "dec_field ''status_ttl'' dec_uint64 (members (wire_fields w)) 0 = (w_ttl w, True)"
    "dec_field ''issued_at'' dec_string (members (wire_fields w)) [] = (w_issued w, True)"
    "dec_field ''delegation'' dec_bytes (members (wire_fields w)) None = (w_delegation w, True)"
    "dec_field ''sig'' dec_bytes (members (wire_fields w)) None = (w_sig w, True)"
    "dec_field ''status'' dec_bytes (members (wire_fields w)) None = (w_status w, True)"
    "dec_field ''status_sig'' dec_bytes (members (wire_fields w)) None = (w_status_sig w, True)"
    "dec_field ''rotations'' (dec_list JNull dec_value) (members (wire_fields w)) None = (w_rotations w, True)"
  using assms unfolding wire_normal_def
  by (simp_all add: dec_wire_field plain_names) (simp_all add: wire_fields_def opt_elems elems_case)

lemma dec_wire_fields: "wire_normal w \<Longrightarrow> dec_wire_grant (JObj (members (wire_fields w))) = Some w"
  by (simp add: dec_wire_grant_def wire_field_values Let_def)

text \<open>
  A grant that can be saved: it passed the check, its numbers are 64-bit values, its lifetime did not
  wrap, and its times can be written (\<open>time.RFC3339Nano\<close> writes the years 0 to 9999).
\<close>

definition savable :: "env \<Rightarrow> wire_lib \<Rightarrow> string \<Rightarrow> grant \<Rightarrow> bool" where
  "savable E L agent g =
     ((\<exists>w. parse_grant E L w agent = Some g \<and> w_ttl w \<le> 9223372036)
      \<and> g_version g < 2 ^ 64 \<and> g_uses g < 2 ^ 64 \<and> g_per_hour g < 2 ^ 64 \<and> g_per_day g < 2 ^ 64
      \<and> ptime E (show_time E (g_issued g)) = Some (g_issued g)
      \<and> (g_expires g \<noteq> 0 \<longrightarrow> show_time E (g_expires g) \<noteq> []
            \<and> ptime E (show_time E (g_expires g)) = Some (g_expires g)))"

lemma nonempty_normal [simp]: "nonempty xs \<noteq> Some []"
  by (simp add: nonempty_def)

lemma parsed_ttl:
  assumes "parse_grant E L w agent = Some g" and "w_ttl w \<le> 9223372036"
  shows "nat (g_ttl g div second) = w_ttl w"
  using assms(1) by (cases rule: parse_grant_some) (simp_all add: grant_of_def status_ttl_back assms(2))

lemma wire_is_normal: "savable E L agent g \<Longrightarrow> wire_normal (wire E g)"
  by (auto simp: savable_def wire_normal_def wire_def parsed_ttl split: option.split)

lemma decode_saved_grant_wire:
  assumes "savable E L agent g" and "parse_canonical L [] = None"
  shows "decode_saved_grant E L agent (JObj (members (wire_fields (wire E g)))) = Some g"
proof -
  have "known_members wire_names (members (wire_fields (wire E g)))"
    using known_members_fields [of "wire_fields (wire E g)"] by (simp add: wire_names_fields)
  moreover have "parse_grant E L (wire E g) agent = Some g"
    using assms by (auto simp: savable_def intro: parse_grant_wire)
  ultimately show ?thesis
    by (simp add: decode_saved_grant_def dec_wire_fields wire_is_normal [OF assms(1)])
      (simp add: wire_def)
qed

lemma decode_grants_wire:
  assumes "parse_canonical L [] = None" and "\<forall>g\<in>set gs. savable E L agent g"
    and "distinct (map g_id (out @ gs))"
  shows "decode_grants E L agent (map (\<lambda>g. JObj (members (wire_fields (wire E g)))) gs) out = Some (out @ gs)"
  using assms(2,3)
proof (induction gs arbitrary: out)
  case (Cons g gs)
  have "g_id g \<notin> g_id ` set out" using Cons.prems(2) by auto
  then have "\<not> list_ex (\<lambda>o'. g_id o' = g_id g) out" unfolding list_ex_iff by (metis imageI)
  with Cons show ?case by (simp add: decode_saved_grant_wire assms(1))
qed simp

text \<open>
  Round trip: what the connector saves of its grants is read back as it was, the grants checked
  again: a restart neither loses nor changes a grant it holds.
\<close>

lemma saved_grants_roundtrip:
  assumes "parse_canonical L [] = None" and "\<forall>g\<in>set gs. savable E L agent g"
    and "distinct (map g_id gs)" and "sorted (map g_id gs)" and "length gs \<le> MaxGrants"
    and "as_of \<noteq> 0" and "ptime E (show_time E as_of) = Some as_of"
  shows "decode_saved E L (Some (encode_saved E gs suspended as_of)) agent = Some (gs, suspended, as_of)"
proof -
  let ?ms = "[(''v'', JNum (show_nat savedVersion)), (''as_of'', JStr (show_time E as_of)),
      (''suspended'', JBool suspended),
      (''grants'', JArr (map (\<lambda>g. JObj (members (wire_fields (wire E g)))) gs))]"
  have names: "plain_name ''v''" "plain_name ''as_of''" "plain_name ''suspended''" "plain_name ''grants''"
    by (simp_all add: plain_name_def byte_def)
  have "known_members [''v'', ''as_of'', ''suspended'', ''grants''] ?ms"
    by (simp add: known_members_def)
  moreover have "dec_field ''v'' dec_uint64 ?ms 0 = (savedVersion, True)"
    "dec_field ''as_of'' (dec_time E) ?ms 0 = (as_of, True)"
    "dec_field ''suspended'' dec_bool ?ms False = (suspended, True)"
    "dec_field ''grants'' (dec_list JNull dec_value) ?ms None
       = (Some (map (\<lambda>g. JObj (members (wire_fields (wire E g)))) gs), True)"
    by (simp_all add: dec_field_plain names assms(7) savedVersion_def del: dec_field.simps)
  moreover have "sort_key g_id gs = gs" using assms(4) by (simp add: sort_key_id_if_sorted)
  ultimately show ?thesis
    using assms decode_grants_wire [OF assms(1,2), of "[]"]
    by (simp add: decode_saved_def encode_saved_def elems_def del: dec_field.simps)
qed

lemma saved_grants_roundtrip_witness:
  "decode_saved toy_times toy_lib (Some (encode_saved toy_times [toy_grant] True hour)) ''A''
     = Some ([toy_grant], True, hour)"
proof -
  have "savable toy_times toy_lib ''A'' toy_grant"
  proof -
    have "\<exists>w. parse_grant toy_times toy_lib w ''A'' = Some toy_grant \<and> w_ttl w \<le> 9223372036"
      by (intro exI [of _ toy_wire] conjI toy_parses) (simp add: toy_wire_def)
    then show ?thesis unfolding savable_def by (intro conjI) (simp_all add: grant_eval)
  qed
  then show ?thesis
    by (intro saved_grants_roundtrip) (simp_all add: toy_lib_def toy_times_def MaxGrants_def durations)
qed

section \<open>Properties of the loop and of what is shown\<close>

lemma step_refresh_due:
  assumes "step_refresh m now = RefreshNow ids" and "i \<in> set ids"
  shows "\<not> l_suspended m \<and> (\<exists>g\<in>set (l_grants m). g_id g = i \<and> due m now g)"
  using assms by (auto simp: step_refresh_def Let_def split: if_splits)

lemma due_cases:
  assumes "due m now g"
  shows "g_del g \<noteq> None \<and> \<not> expired g now \<and> \<not> l_dead m (g_id g)
    \<and> (\<exists>w. l_wanted m (g_id g) = Some w \<and> now < w + wantedFor)
    \<and> (\<forall>r. l_refreshed m (g_id g) = Some r \<longrightarrow> r + bgMinGap \<le> now)
    \<and> (\<forall>f. l_fetched m (g_id g) = Some f \<longrightarrow> 0 < l_fails m (g_id g)
         \<longrightarrow> f + backoff minGap retryMax (l_fails m (g_id g)) \<le> now)"
proof -
  from assms obtain t where t: "refresh_due m now g = Some t" "t \<le> now"
    by (auto simp: due_def split: option.splits)
  then obtain w where w: "l_wanted m (g_id g) = Some w"
    by (cases "l_wanted m (g_id g)") (simp_all add: refresh_due_def)
  with t have c: "g_del g \<noteq> None" "\<not> expired g now" "\<not> l_dead m (g_id g)" "now < w + wantedFor"
    by (simp_all add: refresh_due_def split: if_splits)
  have "r + bgMinGap \<le> t" if "l_refreshed m (g_id g) = Some r" for r
    using t(1) w c that by (auto simp: refresh_due_def latest_def Let_def split: option.splits if_splits)
  moreover have "f + backoff minGap retryMax (l_fails m (g_id g)) \<le> t"
    if "l_fetched m (g_id g) = Some f" "0 < l_fails m (g_id g)" for f
    using t(1) w c that by (auto simp: refresh_due_def latest_def Let_def split: option.splits if_splits)
  ultimately show ?thesis using w c t(2) by fastforce
qed

text \<open>
  The background loop refreshes little: only while the vault is not held, in a session, with the
  grants listed and the agent not suspended; and only the statement of a current grant with a
  delegation that \<open>Present\<close> was asked for in the last 15 minutes, at least a minute after it was
  last refreshed, and after the pause that failures call for.
\<close>

lemma background_refreshes_are_wanted:
  assumes "step_begin m a now = RefreshNow ids" and "i \<in> set ids"
  shows "\<not> l_held m \<and> active a now \<and> l_listed m \<and> \<not> l_suspended m
    \<and> (\<exists>g\<in>set (l_grants m). g_id g = i \<and> g_del g \<noteq> None \<and> \<not> expired g now)
    \<and> \<not> l_dead m i \<and> (\<exists>w. l_wanted m i = Some w \<and> now < w + 15 * minute)
    \<and> (\<forall>r. l_refreshed m i = Some r \<longrightarrow> r + minute \<le> now)
    \<and> (\<forall>f. l_fetched m i = Some f \<longrightarrow> 0 < l_fails m i
         \<longrightarrow> f + backoff minGap retryMax (l_fails m i) \<le> now)"
proof -
  from assms(1) have c: "\<not> l_held m" "active a now" "l_listed m" "step_refresh m now = RefreshNow ids"
    by (auto simp: step_begin_def Let_def split: if_splits)
  from step_refresh_due [OF c(4) assms(2)] obtain g
    where "\<not> l_suspended m" "g \<in> set (l_grants m)" "g_id g = i" "due m now g" by blast
  with c due_cases [OF this(4)] show ?thesis by (auto simp: wantedFor_def bgMinGap_def)
qed

lemma background_refreshes_are_wanted_witness:
  "active active_open minute \<and> \<not> l_dead toy_listed ''G''"
proof -
  let ?m = "want (toy_listed\<lparr>l_statements := Map.empty\<rparr>) minute ''G''"
  have g: "g_id toy_grant = ''G''" "g_del toy_grant = Some toy_delegation" "\<not> expired toy_grant minute"
    by (simp_all add: grant_eval expired_def)
  have pos: "0 < wantedFor" by (simp add: wantedFor_def durations)
  have "due ?m minute toy_grant"
    by (simp add: due_def refresh_due_def want_def toy_listed_def toy_bound_def new_leash_def g pos Let_def)
  moreover have "l_grants ?m = [toy_grant]" "\<not> l_suspended ?m" "l_listed ?m" "\<not> l_need_list ?m" "\<not> l_held ?m"
    by (simp_all add: want_def toy_listed_def toy_bound_def new_leash_def)
  ultimately have "step_begin ?m active_open minute = RefreshNow [''G'']"
    by (simp add: step_begin_def step_refresh_def Let_def g)
  from background_refreshes_are_wanted [OF this, of "''G''"] show ?thesis by (simp add: want_def)
qed

lemma earliest_between:
  "n < a \<Longrightarrow> n < b \<Longrightarrow> b \<le> c \<Longrightarrow> n < earliest a b \<and> earliest a b \<le> c"
  by (auto simp: earliest_def)

lemma next_look_between:
  assumes "0 < now"
  shows "now < next_look m now \<and> next_look m now \<le> now + idle"
proof -
  have "now < n \<Longrightarrow> n \<le> now + idle \<Longrightarrow>
      now < foldl (\<lambda>n g. case refresh_due m now g of None \<Rightarrow> n
         | Some t \<Rightarrow> if \<not> now < t then n else earliest n t) n gs
      \<and> foldl (\<lambda>n g. case refresh_due m now g of None \<Rightarrow> n
         | Some t \<Rightarrow> if \<not> now < t then n else earliest n t) n gs \<le> now + idle" for n gs
    using assms
  proof (induction gs arbitrary: n)
    case (Cons g gs)
    have "now < (case refresh_due m now g of None \<Rightarrow> n | Some t \<Rightarrow> if \<not> now < t then n else earliest n t)
      \<and> (case refresh_due m now g of None \<Rightarrow> n | Some t \<Rightarrow> if \<not> now < t then n else earliest n t) \<le> now + idle"
      using Cons.prems by (auto simp: earliest_def split: option.split)
    with Cons.IH assms show ?case by simp
  qed simp
  then show ?thesis by (simp add: next_look_def idle_def durations)
qed

text \<open>
  The loop neither spins nor oversleeps: when a step finds nothing to do it looks again later
  than now and within a minute.
\<close>

lemma loop_sleeps_at_most_a_minute:
  assumes "step_begin m a now = SleepUntil t" and "0 < now"
  shows "now < t \<and> t \<le> now + minute"
proof -
  have refresh: "now < t \<and> t \<le> now + idle" if "step_refresh m now = SleepUntil t"
    using that next_look_between [OF assms(2), of m]
    by (auto simp: step_refresh_def Let_def idle_def durations split: if_splits)
  have wait: "now < earliest u (now + idle) \<and> earliest u (now + idle) \<le> now + idle" if "now < u" for u
    using that by (intro earliest_between) (simp_all add: idle_def durations)
  have "now < now + idle" by (simp add: idle_def durations)
  with assms(1) refresh wait have "now < t \<and> t \<le> now + idle"
    by (auto simp: step_begin_def Let_def split: if_splits)
  then show ?thesis by (simp add: idle_def)
qed

lemma loop_sleeps_at_most_a_minute_witness: "minute < minute + idle \<and> minute + idle \<le> minute + minute"
  by (rule loop_sleeps_at_most_a_minute [of "new_leash 0" no_access minute])
    (simp_all add: step_begin_def durations)

lemma infos_some:
  "gi \<in> set (infos gs stmts now) \<Longrightarrow> \<exists>g\<in>set gs. gi_id gi = g_id g \<and> gi_scope gi = g_scope g
     \<and> \<not> expired g now \<and> (\<forall>t. gi_status_until gi = Some t \<longrightarrow>
          (\<exists>st. stmts (g_id g) = Some st \<and> t = st_not_after st \<and> now < t))"
  by (induction gs) (auto simp: time_ptr_def split: if_splits option.splits)

text \<open>
  What \<open>leash.connection_info\<close> shows: only current grants, unexpired and not refused; and the end
  of a status statement only when the agent is not suspended, the grants were listed in this session,
  and that statement is one the connector holds and is current.
\<close>

lemma connection_info_shows_current_grants:
  assumes "gi \<in> set (in_grants (connection_info m vault name a contact now))"
  shows "\<exists>g\<in>set (l_grants m). gi_id gi = g_id g \<and> gi_scope gi = g_scope g \<and> \<not> expired g now
      \<and> \<not> l_dead m (g_id g)
      \<and> (\<forall>t. gi_status_until gi = Some t \<longrightarrow> \<not> l_suspended m \<and> l_listed m \<and> active a now
           \<and> (\<exists>st. l_statements m (g_id g) = Some st \<and> t = st_not_after st \<and> now < t))"
proof -
  let ?stmts = "if l_suspended m \<or> \<not> (l_listed m \<and> active a now) then Map.empty else l_statements m"
  have "gi \<in> set (infos (filter (\<lambda>g. \<not> l_dead m (g_id g)) (l_grants m)) ?stmts now)"
    using assms by (auto simp: connection_info_def Let_def split: if_splits)
  from infos_some [OF this] show ?thesis by (force split: if_splits)
qed

lemma connection_info_shows_current_grants_witness:
  "\<exists>g\<in>set (l_grants toy_listed). g_id g = ''G''"
proof -
  have "map gi_id (in_grants (connection_info toy_listed [] [] active_open 0 minute)) = [''G'']"
    by (simp add: connection_info_def toy_listed_def toy_bound_def new_leash_def Let_def)
      (simp add: grant_eval expired_def)
  then obtain gi where "gi \<in> set (in_grants (connection_info toy_listed [] [] active_open 0 minute))"
      "gi_id gi = ''G''"
    by (cases "in_grants (connection_info toy_listed [] [] active_open 0 minute)") auto
  from connection_info_shows_current_grants [OF this(1)] this(2) show ?thesis by auto
qed

end
