(* ===== verification/Tools.thy ===== *)
theory Tools
  imports Encode LeashInfo
begin

text \<open>
  \<open>internal/mcp/tools.go\<close>: the five tools. A tool's arguments become a \<open>tool_call\<close> to
  \<open>internal/leash/request\<close> (or are refused), and what that answers becomes a \<open>tool_out\<close>. A body
  written by \<open>json.Marshal\<close> is its value (\<open>Marshalled\<close>), one written by hand its text (\<open>Written\<close>,
  theory Encode).
\<close>

section \<open>The tools and their schemas\<close>

datatype tool = ListAvailable | RequestSecret | ExecuteAction | CheckStatus | ConnectionInfo

definition all_tools :: "tool list" where
  "all_tools = [ListAvailable, RequestSecret, ExecuteAction, CheckStatus, ConnectionInfo]"

fun tool_name :: "tool \<Rightarrow> string" where
  "tool_name ListAvailable = ''leash.list_available''"
| "tool_name RequestSecret = ''leash.request_secret''"
| "tool_name ExecuteAction = ''leash.execute_action''"
| "tool_name CheckStatus = ''leash.check_status''"
| "tool_name ConnectionInfo = ''leash.connection_info''"

text \<open>What \<open>tools/list\<close> says of a tool: its members with their kinds, those required, and its hints.\<close>

datatype schema_kind = KUlid | KFieldId | KFieldIds | KText | KEncoding

record tool_def =
  td_title :: string
  td_members :: "(string \<times> schema_kind) list"
  td_required :: "string list"
  td_read_only :: bool
  td_idempotent :: bool

fun tool_set :: "tool \<Rightarrow> tool_def" where
  "tool_set ListAvailable = \<lparr>td_title = ''List the items this agent may use'', td_members = [],
     td_required = [], td_read_only = True, td_idempotent = False\<rparr>"
| "tool_set RequestSecret = \<lparr>td_title = ''Read an item's values'',
     td_members = [(''item_id'', KUlid), (''fields'', KFieldIds)],
     td_required = [''item_id''], td_read_only = False, td_idempotent = False\<rparr>"
| "tool_set ExecuteAction = \<lparr>td_title = ''Use a field without revealing it'',
     td_members = [(''item_id'', KUlid), (''field_id'', KFieldId), (''data'', KText), (''data_encoding'', KEncoding)],
     td_required = [''item_id'', ''field_id'', ''data''], td_read_only = True, td_idempotent = False\<rparr>"
| "tool_set CheckStatus = \<lparr>td_title = ''Check a pending request'', td_members = [(''request_id'', KUlid)],
     td_required = [''request_id''], td_read_only = True, td_idempotent = False\<rparr>"
| "tool_set ConnectionInfo = \<lparr>td_title = ''Show this agent's connection'', td_members = [],
     td_required = [], td_read_only = True, td_idempotent = True\<rparr>"

section \<open>Arguments\<close>

fun null_value :: "json \<Rightarrow> bool" where
  "null_value JNull = True"
| "null_value _ = False"

text \<open>\<open>checkMembers\<close>: an object whose members are among those allowed, each once and not null.\<close>

definition check_members :: "string list \<Rightarrow> json \<Rightarrow> bool" where
  "check_members allowed j = (case j of
       JObj ms \<Rightarrow> list_all (\<lambda>(k, v). k \<in> set allowed \<and> \<not> null_value v) ms \<and> distinct (map fst ms)
     | _ \<Rightarrow> False)"

definition args_members :: "json \<Rightarrow> (string \<times> json) list" where
  "args_members j = (case j of JObj ms \<Rightarrow> ms | _ \<Rightarrow> [])"

text \<open>A call of \<open>internal/leash/request\<close>, the connection's description, or a refusal.\<close>

datatype tool_call = TCatalog | TGet string "string list option" | TUse string string string | TStatus string
  | TInfo | TBadArguments | TBadData

abbreviation dec_opt :: "string \<Rightarrow> (string \<times> json) list \<Rightarrow> string option \<times> bool" where
  "dec_opt n ms \<equiv> dec_field n (dec_ptr [] dec_string) ms None"

text \<open>\<open>base64.StdEncoding.Strict()\<close>: the canonical encoding, line breaks aside.\<close>

definition b64_strict :: "string \<Rightarrow> string option" where
  "b64_strict s = (case b64_decode s of None \<Rightarrow> None
     | Some d \<Rightarrow> if filter (\<lambda>c. \<not> is_newline c) s = b64_std d then Some d else None)"

fun run_args :: "tool \<Rightarrow> json \<Rightarrow> tool_call" where
  "run_args ListAvailable j = (if check_members [] j then TCatalog else TBadArguments)"
| "run_args RequestSecret j =
     (let ms = args_members j; (i, k1) = dec_opt ''item_id'' ms;
          (fs, k2) = dec_field ''fields'' (dec_ptr None (dec_list [] dec_string)) ms None in
      if check_members [''item_id'', ''fields''] j \<and> k1 \<and> k2
      then (case i of None \<Rightarrow> TBadArguments
        | Some i \<Rightarrow> TGet i (case fs of None \<Rightarrow> None | Some fs \<Rightarrow> fs))
      else TBadArguments)"
| "run_args ExecuteAction j =
     (let ms = args_members j; (i, k1) = dec_opt ''item_id'' ms; (f, k2) = dec_opt ''field_id'' ms;
          (d, k3) = dec_opt ''data'' ms; (e, k4) = dec_opt ''data_encoding'' ms in
      if check_members [''item_id'', ''field_id'', ''data'', ''data_encoding''] j \<and> k1 \<and> k2 \<and> k3 \<and> k4
      then (case (i, f, d) of (Some i, Some f, Some d) \<Rightarrow>
              if e = None \<or> e = Some ''text'' then TUse i f d
              else if e = Some ''base64'' then (case b64_strict d of None \<Rightarrow> TBadData | Some b \<Rightarrow> TUse i f b)
              else TBadArguments
            | _ \<Rightarrow> TBadArguments)
      else TBadArguments)"
| "run_args CheckStatus j =
     (let (i, k1) = dec_opt ''request_id'' (args_members j) in
      if check_members [''request_id''] j \<and> k1
      then (case i of None \<Rightarrow> TBadArguments | Some i \<Rightarrow> TStatus i) else TBadArguments)"
| "run_args ConnectionInfo j = (if check_members [] j then TInfo else TBadArguments)"

section \<open>Results\<close>

datatype body = Marshalled json | Written string

record tool_out =
  to_body :: body
  to_error :: bool
  to_log :: string
  to_request :: string
  to_secret :: bool

text \<open>The errors \<open>errorOut\<close> tells apart: a request's, an access error, a LEASH error, anything else.\<close>

datatype tool_err = TeRequest rerror | TeAccess aerror | TeLeash string string | TeOther

definition TextBadArguments :: string where
  "TextBadArguments = ''The arguments do not match this tool's input schema.''"
definition TextRateLimited :: string where
  "TextRateLimited = ''Too many tool calls from this agent in a short time. Wait a moment and try again.''"
definition TextTooManyInFlight :: string where
  "TextTooManyInFlight = ''Too many tool calls from this agent are still running. Wait for their answers and try again.''"
definition TextInternal :: string where
  "TextInternal = ''The connector could not complete this request.''"

text \<open>\<open>retryAfter\<close>: rounded up to a whole second, never before now (zero: not known).\<close>

definition retry_after :: "time \<Rightarrow> time \<Rightarrow> time" where
  "retry_after until now =
    (let until = (if now \<noteq> 0 \<and> until < now then now else until); t = until - until mod second in
     if t < until then t + second else until)"

definition err_fields :: "tool_err \<Rightarrow> string \<times> string \<times> string \<times> time" where
  "err_fields e = (case e of
       TeRequest r \<Rightarrow> (re_code r, re_text r, re_request r, re_until r)
     | TeAccess a \<Rightarrow> (ae_code a, ae_text a, [], ae_until a)
     | TeLeash c t \<Rightarrow> (c, t, [], 0)
     | TeOther \<Rightarrow> (''internal_error'', TextInternal, [], 0))"

definition error_out :: "env \<Rightarrow> tool_err \<Rightarrow> time \<Rightarrow> tool_out" where
  "error_out E e now =
    (let (code, msg, req, until) = err_fields e;
         retry = (if until = 0 then [] else show_time E (retry_after until now)) in
     \<lparr>to_body = Marshalled (JObj (members
        [(''status'', True, JStr ''error''), (''code'', True, JStr code), (''message'', True, JStr msg),
         (''request_id'', req \<noteq> [], JStr req), (''retry_after'', retry \<noteq> [], JStr retry)])),
      to_error = True, to_log = code, to_request = req, to_secret = False\<rparr>)"

definition bad_arguments :: "env \<Rightarrow> tool_out" where
  "bad_arguments E = error_out E (TeRequest (rerr ''bad_request'' TextBadArguments)) 0"

definition bad_data :: "env \<Rightarrow> tool_out" where
  "bad_data E = error_out E (TeRequest (rerr ''bad_request''
     ''The request is not valid: data is not standard base64.'')) 0"

definition rate_limited :: "env \<Rightarrow> time \<Rightarrow> duration \<Rightarrow> tool_out" where
  "rate_limited E now wait = error_out E (TeRequest ((rerr ''rate_limited_local'' TextRateLimited)
     \<lparr>re_until := now + wait\<rparr>)) now"

definition too_many_in_flight :: "env \<Rightarrow> tool_out" where
  "too_many_in_flight E = error_out E (TeRequest (rerr ''rate_limited_local'' TextTooManyInFlight)) 0"

definition pending_out :: "outcome \<Rightarrow> tool_out" where
  "pending_out oc = \<lparr>to_body = Marshalled (JObj
      [(''status'', JStr ''pending''), (''request_id'', JStr (oc_request oc)),
       (''waiting_for_approval'', JBool (oc_waiting oc)), (''message'', JStr (oc_text oc))]),
     to_error = False, to_log = ''pending'', to_request = oc_request oc, to_secret = False\<rparr>"

definition label_json :: "label \<Rightarrow> json" where
  "label_json l = JObj [(''field_id'', JStr (lb_id l)), (''label'', JStr (lb_label l)), (''kind'', JStr (lb_kind l))]"

definition catalog_json :: "catalog_item list \<Rightarrow> json" where
  "catalog_json its = JObj [(''status'', JStr ''ok''), (''items'', JArr (map (\<lambda>it. JObj
      [(''item_id'', JStr (ci_id it)), (''name'', JStr (ci_name it)), (''category'', JStr (ci_category it)),
       (''labels'', JArr (map label_json (case ci_labels it of None \<Rightarrow> [] | Some ls \<Rightarrow> ls)))]) its))]"

definition ok_out :: "body \<Rightarrow> bool \<Rightarrow> tool_out" where
  "ok_out b secret = \<lparr>to_body = b, to_error = False, to_log = ''ok'', to_request = [], to_secret = secret\<rparr>"

fun result_out :: "(json \<Rightarrow> string) \<Rightarrow> result \<Rightarrow> tool_out" where
  "result_out raw (RCatalog its) = ok_out (Marshalled (catalog_json its)) False"
| "result_out raw (RItem it) = ok_out (Written (item_json raw it)) True"
| "result_out raw (RUse u) = ok_out (Written (use_json u)) True"

text \<open>What a call of \<open>internal/leash/request\<close> returned; \<open>None\<close> is another error (a context's).\<close>

definition outcome_out :: "env \<Rightarrow> (json \<Rightarrow> string) \<Rightarrow> time \<Rightarrow> (rerror + outcome) option \<Rightarrow> tool_out" where
  "outcome_out E raw now r = (case r of None \<Rightarrow> error_out E TeOther now
     | Some (Inl e) \<Rightarrow> error_out E (TeRequest e) now
     | Some (Inr oc) \<Rightarrow>
        if oc_pending oc then pending_out oc
        else (case oc_result oc of None \<Rightarrow> error_out E TeOther now | Some res \<Rightarrow> result_out raw res))"

section \<open>leash.connection_info\<close>

definition opt_time :: "env \<Rightarrow> string \<Rightarrow> time option \<Rightarrow> string \<times> bool \<times> json" where
  "opt_time E n t = (n, t \<noteq> None, case t of None \<Rightarrow> JNull | Some t \<Rightarrow> JStr (show_time E t))"

definition grant_info_json :: "env \<Rightarrow> grant_info \<Rightarrow> json" where
  "grant_info_json E g = JObj (members
     [(''grant_id'', True, JStr (gi_id g)), (''scope'', True, JStr (gi_scope g)),
      (''approval'', True, JStr (gi_approval g)),
      (''per_hour'', gi_per_hour g \<noteq> 0, JNum (show_nat (gi_per_hour g))),
      (''per_day'', gi_per_day g \<noteq> 0, JNum (show_nat (gi_per_day g))),
      opt_time E ''expires_at'' (gi_expires g),
      (''connections'', gi_conns g \<noteq> [], JArr (map JStr (gi_conns g))),
      opt_time E ''status_until'' (gi_status_until g)])"

definition info_json :: "env \<Rightarrow> info \<Rightarrow> bool \<Rightarrow> json" where
  "info_json E i waiting = JObj (members
     [(''status'', True, JStr ''ok''), (''vault_id'', True, JStr (in_vault i)),
      (''device_id'', True, JStr (in_device i)), (''name'', True, JStr (in_name i)),
      opt_time E ''last_contact'' (in_contact i), (''access_session'', True, JStr (in_session i)),
      opt_time E ''access_session_until'' (in_until i), (''suspended'', True, JBool (in_suspended i)),
      (''grants'', True, JArr (map (grant_info_json E) (in_grants i))),
      opt_time E ''grants_as_of'' (in_as_of i), (''grants_confirmed'', True, JBool (in_confirmed i)),
      (''waiting_for_daily_check'', True, JBool waiting)])"

definition info_out :: "env \<Rightarrow> info option \<Rightarrow> bool \<Rightarrow> tool_out" where
  "info_out E i waiting = (case i of None \<Rightarrow> error_out E TeOther 0
     | Some i \<Rightarrow> ok_out (Marshalled (info_json E i waiting)) False)"

section \<open>Running a tool\<close>

text \<open>
  A tool's run: \<open>answer_of\<close> is what the requests' client answers to the call, \<open>conn_info\<close> and \<open>waiting\<close> what
  the connection's description holds.
\<close>

definition tool_run ::
  "env \<Rightarrow> (json \<Rightarrow> string) \<Rightarrow> time \<Rightarrow> (tool_call \<Rightarrow> (rerror + outcome) option) \<Rightarrow> info option \<Rightarrow> bool
   \<Rightarrow> tool \<Rightarrow> json \<Rightarrow> tool_out" where
  "tool_run E raw now answer_of conn_info waiting t j = (case run_args t j of
       TBadArguments \<Rightarrow> bad_arguments E
     | TBadData \<Rightarrow> bad_data E
     | TInfo \<Rightarrow> info_out E conn_info waiting
     | c \<Rightarrow> outcome_out E raw now (answer_of c))"

section \<open>The schema as a reference\<close>

text \<open>What a member's kind admits; an array's null elements become empty ids, which are refused later.\<close>

fun json_text :: "json \<Rightarrow> string option" where
  "json_text (JStr s) = Some s"
| "json_text (JEsc s) = Some s"
| "json_text _ = None"

fun kind_ok :: "schema_kind \<Rightarrow> json \<Rightarrow> bool" where
  "kind_ok KFieldIds j = (case j of JArr js \<Rightarrow> list_all (\<lambda>j. json_text j \<noteq> None \<or> null_value j) js | _ \<Rightarrow> False)"
| "kind_ok KEncoding j = (json_text j = Some ''text'' \<or> json_text j = Some ''base64'')"
| "kind_ok _ j = (json_text j \<noteq> None)"

definition member_ok :: "tool \<Rightarrow> string \<times> json \<Rightarrow> bool" where
  "member_ok t p = (case map_of (td_members (tool_set t)) (fst p) of None \<Rightarrow> False | Some k \<Rightarrow> kind_ok k (snd p))"

definition schema_ok :: "tool \<Rightarrow> json \<Rightarrow> bool" where
  "schema_ok t j = (case j of
       JObj ms \<Rightarrow> distinct (map fst ms) \<and> list_all (member_ok t) ms
         \<and> set (td_required (tool_set t)) \<subseteq> fst ` set ms
     | _ \<Rightarrow> False)"

lemma dec_opt_result:
  assumes "plain_name n" and "check_members allowed (JObj ms)" and "\<forall>a\<in>set allowed. plain_name a"
  shows "dec_field n d ms v = (case map_of ms n of None \<Rightarrow> (v, True) | Some j \<Rightarrow> d j v)"
  using assms by (intro dec_field_plain) (auto simp: check_members_def list_all_iff)

lemma dec_text: "\<not> null_value j \<Longrightarrow> dec_ptr [] dec_string j None
    = (Some (case json_text j of None \<Rightarrow> [] | Some s \<Rightarrow> s), json_text j \<noteq> None)"
  by (cases j) simp_all

lemma dec_texts: "snd (dec_elems [] dec_string js) = list_all (\<lambda>j. json_text j \<noteq> None \<or> null_value j) js"
proof (induction js)
  case (Cons j js)
  then show ?case by (cases j) (simp_all add: case_prod_beta)
qed simp

lemma dec_text_list:
  assumes "\<not> null_value j"
  shows "snd (dec_ptr None (dec_list [] dec_string) j None) = kind_ok KFieldIds j"
  using assms by (cases j) (simp_all add: case_prod_beta dec_texts)

lemma tool_names_plain:
  "plain_name ''item_id''" "plain_name ''fields''" "plain_name ''field_id''" "plain_name ''data''"
  "plain_name ''data_encoding''" "plain_name ''request_id''"
  by (simp_all add: plain_name_def byte_def)

lemma kind_not_null: "kind_ok k j \<Longrightarrow> \<not> null_value j"
  by (cases k; cases j) simp_all

lemma list_all_members:
  "distinct (map fst ms) \<Longrightarrow> list_all P ms = (\<forall>n j. map_of ms n = Some j \<longrightarrow> P (n, j))"
  by (auto simp: list_all_iff intro: map_of_SomeD)

text \<open>The schema, read off the arguments by name.\<close>

lemma by_name_iff:
  assumes "\<And>n. n \<in> R \<Longrightarrow> \<exists>k. K n = Some k" and "\<And>k j. ok k j \<Longrightarrow> good j"
  shows "((\<forall>n j. M n = Some j \<longrightarrow> (\<exists>k. K n = Some k \<and> ok k j)) \<and> (\<forall>n\<in>R. M n \<noteq> None)) =
    ((\<forall>n j. M n = Some j \<longrightarrow> K n \<noteq> None \<and> good j)
     \<and> (\<forall>n k. K n = Some k \<longrightarrow> (M n = None \<longrightarrow> n \<notin> R) \<and> (\<forall>j. M n = Some j \<longrightarrow> ok k j)))"
proof (intro iffI conjI; elim conjE)
  assume l: "\<forall>n j. M n = Some j \<longrightarrow> (\<exists>k. K n = Some k \<and> ok k j)" and r: "\<forall>n\<in>R. M n \<noteq> None"
  show "\<forall>n j. M n = Some j \<longrightarrow> K n \<noteq> None \<and> good j" using l assms(2) by fastforce
  show "\<forall>n k. K n = Some k \<longrightarrow> (M n = None \<longrightarrow> n \<notin> R) \<and> (\<forall>j. M n = Some j \<longrightarrow> ok k j)"
    using l r by fastforce
next
  assume l: "\<forall>n j. M n = Some j \<longrightarrow> K n \<noteq> None \<and> good j"
    and r: "\<forall>n k. K n = Some k \<longrightarrow> (M n = None \<longrightarrow> n \<notin> R) \<and> (\<forall>j. M n = Some j \<longrightarrow> ok k j)"
  show "\<forall>n j. M n = Some j \<longrightarrow> (\<exists>k. K n = Some k \<and> ok k j)" using l r by blast
  show "\<forall>n\<in>R. M n \<noteq> None" using r assms(1) by blast
qed

lemma schema_by_name:
  assumes K: "distinct (map fst (td_members (tool_set t)))"
    and req: "set (td_required (tool_set t)) \<subseteq> fst ` set (td_members (tool_set t))"
  shows "schema_ok t (JObj ms) =
    (check_members (map fst (td_members (tool_set t))) (JObj ms)
     \<and> list_all (\<lambda>(n, k). case map_of ms n of None \<Rightarrow> n \<notin> set (td_required (tool_set t)) | Some j \<Rightarrow> kind_ok k j)
         (td_members (tool_set t)))"
proof (cases "distinct (map fst ms)")
  case True
  let ?K = "map_of (td_members (tool_set t))" and ?R = "set (td_required (tool_set t))"
  have given: "n \<in> fst ` set ms \<longleftrightarrow> map_of ms n \<noteq> None" for n by (simp add: map_of_eq_None_iff)
  have allowed: "n \<in> fst ` set (td_members (tool_set t)) \<longleftrightarrow> ?K n \<noteq> None" for n
    by (simp add: map_of_eq_None_iff)
  have "schema_ok t (JObj ms) \<longleftrightarrow> (\<forall>n j. map_of ms n = Some j \<longrightarrow> (\<exists>k. ?K n = Some k \<and> kind_ok k j))
      \<and> (\<forall>n\<in>?R. map_of ms n \<noteq> None)"
    using True by (simp add: schema_ok_def list_all_members member_ok_def subset_iff given split: option.split)
      (metis option.distinct(1) option.exhaust option.inject)
  moreover have "check_members (map fst (td_members (tool_set t))) (JObj ms) \<longleftrightarrow>
      (\<forall>n j. map_of ms n = Some j \<longrightarrow> ?K n \<noteq> None \<and> \<not> null_value j)"
    using True by (simp add: check_members_def list_all_members [OF True] allowed del: not_None_eq)
  moreover have "list_all (\<lambda>(n, k). case map_of ms n of None \<Rightarrow> n \<notin> ?R | Some j \<Rightarrow> kind_ok k j)
        (td_members (tool_set t)) \<longleftrightarrow>
      (\<forall>n k. ?K n = Some k \<longrightarrow> (map_of ms n = None \<longrightarrow> n \<notin> ?R) \<and> (\<forall>j. map_of ms n = Some j \<longrightarrow> kind_ok k j))"
    using K by (simp add: list_all_members split: option.split) (metis option.distinct(1))
  moreover have "n \<in> ?R \<Longrightarrow> \<exists>k. ?K n = Some k" for n using req allowed by blast
  ultimately show ?thesis
    using by_name_iff [where M = "map_of ms" and K = ?K and R = ?R and ok = kind_ok and good = "\<lambda>j. \<not> null_value j"]
      kind_not_null by simp
qed (simp add: schema_ok_def check_members_def)

lemma dec_opt_case:
  assumes "plain_name n" and "check_members allowed (JObj ms)" and "\<forall>a\<in>set allowed. plain_name a"
  shows "dec_opt n ms = (case map_of ms n of None \<Rightarrow> (None, True)
    | Some j \<Rightarrow> (Some (case json_text j of None \<Rightarrow> [] | Some s \<Rightarrow> s), json_text j \<noteq> None))"
proof -
  have "\<not> null_value j" if "map_of ms n = Some j" for j
    using assms(2) map_of_SomeD [OF that] by (auto simp: check_members_def list_all_iff)
  then show ?thesis by (auto simp: dec_opt_result [OF assms] dec_text split: option.split)
qed

lemma request_id_args: "run_args CheckStatus j \<noteq> TBadArguments \<longleftrightarrow> schema_ok CheckStatus j"
proof (cases "check_members [''request_id''] j")
  case True
  then obtain ms where j: "j = JObj ms" by (cases j) (simp_all add: check_members_def)
  with True show ?thesis
    by (simp add: schema_by_name args_members_def tool_names_plain
        dec_opt_case [where n = "''request_id''" and allowed = "[''request_id'']" and ms = ms] split: option.split)
qed (cases j; simp add: schema_by_name case_prod_beta; simp add: check_members_def schema_ok_def)

lemma no_args:
  "run_args ListAvailable j \<noteq> TBadArguments \<longleftrightarrow> schema_ok ListAvailable j"
  "run_args ConnectionInfo j \<noteq> TBadArguments \<longleftrightarrow> schema_ok ConnectionInfo j"
  by (cases j; simp add: schema_by_name; simp add: check_members_def schema_ok_def)+

lemma secret_args: "run_args RequestSecret j \<noteq> TBadArguments \<longleftrightarrow> schema_ok RequestSecret j"
proof (cases "check_members [''item_id'', ''fields''] j")
  case True
  then obtain ms where j: "j = JObj ms" by (cases j) (simp_all add: check_members_def)
  have all: "\<forall>a\<in>set [''item_id'', ''fields'']. plain_name a" by (simp add: tool_names_plain)
  have fs: "snd (dec_field ''fields'' (dec_ptr None (dec_list [] dec_string)) ms None) =
      (case map_of ms ''fields'' of None \<Rightarrow> True | Some v \<Rightarrow> kind_ok KFieldIds v)"
    using True [unfolded j] map_of_SomeD [of ms "''fields''"]
    by (auto simp: dec_opt_result [OF tool_names_plain(2) True [unfolded j] all] check_members_def list_all_iff
      dec_text_list simp del: kind_ok.simps split: option.split)
  from True show ?thesis
    by (simp add: j schema_by_name args_members_def case_prod_beta fs
        dec_opt_case [OF tool_names_plain(1) True [unfolded j] all] split: option.split)
qed (cases j; simp add: schema_by_name case_prod_beta; simp add: check_members_def schema_ok_def)

lemma action_args: "run_args ExecuteAction j \<noteq> TBadArguments \<longleftrightarrow> schema_ok ExecuteAction j"
proof (cases "check_members [''item_id'', ''field_id'', ''data'', ''data_encoding''] j")
  case True
  then obtain ms where j: "j = JObj ms" by (cases j) (simp_all add: check_members_def)
  have all: "\<forall>a\<in>set [''item_id'', ''field_id'', ''data'', ''data_encoding'']. plain_name a"
    by (simp add: tool_names_plain)
  note dec = tool_names_plain [THEN dec_opt_case, OF True [unfolded j] all]
  from True show ?thesis
    by (simp add: j schema_by_name args_members_def case_prod_beta dec split: option.split)
qed (cases j; simp add: schema_by_name case_prod_beta; simp add: check_members_def schema_ok_def)

section \<open>Properties\<close>


lemma whole_second:
  "let t = x - x mod second; r = if t < x then t + second else x in
   x \<le> r \<and> r < x + second \<and> r mod second = 0"
proof -
  have m: "0 \<le> x mod second" "x mod second < second" "0 < second" by (simp_all add: second_def)
  have "(x - x mod second) mod second = 0" by (simp add: minus_mod_eq_div_mult)
  with m show ?thesis unfolding Let_def by (simp del: pos_mod_bound pos_mod_sign)
qed

text \<open>
  The time an error says to retry at is a whole second, is not before the time the refusal ends
  nor before now, and is less than a second later than both.
\<close>

lemma retry_time_bounds:
  "until \<le> retry_after until now \<and> (now = 0 \<or> now \<le> retry_after until now)
    \<and> retry_after until now < (if now = 0 then until else max until now) + second
    \<and> retry_after until now mod second = 0"
  using whole_second [of "if now \<noteq> 0 \<and> until < now then now else until"]
  unfolding retry_after_def Let_def by (cases "now = 0"; cases "until < now") auto

end
