(* ===== verification/RateLimit.thy ===== *)
theory RateLimit
  imports Complex_Main Prelude
begin

text \<open>
  \<open>internal/mcp/ratelimit.go\<close>: the token bucket in front of the tool calls. Its numbers are
  \<open>float64\<close>: a real number here, with \<open>fl\<close> the rounding every operation applies (IEEE 754), about
  which the lemmas use only that it keeps the sign, is monotone and is off by a factor of at most
  \<open>1 + u\<close> (\<open>rounds\<close>; \<open>u\<close> is \<open>2\<^sup>-\<^sup>5\<^sup>3\<close> for \<open>float64\<close>).
\<close>

record bucket =
  bk_rate :: real
  bk_burst :: real
  bk_tokens :: real
  bk_last :: time

definition DefaultBurst :: int where "DefaultBurst = 120"
definition DefaultRate :: real where "DefaultRate = 2"

definition new_bucket :: "real \<Rightarrow> int \<Rightarrow> time \<Rightarrow> bucket" where
  "new_bucket rate burst now =
     \<lparr>bk_rate = rate, bk_burst = real_of_int burst, bk_tokens = real_of_int burst, bk_last = now\<rparr>"

text \<open>\<open>Duration.Seconds\<close>: whole seconds, plus the rest divided.\<close>

definition seconds :: "(real \<Rightarrow> real) \<Rightarrow> duration \<Rightarrow> real" where
  "seconds fl d = fl (real_of_int (d div second) + fl (real_of_int (d mod second) / 1000000000))"

definition refill :: "(real \<Rightarrow> real) \<Rightarrow> bucket \<Rightarrow> time \<Rightarrow> real" where
  "refill fl b now =
     (let el = seconds fl (now - bk_last b) in
      if now - bk_last b > 0 \<and> el > 0
      then min (bk_burst b) (fl (bk_tokens b + fl (el * bk_rate b))) else bk_tokens b)"

text \<open>\<open>take\<close>: whether a token was left; if not, how long until one is, in nanoseconds.\<close>

definition take_token :: "(real \<Rightarrow> real) \<Rightarrow> bucket \<Rightarrow> time \<Rightarrow> bucket \<times> bool \<times> duration" where
  "take_token fl b now =
     (let t = refill fl b now; b = b\<lparr>bk_tokens := t, bk_last := now\<rparr> in
      if t \<ge> 1 then (b\<lparr>bk_tokens := fl (t - 1)\<rparr>, True, 0)
      else (b, False, \<lfloor>fl (fl (fl (1 - t) / bk_rate b) * 1000000000)\<rfloor>))"

definition rounds :: "(real \<Rightarrow> real) \<Rightarrow> real \<Rightarrow> bool" where
  "rounds fl u = (0 \<le> u \<and> (\<forall>x. 0 \<le> x \<longrightarrow> 0 \<le> fl x \<and> fl x \<le> x * (1 + u)) \<and> (\<forall>x y. x \<le> y \<longrightarrow> fl x \<le> fl y))"

definition bucket_ok :: "bucket \<Rightarrow> bool" where
  "bucket_ok b = (0 \<le> bk_rate b \<and> 0 \<le> bk_tokens b \<and> bk_tokens b \<le> bk_burst b)"

section \<open>Lemmas\<close>

lemma roundsD:
  assumes "rounds fl u" and "0 \<le> x"
  shows "0 \<le> fl x" and "fl x \<le> x * (1 + u)" and "fl x \<le> x + u * x" and "0 \<le> u"
  using assms by (auto simp: rounds_def algebra_simps)

lemma split_seconds:
  assumes "0 \<le> d"
  shows "real_of_int (d div second) + real_of_int (d mod second) / 1000000000 = real_of_int d / 1000000000"
    and "0 \<le> d div second" and "0 \<le> d mod second"
proof -
  have "d = second * (d div second) + d mod second" by simp
  then have "real_of_int d = real_of_int second * real_of_int (d div second) + real_of_int (d mod second)"
    by (metis of_int_add of_int_mult)
  then show "real_of_int (d div second) + real_of_int (d mod second) / 1000000000 = real_of_int d / 1000000000"
    by (simp add: second_def field_simps)
  show "0 \<le> d div second" "0 \<le> d mod second" using assms by (simp_all add: second_def pos_imp_zdiv_nonneg_iff)
qed

lemma scaled_sum:
  fixes q r u f :: real
  assumes "0 \<le> q" and "0 \<le> u" and "f \<le> r * (1 + u)"
  shows "q + f \<le> (q + r) * (1 + u)"
proof -
  have "0 \<le> q * u" using assms(1,2) by simp
  with assms(3) show ?thesis by (simp add: algebra_simps)
qed

lemma seconds_bounds:
  assumes "rounds fl u" and "0 \<le> d"
  shows "0 \<le> seconds fl d" and "seconds fl d \<le> real_of_int d / 1000000000 * (1 + u) ^ 2"
proof -
  let ?q = "real_of_int (d div second)" and ?r = "real_of_int (d mod second) / 1000000000"
  note s = split_seconds [OF assms(2)]
  have q: "0 \<le> ?q" "0 \<le> ?r" using s(2,3) by simp_all
  note r = roundsD [OF assms(1) q(2)]
  have n: "0 \<le> ?q + fl ?r" using q r(1) by simp
  note t = roundsD [OF assms(1) n]
  show "0 \<le> seconds fl d" using t(1) by (simp add: seconds_def)
  have "?q + fl ?r \<le> (?q + ?r) * (1 + u)" by (rule scaled_sum [OF q(1) r(4,2)])
  then have "(?q + fl ?r) * (1 + u) \<le> (?q + ?r) * (1 + u) * (1 + u)"
    by (rule mult_right_mono) (use r(4) in simp)
  with t(2) have "fl (?q + fl ?r) \<le> (?q + ?r) * (1 + u) ^ 2" by (simp add: power2_eq_square algebra_simps)
  then show "seconds fl d \<le> real_of_int d / 1000000000 * (1 + u) ^ 2" using s(1) by (simp add: seconds_def)
qed

text \<open>Time that passed; a clock that went back counts nothing.\<close>

definition elapsed :: "time \<Rightarrow> time \<Rightarrow> real" where
  "elapsed a b = real_of_int (max 0 (b - a)) / 1000000000"

lemma refill_bounds:
  assumes "rounds fl u" and "bucket_ok b"
  shows "0 \<le> refill fl b now" and "refill fl b now \<le> bk_burst b"
    and "refill fl b now \<le> bk_tokens b + elapsed (bk_last b) now * bk_rate b * (1 + u) ^ 3 + u * bk_burst b"
proof -
  have b: "0 \<le> bk_rate b" "0 \<le> bk_tokens b" "bk_tokens b \<le> bk_burst b" using assms(2) by (simp_all add: bucket_ok_def)
  have u: "0 \<le> u" using assms(1) by (simp add: rounds_def)
  let ?d = "now - bk_last b" and ?e = "elapsed (bk_last b) now"
  let ?el = "seconds fl ?d"
  have e: "0 \<le> ?e" by (simp add: elapsed_def)
  have kB: "0 \<le> u * bk_burst b" using u b by simp
  have "0 \<le> refill fl b now \<and> refill fl b now \<le> bk_burst b \<and>
    refill fl b now \<le> bk_tokens b + ?e * bk_rate b * (1 + u) ^ 3 + u * bk_burst b"
  proof (cases "?d > 0 \<and> ?el > 0")
    case False
    moreover have "0 \<le> ?e * bk_rate b * (1 + u) ^ 3" using e b(1) u by simp
    ultimately show ?thesis using b kB by (auto simp: refill_def Let_def)
  next
    case True
    have s: "0 \<le> ?el" "?el \<le> ?e * (1 + u) ^ 2"
      using seconds_bounds [OF assms(1), of ?d] True by (simp_all add: elapsed_def)
    have er: "0 \<le> ?el * bk_rate b" using s b by simp
    note f = roundsD [OF assms(1) er]
    have "?el * bk_rate b \<le> ?e * (1 + u) ^ 2 * bk_rate b" using s(2) b(1) by (rule mult_right_mono)
    then have "?el * bk_rate b * (1 + u) \<le> ?e * (1 + u) ^ 2 * bk_rate b * (1 + u)"
      by (rule mult_right_mono) (use u in simp)
    with f(2) have credit: "fl (?el * bk_rate b) \<le> ?e * bk_rate b * (1 + u) ^ 3"
      by (simp add: power2_eq_square power3_eq_cube algebra_simps)
    let ?x = "bk_tokens b + fl (?el * bk_rate b)"
    have x: "0 \<le> ?x" using b f(1) by simp
    note g = roundsD [OF assms(1) x]
    have "min (bk_burst b) (fl ?x) \<le> ?x + u * bk_burst b"
    proof (cases "?x \<le> bk_burst b")
      case True
      then have "u * ?x \<le> u * bk_burst b" using u by (rule mult_left_mono)
      with g(3) show ?thesis by simp
    next
      case False
      with kB show ?thesis by simp
    qed
    with True credit g(1) b show ?thesis by (simp add: refill_def Let_def)
  qed
  then show "0 \<le> refill fl b now" and "refill fl b now \<le> bk_burst b"
    and "refill fl b now \<le> bk_tokens b + ?e * bk_rate b * (1 + u) ^ 3 + u * bk_burst b" by simp_all
qed

lemma take_bounds:
  assumes "rounds fl u" and "bucket_ok b" and "take_token fl b now = (b', ok, wait)"
    and exact: "fl (bk_burst b) = bk_burst b"
  shows "bucket_ok b'" and "bk_burst b' = bk_burst b" and "bk_rate b' = bk_rate b" and "bk_last b' = now"
    and "bk_tokens b' + of_bool ok
      \<le> bk_tokens b + elapsed (bk_last b) now * bk_rate b * (1 + u) ^ 3 + 2 * u * bk_burst b"
proof -
  note r = refill_bounds [OF assms(1,2), of now]
  have u: "0 \<le> u" and mono: "\<And>x y. x \<le> y \<Longrightarrow> fl x \<le> fl y" using assms(1) by (auto simp: rounds_def)
  let ?t = "refill fl b now"
  have kB: "0 \<le> u * bk_burst b" using u r(1,2) by simp
  have down: "fl (?t - 1) \<le> ?t - 1 + u * bk_burst b" "fl (?t - 1) \<le> bk_burst b" "0 \<le> fl (?t - 1)" if "1 \<le> ?t"
  proof -
    have t: "0 \<le> ?t - 1" using that by simp
    note f = roundsD [OF assms(1) t]
    have "u * (?t - 1) \<le> u * bk_burst b" using r(2) u by (intro mult_left_mono) simp_all
    with f(1,3) show "fl (?t - 1) \<le> ?t - 1 + u * bk_burst b" "0 \<le> fl (?t - 1)" by simp_all
    show "fl (?t - 1) \<le> bk_burst b" using mono [of "?t - 1" "bk_burst b"] r(2) exact by simp
  qed
  have b': "b' = b\<lparr>bk_tokens := (if 1 \<le> ?t then fl (?t - 1) else ?t), bk_last := now\<rparr>" "ok = (1 \<le> ?t)"
    using assms(3) by (auto simp: take_token_def Let_def split: if_splits)
  show "bk_burst b' = bk_burst b" "bk_rate b' = bk_rate b" "bk_last b' = now" using b' by simp_all
  show "bucket_ok b'" using b' down r(1,2) assms(2) by (simp add: bucket_ok_def)
  show "bk_tokens b' + of_bool ok
      \<le> bk_tokens b + elapsed (bk_last b) now * bk_rate b * (1 + u) ^ 3 + 2 * u * bk_burst b"
  proof (cases "1 \<le> ?t")
    case True
    with b' have "bk_tokens b' + of_bool ok = fl (?t - 1) + 1" by simp
    with down(1) [OF True] r(3) show ?thesis by (simp add: algebra_simps)
  next
    case False
    with b' have "bk_tokens b' + of_bool ok = ?t" by simp
    with r(3) kB show ?thesis by (simp add: algebra_simps)
  qed
qed

text \<open>A run of takes at the given times, and how many got a token.\<close>

fun takes :: "(real \<Rightarrow> real) \<Rightarrow> bucket \<Rightarrow> time list \<Rightarrow> bucket \<times> nat" where
  "takes fl b [] = (b, 0)"
| "takes fl b (t # ts) =
     (let (b, ok, _) = take_token fl b t; (b, n) = takes fl b ts in (b, if ok then n + 1 else n))"

fun elapsed_over :: "time \<Rightarrow> time list \<Rightarrow> real" where
  "elapsed_over t0 [] = 0"
| "elapsed_over t0 (t # ts) = elapsed t0 t + elapsed_over t ts"

lemma takes_bound:
  assumes "rounds fl u" and "bucket_ok b" and "fl (bk_burst b) = bk_burst b" and "takes fl b ts = (b', n)"
  shows "bucket_ok b' \<and> bk_tokens b' + real n \<le> bk_tokens b
    + elapsed_over (bk_last b) ts * bk_rate b * (1 + u) ^ 3 + 2 * u * bk_burst b * real (length ts)"
  using assms(2-4)
proof (induction ts arbitrary: b b' n)
  case (Cons t ts)
  obtain b1 ok w where k: "take_token fl b t = (b1, ok, w)" by (cases "take_token fl b t")
  obtain b2 m where r: "takes fl b1 ts = (b2, m)" by fastforce
  note t = take_bounds [OF assms(1) Cons.prems(1) k Cons.prems(2)]
  have "bucket_ok b2 \<and> bk_tokens b2 + real m \<le> bk_tokens b1 + elapsed_over t ts * bk_rate b * (1 + u) ^ 3
      + 2 * u * bk_burst b * real (length ts)"
    using Cons.IH [OF t(1) _ r] t(2-4) Cons.prems(2) by simp
  moreover have "b' = b2" "n = (if ok then m + 1 else m)" using Cons.prems(3) k r by simp_all
  ultimately show ?case using t(5) by (simp add: algebra_simps split: if_splits)
qed simp

section \<open>Properties\<close>

text \<open>
  C38. The bucket's promise, whatever times it is asked at and with every operation rounded: of any run
  of calls, at most the burst plus the rate times the time that passed get a token, up to the rounding
  errors (in all at most \<open>2 u\<close> of the burst per call, and a factor \<open>(1 + u)\<^sup>3\<close> on the rate).
\<close>

theorem bucket_bounds_calls:
  assumes "rounds fl u" and "fl (real_of_int burst) = real_of_int burst" and "0 \<le> burst" and "0 \<le> rate"
    and "takes fl (new_bucket rate burst t0) ts = (b', n)"
  shows "real n \<le> real_of_int burst * (1 + 2 * u * real (length ts)) + rate * elapsed_over t0 ts * (1 + u) ^ 3"
proof -
  have "bucket_ok (new_bucket rate burst t0)" using assms(3,4) by (simp add: bucket_ok_def new_bucket_def)
  from takes_bound [OF assms(1) this _ assms(5)] assms(2)
  have "bk_tokens b' + real n \<le> real_of_int burst + elapsed_over t0 ts * rate * (1 + u) ^ 3
      + 2 * u * real_of_int burst * real (length ts)" and "bucket_ok b'"
    by (simp_all add: new_bucket_def)
  then show ?thesis by (simp add: bucket_ok_def algebra_simps)
qed

theorem bucket_bounds_calls_witness:
  "snd (takes (\<lambda>x. x) (new_bucket 2 1 0) [0, 0, second]) = 2 \<and> real 2 \<le> 1 + 2 * elapsed_over 0 [0, 0, second]"
proof -
  have t: "takes (\<lambda>x. x) (new_bucket 2 1 0) [0, 0, second] = (\<lparr>bk_rate = 2, bk_burst = 1, bk_tokens = 0, bk_last = second\<rparr>, 2)"
    by (simp add: take_token_def refill_def new_bucket_def seconds_def second_def Let_def)
  have "rounds (\<lambda>x :: real. x) 0" by (simp add: rounds_def)
  from bucket_bounds_calls [OF this _ _ _ t] t show ?thesis by simp
qed

end
