(* ===== verification/Mcp.thy ===== *)
theory Mcp
  imports Tools RateLimit "HOL-Library.Multiset"
begin

text \<open>
  \<open>internal/mcp/server.go\<close>: one MCP session over one input and output. The read loop takes one line
  at a time (\<open>handle\<close>): it answers it, ignores it, or starts a tool call, which runs in a goroutine of
  its own and is answered when it ends. The output is a list of events, in the order they happen.

  A line is the JSON value of its text with \<open>raw\<close>, the text of each value in it; the texts of its
  id are compared without their insignificant spaces, as the code does. One line is one atomic step:
  only the read loop adds calls, takes tokens and slots.
\<close>

section \<open>Messages\<close>

definition ProtocolVersions :: "string list" where
  "ProtocolVersions = [''2025-11-25'', ''2025-06-18'', ''2025-03-26'', ''2024-11-05'']"

definition codeParse :: int where "codeParse = -32700"
definition codeInvalidRequest :: int where "codeInvalidRequest = -32600"
definition codeMethodNotFound :: int where "codeMethodNotFound = -32601"
definition codeInvalidParams :: int where "codeInvalidParams = -32602"

definition MaxInFlight :: nat where "MaxInFlight = 64"
definition MaxIDLength :: nat where "MaxIDLength = 256"

record rpc_message =
  mg_jsonrpc :: string
  mg_id :: "json option"
  mg_method :: string
  mg_params :: "json option"
  mg_result :: "json option"
  mg_error :: "json option"

definition decode_message :: "json option \<Rightarrow> rpc_message option" where
  "decode_message b = (case struct_members b of None \<Rightarrow> None
     | Some ms \<Rightarrow>
        (let (v, k1) = dec_field ''jsonrpc'' dec_string ms []; (i, _) = dec_field ''id'' dec_raw ms None;
             (m, k2) = dec_field ''method'' dec_string ms []; (p, _) = dec_field ''params'' dec_raw ms None;
             (r, _) = dec_field ''result'' dec_raw ms None; (e, _) = dec_field ''error'' dec_raw ms None in
         if k1 \<and> k2 then Some \<lparr>mg_jsonrpc = v, mg_id = i, mg_method = m, mg_params = p, mg_result = r, mg_error = e\<rparr>
         else None))"

text \<open>\<open>validID\<close> on the id's text; a value's text that begins so is that string or number.\<close>

definition valid_id :: "string \<Rightarrow> bool" where
  "valid_id r = (r \<noteq> [] \<and> length r \<le> MaxIDLength \<and>
     (hd r = CHR 0x22 \<or> hd r = CHR ''-'' \<or> 48 \<le> byte (hd r) \<and> byte (hd r) \<le> 57))"

definition is_null :: "json option \<Rightarrow> bool" where
  "is_null j = (j = None \<or> j = Some JNull)"

definition id_text :: "(json \<Rightarrow> string) \<Rightarrow> json \<Rightarrow> string" where
  "id_text raw j = append_compact [] (raw j)"

section \<open>Answers and events\<close>

datatype rpc_reply = MError int string | MPong | MInit string | MTools | MTool tool_out

text \<open>
  \<open>EvReceived\<close>: a message with an id that is to be answered. \<open>EvReply\<close>: a message written, with its
  id (\<open>None\<close> for null). \<open>EvCancel\<close>: a notification that names a call in progress. \<open>EvOver\<close>: the session's
  context ended. \<open>EvDropped\<close>: a call that ended with no answer.
\<close>

datatype session_event =
    EvReceived string
  | EvReply "string option" rpc_reply
  | EvCancel string
  | EvOver
  | EvDropped string

section \<open>The server\<close>

text \<open>
  A tool call's goroutine: the tool runs; its result is about to be written; or it is past its answer
  (written, or dropped).
\<close>

datatype call_phase = Running | Answering tool_out | Ended

record mcall =
  cl_tool :: tool
  cl_args :: json
  cl_cancelled :: bool
  cl_phase :: call_phase

text \<open>
  \<open>mp_ending\<close> are the goroutines that have left \<open>calls\<close> and still hold their slot; \<open>mp_over\<close> is the
  session's context, \<open>mp_left\<close> that the read loop has ended, \<open>mp_stopped\<close> that \<open>Serve\<close> has returned.
\<close>

record mcp =
  mp_init :: bool
  mp_calls :: "(string \<times> mcall) list"
  mp_slots :: nat
  mp_ending :: nat
  mp_bucket :: bucket
  mp_over :: bool
  mp_left :: bool
  mp_stopped :: bool

record mopts =
  mo_env :: env
  mo_fl :: "real \<Rightarrow> real"
  mo_version :: string

definition new_server :: "real \<Rightarrow> int \<Rightarrow> time \<Rightarrow> mcp" where
  "new_server rate burst now =
    \<lparr>mp_init = False, mp_calls = [], mp_slots = 0, mp_ending = 0,
     mp_bucket = new_bucket (if rate \<le> 0 then DefaultRate else rate) (if burst \<le> 0 then DefaultBurst else burst) now,
     mp_over = False, mp_left = False, mp_stopped = False\<rparr>"

text \<open>\<open>write\<close>: nothing once \<open>Serve\<close> has returned.\<close>

definition write_msg :: "mcp \<Rightarrow> string option \<Rightarrow> rpc_reply \<Rightarrow> session_event list" where
  "write_msg s i r = (if mp_stopped s then [] else [EvReply i r])"

definition find_tool :: "string \<Rightarrow> tool option" where
  "find_tool n = List.find (\<lambda>t. tool_name t = n) all_tools"

definition initialize :: "mcp \<Rightarrow> string \<Rightarrow> json option \<Rightarrow> mcp \<times> session_event list" where
  "initialize s i params =
    (let bad = (s, write_msg s (Some i) (MError codeInvalidParams ''initialize needs protocolVersion'')) in
     case struct_members params of None \<Rightarrow> bad
     | Some ms \<Rightarrow>
       (let (p, ok) = dec_field ''protocolVersion'' (dec_ptr [] dec_string) ms None in
        if \<not> ok then bad
        else (case p of None \<Rightarrow> bad
          | Some v \<Rightarrow>
            if mp_init s then (s\<lparr>mp_init := True\<rparr>,
              write_msg s (Some i) (MError codeInvalidRequest ''the session is already initialized''))
            else (s\<lparr>mp_init := True\<rparr>, write_msg s (Some i)
              (MInit (if v \<in> set ProtocolVersions then v else hd ProtocolVersions))))))"

fun is_object_value :: "json \<Rightarrow> bool" where
  "is_object_value (JObj _) = True"
| "is_object_value _ = False"

definition call_args :: "json option \<Rightarrow> json" where
  "call_args a = (if is_null a then JObj [] else the a)"

text \<open>The goroutine of a call, as it starts.\<close>

definition new_call :: "tool \<Rightarrow> json \<Rightarrow> mcall" where
  "new_call t args = \<lparr>cl_tool = t, cl_args = args, cl_cancelled = False, cl_phase = Running\<rparr>"

text \<open>\<open>call\<close> past its checks: the rate limit and the bound on calls in flight.\<close>

definition admit :: "mopts \<Rightarrow> time \<Rightarrow> time \<Rightarrow> mcp \<Rightarrow> string \<Rightarrow> tool \<Rightarrow> json \<Rightarrow> mcp \<times> session_event list" where
  "admit M now now' s i t args =
    (let (b, ok, wait) = take_token (mo_fl M) (mp_bucket s) now; s = s\<lparr>mp_bucket := b\<rparr> in
     if \<not> ok then (s, write_msg s (Some i) (MTool (rate_limited (mo_env M) now' wait)))
     else if mp_slots s < MaxInFlight
     then (s\<lparr>mp_calls := (i, new_call t args) # mp_calls s, mp_slots := mp_slots s + 1\<rparr>, [])
     else (s, write_msg s (Some i) (MTool (too_many_in_flight (mo_env M)))))"

definition mcp_call :: "mopts \<Rightarrow> time \<Rightarrow> time \<Rightarrow> mcp \<Rightarrow> string \<Rightarrow> json option \<Rightarrow> mcp \<times> session_event list" where
  "mcp_call M now now' s i params =
    (let refuse = (\<lambda>c msg. (s, write_msg s (Some i) (MError c msg))) in
     case struct_members params of None \<Rightarrow> refuse codeInvalidParams ''tools/call needs a tool name''
     | Some ms \<Rightarrow>
       (let (n, ok) = dec_field ''name'' dec_string ms []; (a, _) = dec_field ''arguments'' dec_raw ms None in
        if \<not> ok \<or> n = [] then refuse codeInvalidParams ''tools/call needs a tool name''
        else (case find_tool n of None \<Rightarrow> refuse codeInvalidParams ''unknown tool''
          | Some t \<Rightarrow>
            if \<not> is_object_value (call_args a)
            then refuse codeInvalidParams ''the arguments must be an object''
            else if map_of (mp_calls s) i \<noteq> None
            then refuse codeInvalidRequest ''a request with this id is in progress''
            else admit M now now' s i t (call_args a))))"

definition mcp_request :: "mopts \<Rightarrow> time \<Rightarrow> time \<Rightarrow> mcp \<Rightarrow> string \<Rightarrow> string \<Rightarrow> json option \<Rightarrow> mcp \<times> session_event list" where
  "mcp_request M now now' s i meth params =
    (if meth = ''initialize'' then initialize s i params
     else if meth = ''ping'' then (s, write_msg s (Some i) MPong)
     else if \<not> mp_init s then (s, write_msg s (Some i)
       (MError codeInvalidRequest ''the session is not initialized: send initialize first''))
     else if meth = ''tools/list'' then (s, write_msg s (Some i) MTools)
     else if meth = ''tools/call'' then mcp_call M now now' s i params
     else (s, write_msg s (Some i) (MError codeMethodNotFound ''method not found'')))"

definition change_call :: "string \<Rightarrow> (mcall \<Rightarrow> mcall) \<Rightarrow> (string \<times> mcall) list \<Rightarrow> (string \<times> mcall) list" where
  "change_call k f cs = map (\<lambda>(k', c). (k', if k' = k then f c else c)) cs"

definition cancel_call :: "mcp \<Rightarrow> string \<Rightarrow> mcp" where
  "cancel_call s k = s\<lparr>mp_calls := change_call k (cl_cancelled_update (\<lambda>_. True)) (mp_calls s)\<rparr>"

definition notification :: "(json \<Rightarrow> string) \<Rightarrow> mcp \<Rightarrow> string \<Rightarrow> json option \<Rightarrow> mcp \<times> session_event list" where
  "notification raw s meth params =
    (if meth \<noteq> ''notifications/cancelled'' then (s, [])
     else (case struct_members params of None \<Rightarrow> (s, [])
       | Some ms \<Rightarrow> (case fst (dec_field ''requestId'' dec_raw ms None) of None \<Rightarrow> (s, [])
         | Some j \<Rightarrow>
           if \<not> valid_id (raw j) then (s, [])
           else if map_of (mp_calls s) (id_text raw j) \<noteq> None
           then (cancel_call s (id_text raw j), [EvCancel (id_text raw j)]) else (s, []))))"

definition received :: "string option \<Rightarrow> session_event list" where
  "received i = (case i of None \<Rightarrow> [] | Some i \<Rightarrow> [EvReceived i])"

definition handle :: "mopts \<Rightarrow> (json \<Rightarrow> string) \<Rightarrow> time \<Rightarrow> time \<Rightarrow> mcp \<Rightarrow> json option \<Rightarrow> mcp \<times> session_event list" where
  "handle M raw now now' s b = (case decode_message b of
       None \<Rightarrow> (s, write_msg s None (MError codeParse ''parse error''))
     | Some m \<Rightarrow>
       if \<not> is_null (mg_id m) \<and> \<not> valid_id (raw (the (mg_id m)))
       then (s, write_msg s None
         (MError codeInvalidRequest ''the id must be a string or a number of at most 256 bytes''))
       else
         (let i = (if is_null (mg_id m) then None else Some (id_text raw (the (mg_id m)))) in
          if mg_jsonrpc m \<noteq> ''2.0''
          then (s, received i @ write_msg s i (MError codeInvalidRequest ''jsonrpc must be \"2.0\"''))
          else if mg_method m \<noteq> []
          then (case i of
              Some i \<Rightarrow> (let (s, es) = mcp_request M now now' s i (mg_method m) (mg_params m) in (s, EvReceived i # es))
            | None \<Rightarrow> notification raw s (mg_method m) (mg_params m))
          else if i \<noteq> None \<and> (mg_result m \<noteq> None \<or> mg_error m \<noteq> None) then (s, [])
          else (s, received i @ write_msg s i (MError codeInvalidRequest ''invalid request''))))"

text \<open>A line read: too long, one that begins with a bracket (a batch), or another, with its JSON value.\<close>

datatype line = LTooLong | LBatch | LText "json \<Rightarrow> string" "json option"

fun on_line :: "mopts \<Rightarrow> time \<Rightarrow> time \<Rightarrow> mcp \<Rightarrow> line \<Rightarrow> mcp \<times> session_event list" where
  "on_line M now now' s LTooLong = (s, write_msg s None (MError codeInvalidRequest ''message too long''))"
| "on_line M now now' s LBatch = (s, write_msg s None (MError codeInvalidRequest ''batches are not supported''))"
| "on_line M now now' s (LText raw b) = handle M raw now now' s b"

section \<open>The session's steps\<close>

text \<open>
  \<open>tool_end\<close>: the tool's run ended with what the requests' client (or the connection's description)
  gave it; the goroutine then looks at its context, and writes no answer once that has ended.
\<close>

datatype mlabel =
    LLine time time line
  | LToolEnd string "json \<Rightarrow> string" time "(rerror + outcome) option" "info option" bool
  | LWrite string
  | LForget string
  | LRelease
  | LOver
  | LLeave
  | LStopped

definition set_phase :: "mcp \<Rightarrow> string \<Rightarrow> call_phase \<Rightarrow> mcp" where
  "set_phase s k p = s\<lparr>mp_calls := change_call k (cl_phase_update (\<lambda>_. p)) (mp_calls s)\<rparr>"

definition tool_end :: "mopts \<Rightarrow> mcp \<Rightarrow> string \<Rightarrow> mcall \<Rightarrow> tool_out \<Rightarrow> mcp \<times> session_event list" where
  "tool_end M s k c out =
    (if cl_cancelled c \<or> mp_over s then (set_phase s k Ended, [EvDropped k])
     else (set_phase s k (Answering out), []))"

definition forget_call :: "mcp \<Rightarrow> string \<Rightarrow> mcp" where
  "forget_call s k = s\<lparr>mp_calls := filter (\<lambda>(k', c). k' \<noteq> k) (mp_calls s), mp_ending := mp_ending s + 1\<rparr>"

definition release_slot :: "mcp \<Rightarrow> mcp" where
  "release_slot s = s\<lparr>mp_ending := mp_ending s - 1, mp_slots := mp_slots s - 1\<rparr>"

fun mperform :: "mopts \<Rightarrow> mcp \<Rightarrow> mlabel \<Rightarrow> (mcp \<times> session_event list) option" where
  "mperform M s (LLine now now' l) = (if mp_left s then None else Some (on_line M now now' s l))"
| "mperform M s (LToolEnd k raw now ans conn_info waiting) = (case map_of (mp_calls s) k of
     Some c \<Rightarrow> (if cl_phase c = Running
       then Some (tool_end M s k c (tool_run (mo_env M) raw now (\<lambda>_. ans) conn_info waiting (cl_tool c) (cl_args c)))
       else None)
   | None \<Rightarrow> None)"
| "mperform M s (LWrite k) = (case map_of (mp_calls s) k of
     Some c \<Rightarrow> (case cl_phase c of Answering out \<Rightarrow> Some (set_phase s k Ended, write_msg s (Some k) (MTool out)) | _ \<Rightarrow> None)
   | None \<Rightarrow> None)"
| "mperform M s (LForget k) = (case map_of (mp_calls s) k of
     Some c \<Rightarrow> (if cl_phase c = Ended then Some (forget_call s k, []) else None) | None \<Rightarrow> None)"
| "mperform M s LRelease = (if 0 < mp_ending s then Some (release_slot s, []) else None)"
| "mperform M s LOver = (if mp_over s then None else Some (s\<lparr>mp_over := True\<rparr>, [EvOver]))"
| "mperform M s LLeave = (if mp_left s then None
     else Some (s\<lparr>mp_over := True, mp_left := True\<rparr>, if mp_over s then [] else [EvOver]))"
| "mperform M s LStopped = (if mp_left s \<and> \<not> mp_stopped s \<and> mp_calls s = [] \<and> mp_ending s = 0
     then Some (s\<lparr>mp_stopped := True\<rparr>, []) else None)"

record mworld =
  mw_server :: mcp
  mw_events :: "session_event list"

fun wperform :: "mopts \<Rightarrow> mworld \<Rightarrow> mlabel \<Rightarrow> mworld option" where
  "wperform M w l = (case mperform M (mw_server w) l of None \<Rightarrow> None
     | Some (s, es) \<Rightarrow> Some \<lparr>mw_server = s, mw_events = mw_events w @ es\<rparr>)"

definition mstep :: "mopts \<Rightarrow> mworld \<Rightarrow> mlabel \<Rightarrow> mworld \<Rightarrow> bool" where
  "mstep M w l w' = (wperform M w l = Some w')"

interpretation mcp_run: executable_system "mstep M" "wperform M" for M
  by unfold_locales (simp add: mstep_def)

section \<open>What a session promises\<close>

text \<open>
  The abstract session: what a client of JSON-RPC and MCP may rely on. \<open>ss_open\<close> are the requests
  received and not answered yet (an id may be used again while its call runs: the second is refused),
  \<open>ss_cancelled\<close> those of them the client cancelled. A tool is listed or called only in an initialized
  session, initialized once; every answer answers an open request; one is dropped only when it was
  cancelled or the session ended.
\<close>

record session_spec =
  ss_init :: bool
  ss_open :: "string multiset"
  ss_cancelled :: "string set"
  ss_over :: bool

definition close_request :: "session_spec \<Rightarrow> string \<Rightarrow> session_spec" where
  "close_request S k = (let m = ss_open S - {#k#} in
     S\<lparr>ss_open := m, ss_cancelled := (if k \<in># m then ss_cancelled S else ss_cancelled S - {k})\<rparr>)"

fun spec_event :: "session_spec \<Rightarrow> session_event \<Rightarrow> session_spec option" where
  "spec_event S (EvReceived k) = Some (S\<lparr>ss_open := add_mset k (ss_open S)\<rparr>)"
| "spec_event S (EvReply None r) = (case r of MError _ _ \<Rightarrow> Some S | _ \<Rightarrow> None)"
| "spec_event S (EvReply (Some k) r) =
    (if k \<notin># ss_open S then None
     else (case r of
         MInit v \<Rightarrow> (if ss_init S \<or> v \<notin> set ProtocolVersions then None else Some ((close_request S k)\<lparr>ss_init := True\<rparr>))
       | MTools \<Rightarrow> (if ss_init S then Some (close_request S k) else None)
       | MTool _ \<Rightarrow> (if ss_init S then Some (close_request S k) else None)
       | _ \<Rightarrow> Some (close_request S k)))"
| "spec_event S (EvCancel k) = Some (if k \<in># ss_open S then S\<lparr>ss_cancelled := insert k (ss_cancelled S)\<rparr> else S)"
| "spec_event S EvOver = Some (S\<lparr>ss_over := True\<rparr>)"
| "spec_event S (EvDropped k) = (if k \<in># ss_open S \<and> (k \<in> ss_cancelled S \<or> ss_over S)
     then Some (close_request S k) else None)"

text \<open>The session a server's state is in: the open requests are the calls not past their answer.\<close>

definition open_call :: "mcall \<Rightarrow> bool" where
  "open_call c = (cl_phase c \<noteq> Ended)"

definition cancelled_ids :: "(string \<times> mcall) list \<Rightarrow> string set" where
  "cancelled_ids cs = {k. \<exists>c. (k, c) \<in> set cs \<and> open_call c \<and> cl_cancelled c}"

definition abs_session :: "mcp \<Rightarrow> session_spec" where
  "abs_session s = \<lparr>ss_init = mp_init s,
     ss_open = mset (map fst (filter (\<lambda>(k, c). open_call c) (mp_calls s))),
     ss_cancelled = cancelled_ids (mp_calls s),
     ss_over = mp_over s\<rparr>"

section \<open>The server keeps the promise\<close>

definition mcp_ok :: "mcp \<Rightarrow> bool" where
  "mcp_ok s = (distinct (map fst (mp_calls s)) \<and> mp_slots s = length (mp_calls s) + mp_ending s
     \<and> mp_slots s \<le> MaxInFlight \<and> (mp_init s \<or> mp_calls s = [])
     \<and> (mp_stopped s \<longrightarrow> mp_left s \<and> mp_calls s = [] \<and> mp_ending s = 0) \<and> (mp_left s \<longrightarrow> mp_over s))"

definition keeps :: "mcp \<Rightarrow> mcp \<times> session_event list \<Rightarrow> bool" where
  "keeps s r = (exec spec_event (abs_session s) (snd r) = Some (abs_session (fst r)) \<and> mcp_ok (fst r))"

definition answers_request :: "mcp \<Rightarrow> string \<Rightarrow> mcp \<times> session_event list \<Rightarrow> bool" where
  "answers_request s i r = (keeps s (fst r, EvReceived i # snd r))"

lemma abs_simps [simp]:
  "ss_init (abs_session s) = mp_init s" "ss_over (abs_session s) = mp_over s"
  "abs_session (s\<lparr>mp_bucket := b\<rparr>) = abs_session s" "abs_session (s\<lparr>mp_slots := n\<rparr>) = abs_session s"
  "abs_session (s\<lparr>mp_ending := n\<rparr>) = abs_session s" "abs_session (s\<lparr>mp_left := l\<rparr>) = abs_session s"
  "abs_session (s\<lparr>mp_stopped := l\<rparr>) = abs_session s"
  "abs_session (s\<lparr>mp_init := x\<rparr>) = (abs_session s)\<lparr>ss_init := x\<rparr>"
  "abs_session (s\<lparr>mp_over := x\<rparr>) = (abs_session s)\<lparr>ss_over := x\<rparr>"
  by (simp_all add: abs_session_def)

lemma abs_open [simp]: "ss_open (abs_session s) = mset (map fst (filter (\<lambda>(k, c). open_call c) (mp_calls s)))"
  by (simp add: abs_session_def)

lemma cancelled_open: "ss_cancelled (abs_session s) \<subseteq> set_mset (ss_open (abs_session s))"
  by (force simp: abs_session_def cancelled_ids_def)

lemma close_same:
  assumes "ss_cancelled S \<subseteq> set_mset (ss_open S)"
  shows "close_request (S\<lparr>ss_open := add_mset i (ss_open S)\<rparr>) i = S"
proof -
  have "ss_cancelled S - {i} = ss_cancelled S" if "i \<notin># ss_open S" using assms that by auto
  then show ?thesis by (simp add: close_request_def Let_def)
qed

lemma close_abs: "close_request ((abs_session s)\<lparr>ss_open := add_mset i (ss_open (abs_session s))\<rparr>) i = abs_session s"
  by (rule close_same [OF cancelled_open])

text \<open>An answer written at once by the read loop.\<close>

lemma answer_now:
  assumes "mcp_ok s" and "\<not> mp_stopped s"
  shows "answers_request s i (s, write_msg s (Some i) (MError c t))"
    and "answers_request s i (s, write_msg s (Some i) MPong)"
    and "mp_init s \<Longrightarrow> answers_request s i (s, write_msg s (Some i) MTools)"
    and "mp_init s \<Longrightarrow> answers_request s i (s, write_msg s (Some i) (MTool out))"
  using assms close_abs [where s = s and i = i]
  by (simp_all add: answers_request_def keeps_def write_msg_def del: abs_open)

lemma initialize_answers:
  assumes "mcp_ok s" and "\<not> mp_stopped s"
  shows "answers_request s i (initialize s i params)"
proof -
  note now = answer_now [OF assms]
  have first: "answers_request s i (s\<lparr>mp_init := True\<rparr>, write_msg s (Some i) (MInit v))"
    if "\<not> mp_init s" and "v \<in> set ProtocolVersions" for v
    using assms that close_abs [where s = s and i = i]
    by (simp add: answers_request_def keeps_def write_msg_def mcp_ok_def del: abs_open)
  have again: "answers_request s i (s\<lparr>mp_init := True\<rparr>, write_msg s (Some i) (MError c t))" if "mp_init s" for c t
  proof -
    have "s\<lparr>mp_init := True\<rparr> = s" using that by (cases s) simp
    then show ?thesis using now(1) by simp
  qed
  have v: "(if v \<in> set ProtocolVersions then v else hd ProtocolVersions) \<in> set ProtocolVersions" for v
    by (simp add: ProtocolVersions_def)
  show ?thesis
    using now(1) first v again unfolding initialize_def Let_def by (simp split: option.split prod.split)
qed

lemma mcp_ok_frames [simp]: "mcp_ok (s\<lparr>mp_bucket := b\<rparr>) = mcp_ok s"
  by (simp add: mcp_ok_def)

lemma answers_frames: "answers_request (s\<lparr>mp_bucket := b\<rparr>) i r = answers_request s i r"
  by (simp add: answers_request_def keeps_def)

lemma new_call_simps [simp]: "open_call (new_call t a)" "\<not> cl_cancelled (new_call t a)"
  by (simp_all add: open_call_def new_call_def)

lemma admit_answers:
  assumes "mcp_ok s" and "\<not> mp_stopped s" and "mp_init s" and "map_of (mp_calls s) i = None"
  shows "answers_request s i (admit M now now' s i t args)"
proof -
  have start: "answers_request s i (s\<lparr>mp_calls := (i, new_call t args) # mp_calls s, mp_slots := mp_slots s + 1\<rparr>, [])"
    if "mp_slots s < MaxInFlight" "mcp_ok s" "map_of (mp_calls s) i = None" "mp_init s" "\<not> mp_stopped s" for s
    using that
    by (simp add: answers_request_def keeps_def mcp_ok_def map_of_eq_None_iff)
      (auto simp: abs_session_def cancelled_ids_def)
  obtain b ok wait where k: "take_token (mo_fl M) (mp_bucket s) now = (b, ok, wait)"
    by (cases "take_token (mo_fl M) (mp_bucket s) now")
  let ?s = "s\<lparr>mp_bucket := b\<rparr>"
  have s: "mcp_ok ?s" "\<not> mp_stopped ?s" "mp_init ?s" "map_of (mp_calls ?s) i = None" using assms by simp_all
  show ?thesis
    using answer_now(4) [OF s(1-3)] start [OF _ s(1,4,3,2)]
    by (simp add: admit_def k answers_frames Let_def)
qed

lemma call_answers:
  assumes "mcp_ok s" and "\<not> mp_stopped s" and "mp_init s"
  shows "answers_request s i (mcp_call M now now' s i params)"
  using answer_now(1) [OF assms(1,2)] admit_answers [OF assms]
  unfolding mcp_call_def Let_def by (simp split: option.split prod.split)

lemma request_answers:
  assumes "mcp_ok s" and "\<not> mp_stopped s"
  shows "answers_request s i (mcp_request M now now' s i meth params)"
  using answer_now [OF assms] initialize_answers [OF assms] call_answers [OF assms]
  by (simp add: mcp_request_def)

abbreviation open_ids :: "(string \<times> mcall) list \<Rightarrow> string multiset" where
  "open_ids cs \<equiv> mset (map fst (filter (\<lambda>(k, c). open_call c) cs))"

lemma change_keys [simp]: "map fst (change_call k f cs) = map fst cs" "length (change_call k f cs) = length cs"
    "change_call k f cs = [] \<longleftrightarrow> cs = []"
  by (auto simp: change_call_def case_prod_beta o_def)

lemma change_other: "k \<notin> fst ` set cs \<Longrightarrow> change_call k f cs = cs"
  by (induction cs) (auto simp: change_call_def)

lemma change_set: "(k', c') \<in> set (change_call k f cs) \<longleftrightarrow> (\<exists>c. (k', c) \<in> set cs \<and> c' = (if k' = k then f c else c))"
  by (induction cs) (auto simp: change_call_def)

lemma change_Cons [simp]: "change_call k f ((k', c) # cs) = (k', if k' = k then f c else c) # change_call k f cs"
    "change_call k f [] = []"
  by (simp_all add: change_call_def)

lemma open_ids_change:
  assumes "distinct (map fst cs)" and "map_of cs k = Some c"
  shows "open_ids (change_call k f cs) =
    (if open_call c \<and> \<not> open_call (f c) then open_ids cs - {#k#}
     else if \<not> open_call c \<and> open_call (f c) then open_ids cs + {#k#} else open_ids cs)"
  using assms
proof (induction cs)
  case (Cons p cs)
  obtain k' c' where p: "p = (k', c')" by fastforce
  show ?case
  proof (cases "k' = k")
    case True
    with Cons.prems p show ?thesis by (simp add: change_other)
  next
    case False
    with Cons p have "open_call c \<Longrightarrow> k \<in># open_ids cs" by (force dest: map_of_SomeD)
    with Cons False p show ?thesis by auto
  qed
qed simp

lemma open_once: "distinct (map fst cs) \<Longrightarrow> k \<notin># open_ids cs - {#k#}"
proof -
  assume "distinct (map fst cs)"
  then have "distinct (map fst (filter (\<lambda>(k, c). open_call c) cs))" by (rule distinct_map_filter)
  then have "count (open_ids cs) k \<le> 1" by (simp only: distinct_count_atmost_1) (simp only: split: if_split, simp)
  then show ?thesis by (simp only: in_diff_count) simp
qed

lemma open_in:
  assumes "map_of cs k = Some c" and "open_call c"
  shows "k \<in># open_ids cs"
  using map_of_SomeD [OF assms(1)] assms(2) by force

lemma call_unique: "distinct (map fst cs) \<Longrightarrow> map_of cs k = Some c \<Longrightarrow> (k, c') \<in> set cs \<longleftrightarrow> c' = c"
  by (metis map_of_eq_Some_iff option.inject)

lemma open_iff:
  assumes "distinct (map fst cs)" and "map_of cs k = Some c"
  shows "k \<in># open_ids cs \<longleftrightarrow> open_call c"
proof -
  have "k \<in># open_ids cs \<longleftrightarrow> (\<exists>c. (k, c) \<in> set cs \<and> open_call c)" by force
  then show ?thesis using call_unique [OF assms] by simp
qed

lemma cancelled_iff:
  assumes "distinct (map fst cs)" and "map_of cs k = Some c"
  shows "k \<in> cancelled_ids cs \<longleftrightarrow> open_call c \<and> cl_cancelled c"
  unfolding cancelled_ids_def using call_unique [OF assms] by simp

lemma cancelled_change:
  assumes "distinct (map fst cs)" and "map_of cs k = Some c"
  shows "cancelled_ids (change_call k f cs) =
    (if open_call (f c) \<and> cl_cancelled (f c) then insert k (cancelled_ids cs) else cancelled_ids cs - {k})"
proof (intro set_eqI)
  fix k'
  show "k' \<in> cancelled_ids (change_call k f cs) \<longleftrightarrow> k' \<in>
      (if open_call (f c) \<and> cl_cancelled (f c) then insert k (cancelled_ids cs) else cancelled_ids cs - {k})"
  proof (cases "k' = k")
    case True
    with call_unique [OF assms] show ?thesis by (simp add: cancelled_ids_def change_set)
  next
    case False
    then show ?thesis by (auto simp: cancelled_ids_def change_set)
  qed
qed

lemma abs_calls:
  "abs_session (s\<lparr>mp_calls := cs\<rparr>) = (abs_session s)\<lparr>ss_open := open_ids cs, ss_cancelled := cancelled_ids cs\<rparr>"
  by (simp add: abs_session_def)

lemma abs_cancelled [simp]: "ss_cancelled (abs_session s) = cancelled_ids (mp_calls s)"
  by (simp add: abs_session_def)

lemma mcp_ok_change [simp]: "mcp_ok (s\<lparr>mp_calls := change_call k f (mp_calls s)\<rparr>) = mcp_ok s"
  by (simp add: mcp_ok_def)

lemma cancel_keeps:
  assumes "mcp_ok s" and "map_of (mp_calls s) k = Some c"
  shows "keeps s (cancel_call s k, [EvCancel k])"
proof -
  have d: "distinct (map fst (mp_calls s))" using assms(1) by (simp add: mcp_ok_def)
  have o: "open_call (c\<lparr>cl_cancelled := True\<rparr>) = open_call c" for c by (simp add: open_call_def)
  have "\<not> open_call c \<Longrightarrow> k \<notin> cancelled_ids (mp_calls s)" using cancelled_iff [OF d assms(2)] by simp
  then have "abs_session (cancel_call s k) = (if open_call c
      then (abs_session s)\<lparr>ss_cancelled := insert k (cancelled_ids (mp_calls s))\<rparr> else abs_session s)"
    unfolding cancel_call_def abs_calls cancelled_change [OF d assms(2)] open_ids_change [OF d assms(2)]
    by (simp add: o abs_session_def)
  then show ?thesis
    using assms(1) open_iff [OF d assms(2)] by (simp add: keeps_def cancel_call_def del: mset_map mset_filter)
qed

lemma notification_keeps:
  assumes "mcp_ok s"
  shows "keeps s (notification raw s meth params)"
proof -
  have same: "keeps s (s, [])" using assms by (simp add: keeps_def)
  have cancel: "keeps s (cancel_call s k, [EvCancel k])" if "map_of (mp_calls s) k \<noteq> None" for k
    using cancel_keeps [OF assms] that by blast
  show ?thesis
    unfolding notification_def using same cancel by (simp split: option.split)
qed

lemma error_keeps: "mcp_ok s \<Longrightarrow> keeps s (s, write_msg s None (MError c t))"
  by (simp add: keeps_def write_msg_def)

lemma refusal_keeps:
  assumes "mcp_ok s" and "\<not> mp_stopped s"
  shows "keeps s (s, received i @ write_msg s i (MError c t))"
proof (cases i)
  case None
  then show ?thesis using error_keeps [OF assms(1)] by (simp add: received_def)
next
  case (Some k)
  then show ?thesis using answer_now(1) [OF assms] by (simp add: answers_request_def received_def)
qed

lemma handle_keeps:
  assumes "mcp_ok s" and "\<not> mp_stopped s"
  shows "keeps s (handle M raw now now' s b)"
proof -
  note refused = refusal_keeps [OF assms]
  note error = error_keeps [OF assms(1)]
  have request: "keeps s (let (s, es) = mcp_request M now now' s i meth params in (s, EvReceived i # es))" for i meth params
    using request_answers [OF assms] by (simp add: answers_request_def case_prod_beta)
  have same: "keeps s (s, [])" using assms by (simp add: keeps_def)
  show ?thesis
    unfolding handle_def Let_def [where s = "if _ then None else Some _"]
    using refused error same notification_keeps [OF assms(1)] request by (simp split: option.split)
qed

lemma line_keeps:
  assumes "mcp_ok s" and "\<not> mp_left s"
  shows "keeps s (on_line M now now' s l)"
  using assms handle_keeps error_keeps by (cases l) (auto simp: mcp_ok_def)

text \<open>The steps of a call's goroutine.\<close>

lemma tool_end_keeps:
  assumes "mcp_ok s" and "map_of (mp_calls s) k = Some c" and "cl_phase c = Running"
  shows "keeps s (tool_end M s k c out)"
proof -
  have d: "distinct (map fst (mp_calls s))" using assms(1) by (simp add: mcp_ok_def)
  have o: "open_call c" "open_call (c\<lparr>cl_phase := Answering out\<rparr>)" "\<not> open_call (c\<lparr>cl_phase := Ended\<rparr>)"
    using assms(3) by (simp_all add: open_call_def)
  have running: "abs_session (set_phase s k (Answering out)) = abs_session s"
  proof -
    have "(if cl_cancelled c then insert k (cancelled_ids (mp_calls s)) else cancelled_ids (mp_calls s) - {k})
        = cancelled_ids (mp_calls s)"
      using cancelled_iff [OF d assms(2)] o by auto
    then show ?thesis
      unfolding set_phase_def abs_calls cancelled_change [OF d assms(2)] open_ids_change [OF d assms(2)]
      by (simp add: o abs_session_def)
  qed
  have ended: "abs_session (set_phase s k Ended) = close_request (abs_session s) k"
    unfolding set_phase_def abs_calls cancelled_change [OF d assms(2)] open_ids_change [OF d assms(2)]
    using open_once [OF d] by (simp add: o close_request_def Let_def del: mset_map mset_filter)
  have open_now: "k \<in># open_ids (mp_calls s)" using open_iff [OF d assms(2)] o by simp
  have ok: "mcp_ok (set_phase s k p)" for p using assms(1) by (simp add: set_phase_def)
  show ?thesis
    using running ended ok open_now cancelled_iff [OF d assms(2)] o(1)
    by (simp add: tool_end_def keeps_def del: mset_map mset_filter)
qed

lemma write_keeps:
  assumes "mcp_ok s" and "\<not> mp_stopped s" and "map_of (mp_calls s) k = Some c" and "cl_phase c = Answering out"
  shows "keeps s (set_phase s k Ended, write_msg s (Some k) (MTool out))"
proof -
  have d: "distinct (map fst (mp_calls s))" using assms(1) by (simp add: mcp_ok_def)
  have o: "open_call c" "\<not> open_call (c\<lparr>cl_phase := Ended\<rparr>)" using assms(4) by (simp_all add: open_call_def)
  have "abs_session (set_phase s k Ended) = close_request (abs_session s) k"
    unfolding set_phase_def abs_calls cancelled_change [OF d assms(3)] open_ids_change [OF d assms(3)]
    using open_once [OF d] by (simp add: o close_request_def Let_def del: mset_map mset_filter)
  moreover have "k \<in># open_ids (mp_calls s)" using open_iff [OF d assms(3)] o by simp
  moreover have "mp_init s" using assms(1,3) by (auto simp: mcp_ok_def)
  moreover have "mcp_ok (set_phase s k Ended)" using assms(1) by (simp add: set_phase_def)
  ultimately show ?thesis using assms(2) by (simp add: keeps_def write_msg_def del: mset_map mset_filter)
qed

lemma forget_keeps:
  assumes "mcp_ok s" and "map_of (mp_calls s) k = Some c" and "cl_phase c = Ended"
  shows "keeps s (forget_call s k, [])"
proof -
  let ?rest = "filter (\<lambda>(k', c). k' \<noteq> k) (mp_calls s)"
  have d: "distinct (map fst (mp_calls s))" using assms(1) by (simp add: mcp_ok_def)
  have gone: "filter (\<lambda>(k, c). open_call c) ?rest = filter (\<lambda>(k, c). open_call c) (mp_calls s)"
    using call_unique [OF d assms(2)] assms(3) by (auto simp: open_call_def intro!: filter_cong)
  have "cancelled_ids ?rest = cancelled_ids (mp_calls s)"
    using call_unique [OF d assms(2)] assms(3) by (auto simp: cancelled_ids_def open_call_def)
  then have "abs_session (forget_call s k) = abs_session s"
    by (simp add: forget_call_def abs_calls gone abs_session_def del: filter_filter)
  moreover have "Suc (length ?rest) = length (mp_calls s)"
  proof -
    have "length (filter (\<lambda>(k', c). k' = k) cs) = 1" if "distinct (map fst cs)" "map_of cs k = Some c" for cs
      using that
    proof (induction cs)
      case (Cons p cs)
      obtain k' c' where p: "p = (k', c')" by fastforce
      show ?case
      proof (cases "k' = k")
        case True
        then have "filter (\<lambda>(k', c). k' = k) cs = []" using Cons.prems p by (force simp: filter_empty_conv)
        with True p show ?thesis by simp
      qed (use Cons p in simp)
    qed simp
    then show ?thesis
      using sum_length_filter_compl [of "\<lambda>(k', c). k' = k" "mp_calls s"] d assms(2) by (simp add: case_prod_beta')
  qed
  moreover have "distinct (map fst ?rest)" using d by (rule distinct_map_filter)
  moreover have "mp_calls s \<noteq> []" using assms(2) by auto
  ultimately show ?thesis using assms(1) by (auto simp: keeps_def mcp_ok_def forget_call_def)
qed

lemma server_keeps:
  assumes "mperform M s l = Some r" and "mcp_ok s"
  shows "keeps s r"
proof (cases l)
  case (LLine now now' x)
  then show ?thesis using assms line_keeps [OF assms(2)] by (auto split: if_splits)
next
  case (LToolEnd k raw now ans conn_info waiting)
  then show ?thesis using assms tool_end_keeps [OF assms(2)] by (auto split: option.splits if_splits)
next
  case (LWrite k)
  then obtain c out where k: "map_of (mp_calls s) k = Some c" "cl_phase c = Answering out"
    and r: "r = (set_phase s k Ended, write_msg s (Some k) (MTool out))"
    using assms(1) by (auto split: option.splits call_phase.splits)
  have "\<not> mp_stopped s" using assms(2) k(1) by (auto simp: mcp_ok_def)
  then show ?thesis using write_keeps [OF assms(2) _ k] r by simp
next
  case (LForget k)
  then show ?thesis using assms forget_keeps [OF assms(2)] by (auto split: option.splits if_splits)
next
  case LRelease
  then show ?thesis using assms by (auto simp: keeps_def mcp_ok_def release_slot_def split: if_splits)
next
  case LOver
  then show ?thesis using assms by (auto simp: keeps_def mcp_ok_def split: if_splits)
next
  case LLeave
  have "mp_over s \<Longrightarrow> s\<lparr>mp_over := True, mp_left := True\<rparr> = s\<lparr>mp_left := True\<rparr>" by (cases s) simp
  then show ?thesis using LLeave assms by (auto simp: keeps_def mcp_ok_def split: if_splits)
next
  case LStopped
  then show ?thesis using assms by (auto simp: keeps_def mcp_ok_def split: if_splits)
qed

lemma exec_append:
  "exec f s (xs @ ys) = (case exec f s xs of None \<Rightarrow> None | Some t \<Rightarrow> exec f t ys)"
  by (induction xs arbitrary: s) (auto split: option.split)

definition start_session :: session_spec where
  "start_session = \<lparr>ss_init = False, ss_open = {#}, ss_cancelled = {}, ss_over = False\<rparr>"

definition mworld_ok :: "mworld \<Rightarrow> bool" where
  "mworld_ok w = (exec spec_event start_session (mw_events w) = Some (abs_session (mw_server w)) \<and> mcp_ok (mw_server w))"

definition start_mworld :: "real \<Rightarrow> int \<Rightarrow> time \<Rightarrow> mworld" where
  "start_mworld rate burst now = \<lparr>mw_server = new_server rate burst now, mw_events = []\<rparr>"

lemma mworld_ok_step: "mstep M w l w' \<Longrightarrow> mworld_ok w \<Longrightarrow> mworld_ok w'"
  using server_keeps [of M "mw_server w" l]
  by (auto simp: mstep_def mworld_ok_def keeps_def exec_append split: option.splits)

interpretation mcp_inv: invariant_system "mstep M" mworld_ok for M
  by unfold_locales (rule mworld_ok_step)

lemma start_mworld_ok: "mworld_ok (start_mworld rate burst now)"
  by (simp add: mworld_ok_def start_mworld_def new_server_def mcp_ok_def abs_session_def start_session_def
      cancelled_ids_def)

lemmas mcp_reach = mcp_inv.inv_run [OF _ start_mworld_ok]

section \<open>Cancelled calls, and the end of Serve\<close>

lemma map_of_change: "map_of (change_call k f cs) k' = (if k' = k then map_option f (map_of cs k) else map_of cs k')"
  by (induction cs) (auto simp: change_call_def)

text \<open>A line leaves a call in progress as it is, or cancels it, and does not give its result.\<close>

definition undisturbed :: "mcp \<Rightarrow> string \<Rightarrow> mcall \<Rightarrow> mcp \<times> session_event list \<Rightarrow> bool" where
  "undisturbed s k c r = ((map_of (mp_calls (fst r)) k = Some c \<or> map_of (mp_calls (fst r)) k = Some (c\<lparr>cl_cancelled := True\<rparr>))
     \<and> mp_over (fst r) = mp_over s \<and> (\<forall>out. EvReply (Some k) (MTool out) \<notin> set (snd r)))"

lemma undisturbed_same:
  assumes "map_of (mp_calls s) k = Some c" and "\<forall>out. EvReply (Some k) (MTool out) \<notin> set es"
  shows "undisturbed s k c (s, es)"
  using assms by (simp add: undisturbed_def)

lemma undisturbed_write [simp]:
  "EvReply (Some k) (MTool out) \<in> set (write_msg s i r) \<longleftrightarrow> \<not> mp_stopped s \<and> i = Some k \<and> r = MTool out"
  "EvReply (Some k) (MTool out) \<notin> set (received i)"
  by (auto simp: write_msg_def received_def split: option.split)

lemma admit_undisturbed:
  assumes "map_of (mp_calls s) k = Some c" and "map_of (mp_calls s) i = None"
  shows "undisturbed s k c (admit M now now' s i t args)"
proof -
  have "i \<noteq> k" using assms by auto
  with assms show ?thesis
    by (auto simp: admit_def Let_def undisturbed_def split: prod.split)
qed

lemma call_undisturbed:
  assumes "map_of (mp_calls s) k = Some c"
  shows "undisturbed s k c (mcp_call M now now' s i params)"
proof -
  have "undisturbed s k c (s, write_msg s (Some i) (MError x t))" for x t using assms by (simp add: undisturbed_same)
  then show ?thesis
    unfolding mcp_call_def Let_def using admit_undisturbed [OF assms] by (simp split: option.split prod.split)
qed

lemma request_undisturbed:
  assumes "map_of (mp_calls s) k = Some c"
  shows "undisturbed s k c (mcp_request M now now' s i meth params)"
proof -
  have "undisturbed s k c (initialize s i params)"
    unfolding initialize_def Let_def using assms by (auto simp: undisturbed_def split: option.split prod.split)
  then show ?thesis
    using call_undisturbed [OF assms] assms by (simp add: mcp_request_def undisturbed_same)
qed

lemma notification_undisturbed:
  assumes "map_of (mp_calls s) k = Some c"
  shows "undisturbed s k c (notification raw s meth params)"
  unfolding notification_def using assms
  by (auto simp: undisturbed_def cancel_call_def map_of_change split: option.split)

lemma line_undisturbed:
  assumes "map_of (mp_calls s) k = Some c"
  shows "undisturbed s k c (on_line M now now' s l)"
proof (cases l)
  case (LText raw b)
  have error: "undisturbed s k c (s, received i @ write_msg s j (MError x t))" for i j x t
    using assms by (simp add: undisturbed_same)
  note plain = error [where i = None, unfolded received_def, simplified]
  have request: "undisturbed s k c (let (s, es) = mcp_request M now now' s i meth params in (s, EvReceived i # es))" for i meth params
    using request_undisturbed [OF assms] by (simp add: undisturbed_def case_prod_beta)
  have same: "undisturbed s k c (s, [])" using assms by (simp add: undisturbed_same)
  show ?thesis
    unfolding LText on_line.simps handle_def Let_def [where s = "if _ then None else Some _"]
    using error plain same notification_undisturbed [OF assms] request by (simp split: option.split)
qed (use assms in \<open>simp_all add: undisturbed_same\<close>)

text \<open>A call that will not be answered: past its answer, or running with its context ended.\<close>

definition silent :: "mcp \<Rightarrow> string \<Rightarrow> bool" where
  "silent s k = (case map_of (mp_calls s) k of None \<Rightarrow> False
     | Some c \<Rightarrow> cl_phase c = Ended \<or> cl_phase c = Running \<and> (cl_cancelled c \<or> mp_over s))"

lemma silent_step:
  assumes "mperform M s l = Some r" and "silent s k" and "l \<noteq> LForget k"
  shows "silent (fst r) k \<and> (\<forall>out. EvReply (Some k) (MTool out) \<notin> set (snd r))"
proof -
  obtain c where c: "map_of (mp_calls s) k = Some c"
    and q: "cl_phase c = Ended \<or> cl_phase c = Running \<and> (cl_cancelled c \<or> mp_over s)"
    using assms(2) by (auto simp: silent_def split: option.splits)
  show ?thesis
  proof (cases l)
    case (LLine now now' x)
    then have r: "r = on_line M now now' s x" using assms(1) by (simp split: if_splits)
    then show ?thesis
      using line_undisturbed [OF c, of M now now' x] q by (auto simp: r undisturbed_def silent_def)
  next
    case (LToolEnd k' raw now ans conn_info waiting)
    then show ?thesis using assms(1) c q
      by (auto simp: silent_def tool_end_def set_phase_def map_of_change split: option.splits if_splits)
  next
    case (LWrite k')
    then show ?thesis using assms(1) c q
      by (auto simp: silent_def set_phase_def map_of_change split: option.splits if_splits call_phase.splits)
  next
    case (LForget k')
    have "k' \<noteq> k \<Longrightarrow> map_of (filter (\<lambda>(k'', c). k'' \<noteq> k') cs) k = map_of cs k" for cs :: "(string \<times> mcall) list"
      by (induction cs) auto
    with LForget show ?thesis using assms(1,3) c q
      by (auto simp: silent_def forget_call_def split: option.splits if_splits)
  next
    case LRelease
    then show ?thesis using assms(1) c q by (auto simp: silent_def release_slot_def split: if_splits)
  next
    case LOver
    then show ?thesis using assms(1) c q by (auto simp: silent_def split: if_splits)
  next
    case LLeave
    then show ?thesis using assms(1) c q by (auto simp: silent_def split: if_splits)
  next
    case LStopped
    then show ?thesis using assms(1) c q by (auto simp: silent_def split: if_splits)
  qed
qed

lemma silent_run:
  assumes "run (mstep M) w ls w'" and "silent (mw_server w) k" and "LForget k \<notin> set ls"
  shows "\<exists>es. mw_events w' = mw_events w @ es \<and> (\<forall>out. EvReply (Some k) (MTool out) \<notin> set es)"
  using assms
proof (induction rule: run.induct)
  case (run_Cons w l w1 ls w2)
  from run_Cons.hyps(1) obtain r where r: "mperform M (mw_server w) l = Some r"
    and w1: "w1 = \<lparr>mw_server = fst r, mw_events = mw_events w @ snd r\<rparr>"
    by (auto simp: mstep_def split: option.splits)
  have "l \<noteq> LForget k" using run_Cons.prems by auto
  from silent_step [OF r run_Cons.prems(1) this] run_Cons.IH run_Cons.prems(2) w1 show ?case by fastforce
qed simp

text \<open>What is left to do once the read loop has ended: each step but a line takes one.\<close>

fun phase_work :: "call_phase \<Rightarrow> nat" where
  "phase_work Running = 4"
| "phase_work (Answering _) = 3"
| "phase_work Ended = 2"

definition calls_work :: "(string \<times> mcall) list \<Rightarrow> nat" where
  "calls_work cs = sum_list (map (\<lambda>(k, c). phase_work (cl_phase c)) cs)"

definition work_left :: "mcp \<Rightarrow> nat" where
  "work_left s = calls_work (mp_calls s) + mp_ending s + (if mp_over s then 0 else 1) + (if mp_stopped s then 0 else 1)"

lemma calls_work_change:
  assumes "distinct (map fst cs)" and "map_of cs k = Some c"
  shows "calls_work (change_call k f cs) + phase_work (cl_phase c) = calls_work cs + phase_work (cl_phase (f c))"
  using assms
proof (induction cs)
  case (Cons p cs)
  obtain k' c' where p: "p = (k', c')" by fastforce
  show ?case
  proof (cases "k' = k")
    case True
    with Cons.prems p show ?thesis by (simp add: calls_work_def change_other)
  next
    case False
    with Cons p show ?thesis by (simp add: calls_work_def)
  qed
qed simp

lemma calls_work_filter:
  assumes "distinct (map fst cs)" and "map_of cs k = Some c"
  shows "calls_work (filter (\<lambda>(k', c). k' \<noteq> k) cs) + phase_work (cl_phase c) = calls_work cs"
  using assms
proof (induction cs)
  case (Cons p cs)
  obtain k' c' where p: "p = (k', c')" by fastforce
  show ?case
  proof (cases "k' = k")
    case True
    then have "filter (\<lambda>(k', c). k' \<noteq> k) cs = cs" using Cons.prems p by (force simp: filter_id_conv)
    with True Cons.prems p show ?thesis by (simp add: calls_work_def)
  next
    case False
    with Cons p show ?thesis by (simp add: calls_work_def)
  qed
qed simp

lemma calls_work_bound: "calls_work cs \<le> 4 * length cs"
proof -
  have "phase_work p \<le> 4" for p by (cases p) simp_all
  then show ?thesis by (induction cs) (auto simp: calls_work_def add_mono)
qed

definition leaving :: "mworld \<Rightarrow> bool" where
  "leaving w = (mcp_ok (mw_server w) \<and> mp_left (mw_server w))"

lemma work_step:
  assumes "mperform M s l = Some r" and "mcp_ok s" and "mp_left s"
  shows "work_left (fst r) + 1 \<le> work_left s" and "mp_left (fst r)"
proof -
  have d: "distinct (map fst (mp_calls s))" using assms(2) by (simp add: mcp_ok_def)
  have "work_left (fst r) + 1 \<le> work_left s \<and> mp_left (fst r)"
  proof (cases l)
    case (LLine now now' x)
    then show ?thesis using assms by simp
  next
    case (LToolEnd k raw now ans conn_info waiting)
    then obtain c where c: "map_of (mp_calls s) k = Some c" "cl_phase c = Running"
      and r: "r = tool_end M s k c (tool_run (mo_env M) raw now (\<lambda>_. ans) conn_info waiting (cl_tool c) (cl_args c))"
      using assms(1) by (auto split: option.splits if_splits)
    show ?thesis
      using calls_work_change [OF d c(1), of "cl_phase_update (\<lambda>_. Ended)"] c(2) assms(3)
        calls_work_change [OF d c(1), of "cl_phase_update (\<lambda>_. Answering x)" for x]
      by (auto simp: r tool_end_def set_phase_def work_left_def)
  next
    case (LWrite k)
    then obtain c out where k: "map_of (mp_calls s) k = Some c" "cl_phase c = Answering out"
      and r: "r = (set_phase s k Ended, write_msg s (Some k) (MTool out))"
      using assms(1) by (auto split: option.splits call_phase.splits)
    show ?thesis
      using calls_work_change [OF d k(1), of "cl_phase_update (\<lambda>_. Ended)"] k(2) assms(3)
      by (simp add: r set_phase_def work_left_def)
  next
    case (LForget k)
    then obtain c where c: "map_of (mp_calls s) k = Some c" "cl_phase c = Ended" and r: "r = (forget_call s k, [])"
      using assms(1) by (auto split: option.splits if_splits)
    show ?thesis
      using calls_work_filter [OF d c(1)] c(2) assms(3) by (simp add: r forget_call_def work_left_def)
  next
    case LRelease
    then show ?thesis using assms by (auto simp: work_left_def release_slot_def split: if_splits)
  next
    case LOver
    then show ?thesis using assms by (auto simp: work_left_def split: if_splits)
  next
    case LLeave
    then show ?thesis using assms by simp
  next
    case LStopped
    then show ?thesis using assms by (auto simp: work_left_def split: if_splits)
  qed
  then show "work_left (fst r) + 1 \<le> work_left s" and "mp_left (fst r)" by simp_all
qed

interpretation mcp_work: budgeted_system "mstep M" leaving "\<lambda>w. work_left (mw_server w)" "\<lambda>_. 1" for M
proof unfold_locales
  fix w l w'
  assume "mstep M w l w'" and w: "leaving w"
  then obtain r where r: "mperform M (mw_server w) l = Some r" and w': "mw_server w' = fst r"
    by (auto simp: mstep_def split: option.splits)
  note step = work_step [OF r] server_keeps [OF r]
  show "leaving w'" using step w w' by (simp add: leaving_def keeps_def)
  show "work_left (mw_server w') + 1 \<le> work_left (mw_server w)" using step w w' by (simp add: leaving_def)
qed

text \<open>While \<open>Serve\<close> has not returned, something is left that can be done.\<close>

lemma leaving_progress:
  assumes "mcp_ok s" and "mp_left s" and "\<not> mp_stopped s"
  shows "\<exists>l r. mperform M s l = Some r"
proof (cases "mp_calls s")
  case Nil
  show ?thesis
  proof (cases "mp_ending s = 0")
    case True
    with Nil assms have "mperform M s LStopped \<noteq> None" by simp
    then show ?thesis by blast
  next
    case False
    then have "mperform M s LRelease \<noteq> None" by simp
    then show ?thesis by blast
  qed
next
  case (Cons p cs)
  obtain k c where p: "p = (k, c)" by fastforce
  have c: "map_of (mp_calls s) k = Some c" using Cons p by simp
  show ?thesis
  proof (cases "cl_phase c")
    case Running
    with c have "mperform M s (LToolEnd k (\<lambda>_. []) 0 None None False) \<noteq> None" by simp
    then show ?thesis by blast
  next
    case (Answering out)
    with c have "mperform M s (LWrite k) \<noteq> None" by simp
    then show ?thesis by blast
  next
    case Ended
    with c have "mperform M s (LForget k) \<noteq> None" by simp
    then show ?thesis by blast
  qed
qed

section \<open>A concrete session\<close>

definition demo_options :: mopts where
  "demo_options = \<lparr>mo_env = \<lparr>ptime = (\<lambda>_. None), hm = (\<lambda>_. []), ymdhm = (\<lambda>_. []), show_time = (\<lambda>_. [])\<rparr>,
     mo_fl = (\<lambda>x. x), mo_version = ''1''\<rparr>"

definition demo_raw :: "json \<Rightarrow> string" where
  "demo_raw j = (if j = JNum ''1'' then ''1'' else if j = JNum ''2'' then ''2'' else ''{}'')"

definition demo_line :: "(string \<times> json) list \<Rightarrow> mlabel" where
  "demo_line ms = LLine 0 0 (LText demo_raw (Some (JObj ((''jsonrpc'', JStr ''2.0'') # ms))))"

definition demo_hello :: mlabel where
  "demo_hello = demo_line [(''id'', JNum ''1''), (''method'', JStr ''initialize''),
     (''params'', JObj [(''protocolVersion'', JStr ''2025-06-18'')])]"

definition demo_list :: mlabel where
  "demo_list = demo_line [(''id'', JNum ''2''), (''method'', JStr ''tools/call''),
     (''params'', JObj [(''name'', JStr ''leash.list_available'')])]"

definition demo_cancel :: mlabel where
  "demo_cancel = demo_line [(''method'', JStr ''notifications/cancelled''),
     (''params'', JObj [(''requestId'', JNum ''2'')])]"

definition demo_end :: mlabel where
  "demo_end = LToolEnd ''2'' demo_raw 0 None None False"

lemma member_names_plain [simp]:
  "plain_name ''jsonrpc''" "plain_name ''id''" "plain_name ''method''" "plain_name ''params''" "plain_name ''result''"
  "plain_name ''error''" "plain_name ''name''" "plain_name ''arguments''"
  by (simp_all add: plain_name_def byte_def)

lemma decode_plain:
  assumes "\<forall>k\<in>fst ` set ms. plain_name k" and "distinct (map fst ms)"
  shows "decode_message (Some (JObj ms)) =
    (case (case map_of ms ''jsonrpc'' of None \<Rightarrow> ([], True) | Some j \<Rightarrow> dec_string j [],
           case map_of ms ''method'' of None \<Rightarrow> ([], True) | Some j \<Rightarrow> dec_string j []) of
       ((v, k1), (m, k2)) \<Rightarrow> if k1 \<and> k2 then Some \<lparr>mg_jsonrpc = v, mg_id = map_of ms ''id'', mg_method = m,
         mg_params = map_of ms ''params'', mg_result = map_of ms ''result'', mg_error = map_of ms ''error''\<rparr> else None)"
  using assms by (simp add: decode_message_def dec_field_plain case_prod_beta split: option.split)

lemma demo_ids [simp]: "compact_body False ''1'' = ''1''" "compact_body False ''2'' = ''2''"
  by (simp_all add: compact_branches json_space_def byte_def)

lemmas mcp_eval = demo_hello_def demo_list_def demo_cancel_def demo_end_def demo_line_def handle_def decode_plain is_null_def
  demo_raw_def valid_id_def byte_def MaxIDLength_def id_text_def append_compact_def mcp_request_def initialize_def
  ProtocolVersions_def write_msg_def mcp_call_def dec_field_plain same_name_plain find_tool_def all_tools_def call_args_def
  new_call_def notification_def cancel_call_def tool_end_def set_phase_def

definition demo_server :: mcp where
  "demo_server = new_server 2 1 0"

definition demo_called :: mcp where
  "demo_called = demo_server\<lparr>mp_init := True, mp_calls := [(''2'', new_call ListAvailable (JObj []))], mp_slots := 1,
     mp_bucket := (mp_bucket demo_server)\<lparr>bk_tokens := 0\<rparr>\<rparr>"

lemma demo_hello_step: "mperform demo_options demo_server demo_hello =
    Some (demo_server\<lparr>mp_init := True\<rparr>, [EvReceived ''1'', EvReply (Some ''1'') (MInit ''2025-06-18'')])"
  by (simp add: mcp_eval demo_server_def new_server_def)

lemma demo_list_step: "mperform demo_options (demo_server\<lparr>mp_init := True\<rparr>) demo_list = Some (demo_called, [EvReceived ''2''])"
  by (simp add: mcp_eval demo_server_def new_server_def demo_called_def admit_def take_token_def refill_def
    new_bucket_def demo_options_def Let_def seconds_def second_def MaxInFlight_def)

lemma demo_cancel_step: "mperform demo_options demo_called demo_cancel =
    Some (cancel_call demo_called ''2'', [EvCancel ''2''])"
  by (simp add: mcp_eval demo_called_def demo_server_def new_server_def)

definition demo_world :: mworld where
  "demo_world = \<lparr>mw_server = cancel_call demo_called ''2'',
     mw_events = [EvReceived ''1'', EvReply (Some ''1'') (MInit ''2025-06-18''), EvReceived ''2'', EvCancel ''2'']\<rparr>"

lemma demo_run: "run (mstep demo_options) (start_mworld 2 1 0) [demo_hello, demo_list, demo_cancel] demo_world"
  by (rule mcp_run.exec_run) (simp add: start_mworld_def demo_server_def [symmetric] demo_hello_step demo_list_step demo_cancel_step demo_world_def)

section \<open>Properties\<close>

text \<open>
  C10. The server refines the abstract session: in every run, whatever the client sends and in whatever
  order the calls end, every message it writes answers a request that is open (or is an error about a
  line that is no request), so none is answered twice; a tool is listed or called only after the
  session was initialized, and it is initialized once, with a protocol version of the server's; a
  call goes unanswered only when the client cancelled it or the session ended; and the requests still
  open are exactly the calls whose goroutines have not reached their answer.
\<close>

theorem session_keeps_its_promise:
  assumes "run (mstep M) (start_mworld rate burst now) ls w"
  shows "exec spec_event start_session (mw_events w) = Some (abs_session (mw_server w))"
  using mcp_reach [OF assms] by (simp add: mworld_ok_def)

theorem session_keeps_its_promise_witness:
  "exec spec_event start_session (mw_events demo_world) \<noteq> None \<and> ss_open (abs_session (mw_server demo_world)) = {#''2''#}"
  using session_keeps_its_promise [OF demo_run]
  by (simp add: demo_world_def cancel_call_def demo_called_def demo_server_def new_server_def open_call_def new_call_def)

text \<open>
  C31. However many calls a client sends, at most \<open>MaxInFlight\<close> goroutines run them, every one of them
  in the table of calls under an id of its own or about to give its slot back, and no slot is lost.
\<close>

theorem calls_in_flight_are_bounded:
  assumes "run (mstep M) (start_mworld rate burst now) ls w"
  shows "length (mp_calls (mw_server w)) + mp_ending (mw_server w) = mp_slots (mw_server w)
    \<and> mp_slots (mw_server w) \<le> MaxInFlight \<and> distinct (map fst (mp_calls (mw_server w)))"
  using mcp_reach [OF assms] by (simp add: mworld_ok_def mcp_ok_def)

theorem calls_in_flight_are_bounded_witness: "mp_slots (mw_server demo_world) = 1 \<and> mp_slots (mw_server demo_world) \<le> 64"
  using calls_in_flight_are_bounded [OF demo_run]
  by (simp add: demo_world_def cancel_call_def demo_called_def MaxInFlight_def)

text \<open>
  Once a running call is cancelled, or the session has ended, its result is never written, in
  whatever order things go on, until its goroutine is gone.
\<close>

lemma cancelled_calls_give_no_result:
  assumes "run (mstep M) w ls w'" and "map_of (mp_calls (mw_server w)) k = Some c" and "cl_phase c = Running"
    and "cl_cancelled c \<or> mp_over (mw_server w)" and "LForget k \<notin> set ls"
  shows "\<exists>es. mw_events w' = mw_events w @ es \<and> (\<forall>out. EvReply (Some k) (MTool out) \<notin> set es)"
proof -
  have "silent (mw_server w) k" using assms(2-4) by (simp add: silent_def)
  then show ?thesis by (rule silent_run [OF assms(1) _ assms(5)])
qed

lemma demo_end_step: "mperform demo_options (mw_server demo_world) demo_end =
    Some (set_phase (mw_server demo_world) ''2'' Ended, [EvDropped ''2''])"
  by (simp add: mcp_eval demo_world_def demo_called_def demo_server_def new_server_def)

lemma cancelled_calls_give_no_result_witness:
  "\<exists>w es. wperform demo_options demo_world demo_end = Some w \<and> mw_events w = mw_events demo_world @ es
     \<and> (\<forall>out. EvReply (Some ''2'') (MTool out) \<notin> set es) \<and> EvDropped ''2'' \<in> set (mw_events w)"
proof -
  obtain w where w: "wperform demo_options demo_world demo_end = Some w" "EvDropped ''2'' \<in> set (mw_events w)"
      "mw_events w = mw_events demo_world @ [EvDropped ''2'']"
    by (simp add: demo_end_step)
  have r: "run (mstep demo_options) demo_world [demo_end] w" using w(1) by (intro mcp_run.exec_run) simp
  have "\<exists>es. mw_events w = mw_events demo_world @ es \<and> (\<forall>out. EvReply (Some ''2'') (MTool out) \<notin> set es)"
    by (rule cancelled_calls_give_no_result [OF r, where c = "(new_call ListAvailable (JObj []))\<lparr>cl_cancelled := True\<rparr>"])
      (simp_all add: demo_world_def cancel_call_def demo_called_def new_call_def demo_end_def)
  with w show ?thesis by auto
qed


definition demo_left :: mworld where
  "demo_left = \<lparr>mw_server = (new_server 2 1 0)\<lparr>mp_over := True, mp_left := True\<rparr>, mw_events = [EvOver]\<rparr>"


end
