(* ===== verification/JsonText.thy ===== *)
theory JsonText
  imports Encode
begin

text \<open>
  JSON text, as \<open>encoding/json\<close> reads it (Go's scanner and \<open>unquote\<close>): the value a text holds, or
  \<open>None\<close> where it is not one JSON value and white space. A byte of an invalid UTF-8 sequence in a
  string is read as U+FFFD, and so is half a surrogate pair; the scanner's limit on depth is not modelled.
\<close>

section \<open>Strings\<close>

definition wide_rune :: "nat \<Rightarrow> string" where
  "wide_rune r = (if r < 0x10000 then encode_rune r
     else [char_byte (0xF0 + r div 0x40000), char_byte (0x80 + r div 4096 mod 64),
           char_byte (0x80 + r div 64 mod 64), char_byte (0x80 + r mod 64)])"

text \<open>\<open>getu4\<close>: the number of an escape \<open>\u\<close> with four hexadecimal digits, at the start of a text.\<close>

definition get_u4 :: "string \<Rightarrow> nat option" where
  "get_u4 s = (case s of
       a # u # w # x # y # z # _ \<Rightarrow>
         if a \<noteq> CHR 0x5C \<or> u \<noteq> CHR ''u'' then None
         else (case (unhex w, unhex x, unhex y, unhex z) of
             (Some w, Some x, Some y, Some z) \<Rightarrow> Some (((w * 16 + x) * 16 + y) * 16 + z)
           | _ \<Rightarrow> None)
     | _ \<Rightarrow> None)"

text \<open>An escape at the start of a text: its value and its length.\<close>

definition escape_value :: "string \<Rightarrow> (string \<times> nat) option" where
  "escape_value s = (case s of
       _ # d # _ \<Rightarrow>
         if d = CHR 0x22 \<or> d = CHR 0x5C \<or> d = CHR ''/'' then Some ([d], 2)
         else if d = CHR ''b'' then Some ([char_byte 8], 2)
         else if d = CHR ''f'' then Some ([char_byte 12], 2)
         else if d = CHR ''n'' then Some ([char_byte 10], 2)
         else if d = CHR ''r'' then Some ([char_byte 13], 2)
         else if d = CHR ''t'' then Some ([char_byte 9], 2)
         else (case get_u4 s of
             None \<Rightarrow> None
           | Some r \<Rightarrow>
             if \<not> (0xD800 \<le> r \<and> r < 0xE000) then Some (encode_rune r, 6)
             else (case get_u4 (drop 6 s) of
                 Some r' \<Rightarrow>
                   if r < 0xDC00 \<and> 0xDC00 \<le> r' \<and> r' < 0xE000
                   then Some (wide_rune ((r - 0xD800) * 1024 + (r' - 0xDC00) + 0x10000), 12)
                   else Some (encode_rune 0xFFFD, 6)
               | None \<Rightarrow> Some (encode_rune 0xFFFD, 6)))
     | _ \<Rightarrow> None)"

lemma escape_value_pos: "escape_value s = Some (v, n) \<Longrightarrow> 0 < n"
  by (auto simp: escape_value_def split: list.splits if_splits option.splits)

text \<open>A string after its opening quotation mark: its value, whether it has escapes, and what follows it.\<close>

function scan_string :: "string \<Rightarrow> (string \<times> bool \<times> string) option" where
  "scan_string [] = None"
| "scan_string (c # cs) =
     (if c = CHR 0x22 then Some ([], False, cs)
      else if c = CHR 0x5C then
        (case escape_value (c # cs) of None \<Rightarrow> None
         | Some (v, n) \<Rightarrow> (case scan_string (drop (n - 1) cs) of None \<Rightarrow> None
             | Some (x, _, r) \<Rightarrow> if 0 < n then Some (v @ x, True, r) else None))
      else if byte c < 0x20 then None
      else if byte c < 0x80 then map_option (\<lambda>(x, e, r). (c # x, e, r)) (scan_string cs)
      else map_option (\<lambda>(x, e, r). ((case rune_len (c # cs) of None \<Rightarrow> encode_rune 0xFFFD | Some k \<Rightarrow> take k (c # cs)) @ x, e, r))
        (scan_string (drop (rune_step (rune_len (c # cs)) - 1) cs)))"
  by pat_completeness auto
termination by (relation "measure length") (auto simp: less_Suc_eq_le)

declare scan_string.simps(2) [simp del]

text \<open>A text of printable ASCII characters that need no escape stands for itself.\<close>

definition simple_char :: "char \<Rightarrow> bool" where
  "simple_char c = (0x20 \<le> byte c \<and> byte c < 0x80 \<and> c \<noteq> CHR 0x22 \<and> c \<noteq> CHR 0x5C)"

lemma scan_simple: "list_all simple_char s \<Longrightarrow> scan_string (s @ CHR 0x22 # t) = Some (s, False, t)"
  by (induction s) (simp_all add: scan_string.simps simple_char_def)

section \<open>Numbers\<close>

definition is_digit :: "char \<Rightarrow> bool" where
  "is_digit c = (48 \<le> byte c \<and> byte c \<le> 57)"

text \<open>A run of digits, at least one.\<close>

definition scan_digits :: "string \<Rightarrow> (string \<times> string) option" where
  "scan_digits s = (let d = takeWhile is_digit s in if d = [] then None else Some (d, dropWhile is_digit s))"

definition scan_whole :: "string \<Rightarrow> (string \<times> string) option" where
  "scan_whole s = (case s of
       [] \<Rightarrow> None
     | c # cs \<Rightarrow> if c = CHR ''0'' then Some ([c], cs) else scan_digits s)"

definition scan_fraction :: "string \<Rightarrow> (string \<times> string) option" where
  "scan_fraction s = (case s of
       c # cs \<Rightarrow> if c = CHR ''.'' then map_option (\<lambda>(d, r). (c # d, r)) (scan_digits cs) else Some ([], s)
     | [] \<Rightarrow> Some ([], []))"

definition scan_exponent :: "string \<Rightarrow> (string \<times> string) option" where
  "scan_exponent s = (case s of
       c # cs \<Rightarrow>
         if c = CHR ''e'' \<or> c = CHR ''E'' then
           (case cs of
              d # ds \<Rightarrow>
                if d = CHR ''+'' \<or> d = CHR ''-'' then map_option (\<lambda>(x, r). (c # d # x, r)) (scan_digits ds)
                else map_option (\<lambda>(x, r). (c # x, r)) (scan_digits cs)
            | [] \<Rightarrow> None)
         else Some ([], s)
     | [] \<Rightarrow> Some ([], []))"

definition scan_unsigned :: "string \<Rightarrow> (string \<times> string) option" where
  "scan_unsigned s = (case scan_whole s of None \<Rightarrow> None
     | Some (w, s) \<Rightarrow> (case scan_fraction s of None \<Rightarrow> None
       | Some (f, s) \<Rightarrow> (case scan_exponent s of None \<Rightarrow> None
         | Some (e, s) \<Rightarrow> Some (w @ f @ e, s))))"

definition scan_number :: "string \<Rightarrow> (string \<times> string) option" where
  "scan_number s = (case s of
       c # cs \<Rightarrow> if c = CHR ''-'' then map_option (\<lambda>(t, r). (c # t, r)) (scan_unsigned cs) else scan_unsigned s
     | [] \<Rightarrow> None)"

section \<open>Values\<close>

definition skip_space :: "string \<Rightarrow> string" where
  "skip_space s = dropWhile json_space s"

lemma skip_space_Cons: "skip_space s = c # cs \<Longrightarrow> Suc (length cs) \<le> length s"
  using length_dropWhile_le [of json_space s] by (simp add: skip_space_def)

definition starts :: "string \<Rightarrow> string \<Rightarrow> bool" where
  "starts w s = (take (length w) s = w)"

text \<open>
  A value at the start of a text without leading space, the elements of an array (after a bracket or a
  comma) and the members of an object, each with what follows. The guards on lengths are always true:
  a value takes at least one character.
\<close>

function (sequential) scan_value :: "string \<Rightarrow> (json \<times> string) option"
  and scan_elems :: "string \<Rightarrow> (json list \<times> string) option"
  and scan_members :: "string \<Rightarrow> ((string \<times> json) list \<times> string) option"
where
  "scan_value s = (case s of
       [] \<Rightarrow> None
     | c # cs \<Rightarrow>
       if starts ''null'' s then Some (JNull, drop 4 s)
       else if starts ''true'' s then Some (JBool True, drop 4 s)
       else if starts ''false'' s then Some (JBool False, drop 5 s)
       else if c = CHR 0x22 then
         map_option (\<lambda>(x, e, r). (if e then JEsc x else JStr x, r)) (scan_string cs)
       else if c = CHR ''['' then
         (case skip_space cs of
            [] \<Rightarrow> None
          | d # ds \<Rightarrow> if d = CHR '']'' then Some (JArr [], ds)
              else map_option (\<lambda>(xs, r). (JArr xs, r)) (scan_elems (d # ds)))
       else if c = CHR ''{'' then
         (case skip_space cs of
            [] \<Rightarrow> None
          | d # ds \<Rightarrow> if d = CHR ''}'' then Some (JObj [], ds)
              else map_option (\<lambda>(ms, r). (JObj ms, r)) (scan_members (d # ds)))
       else map_option (\<lambda>(t, r). (JNum t, r)) (scan_number s))"
| "scan_elems s = (case scan_value s of
       None \<Rightarrow> None
     | Some (j, r) \<Rightarrow>
       (case skip_space r of
          [] \<Rightarrow> None
        | c # cs \<Rightarrow>
          if c = CHR '']'' then Some ([j], cs)
          else if c = CHR '','' \<and> length (skip_space cs) < length s
          then map_option (\<lambda>(js, r). (j # js, r)) (scan_elems (skip_space cs)) else None))"
| "scan_members s = (case s of
       [] \<Rightarrow> None
     | q # qs \<Rightarrow>
       if q \<noteq> CHR 0x22 then None
       else (case scan_string qs of
           None \<Rightarrow> None
         | Some (k, _, r) \<Rightarrow>
           (case skip_space r of
              [] \<Rightarrow> None
            | c # cs \<Rightarrow>
              if c = CHR '':'' \<and> length (skip_space cs) < length s then
                (case scan_value (skip_space cs) of
                   None \<Rightarrow> None
                 | Some (j, r) \<Rightarrow>
                   (case skip_space r of
                      [] \<Rightarrow> None
                    | d # ds \<Rightarrow>
                      if d = CHR ''}'' then Some ([(k, j)], ds)
                      else if d = CHR '','' \<and> length (skip_space ds) < length s
                      then map_option (\<lambda>(ms, r). ((k, j) # ms, r)) (scan_members (skip_space ds)) else None))
              else None)))"
  by pat_completeness auto
termination
proof (relation "measure (\<lambda>x. case x of Inl s \<Rightarrow> 2 * length s | Inr (Inl s) \<Rightarrow> 2 * length s + 1 | Inr (Inr s) \<Rightarrow> 2 * length s)")
qed (auto dest!: skip_space_Cons)

declare scan_value.simps [simp del] scan_elems.simps [simp del] scan_members.simps [simp del]

definition json_scan :: "string \<Rightarrow> json option" where
  "json_scan s = (case scan_value (skip_space s) of None \<Rightarrow> None
     | Some (j, r) \<Rightarrow> if skip_space r = [] then Some j else None)"

section \<open>Reading what was written\<close>

text \<open>Digits are read as they are written.\<close>

lemma show_nat_digits: "list_all is_digit (show_nat n)"
proof (induction n rule: show_nat.induct)
  case (1 n)
  have d: "is_digit (char_byte (48 + d))" if "d < 10" for d
    using that byte_char_byte [of "48 + d"] by (simp add: is_digit_def)
  show ?case using 1 d by (subst show_nat.simps) simp
qed

lemma show_nat_zero: "show_nat n = c # cs \<Longrightarrow> c = CHR ''0'' \<Longrightarrow> n = 0"
proof (induction n arbitrary: cs rule: show_nat.induct)
  case (1 n)
  have d: "char_byte (48 + d) = CHR ''0'' \<Longrightarrow> d = 0" if "d < 10" for d
    using that byte_char_byte [of "48 + d"] by (auto simp: byte_def)
  show ?case
  proof (cases "n < 10")
    case True
    with 1 d show ?thesis by (simp add: show_nat.simps)
  next
    case False
    then have "show_nat n = show_nat (n div 10) @ [char_byte (48 + n mod 10)]" by (simp add: show_nat.simps [of n])
    with 1(2) obtain cs' where "show_nat (n div 10) = c # cs'" using show_nat_not_Nil by (cases "show_nat (n div 10)") auto
    with False 1 have "n div 10 = 0" by blast
    with False show ?thesis by simp
  qed
qed

lemma digits_stop:
  assumes "list_all is_digit d" and "t = [] \<or> \<not> is_digit (hd t)"
  shows "takeWhile is_digit (d @ t) = d" and "dropWhile is_digit (d @ t) = t"
  using assms by (induction d) (auto, (cases t; simp)+)

definition show_int :: "int \<Rightarrow> string" where
  "show_int n = (if n < 0 then CHR ''-'' # show_nat (nat (- n)) else show_nat (nat n))"

lemma parse_show_int [simp]:
  assumes "- (2 ^ 63) \<le> n" and "n < 2 ^ 63"
  shows "parse_int (show_int n) = Some n"
proof (cases "n < 0")
  case True
  with assms show ?thesis by (simp add: show_int_def nat_less_iff nat_le_iff)
next
  case False
  with assms show ?thesis by (simp add: show_int_def nat_less_iff)
qed

text \<open>A number's text ends where something follows that cannot continue it.\<close>

definition ends_number :: "string \<Rightarrow> bool" where
  "ends_number t = (t = [] \<or> \<not> is_digit (hd t) \<and> hd t \<notin> {CHR ''.'', CHR ''e'', CHR ''E''})"

lemma scan_nat: "ends_number t \<Longrightarrow> scan_unsigned (show_nat n @ t) = Some (show_nat n, t)"
proof -
  assume t: "ends_number t"
  obtain c cs where s: "show_nat n = c # cs" using show_nat_not_Nil [of n] by (cases "show_nat n") auto
  have d: "list_all is_digit (c # cs)" using show_nat_digits [of n] s by simp
  have w: "scan_whole (show_nat n @ t) = Some (show_nat n, t)"
  proof (cases "c = CHR ''0''")
    case True
    then have "n = 0" using show_nat_zero [OF s] by simp
    then have "cs = []" using s by (simp add: show_nat.simps)
    with True s show ?thesis by (simp add: scan_whole_def)
  next
    case False
    have "t = [] \<or> \<not> is_digit (hd t)" using t by (auto simp: ends_number_def)
    note stop = digits_stop [OF d this]
    have "scan_digits ((c # cs) @ t) = Some (c # cs, t)" by (simp only: scan_digits_def stop Let_def) simp
    with False show ?thesis by (simp add: scan_whole_def s)
  qed
  have "scan_fraction t = Some ([], t)" "scan_exponent t = Some ([], t)"
    using t by (auto simp: ends_number_def scan_fraction_def scan_exponent_def split: list.split)
  with w show ?thesis by (simp add: scan_unsigned_def)
qed

lemma scan_int: "ends_number t \<Longrightarrow> scan_number (show_int n @ t) = Some (show_int n, t)"
proof -
  assume t: "ends_number t"
  obtain c cs where s: "show_nat (nat n) = c # cs" and c: "c \<noteq> CHR ''-''" using show_nat_digit by blast
  show ?thesis
  proof (cases "n < 0")
    case True
    with scan_nat [OF t] show ?thesis by (simp add: show_int_def scan_number_def)
  next
    case False
    with scan_nat [OF t, of "nat n"] s c show ?thesis by (simp add: show_int_def scan_number_def)
  qed
qed

section \<open>Writing\<close>

text \<open>\<open>json.Marshal\<close>: strings with the HTML characters escaped, too.\<close>

definition marshal_char :: "char \<Rightarrow> string" where
  "marshal_char c =
     (if c = CHR 0x22 \<or> c = CHR 0x5C then [CHR 0x5C, c]
      else if byte c = 8 then [CHR 0x5C, CHR ''b'']
      else if byte c = 12 then [CHR 0x5C, CHR ''f'']
      else if byte c = 10 then [CHR 0x5C, CHR ''n'']
      else if byte c = 13 then [CHR 0x5C, CHR ''r'']
      else if byte c = 9 then [CHR 0x5C, CHR ''t'']
      else if byte c < 0x20 \<or> c = CHR ''<'' \<or> c = CHR ''>'' \<or> c = CHR ''&''
      then [CHR 0x5C] @ ''u00'' @ [hex_digit (byte c div 16), hex_digit (byte c mod 16)]
      else [c])"

fun marshal_chars :: "string \<Rightarrow> string" where
  "marshal_chars [] = []"
| "marshal_chars (c # cs) =
     (if byte c < 0x80 then marshal_char c @ marshal_chars cs
      else rune_quoted (c # cs) (rune_len (c # cs))
        @ marshal_chars (drop (rune_step (rune_len (c # cs)) - 1) cs))"

declare marshal_chars.simps(2) [simp del]

definition marshal_string :: "string \<Rightarrow> string" where
  "marshal_string s = [CHR 0x22] @ marshal_chars s @ [CHR 0x22]"

definition comma_join :: "string list \<Rightarrow> string" where
  "comma_join xs = concat (map (\<lambda>x. CHR '','' # x) xs)"

fun marshal_text :: "json \<Rightarrow> string" where
  "marshal_text JNull = ''null''"
| "marshal_text (JBool b) = (if b then ''true'' else ''false'')"
| "marshal_text (JNum t) = t"
| "marshal_text (JStr s) = marshal_string s"
| "marshal_text (JEsc s) = marshal_string s"
| "marshal_text (JArr js) = [CHR ''[''] @ tl (comma_join (map marshal_text js)) @ [CHR '']'']"
| "marshal_text (JObj ms) = [CHR ''{'']
     @ tl (comma_join (map (\<lambda>(k, j). marshal_string k @ [CHR '':''] @ marshal_text j) ms)) @ [CHR ''}'']"

text \<open>Strings that are written as they are: printable ASCII without the characters escaped.\<close>

definition safe_char :: "char \<Rightarrow> bool" where
  "safe_char c = (simple_char c \<and> c \<notin> {CHR ''<'', CHR ''>'', CHR ''&''})"

definition plain_text :: "string \<Rightarrow> bool" where
  "plain_text s = list_all safe_char s"

lemma marshal_plain: "plain_text s \<Longrightarrow> marshal_chars s = s"
proof (induction s)
  case (Cons c s)
  then have c: "simple_char c" "c \<notin> {CHR ''<'', CHR ''>'', CHR ''&''}" by (auto simp: plain_text_def safe_char_def)
  then have "marshal_char c = [c]" by (auto simp: marshal_char_def simple_char_def)
  with Cons c show ?case by (simp add: marshal_chars.simps simple_char_def plain_text_def)
qed simp

lemma scan_marshalled:
  assumes "plain_text s"
  shows "scan_string (tl (marshal_string s) @ t) = Some (s, False, t)"
proof -
  have "list_all simple_char s" using assms by (auto simp: plain_text_def safe_char_def list_all_iff)
  then show ?thesis using scan_simple [of s t] by (simp add: marshal_string_def marshal_plain [OF assms])
qed

text \<open>
  The values the program writes without escapes: plain strings, decimal numbers, and arrays and objects
  of such values.
\<close>

fun plain_json :: "json \<Rightarrow> bool" where
  "plain_json JNull = True"
| "plain_json (JBool _) = True"
| "plain_json (JNum t) = (\<exists>n. t = show_int n)"
| "plain_json (JStr s) = plain_text s"
| "plain_json (JEsc _) = False"
| "plain_json (JArr js) = list_all plain_json js"
| "plain_json (JObj ms) = list_all (\<lambda>(k, j). plain_text k \<and> plain_json j) ms"

text \<open>What follows a value inside an array or object, or at the end.\<close>

definition after_value :: "string \<Rightarrow> bool" where
  "after_value t = (t = [] \<or> hd t \<in> {CHR '','', CHR '']'', CHR ''}''})"

lemma after_ends: "after_value t \<Longrightarrow> ends_number t"
  by (auto simp: after_value_def ends_number_def is_digit_def byte_def)

definition starts_value :: "string \<Rightarrow> bool" where
  "starts_value v = (v \<noteq> [] \<and> \<not> json_space (hd v) \<and> hd v \<notin> {CHR '']'', CHR ''}''})"

lemma starts_simps [simp]: "starts (a # w) (c # s) = (c = a \<and> starts w s)" "starts [] s"
  by (auto simp: starts_def)

lemma skip_starts: "starts_value v \<Longrightarrow> skip_space (v @ t) = v @ t"
  by (cases v) (simp_all add: starts_value_def skip_space_def)

lemma skip_after: "after_value t \<Longrightarrow> skip_space t = t"
  by (cases t) (auto simp: after_value_def skip_space_def json_space_def byte_def)

lemma comma_join_simps [simp]:
  "comma_join [] = []" "comma_join (x # xs) = CHR '','' # x @ comma_join xs"
  by (simp_all add: comma_join_def)

lemma after_join [simp]: "after_value (comma_join xs @ CHR '']'' # t)" "after_value (comma_join xs @ CHR ''}'' # t)"
  by (cases xs; simp add: after_value_def)+

lemma show_int_start: "\<exists>c cs. show_int n = c # cs \<and> (is_digit c \<or> c = CHR ''-'')"
proof (cases "n < 0")
  case False
  obtain c cs where "show_nat (nat n) = c # cs" using show_nat_not_Nil by (cases "show_nat (nat n)") auto
  with False show_nat_digits [of "nat n"] show ?thesis by (simp add: show_int_def)
qed (simp add: show_int_def)

lemma digit_chars: "is_digit c \<Longrightarrow> c \<notin> {CHR ''n'', CHR ''t'', CHR ''f'', CHR 0x22, CHR ''['', CHR ''{'', CHR '']'', CHR ''}''} \<and> \<not> json_space c"
  by (auto simp: is_digit_def json_space_def byte_def)

lemma plain_starts: "plain_json j \<Longrightarrow> starts_value (marshal_text j)"
proof (cases j)
  case (JNum t)
  assume "plain_json j"
  then obtain n where "t = show_int n" using JNum by auto
  then show ?thesis using show_int_start [of n] digit_chars JNum
    by (auto simp: starts_value_def json_space_def byte_def)
qed (auto simp: starts_value_def json_space_def byte_def marshal_string_def)

lemma scan_elems_written:
  assumes "\<And>j t. j \<in> set (x # xs) \<Longrightarrow> after_value t \<Longrightarrow> scan_value (f j @ t) = Some (j, t)"
    and "\<forall>j\<in>set (x # xs). starts_value (f j)"
  shows "scan_elems (f x @ comma_join (map f xs) @ CHR '']'' # t) = Some (x # xs, t)"
  using assms
proof (induction xs arbitrary: x)
  case Nil
  then show ?case by (subst scan_elems.simps) (simp add: skip_after after_value_def)
next
  case (Cons y ys)
  let ?r = "f y @ comma_join (map f ys) @ CHR '']'' # t"
  have "scan_value (f x @ CHR '','' # ?r) = Some (x, CHR '','' # ?r)" by (rule Cons.prems(1)) (simp_all add: after_value_def)
  moreover have "skip_space ?r = ?r" using Cons.prems(2) by (simp add: skip_starts)
  moreover have "scan_elems ?r = Some (y # ys, t)" by (rule Cons.IH) (use Cons.prems in auto)
  ultimately show ?case by (subst scan_elems.simps) (simp add: skip_after [of "CHR '','' # _"] after_value_def)
qed

definition member_text :: "string \<times> json \<Rightarrow> string" where
  "member_text p = marshal_string (fst p) @ [CHR '':''] @ marshal_text (snd p)"

lemma scan_members_written:
  assumes "\<And>k j t. (k, j) \<in> set (x # xs) \<Longrightarrow> after_value t \<Longrightarrow> scan_value (marshal_text j @ t) = Some (j, t)"
    and "\<forall>(k, j)\<in>set (x # xs). plain_text k \<and> plain_json j"
  shows "scan_members (member_text x @ comma_join (map member_text xs) @ CHR ''}'' # t) = Some (x # xs, t)"
  using assms
proof (induction xs arbitrary: x)
  case Nil
  obtain k j where x: "x = (k, j)" by fastforce
  then have k: "plain_text k" "plain_json j" using Nil.prems(2) by auto
  let ?v = "marshal_text j @ CHR ''}'' # t"
  have "scan_string (tl (marshal_string k) @ CHR '':'' # ?v) = Some (k, False, CHR '':'' # ?v)"
    by (rule scan_marshalled [OF k(1)])
  moreover have "scan_value ?v = Some (j, CHR ''}'' # t)" by (rule Nil.prems(1) [where k = k]) (simp_all add: x after_value_def)
  moreover have "skip_space ?v = ?v" by (rule skip_starts [OF plain_starts [OF k(2)]])
  moreover have "skip_space (CHR '':'' # ?v) = CHR '':'' # ?v" by (simp add: skip_space_def json_space_def byte_def)
  ultimately show ?case
    by (subst scan_members.simps) (simp add: x member_text_def marshal_string_def skip_after after_value_def)
next
  case (Cons y ys)
  obtain k j where x: "x = (k, j)" by fastforce
  then have k: "plain_text k" "plain_json j" using Cons.prems(2) by auto
  let ?r = "member_text y @ comma_join (map member_text ys) @ CHR ''}'' # t"
  let ?v = "marshal_text j @ CHR '','' # ?r"
  have "scan_string (tl (marshal_string k) @ CHR '':'' # ?v) = Some (k, False, CHR '':'' # ?v)"
    by (rule scan_marshalled [OF k(1)])
  moreover have "scan_value ?v = Some (j, CHR '','' # ?r)" by (rule Cons.prems(1) [where k = k]) (simp_all add: x after_value_def)
  moreover have "skip_space ?v = ?v" by (rule skip_starts [OF plain_starts [OF k(2)]])
  moreover have "skip_space (CHR '':'' # ?v) = CHR '':'' # ?v" by (simp add: skip_space_def json_space_def byte_def)
  moreover have "skip_space ?r = ?r" by (simp add: member_text_def marshal_string_def skip_space_def json_space_def byte_def)
  moreover have "scan_members ?r = Some (y # ys, t)" by (rule Cons.IH) (use Cons.prems in auto)
  ultimately show ?case
    by (subst scan_members.simps) (simp add: x member_text_def marshal_string_def skip_after [of "CHR '','' # _"] after_value_def)
qed

lemma marshal_members:
  "marshal_text (JObj (x # xs)) = CHR ''{'' # member_text x @ comma_join (map member_text xs) @ ''}''"
proof -
  have "(\<lambda>(k, j). marshal_string k @ [CHR '':''] @ marshal_text j) = member_text"
    by (simp add: fun_eq_iff member_text_def)
  then show ?thesis by simp
qed

lemma scan_written: "plain_json j \<Longrightarrow> after_value t \<Longrightarrow> scan_value (marshal_text j @ t) = Some (j, t)"
proof (induction j arbitrary: t rule: marshal_text.induct)
  case (3 x)
  then obtain n where n: "x = show_int n" by auto
  obtain c cs where s: "show_int n = c # cs" "is_digit c \<or> c = CHR ''-''" using show_int_start by blast
  have num: "scan_number (c # cs @ t) = Some (c # cs, t)" using scan_int [OF after_ends [OF 3(2)], of n] s(1) by simp
  have c: "c \<notin> {CHR ''n'', CHR ''t'', CHR ''f'', CHR 0x22, CHR ''['', CHR ''{''}" using s(2) digit_chars [of c] by auto
  have "scan_value (c # cs @ t) = Some (JNum (c # cs), t)"
    using c by (subst scan_value.simps) (simp add: num)
  then show ?case using s(1) n by simp
next
  case (4 s)
  then have "scan_string (tl (marshal_string s) @ t) = Some (s, False, t)" by (simp add: scan_marshalled)
  then show ?case by (subst scan_value.simps) (simp add: marshal_string_def)
next
  case (6 js)
  show ?case
  proof (cases js)
    case Nil
    then show ?thesis by (subst scan_value.simps) (simp add: skip_space_def json_space_def byte_def)
  next
    case (Cons x xs)
    let ?r = "marshal_text x @ comma_join (map marshal_text xs) @ CHR '']'' # t"
    have st: "starts_value (marshal_text x)" using 6(2) Cons by (intro plain_starts) simp
    have "scan_elems ?r = Some (x # xs, t)"
      by (rule scan_elems_written) (use 6 Cons plain_starts in \<open>auto simp: list_all_iff\<close>)
    moreover have "skip_space ?r = ?r" using st by (simp add: skip_starts)
    ultimately show ?thesis using st Cons
      by (subst scan_value.simps) (auto simp: starts_value_def neq_Nil_conv)
  qed
next
  case (7 ms)
  show ?case
  proof (cases ms)
    case Nil
    then show ?thesis by (subst scan_value.simps) (simp add: skip_space_def json_space_def byte_def)
  next
    case (Cons x xs)
    let ?r = "member_text x @ comma_join (map member_text xs) @ CHR ''}'' # t"
    have "scan_members ?r = Some (x # xs, t)"
      by (rule scan_members_written) (use 7 Cons in \<open>fastforce simp: list_all_iff\<close>)+
    moreover have "skip_space ?r = ?r" by (simp add: member_text_def marshal_string_def skip_space_def json_space_def byte_def)
    moreover have "\<exists>rs. ?r = CHR 0x22 # rs" by (simp add: member_text_def marshal_string_def)
    ultimately show ?thesis unfolding Cons marshal_members by (subst scan_value.simps) auto
  qed
qed (subst scan_value.simps; simp)+

lemma scan_text: "plain_json j \<Longrightarrow> json_scan (marshal_text j) = Some j"
  using scan_written [of j "[]"] skip_starts [OF plain_starts, of j "[]"]
  by (simp add: json_scan_def after_value_def skip_space_def [of "[]"])

end
