(* ===== verification/McpWire.thy ===== *)
theory McpWire
  imports Mcp JsonText
begin

text \<open>
  The bytes of an MCP session (\<open>internal/mcp/server.go\<close>): how the read loop cuts its input into lines
  (\<open>read_lines\<close>, against the plain definition of lines in \<open>segments\<close>), and the text of the messages
  written (\<open>message_text\<close>).
\<close>

section \<open>The input\<close>

definition newline :: char where "newline = char_byte 10"

text \<open>\<open>bytes.TrimSpace\<close> and \<open>unicode.IsSpace\<close>: the length of the white space a text begins with.\<close>

definition space_len :: "string \<Rightarrow> nat" where
  "space_len s = (case map byte (take 3 s) of
       [] \<Rightarrow> 0
     | a # bs \<Rightarrow>
       if a = 32 \<or> 9 \<le> a \<and> a \<le> 13 then 1
       else (case bs of
           [] \<Rightarrow> 0
         | b # cs \<Rightarrow>
           if a = 0xC2 \<and> (b = 0x85 \<or> b = 0xA0) then 2
           else (case cs of
               [] \<Rightarrow> 0
             | c # _ \<Rightarrow>
               if a = 0xE1 \<and> b = 0x9A \<and> c = 0x80
                 \<or> a = 0xE2 \<and> b = 0x80 \<and> (0x80 \<le> c \<and> c \<le> 0x8A \<or> c = 0xA8 \<or> c = 0xA9 \<or> c = 0xAF)
                 \<or> a = 0xE2 \<and> b = 0x81 \<and> c = 0x9F \<or> a = 0xE3 \<and> b = 0x80 \<and> c = 0x80
               then 3 else 0)))"

fun trim_left :: "nat \<Rightarrow> string \<Rightarrow> string" where
  "trim_left 0 s = s"
| "trim_left (Suc n) s = (if space_len s = 0 then s else trim_left n (drop (space_len s) s))"

definition trimmed :: "string \<Rightarrow> string" where
  "trimmed s = trim_left (length s) s"

text \<open>A line as it is sent to the loop: \<open>None\<close> is one that was too long; blank ones are not sent.\<close>

definition send_line :: "string \<Rightarrow> string option list" where
  "send_line b = (if trimmed b = [] then [] else [Some b])"

text \<open>\<open>ReadSlice\<close> on a buffer of \<open>n\<close> bytes: up to the line's end, or the buffer full, or the input's end.\<close>

datatype slice = SLine string string | SFull string | SEnd string

definition read_slice :: "nat \<Rightarrow> string \<Rightarrow> slice" where
  "read_slice n s = (if newline \<in> set (take n s)
     then SLine (takeWhile (\<lambda>c. c \<noteq> newline) s @ [newline]) (tl (dropWhile (\<lambda>c. c \<noteq> newline) s))
     else if length s < n then SEnd s else SFull (drop n s))"

lemma read_slice_less: "read_slice n s = SLine l r \<Longrightarrow> length r < length s"
  "read_slice n s = SFull r \<Longrightarrow> 0 < n \<Longrightarrow> length r < length s"
proof -
  assume "read_slice n s = SLine l r"
  then have "newline \<in> set s" and r: "r = tl (dropWhile (\<lambda>c. c \<noteq> newline) s)"
    by (auto simp: read_slice_def dest: in_set_takeD split: if_splits)
  then have "dropWhile (\<lambda>c. c \<noteq> newline) s \<noteq> []" by (auto simp: dropWhile_eq_Nil_conv)
  then show "length r < length s"
    using length_dropWhile_le [of "\<lambda>c. c \<noteq> newline" s] r by (cases "dropWhile (\<lambda>c. c \<noteq> newline) s") auto
next
  assume "read_slice n s = SFull r" and "0 < n"
  then show "length r < length s" by (auto simp: read_slice_def split: if_splits)
qed

text \<open>Skipping to the end of a line that was too long.\<close>

function skip_line :: "nat \<Rightarrow> string \<Rightarrow> string" where
  "skip_line n s = (case read_slice (max 16 n) s of SLine _ r \<Rightarrow> r | SEnd _ \<Rightarrow> [] | SFull r \<Rightarrow> skip_line n r)"
  by pat_completeness auto
termination by (relation "measure (length \<circ> snd)") (auto dest: read_slice_less)

declare skip_line.simps [simp del]

text \<open>A line's end, beyond its first \<open>n\<close> bytes.\<close>

lemma beyond:
  assumes "newline \<notin> set (take n s)"
  shows "dropWhile (\<lambda>c. c \<noteq> newline) (drop n s) = dropWhile (\<lambda>c. c \<noteq> newline) s"
    and "min n (length s) \<le> length (takeWhile (\<lambda>c. c \<noteq> newline) s)"
proof -
  have no: "c \<noteq> newline" if "c \<in> set (take n s)" for c using assms that by auto
  have "dropWhile (\<lambda>c. c \<noteq> newline) (take n s @ drop n s) = dropWhile (\<lambda>c. c \<noteq> newline) (drop n s)"
    by (rule dropWhile_append2) (rule no)
  moreover have "takeWhile (\<lambda>c. c \<noteq> newline) (take n s @ drop n s) = take n s @ takeWhile (\<lambda>c. c \<noteq> newline) (drop n s)"
    by (rule takeWhile_append2) (rule no)
  ultimately show "dropWhile (\<lambda>c. c \<noteq> newline) (drop n s) = dropWhile (\<lambda>c. c \<noteq> newline) s"
    and "min n (length s) \<le> length (takeWhile (\<lambda>c. c \<noteq> newline) s)"
    by (simp_all only: append_take_drop_id length_append length_take)
qed

lemma skip_line_ref: "skip_line n s = tl (dropWhile (\<lambda>c. c \<noteq> newline) s)"
proof (induction n s rule: skip_line.induct)
  case (1 n s)
  consider (line) "newline \<in> set (take (max 16 n) s)" | (end_) "newline \<notin> set (take (max 16 n) s)" "length s < max 16 n"
    | (full) "newline \<notin> set (take (max 16 n) s)" "\<not> length s < max 16 n" by blast
  then show ?case
  proof cases
    case line
    then show ?thesis by (subst skip_line.simps) (simp add: read_slice_def)
  next
    case end_
    then have d: "dropWhile (\<lambda>c. c \<noteq> newline) s = []" by (auto simp: dropWhile_eq_Nil_conv)
    from end_ show ?thesis by (subst skip_line.simps) (simp add: read_slice_def d)
  next
    case full
    then have slice: "read_slice (max 16 n) s = SFull (drop (max 16 n) s)" by (simp add: read_slice_def)
    then show ?thesis using "1.IH" [OF slice] beyond(1) [OF full(1)] by (subst skip_line.simps) simp
  qed
qed

text \<open>\<open>read\<close>, with a buffer of \<open>n\<close> bytes (\<open>bufio\<close> makes it 16 at least).\<close>

function read_lines :: "nat \<Rightarrow> string \<Rightarrow> string option list" where
  "read_lines n s = (case read_slice (max 16 n) s of
       SLine l r \<Rightarrow> send_line l @ read_lines n r
     | SEnd l \<Rightarrow> send_line l
     | SFull r \<Rightarrow> None # read_lines n (skip_line n r))"
  by pat_completeness auto
termination
proof (relation "measure (length \<circ> snd)")
  fix n s r
  assume "read_slice (max 16 n) s = SFull r"
  then have "length r < length s" by (rule read_slice_less(2)) simp
  moreover have "length (skip_line n r) \<le> length r"
    using length_dropWhile_le [of "\<lambda>c. c \<noteq> newline" r] by (simp add: skip_line_ref)
  ultimately show "((n, skip_line n r), n, s) \<in> measure (length \<circ> snd)" by simp
qed (auto dest: read_slice_less)

declare read_lines.simps [simp del]

text \<open>The plain definition: the input's lines, each with its line break if it has one.\<close>

fun segments :: "string \<Rightarrow> string list" where
  "segments [] = []"
| "segments (c # cs) = (if c = newline then [c] # segments cs
     else (case segments cs of [] \<Rightarrow> [[c]] | l # ls \<Rightarrow> (c # l) # ls))"

definition too_long :: "nat \<Rightarrow> string \<Rightarrow> bool" where
  "too_long n l = (if last l = newline then max 16 n < length l else max 16 n \<le> length l)"

definition segment_message :: "nat \<Rightarrow> string \<Rightarrow> string option list" where
  "segment_message n l = (if too_long n l then [None] else send_line l)"

lemma segments_step:
  "segments s = (case dropWhile (\<lambda>c. c \<noteq> newline) s of
       [] \<Rightarrow> if s = [] then [] else [s]
     | _ # r \<Rightarrow> (takeWhile (\<lambda>c. c \<noteq> newline) s @ [newline]) # segments r)"
proof (induction s)
  case (Cons c s)
  then show ?case by (cases "c = newline"; cases "dropWhile (\<lambda>c. c \<noteq> newline) s") (simp_all split: list.split del: dropWhile_eq_Nil_conv)
qed simp

lemma read_lines_ref: "read_lines n s = concat (map (segment_message n) (segments s))"
proof (induction n s rule: read_lines.induct)
  case (1 n s)
  let ?m = "max 16 n" and ?p = "takeWhile (\<lambda>c. c \<noteq> newline) s" and ?d = "dropWhile (\<lambda>c. c \<noteq> newline) s"
  have split: "s = ?p @ ?d" by simp
  show ?case
  proof (cases "newline \<in> set (take ?m s)")
    case True
    then have slice: "read_slice ?m s = SLine (?p @ [newline]) (tl ?d)" by (simp add: read_slice_def)
    have "newline \<in> set s" using True by (rule in_set_takeD)
    then obtain r where d: "?d = newline # r"
      by (cases ?d) (auto simp: dropWhile_eq_Nil_conv dest: dropWhile_eq_Cons_conv [THEN iffD1])
    have "\<not> too_long n (?p @ [newline])"
    proof
      assume "too_long n (?p @ [newline])"
      then have "?m \<le> length ?p" by (simp add: too_long_def)
      then have "take ?m s = take ?m ?p" using split by (metis take_append diff_is_0_eq' take_0 append_Nil2)
      with True have "newline \<in> set ?p" by (metis in_set_takeD)
      then show False by (auto dest: set_takeWhileD)
    qed
    then show ?thesis
      using "1.IH"(1) [OF slice] d by (subst read_lines.simps, subst segments_step) (simp add: slice segment_message_def [where l = "_ @ _"])
  next
    case False
    show ?thesis
    proof (cases "length s < ?m")
      case True
      with False have slice: "read_slice ?m s = SEnd s" by (simp add: read_slice_def)
      have no: "newline \<notin> set s" using False True by simp
      then have "?d = []" by (auto simp: dropWhile_eq_Nil_conv)
      moreover have "s \<noteq> [] \<Longrightarrow> \<not> too_long n s" using no True by (auto simp: too_long_def)
      ultimately show ?thesis
        by (subst read_lines.simps, subst segments_step) (auto simp: slice segment_message_def send_line_def trimmed_def simp del: dropWhile_eq_Nil_conv)
    next
      case full: False
      with False have slice: "read_slice ?m s = SFull (drop ?m s)" by (simp add: read_slice_def)
      have len: "?m \<le> length ?p" using beyond(2) [OF False] full by (simp only: min_absorb1 not_less)
      have next_: "skip_line n (drop ?m s) = tl ?d" using beyond(1) [OF False] by (simp add: skip_line_ref)
      show ?thesis
      proof (cases ?d)
        case Nil
        then have no: "newline \<notin> set s" by (auto simp: dropWhile_eq_Nil_conv)
        have "s \<noteq> []" using full by auto
        then have "last s \<noteq> newline" using no last_in_set by metis
        then have "too_long n s" using full by (simp only: too_long_def if_False not_less)
        with Nil \<open>s \<noteq> []\<close> "1.IH"(2) [OF slice] next_ show ?thesis
          by (subst read_lines.simps, subst segments_step)
            (simp add: slice segment_message_def del: dropWhile_eq_Nil_conv)
      next
        case (Cons c r)
        have "too_long n (?p @ [newline])" using len by (simp add: too_long_def)
        with Cons "1.IH"(2) [OF slice] next_ show ?thesis
          by (subst read_lines.simps, subst segments_step) (simp add: slice segment_message_def [where l = "_ @ _"])
      qed
    qed
  qed
qed

text \<open>
  A line taken by the loop: one that begins with a bracket is a batch; \<open>scan\<close> is the JSON scanner (the
  value and the texts of the values in it). \<open>Serve\<close> is then \<open>on_line\<close> on each of them (theory Mcp).
\<close>

definition line_of :: "(string \<Rightarrow> (json \<Rightarrow> string) \<times> json option) \<Rightarrow> string option \<Rightarrow> line" where
  "line_of scan l = (case l of None \<Rightarrow> LTooLong
     | Some b \<Rightarrow> if hd (trimmed b) = CHR ''['' then LBatch else (case scan b of (raw, j) \<Rightarrow> LText raw j))"

section \<open>The output\<close>

text \<open>\<open>json.Marshal\<close> of a \<open>json.RawMessage\<close>: compact already, with the HTML characters escaped.\<close>

fun escape_html :: "string \<Rightarrow> string" where
  "escape_html [] = []"
| "escape_html (c # cs) =
     (if c = CHR ''<'' then [CHR 0x5C] @ ''u003c'' @ escape_html cs
      else if c = CHR ''>'' then [CHR 0x5C] @ ''u003e'' @ escape_html cs
      else if c = CHR ''&'' then [CHR 0x5C] @ ''u0026'' @ escape_html cs
      else (case cs of
          d # e # es \<Rightarrow>
            if byte c = 0xE2 \<and> byte d = 0x80 \<and> (byte e = 0xA8 \<or> byte e = 0xA9)
            then [CHR 0x5C] @ ''u202'' @ [hex_digit (byte e mod 16)] @ escape_html es
            else c # escape_html cs
        | _ \<Rightarrow> c # escape_html cs))"

definition raw_id :: "string option \<Rightarrow> string" where
  "raw_id i = (case i of None \<Rightarrow> ''null'' | Some t \<Rightarrow> escape_html t)"

text \<open>\<open>writeError\<close>, and \<open>writeRaw\<close> for a result already marshalled.\<close>

definition error_text :: "(json \<Rightarrow> string) \<Rightarrow> string option \<Rightarrow> int \<Rightarrow> string \<Rightarrow> string" where
  "error_text marshal i c msg = trHead @ raw_id i @ '',\"error\":''
     @ marshal (JObj [(''code'', JNum (show_int c)), (''message'', JStr msg)]) @ ''}'' @ [newline]"

definition raw_text :: "string option \<Rightarrow> string \<Rightarrow> string" where
  "raw_text i r = trHead @ raw_id i @ '',\"result\":'' @ r @ ''}'' @ [newline]"

definition Instructions :: string where
  "Instructions = ''These tools reach the member's VettID vault, within the grants and approvals the member gives on their phone. ''
     @ ''Values come from the member's vault and are the member's secrets. Prefer leash.execute_action to leash.request_secret: ''
     @ ''with it the value never leaves the vault. A tool that answers {\"status\":\"pending\"} waits for the member: ''
     @ ''check again later with leash.check_status. Errors carry a stable code.''"

text \<open>The initialize result (a map's members are marshalled in the order of their names).\<close>

definition init_result :: "string \<Rightarrow> string \<Rightarrow> json" where
  "init_result version v = JObj
     [(''capabilities'', JObj [(''tools'', JObj [(''listChanged'', JBool False)])]),
      (''instructions'', JStr Instructions),
      (''protocolVersion'', JStr v),
      (''serverInfo'', JObj [(''name'', JStr ''vettid-agent''), (''title'', JStr ''VettID agent connector''),
         (''version'', JStr version)])]"

definition body_text :: "(json \<Rightarrow> string) \<Rightarrow> body \<Rightarrow> string" where
  "body_text marshal b = (case b of Marshalled j \<Rightarrow> marshal j | Written s \<Rightarrow> s)"

text \<open>A message as it is written; \<open>tools\<close> is the text of \<open>tools/list\<close>'s result.\<close>

definition message_text :: "(json \<Rightarrow> string) \<Rightarrow> string \<Rightarrow> string \<Rightarrow> string option \<Rightarrow> rpc_reply \<Rightarrow> string" where
  "message_text marshal tools version i r = (case r of
       MError c msg \<Rightarrow> error_text marshal i c msg
     | MPong \<Rightarrow> raw_text i (marshal (JObj []))
     | MInit v \<Rightarrow> raw_text i (marshal (init_result version v))
     | MTools \<Rightarrow> raw_text i tools
     | MTool out \<Rightarrow> tool_result (case i of None \<Rightarrow> [] | Some t \<Rightarrow> t) (body_text marshal (to_body out)) (to_error out))"

section \<open>Every message is a line\<close>

lemma one_line_escape: "one_line s \<Longrightarrow> one_line (escape_html s)"
proof (induction s rule: escape_html.induct)
  case (2 c cs)
  have "0x20 \<le> byte (hex_digit (byte e mod 16))" if "byte e = 0xA8 \<or> byte e = 0xA9" for e
    using that hex_plain [of "byte e mod 16"] by (auto simp: plain_char_def)
  moreover have "one_line ''u003c''" "one_line ''u003e''" "one_line ''u0026''" "one_line ''u202''" "0x20 \<le> byte CHR 0x5C"
    by (simp_all add: byte_def)
  ultimately show ?case using 2 by (subst escape_html.simps) (auto simp del: escape_html.simps(2) split: list.split)
qed simp

definition tidy_out :: "(json \<Rightarrow> string) \<Rightarrow> tool_out \<Rightarrow> bool" where
  "tidy_out marshal out = one_line (body_text marshal (to_body out))"

definition tidy_reply :: "(json \<Rightarrow> string) \<Rightarrow> string option \<Rightarrow> rpc_reply \<Rightarrow> bool" where
  "tidy_reply marshal i r = ((\<forall>t. i = Some t \<longrightarrow> one_line t) \<and> (\<forall>out. r = MTool out \<longrightarrow> tidy_out marshal out))"

lemma tidy_message:
  assumes "\<forall>j. one_line (marshal j)" and "one_line tools" and "tidy_reply marshal i r"
  obtains l where "message_text marshal tools version i r = l @ [newline]" and "one_line l"
proof -
  have i: "one_line (raw_id i)" "one_line (case i of None \<Rightarrow> [] | Some t \<Rightarrow> t)"
    using assms(3) by (auto simp: raw_id_def tidy_reply_def byte_def one_line_escape split: option.split)
  have head: "one_line trHead" by (simp add: trHead_def byte_def)
  have raw: "\<exists>l. raw_text i x = l @ [newline] \<and> one_line l" if "one_line x" for x
    using that i head by (intro exI [of _ "trHead @ raw_id i @ '',\"result\":'' @ x @ ''}''"]) (simp add: raw_text_def byte_def)
  have error: "\<exists>l. error_text marshal i c m = l @ [newline] \<and> one_line l" for c m
    using assms(1) i head
    by (intro exI [of _ "trHead @ raw_id i @ '',\"error\":'' @ marshal (JObj [(''code'', JNum (show_int c)), (''message'', JStr m)]) @ ''}''"])
      (simp add: error_text_def byte_def)
  have tool: "\<exists>l. tool_result (case i of None \<Rightarrow> [] | Some t \<Rightarrow> t) (body_text marshal (to_body out)) e = l @ [newline] \<and> one_line l"
    if "r = MTool out" for out e
    using one_line_tool_result [OF i(2), where body = "body_text marshal (to_body out)" and e = e] assms(3) that
    by (auto simp: tidy_reply_def tidy_out_def newline_def)
  have "\<exists>l. message_text marshal tools version i r = l @ [newline] \<and> one_line l"
    using raw error tool assms(1,2) by (cases r) (simp_all add: message_text_def)
  then show thesis using that by blast
qed

lemma tidy_marshalled [simp]:
  assumes "\<forall>j. one_line (marshal j)"
  shows "tidy_out marshal (error_out E e now)" "tidy_out marshal (rate_limited E now wait)"
    "tidy_out marshal (too_many_in_flight E)" "tidy_out marshal (bad_arguments E)" "tidy_out marshal (bad_data E)"
    "tidy_out marshal (pending_out oc)" "tidy_out marshal (info_out E conn_info w)"
  using assms
  by (simp_all add: tidy_out_def error_out_def rate_limited_def too_many_in_flight_def bad_arguments_def bad_data_def
      pending_out_def info_out_def ok_out_def body_text_def case_prod_beta Let_def split: option.split)

lemma tidy_tool_run:
  assumes "\<forall>j. one_line (marshal j)" and "\<forall>v. json_chars False (raw v)"
  shows "tidy_out marshal (tool_run E raw now ans conn_info w t j)"
proof -
  have res: "tidy_out marshal (result_out raw x)" for x
    using assms one_line_use one_line_item
    by (cases x) (simp_all add: tidy_out_def ok_out_def body_text_def)
  have out: "tidy_out marshal (outcome_out E raw now x)" for x
    using assms(1) res by (simp add: outcome_out_def split: option.split sum.split)
  show ?thesis using assms(1) out by (simp add: tool_run_def split: tool_call.split)
qed

text \<open>The server's state and its events hold only ids and results of one line.\<close>

definition tidy_server :: "(json \<Rightarrow> string) \<Rightarrow> mcp \<Rightarrow> bool" where
  "tidy_server marshal s = (\<forall>(k, c) \<in> set (mp_calls s). one_line k
     \<and> (\<forall>out. cl_phase c = Answering out \<longrightarrow> tidy_out marshal out))"

definition tidy_events :: "(json \<Rightarrow> string) \<Rightarrow> session_event list \<Rightarrow> bool" where
  "tidy_events marshal es = (\<forall>i r. EvReply i r \<in> set es \<longrightarrow> tidy_reply marshal i r)"

definition tidy :: "(json \<Rightarrow> string) \<Rightarrow> mcp \<times> session_event list \<Rightarrow> bool" where
  "tidy marshal r = (tidy_server marshal (fst r) \<and> tidy_events marshal (snd r))"

lemma tidy_events_simps [simp]:
  "tidy_events marshal []" "tidy_events marshal (xs @ ys) = (tidy_events marshal xs \<and> tidy_events marshal ys)"
  "tidy_events marshal (EvReceived i # es) = tidy_events marshal es"
  "tidy_events marshal (EvDropped i # es) = tidy_events marshal es"
  "tidy_events marshal (EvCancel i # es) = tidy_events marshal es"
  "tidy_events marshal (EvOver # es) = tidy_events marshal es"
  "tidy_events marshal (received x)"
  by (auto simp: tidy_events_def received_def split: option.split)

lemma tidy_writes:
  assumes "tidy_reply marshal i r"
  shows "tidy_events marshal (write_msg s i r)"
  using assms by (auto simp: tidy_events_def write_msg_def)

lemma tidy_replies [simp]:
  "tidy_reply marshal None (MError c t)"
  "tidy_reply marshal (Some i) (MError c t) = one_line i" "tidy_reply marshal (Some i) MPong = one_line i"
  "tidy_reply marshal (Some i) (MInit v) = one_line i" "tidy_reply marshal (Some i) MTools = one_line i"
  "tidy_reply marshal (Some i) (MTool out) = (one_line i \<and> tidy_out marshal out)"
  by (simp_all add: tidy_reply_def)

lemma tidy_frames [simp]:
  "tidy_server marshal (s\<lparr>mp_bucket := b\<rparr>) = tidy_server marshal s"
  "tidy_server marshal (s\<lparr>mp_init := x\<rparr>) = tidy_server marshal s"
  "tidy_server marshal (s\<lparr>mp_over := x\<rparr>) = tidy_server marshal s"
  "tidy_server marshal (s\<lparr>mp_left := x\<rparr>) = tidy_server marshal s"
  "tidy_server marshal (s\<lparr>mp_stopped := x\<rparr>) = tidy_server marshal s"
  "tidy_server marshal (release_slot s) = tidy_server marshal s"
  by (simp_all add: tidy_server_def release_slot_def)

lemma tidy_cancel: "tidy_server marshal s \<Longrightarrow> tidy_server marshal (cancel_call s k)"
  unfolding tidy_server_def cancel_call_def by (rule ballI, clarify) (auto simp: change_set split: if_splits)

lemma tidy_phase:
  assumes "tidy_server marshal s" and "\<forall>out. p = Answering out \<longrightarrow> tidy_out marshal out"
  shows "tidy_server marshal (set_phase s k p)"
  using assms unfolding tidy_server_def set_phase_def by (intro ballI, clarify) (auto simp: change_set split: if_splits)

lemma tidy_admit:
  assumes "\<forall>j. one_line (marshal j)" and "tidy_server marshal s" and "one_line i"
  shows "tidy marshal (admit M now now' s i t args)"
  using assms
  by (simp add: admit_def tidy_def tidy_writes case_prod_beta Let_def) (simp add: tidy_server_def new_call_def)

lemma tidy_call:
  assumes "\<forall>j. one_line (marshal j)" and "tidy_server marshal s" and "one_line i"
  shows "tidy marshal (mcp_call M now now' s i params)"
proof -
  have e: "tidy marshal (s, write_msg s (Some i) (MError c t))" for c t using assms by (simp add: tidy_def tidy_writes)
  show ?thesis
    unfolding mcp_call_def Let_def using e tidy_admit [OF assms] by (simp split: option.split prod.split)
qed

lemma tidy_request:
  assumes "\<forall>j. one_line (marshal j)" and "tidy_server marshal s" and "one_line i"
  shows "tidy marshal (mcp_request M now now' s i meth params)"
proof -
  have "tidy marshal (initialize s i params)"
    unfolding initialize_def Let_def using assms(2,3) by (simp add: tidy_def tidy_writes split: option.split prod.split)
  then show ?thesis
    using tidy_call [OF assms] assms by (simp add: mcp_request_def tidy_def tidy_writes)
qed

lemma tidy_line:
  assumes "\<forall>j. one_line (marshal j)" and "tidy_server marshal s" and "\<forall>raw b v. l = LText raw b \<longrightarrow> json_chars False (raw v)"
  shows "tidy marshal (on_line M now now' s l)"
proof (cases l)
  case (LText raw b)
  have i: "one_line (id_text raw j)" for j using assms(3) LText by (simp add: id_text_def append_compact_def compact_one_line)
  have e: "tidy marshal (s, received x @ write_msg s None (MError n t))"
    "tidy marshal (s, received x @ write_msg s (Some (id_text raw j)) (MError n t))" for x j n t
    using assms i by (simp_all add: tidy_def tidy_writes)
  have e0: "tidy marshal (s, write_msg s None (MError n t))" for n t using assms by (simp add: tidy_def tidy_writes)
  have same: "tidy marshal (s, [])" using assms by (simp add: tidy_def)
  have request: "tidy marshal (let (s, es) = mcp_request M now now' s (id_text raw j) meth params in (s, EvReceived (id_text raw j) # es))" for j meth params
    using tidy_request [OF assms(1,2) i] by (simp add: tidy_def case_prod_beta)
  have note_: "tidy marshal (notification raw s meth params)" for meth params
    unfolding notification_def using tidy_cancel [OF assms(2)] assms(2) by (simp add: tidy_def split: option.split)
  show ?thesis
    unfolding LText on_line.simps handle_def Let_def [where s = "if _ then None else Some _"]
    using e e0 same note_ request by (simp split: option.split)
qed (use assms in \<open>simp_all add: tidy_def tidy_writes\<close>)

lemma tidy_step:
  assumes "mperform M s l = Some r" and "\<forall>j. one_line (marshal j)" and "tidy_server marshal s"
    and "\<forall>now now' raw b v. l = LLine now now' (LText raw b) \<longrightarrow> json_chars False (raw v)"
    and "\<forall>k raw now ans inf' w v. l = LToolEnd k raw now ans inf' w \<longrightarrow> json_chars False (raw v)"
  shows "tidy marshal r"
proof (cases l)
  case (LLine now now' x)
  then show ?thesis using assms(1,4) tidy_line [OF assms(2,3)] by (auto split: if_splits)
next
  case (LToolEnd k raw now ans conn_info waiting)
  have "tidy_out marshal (tool_run E raw now f conn_info waiting t j)" for E f t j
    using assms(5) LToolEnd by (intro tidy_tool_run [OF assms(2)]) blast
  then show ?thesis using LToolEnd assms(1,3)
    by (auto simp: tool_end_def tidy_def intro!: tidy_phase split: option.splits if_splits)
next
  case (LWrite k)
  then obtain c out where k: "map_of (mp_calls s) k = Some c" "cl_phase c = Answering out"
    and r: "r = (set_phase s k Ended, write_msg s (Some k) (MTool out))"
    using assms(1) by (auto split: option.splits call_phase.splits)
  have "one_line k" "tidy_out marshal out" using assms(3) map_of_SomeD [OF k(1)] k(2) by (auto simp: tidy_server_def)
  then show ?thesis using assms(3) by (simp add: r tidy_def tidy_writes tidy_phase)
next
  case (LForget k)
  then show ?thesis using assms(1,3)
    by (fastforce simp: tidy_def tidy_server_def forget_call_def split: option.splits if_splits)
qed (use assms(1,3) in \<open>auto simp: tidy_def split: if_splits\<close>)

lemma tidy_run:
  assumes "run (mstep M) w ls w'" and "\<forall>j. one_line (marshal j)" and "tidy marshal (mw_server w, mw_events w)"
    and "\<forall>now now' raw b v. LLine now now' (LText raw b) \<in> set ls \<longrightarrow> json_chars False (raw v)"
    and "\<forall>k raw now ans inf' x v. LToolEnd k raw now ans inf' x \<in> set ls \<longrightarrow> json_chars False (raw v)"
  shows "tidy_events marshal (mw_events w')"
  using assms
proof (induction rule: run.induct)
  case (run_Cons w l w1 ls w2)
  from run_Cons.hyps(1) obtain r where r: "mperform M (mw_server w) l = Some r"
    and w1: "w1 = \<lparr>mw_server = fst r, mw_events = mw_events w @ snd r\<rparr>"
    by (auto simp: mstep_def split: option.splits)
  have "tidy marshal r"
    by (rule tidy_step [OF r run_Cons.prems(1)]) (use run_Cons.prems(2-4) in \<open>auto simp: tidy_def\<close>)
  then have "tidy marshal (mw_server w1, mw_events w1)" using w1 run_Cons.prems(2) by (simp add: tidy_def)
  then show ?case by (rule run_Cons.IH [OF run_Cons.prems(1)]) (use run_Cons.prems(3,4) in \<open>auto\<close>)
qed (simp add: tidy_def)

section \<open>Properties\<close>

text \<open>
  The read loop takes the input's lines, as they are defined without buffers: one message for each
  line of the input that is not blank, in order, with a line longer than the buffer answered by one
  refusal, after which reading goes on with the next line.
\<close>

lemma input_is_read_by_lines: "read_lines n s = concat (map (segment_message n) (segments s))"
  by (rule read_lines_ref)

text \<open>
  Nothing but messages of one line each is written: in every run, whatever the client sends and
  whatever the vault's values hold, each message ends with its only line break.
\<close>

lemma messages_are_one_line:
  assumes "run (mstep M) (start_mworld rate burst now) ls w" and "EvReply i r \<in> set (mw_events w)"
    and "\<forall>j. one_line (marshal j)" and "one_line tools"
    and "\<forall>now now' raw b v. LLine now now' (LText raw b) \<in> set ls \<longrightarrow> json_chars False (raw v)"
    and "\<forall>k raw now ans inf' x v. LToolEnd k raw now ans inf' x \<in> set ls \<longrightarrow> json_chars False (raw v)"
  shows "\<exists>l. message_text marshal tools version i r = l @ [newline] \<and> newline \<notin> set l"
proof -
  have "tidy marshal (mw_server (start_mworld rate burst now), mw_events (start_mworld rate burst now))"
    by (simp add: tidy_def tidy_server_def start_mworld_def new_server_def)
  from tidy_run [OF assms(1,3) this assms(5,6)] assms(2) have "tidy_reply marshal i r" by (auto simp: tidy_events_def)
  then obtain l where "message_text marshal tools version i r = l @ [newline]" "one_line l"
    by (rule tidy_message [OF assms(3,4)])
  moreover from this(2) have "newline \<notin> set l"
    by (auto simp: one_line_def list_all_iff newline_def byte_char_byte)
  ultimately show ?thesis by blast
qed

lemma messages_are_one_line_witness:
  "\<exists>l. message_text (\<lambda>_. ''{}'') ''{}'' ''1'' (Some ''1'') (MInit ''2025-06-18'') = l @ [newline] \<and> newline \<notin> set l"
  by (rule messages_are_one_line [OF demo_run])
    (auto simp: demo_world_def demo_hello_def demo_list_def demo_cancel_def demo_line_def demo_raw_def byte_def
      json_space_def)

end
