(* ===== verification/PairCode.thy ===== *)
theory PairCode
  imports McpWire "HOL-Library.Sublist"
begin

text \<open>
  \<open>internal/pairing/code.go\<close> (finding the pairing code in what the operator pasted, and redacting it) and the
  text functions of \<open>internal/pairing/pair.go\<close> (names, the SAS, foreign text shown on the terminal). The
  invitation format (\<open>invite.ParseLink\<close>) and \<open>url.Parse\<close> are parameters; the Unicode category Cf is a table.
\<close>

section \<open>Finding the code\<close>

definition b64url_char :: "char \<Rightarrow> bool" where
  "b64url_char c = (let n = byte c in 65 \<le> n \<and> n \<le> 90 \<or> 97 \<le> n \<and> n \<le> 122 \<or> 48 \<le> n \<and> n \<le> 57
     \<or> c = CHR ''-'' \<or> c = CHR ''_'')"

text \<open>\<open>base64URLRuns\<close>: the run since \<open>start\<close> is the first argument, empty when there is none.\<close>

fun runs_from :: "string \<Rightarrow> string \<Rightarrow> string list" where
  "runs_from r [] = (if r = [] then [] else [r])"
| "runs_from r (c # cs) =
     (if b64url_char c then runs_from (r @ [c]) cs
      else if r = [] then runs_from [] cs else r # runs_from [] cs)"

definition base64URLRuns :: "string \<Rightarrow> string list" where
  "base64URLRuns s = runs_from [] s"

datatype invite_kind = KindConnection | KindApp | KindDesktop | KindAgent | KindOther

record qr =
  qr_kind :: invite_kind
  qr_relay :: string
  qr_exp :: time
  qr_claim :: string
  qr_key :: string

definition MaxCodeInput :: nat where "MaxCodeInput = 64 * 1024"
definition minPayloadLen :: nat where "minPayloadLen = 64"

datatype code_error = ErrCodeTooLong | ErrManyCodes | ErrNoCode | ErrNotAgent string | ErrRelayNotHTTPS | ErrCodeExpired

text \<open>The loop of \<open>findPayload\<close>, with the payload found so far.\<close>

fun find_in :: "(string \<Rightarrow> qr option) \<Rightarrow> (string \<times> qr) option \<Rightarrow> string list \<Rightarrow> code_error + (string \<times> qr) option" where
  "find_in p found [] = Inr found"
| "find_in p found (r # rs) =
     (if length r < minPayloadLen then find_in p found rs
      else (case p r of None \<Rightarrow> find_in p found rs
        | Some q \<Rightarrow> (case found of
            Some (l, _) \<Rightarrow> if r \<noteq> l then Inl ErrManyCodes else find_in p (Some (r, q)) rs
          | None \<Rightarrow> find_in p (Some (r, q)) rs)))"

definition find_payload :: "(string \<Rightarrow> qr option) \<Rightarrow> string \<Rightarrow> code_error + string \<times> qr" where
  "find_payload p s =
    (if MaxCodeInput < length s then Inl ErrCodeTooLong
     else (case find_in p None (base64URLRuns s) of
         Inl e \<Rightarrow> Inl e
       | Inr None \<Rightarrow> Inl ErrNoCode
       | Inr (Some f) \<Rightarrow> Inr f))"

fun kind_name :: "invite_kind \<Rightarrow> string" where
  "kind_name KindConnection = ''it is an invitation to connect with someone''"
| "kind_name KindApp = ''it moves the VettID app to a new phone''"
| "kind_name KindDesktop = ''it pairs a desktop''"
| "kind_name _ = ''it is of an unknown kind''"

text \<open>\<open>relaySchemeAllowed\<close>: \<open>scheme\<close> is the scheme \<open>url.Parse\<close> finds; \<open>http\<close> only in a devstack build.\<close>

definition relay_scheme_allowed :: "(string \<Rightarrow> string option) \<Rightarrow> bool \<Rightarrow> string \<Rightarrow> bool" where
  "relay_scheme_allowed scheme devstack r = (case scheme r of None \<Rightarrow> False
     | Some s \<Rightarrow> s = ''https'' \<or> devstack \<and> s = ''http'')"

record code =
  cd_link :: string
  cd_relay :: string
  cd_exp :: time
  cd_claim :: string
  cd_key :: string

definition code_secrets :: "code \<Rightarrow> string list" where
  "code_secrets c = [cd_link c, cd_claim c, cd_key c]"

record code_lib =
  cl_parse :: "string \<Rightarrow> qr option"
  cl_scheme :: "string \<Rightarrow> string option"
  cl_devstack :: bool

definition parse_code :: "code_lib \<Rightarrow> string \<Rightarrow> time \<Rightarrow> code_error + code" where
  "parse_code L s now = (case find_payload (cl_parse L) s of Inl e \<Rightarrow> Inl e
     | Inr (link, q) \<Rightarrow>
       if qr_kind q \<noteq> KindAgent then Inl (ErrNotAgent (kind_name (qr_kind q)))
       else if \<not> relay_scheme_allowed (cl_scheme L) (cl_devstack L) (qr_relay q) then Inl ErrRelayNotHTTPS
       else if \<not> now < qr_exp q then Inl ErrCodeExpired
       else Inr \<lparr>cd_link = link, cd_relay = qr_relay q, cd_exp = qr_exp q, cd_claim = qr_claim q, cd_key = b64_raw_url (qr_key q)\<rparr>)"

section \<open>Redacting\<close>

text \<open>\<open>strings.ReplaceAll\<close> for a text that is not empty.\<close>

function replace_all :: "string \<Rightarrow> string \<Rightarrow> string \<Rightarrow> string" where
  "replace_all x y s = (if x = [] \<or> s = [] then s
     else if prefix x s then y @ replace_all x y (drop (length x) s)
     else hd s # replace_all x y (tl s))"
  by pat_completeness auto
termination
  by (relation "measure (\<lambda>(x, y, s). length s)") (auto simp: length_greater_0_conv [symmetric] simp del: length_greater_0_conv)

declare replace_all.simps [simp del]

definition redacted :: string where "redacted = ''[redacted]''"

definition redact :: "string list \<Rightarrow> string \<Rightarrow> string" where
  "redact xs s = foldl (\<lambda>s x. if x \<noteq> [] then replace_all x redacted s else s) s xs"

section \<open>Names and foreign text\<close>

text \<open>The value of one encoded character, and the characters a Go \<open>range\<close> visits, each with its bytes.\<close>

definition rune_value :: "string \<Rightarrow> nat" where
  "rune_value s = (case map byte s of
       [a] \<Rightarrow> a
     | [a, b] \<Rightarrow> a mod 32 * 64 + b mod 64
     | [a, b, c] \<Rightarrow> (a mod 16 * 64 + b mod 64) * 64 + c mod 64
     | [a, b, c, d] \<Rightarrow> ((a mod 8 * 64 + b mod 64) * 64 + c mod 64) * 64 + d mod 64
     | _ \<Rightarrow> 0xFFFD)"

fun runes :: "string \<Rightarrow> (nat \<times> string) list" where
  "runes [] = []"
| "runes (c # cs) =
     (if byte c < 0x80 then (byte c, [c]) # runes cs
      else (case rune_len (c # cs) of None \<Rightarrow> (0xFFFD, [c])
            | Some k \<Rightarrow> (rune_value (take k (c # cs)), take k (c # cs)))
        # runes (drop (rune_step (rune_len (c # cs)) - 1) cs))"

text \<open>\<open>unicode.IsControl\<close> (Cc), \<open>unicode.Cf\<close>, and the line and paragraph separators.\<close>

definition control_rune :: "nat \<Rightarrow> bool" where
  "control_rune r = (r < 0x20 \<or> 0x7F \<le> r \<and> r \<le> 0x9F)"

definition format_ranges :: "(nat \<times> nat) list" where
  "format_ranges = [(0xAD, 0xAD), (0x600, 0x605), (0x61C, 0x61C), (0x6DD, 0x6DD), (0x70F, 0x70F), (0x890, 0x891),
     (0x8E2, 0x8E2), (0x180E, 0x180E), (0x200B, 0x200F), (0x202A, 0x202E), (0x2060, 0x2064), (0x2066, 0x206F),
     (0xFEFF, 0xFEFF), (0xFFF9, 0xFFFB), (0x110BD, 0x110BD), (0x110CD, 0x110CD), (0x13430, 0x1343F),
     (0x1BCA0, 0x1BCA3), (0x1D173, 0x1D17A), (0xE0001, 0xE0001), (0xE0020, 0xE007F)]"

definition format_rune :: "nat \<Rightarrow> bool" where
  "format_rune r = list_ex (\<lambda>(lo, hi). lo \<le> r \<and> r \<le> hi) format_ranges"

definition separator_rune :: "nat \<Rightarrow> bool" where
  "separator_rune r = (r = 0x2028 \<or> r = 0x2029)"

text \<open>\<open>strings.TrimSpace\<close>: the white space a text ends with is taken off as well (\<open>trimmed\<close> does the left side).\<close>

definition space_end :: "string \<Rightarrow> nat" where
  "space_end s = (case filter (\<lambda>n. n \<le> length s \<and> space_len (drop (length s - n) s) = n) [1, 2, 3] of [] \<Rightarrow> 0 | n # _ \<Rightarrow> n)"

fun trim_right :: "nat \<Rightarrow> string \<Rightarrow> string" where
  "trim_right 0 s = s"
| "trim_right (Suc n) s = (if space_end s = 0 then s else trim_right n (take (length s - space_end s) s))"

definition trim_space :: "string \<Rightarrow> string" where
  "trim_space s = (let t = trimmed s in trim_right (length t) t)"

definition MaxNameBytes :: nat where "MaxNameBytes = 128"

datatype name_error = NameEmpty | NameLong | NameNotText | NameSpace | NameControl | NameFormat

fun check_runes :: "(nat \<times> string) list \<Rightarrow> name_error option" where
  "check_runes [] = None"
| "check_runes ((r, _) # rs) =
     (if control_rune r \<or> separator_rune r then Some NameControl
      else if format_rune r then Some NameFormat else check_runes rs)"

definition check_name :: "string \<Rightarrow> name_error option" where
  "check_name s =
    (if s = [] then Some NameEmpty
     else if MaxNameBytes < length s then Some NameLong
     else if \<not> valid_utf8 s then Some NameNotText
     else if trim_space s \<noteq> s then Some NameSpace
     else check_runes (runes s))"

definition rune_start :: "char \<Rightarrow> bool" where
  "rune_start c = (byte c div 64 \<noteq> 2)"

fun cut_at :: "string \<Rightarrow> nat \<Rightarrow> nat" where
  "cut_at s 0 = 0"
| "cut_at s (Suc n) = (if rune_start (s ! Suc n) then Suc n else cut_at s n)"

definition truncate_utf8 :: "string \<Rightarrow> nat \<Rightarrow> string" where
  "truncate_utf8 s n = (if length s \<le> n then s else trim_space (take (cut_at s n) s))"

text \<open>\<open>DefaultName\<close>; \<open>os.Hostname\<close> may fail.\<close>

definition default_name :: "string option \<Rightarrow> string" where
  "default_name host =
    (let h = trim_space (case host of None \<Rightarrow> [] | Some h \<Rightarrow> h) in
     if host = None \<or> h = [] \<or> check_name (''Agent on '' @ h) \<noteq> None then ''Agent''
     else truncate_utf8 (''Agent on '' @ h) MaxNameBytes)"

definition digit_char :: "char \<Rightarrow> bool" where
  "digit_char c = (48 \<le> byte c \<and> byte c \<le> 57)"

definition format_sas :: "string \<Rightarrow> string option" where
  "format_sas s = (if length s \<noteq> 6 then None else if list_all digit_char s then Some (take 3 s @ '' '' @ drop 3 s) else None)"

text \<open>\<open>strings.ToValidUTF8(s, "?")\<close>: one \<open>?\<close> for each run of invalid bytes.\<close>

fun to_valid :: "bool \<Rightarrow> string \<Rightarrow> string" where
  "to_valid invalid [] = []"
| "to_valid invalid (c # cs) =
     (if byte c < 0x80 then c # to_valid False cs
      else (case rune_len (c # cs) of
          None \<Rightarrow> (if invalid then [] else ''?'') @ to_valid True cs
        | Some k \<Rightarrow> take k (c # cs) @ to_valid False (drop (k - 1) cs)))"

definition hidden_rune :: "nat \<Rightarrow> bool" where
  "hidden_rune r = (control_rune r \<or> format_rune r \<or> separator_rune r)"

definition maxShownError :: nat where "maxShownError = 200"

definition ellipsis :: string where "ellipsis = [CHR 0xE2, CHR 0x80, CHR 0xA6]"

fun shown_from :: "string \<Rightarrow> (nat \<times> string) list \<Rightarrow> string" where
  "shown_from b [] = b"
| "shown_from b ((r, s) # rs) =
     (if hidden_rune r then shown_from b rs
      else if maxShownError < length b + length s then b @ ellipsis
      else shown_from (b @ s) rs)"

definition sanitized :: "string \<Rightarrow> string" where
  "sanitized s = (let b = shown_from [] (runes (to_valid False s)) in if b = [] then ''-'' else b)"

section \<open>The runs are the maximal ones\<close>

definition url_run :: "string \<Rightarrow> bool" where
  "url_run r = list_all b64url_char r"

text \<open>A run that cannot be made longer on either side.\<close>

definition maximal_run :: "string \<Rightarrow> string \<Rightarrow> bool" where
  "maximal_run s r = (r \<noteq> [] \<and> url_run r \<and> (\<exists>a b. s = a @ r @ b
     \<and> (a = [] \<or> \<not> b64url_char (last a)) \<and> (b = [] \<or> \<not> b64url_char (hd b))))"

lemma run_ends:
  "url_run a \<Longrightarrow> a = [] \<or> \<not> b64url_char (last a) \<Longrightarrow> a = []"
  "url_run a \<Longrightarrow> a = [] \<or> \<not> b64url_char (hd a) \<Longrightarrow> a = []"
  unfolding url_run_def list_all_iff using last_in_set hd_in_set by blast+

lemma takeWhile_run:
  "url_run r \<Longrightarrow> b = [] \<or> \<not> b64url_char (hd b) \<Longrightarrow> takeWhile b64url_char (r @ b) = r"
  by (cases b) (auto simp: url_run_def list_all_iff takeWhile_append2)

lemma maximal_run_split:
  assumes "url_run r" and "\<not> b64url_char c"
  shows "maximal_run (r @ c # cs) x \<longleftrightarrow> x = r \<and> r \<noteq> [] \<or> maximal_run cs x"
proof
  assume "maximal_run (r @ c # cs) x"
  then obtain a b where x: "x \<noteq> []" "url_run x" and eq: "r @ c # cs = a @ x @ b"
    and a: "a = [] \<or> \<not> b64url_char (last a)" and b: "b = [] \<or> \<not> b64url_char (hd b)"
    by (auto simp: maximal_run_def)
  show "x = r \<and> r \<noteq> [] \<or> maximal_run cs x"
  proof (cases "length a \<le> length r")
    case True
    then have "a = take (length a) r" using eq by (metis append_eq_append_conv_if)
    then have "url_run a" using assms(1) by (metis url_run_def list_all_iff in_set_takeD)
    then have "a = []" using a by (rule run_ends)
    with eq have "r @ c # cs = x @ b" by simp
    moreover have "takeWhile b64url_char (r @ c # cs) = r" by (rule takeWhile_run) (use assms in simp_all)
    ultimately have "x = r" using takeWhile_run [OF x(2) b] by simp
    with x show ?thesis by simp
  next
    case False
    then obtain a' where "a = r @ c # a'" "cs = a' @ x @ b"
      using eq by (auto simp: append_eq_append_conv2 Cons_eq_append_conv)
    then show ?thesis using x a b by (auto simp: maximal_run_def split: if_splits)
  qed
next
  assume "x = r \<and> r \<noteq> [] \<or> maximal_run cs x"
  then show "maximal_run (r @ c # cs) x"
  proof
    assume "x = r \<and> r \<noteq> []"
    moreover have "r @ c # cs = [] @ r @ (c # cs)" by simp
    ultimately show ?thesis using assms unfolding maximal_run_def by (metis list.sel(1))
  next
    assume "maximal_run cs x"
    then obtain a b where x: "x \<noteq> []" "url_run x" and eq: "cs = a @ x @ b"
      and a: "a = [] \<or> \<not> b64url_char (last a)" and b: "b = [] \<or> \<not> b64url_char (hd b)"
      by (auto simp: maximal_run_def)
    have "r @ c # cs = (r @ c # a) @ x @ b" using eq by simp
    moreover have "\<not> b64url_char (last (r @ c # a))" using a assms(2) by auto
    ultimately show ?thesis using x b unfolding maximal_run_def by blast
  qed
qed

lemma maximal_run_end: "url_run r \<Longrightarrow> maximal_run r x \<longleftrightarrow> x = r \<and> r \<noteq> []"
proof
  assume r: "url_run r" and "maximal_run r x"
  then obtain a b where x: "x \<noteq> []" "url_run x" and eq: "r = a @ x @ b"
    and a: "a = [] \<or> \<not> b64url_char (last a)" and b: "b = [] \<or> \<not> b64url_char (hd b)"
    by (auto simp: maximal_run_def)
  have "url_run a" "url_run b" using r eq by (auto simp: url_run_def)
  then have "a = []" "b = []" using a b run_ends by blast+
  with eq x show "x = r \<and> r \<noteq> []" by simp
next
  assume "url_run r" and "x = r \<and> r \<noteq> []"
  moreover have "r = [] @ r @ []" by simp
  ultimately show "maximal_run r x" unfolding maximal_run_def by blast
qed

lemma runs_from_maximal: "url_run r \<Longrightarrow> set (runs_from r s) = {x. maximal_run (r @ s) x}"
proof (induction r s rule: runs_from.induct)
  case (1 r)
  then show ?case by (auto simp: maximal_run_end)
next
  case (2 r c cs)
  show ?case
  proof (cases "b64url_char c")
    case True
    with 2 show ?thesis by (simp add: url_run_def)
  next
    case False
    have "set (runs_from [] cs) = {x. maximal_run cs x}"
      using "2.IH"(2,3) False by (cases "r = []") (simp_all add: url_run_def)
    with False maximal_run_split [OF "2.prems" False] show ?thesis by auto
  qed
qed

lemma runs_maximal: "set (base64URLRuns s) = {x. maximal_run s x}"
  using runs_from_maximal [of "[]" s] by (simp add: base64URLRuns_def url_run_def)

text \<open>The loop finds the only payload, in however many places it stands.\<close>

definition payload :: "(string \<Rightarrow> qr option) \<Rightarrow> string \<Rightarrow> bool" where
  "payload p r = (minPayloadLen \<le> length r \<and> p r \<noteq> None)"

lemma find_in_spec:
  assumes "\<forall>l q. found = Some (l, q) \<longrightarrow> p l = Some q"
  shows "find_in p found rs = Inr (Some (l, q)) \<longleftrightarrow>
    p l = Some q \<and> {r \<in> set rs. payload p r} \<union> fst ` set_option found = {l}"
  using assms
proof (induction rs arbitrary: found)
  case Nil
  then show ?case by (cases found) auto
next
  case (Cons r rs)
  show ?case
  proof (cases "payload p r")
    case False
    then have "find_in p found (r # rs) = find_in p found rs" by (auto simp: payload_def split: option.split)
    moreover have "{x \<in> set (r # rs). payload p x} = {x \<in> set rs. payload p x}" using False by auto
    ultimately show ?thesis using Cons.IH [OF Cons.prems] by simp
  next
    case True
    then obtain q' where q': "p r = Some q'" "minPayloadLen \<le> length r" by (auto simp: payload_def)
    show ?thesis
    proof (cases "found = None \<or> fst (the found) = r")
      case True
      then have "find_in p found (r # rs) = find_in p (Some (r, q')) rs"
        using q' by (cases found) auto
      moreover have "{x \<in> set (r # rs). payload p x} \<union> fst ` set_option found = {x \<in> set rs. payload p x} \<union> {r}"
        using \<open>payload p r\<close> True by auto
      ultimately show ?thesis using Cons.IH [of "Some (r, q')"] q'(1) by simp
    next
      case False
      then obtain l' q2 where "found = Some (l', q2)" "l' \<noteq> r" by (cases found) auto
      then have "find_in p found (r # rs) = Inl ErrManyCodes" using q' by auto
      moreover have "{r, l'} \<subseteq> {x \<in> set (r # rs). payload p x} \<union> fst ` set_option found"
        using \<open>payload p r\<close> \<open>found = Some (l', q2)\<close> by auto
      then have "{x \<in> set (r # rs). payload p x} \<union> fst ` set_option found \<noteq> {l}" using \<open>l' \<noteq> r\<close> by (metis insert_subset singletonD)
      ultimately show ?thesis by simp
    qed
  qed
qed

section \<open>What redacting leaves\<close>

definition bracket_free :: "string \<Rightarrow> bool" where
  "bracket_free x = (CHR ''['' \<notin> set x \<and> CHR '']'' \<notin> set x)"

text \<open>A secret that redacting can remove for good: it holds no bracket and is no part of the word put in its place.\<close>

definition hideable :: "string \<Rightarrow> bool" where
  "hideable x = (x \<noteq> [] \<and> bracket_free x \<and> \<not> sublist x ''redacted'')"

lemma redacted_parts: "redacted = CHR ''['' # ''redacted'' @ [CHR '']'']"
  by (simp add: redacted_def)

lemma bracket_free_prefix: "bracket_free z \<Longrightarrow> prefix z (CHR ''['' # t) \<Longrightarrow> z = []"
  "bracket_free z \<Longrightarrow> prefix z (CHR '']'' # t) \<Longrightarrow> z = []"
  by (cases z; auto simp: bracket_free_def)+

lemma hideable_after_redacted:
  assumes "hideable z" and "sublist z (redacted @ t)"
  shows "sublist z t"
proof -
  have free: "bracket_free z" "z \<noteq> []" "\<not> sublist z ''redacted''" using assms(1) by (simp_all add: hideable_def)
  have "redacted @ t = CHR ''['' # ''redacted'' @ CHR '']'' # t" by (simp add: redacted_parts)
  then have "sublist z (''redacted'' @ CHR '']'' # t)"
    using assms(2) bracket_free_prefix(1) [OF free(1)] free(2) by (metis sublist_Cons_right)
  then obtain z1 z2 where z: "sublist z (CHR '']'' # t) \<or> z = z1 @ z2 \<and> suffix z1 ''redacted'' \<and> prefix z2 (CHR '']'' # t)"
    using free(3) unfolding sublist_append by blast
  have "sublist z (CHR '']'' # t)"
  proof (rule ccontr)
    assume "\<not> ?thesis"
    with z have s: "z = z1 @ z2" "suffix z1 ''redacted''" "prefix z2 (CHR '']'' # t)" by blast+
    have "bracket_free z2" using free(1) s(1) by (auto simp: bracket_free_def)
    then have "z2 = []" using bracket_free_prefix(2) s(3) by blast
    with s free(3) show False by (simp add: suffix_imp_sublist)
  qed
  then show ?thesis using bracket_free_prefix(2) [OF free(1)] free(2) by (metis sublist_Cons_right)
qed

lemma prefix_of_replaced:
  "y = redacted \<Longrightarrow> bracket_free z \<Longrightarrow> prefix z (replace_all x y s) \<Longrightarrow> prefix z s"
proof (induction x y s arbitrary: z rule: replace_all.induct)
  case (1 x y s)
  show ?case
  proof (cases "x = [] \<or> s = []")
    case True
    then have "replace_all x y s = s" by (subst replace_all.simps) simp
    with "1.prems" show ?thesis by simp
  next
    case False
    show ?thesis
    proof (cases "prefix x s")
      case True
      then have "replace_all x y s = y @ replace_all x y (drop (length x) s)"
        using False by (subst replace_all.simps) simp
      then have "z = []" using bracket_free_prefix(1) [OF "1.prems"(2)] "1.prems"(1,3) by (simp add: redacted_parts)
      then show ?thesis by simp
    next
      case no: False
      obtain c cs where s: "s = c # cs" using False by (cases s) auto
      then have r: "replace_all x y s = c # replace_all x y cs"
        using False no by (subst replace_all.simps) simp
      show ?thesis
      proof (cases z)
        case (Cons d z')
        then have "bracket_free z'" "d = c" "prefix z' (replace_all x y cs)"
          using "1.prems" r by (auto simp: bracket_free_def)
        then have "prefix z' cs" using "1.IH"(2) [OF False no "1.prems"(1)] s by simp
        with Cons s \<open>d = c\<close> show ?thesis by simp
      qed simp
    qed
  qed
qed

lemma replaced_keeps_away:
  assumes "hideable z"
  shows "y = redacted \<Longrightarrow> sublist z (replace_all x y s) \<Longrightarrow> sublist z s \<and> z \<noteq> x"
proof (induction x y s rule: replace_all.induct)
  case (1 x y s)
  show ?case
  proof (cases "x = [] \<or> s = []")
    case True
    then have "replace_all x y s = s" by (subst replace_all.simps) simp
    with "1.prems" True assms show ?thesis by (auto simp: hideable_def)
  next
    case False
    show ?thesis
    proof (cases "prefix x s")
      case True
      then have "replace_all x y s = y @ replace_all x y (drop (length x) s)"
        using False by (subst replace_all.simps) simp
      then have "sublist z (replace_all x y (drop (length x) s))"
        using hideable_after_redacted [OF assms] "1.prems" by simp
      then have "sublist z (drop (length x) s) \<and> z \<noteq> x" using "1.IH"(1) [OF False True "1.prems"(1)] by blast
      then show ?thesis by (metis sublist_drop sublist_order.order_trans)
    next
      case no: False
      obtain c cs where s: "s = c # cs" using False by (cases s) auto
      then have r: "replace_all x y s = c # replace_all x y cs"
        using False no by (subst replace_all.simps) simp
      from "1.prems" r consider "prefix z (replace_all x y s)" | "sublist z (replace_all x y cs)"
        by (auto simp: sublist_Cons_right)
      then show ?thesis
      proof cases
        assume "prefix z (replace_all x y s)"
        then have "prefix z s" using prefix_of_replaced [OF "1.prems"(1)] assms by (auto simp: hideable_def)
        with no show ?thesis by (auto simp: prefix_imp_sublist)
      next
        assume "sublist z (replace_all x y cs)"
        then have "sublist z cs \<and> z \<noteq> x" using "1.IH"(2) [OF False no "1.prems"(1)] s by simp
        then show ?thesis using s by (auto simp: sublist_Cons_right)
      qed
    qed
  qed
qed

lemma redact_keeps_away:
  assumes "hideable z"
  shows "sublist z (redact xs s) \<Longrightarrow> sublist z s \<and> z \<notin> set xs"
proof (induction xs arbitrary: s)
  case Nil
  then show ?case by (simp add: redact_def)
next
  case (Cons x xs)
  let ?s = "if x \<noteq> [] then replace_all x redacted s else s"
  have "redact (x # xs) s = redact xs ?s" by (simp add: redact_def)
  with Cons have "sublist z ?s \<and> z \<notin> set xs" by simp
  then have "sublist z s \<and> z \<noteq> x" using replaced_keeps_away [OF assms refl, of x s] assms
    by (cases "x = []") (auto simp: hideable_def)
  with \<open>sublist z ?s \<and> z \<notin> set xs\<close> show ?case by simp
qed

section \<open>What is shown\<close>

text \<open>How \<open>pairError\<close> shows an error text from outside.\<close>

definition shown_error :: "code \<Rightarrow> string \<Rightarrow> string" where
  "shown_error c s = sanitized (redact (code_secrets c) s)"

text \<open>Bytes that are one character, whatever follows them.\<close>

definition whole :: "nat \<times> string \<Rightarrow> bool" where
  "whole x = (case x of (r, s) \<Rightarrow> s \<noteq> [] \<and> (\<forall>t. runes (s @ t) = (r, s) # runes t \<and> valid_utf8 (s @ t) = valid_utf8 t))"

lemma rune_len_prefix:
  assumes "rune_len s = Some k"
  shows "rune_len (take k s @ t) = Some k"
proof (cases s)
  case (Cons c cs)
  obtain n lo hi where n: "rune_class (byte c) = Some (n, lo, hi)" "n \<le> length cs" "cont lo hi (cs ! 0)"
    "list_all (cont 0x80 0xBF) (take (n - 1) (tl cs))" "k = n + 1"
    using assms Cons by (auto simp: rune_len.simps split: option.splits if_splits)
  have one: "1 \<le> n" using n(1) by (auto simp: rune_class_def split: if_splits)
  have "take n cs @ t = hd cs # take (n - 1) (tl cs) @ t" using n(2) one by (cases cs; cases n) auto
  moreover have "hd cs = cs ! 0" using n(2) one by (cases cs) auto
  moreover have "length (take (n - 1) (tl cs)) = n - 1" using n(2) one by simp
  ultimately show ?thesis using n one Cons by (simp add: rune_len.simps)
qed (use assms in simp)

lemma whole_char: "byte c < 0x80 \<Longrightarrow> whole (byte c, [c])"
  by (simp add: whole_def valid_utf8.simps(2))

lemma whole_rune:
  assumes "\<not> byte c < 0x80" and "rune_len (c # cs) = Some k"
  shows "whole (rune_value (take k (c # cs)), take k (c # cs))"
proof -
  obtain ds where ds: "take k (c # cs) = c # ds" "length ds = k - 1" "0 < k"
    using rune_len_pos [OF assms(2)] by (cases k) auto
  have "rune_len (c # ds @ t) = Some k" for t using rune_len_prefix [OF assms(2), of t] ds(1) by simp
  moreover have "take k (c # ds @ t) = c # ds" "drop (k - 1) (ds @ t) = t" for t using ds by (cases k; simp)+
  ultimately show ?thesis using assms(1) ds by (simp add: whole_def valid_utf8.simps(2) rune_step_def)
qed

lemma runes_whole: "valid_utf8 s \<Longrightarrow> list_all whole (runes s)"
proof (induction s rule: runes.induct)
  case (2 c cs)
  show ?case
  proof (cases "byte c < 0x80")
    case True
    with 2 show ?thesis by (simp add: whole_char valid_utf8.simps(2))
  next
    case False
    then obtain k where k: "rune_len (c # cs) = Some k" using "2.prems" by (auto simp: valid_utf8.simps(2))
    have "list_all whole (runes (drop (k - 1) cs))"
      using "2.IH"(2) [OF False] "2.prems" False k by (simp add: valid_utf8.simps(2) rune_step_def)
    with False k whole_rune [OF False k] show ?thesis by (simp add: rune_step_def)
  qed
qed simp

lemma whole_text:
  "list_all whole xs \<Longrightarrow> runes (concat (map snd xs) @ t) = xs @ runes t \<and> valid_utf8 (concat (map snd xs) @ t) = valid_utf8 t"
proof (induction xs)
  case (Cons x xs)
  obtain r b where x: "x = (r, b)" by fastforce
  have "whole (r, b)" using Cons.prems x by simp
  then have "runes (b @ concat (map snd xs) @ t) = (r, b) # runes (concat (map snd xs) @ t)"
    "valid_utf8 (b @ concat (map snd xs) @ t) = valid_utf8 (concat (map snd xs) @ t)"
    by (simp_all only: whole_def prod.case)
  with Cons x show ?case by simp
qed simp

lemma to_valid_valid: "valid_utf8 (to_valid invalid s)"
proof (induction invalid s rule: to_valid.induct)
  case (2 invalid c cs)
  show ?case
  proof (cases "byte c < 0x80")
    case True
    with 2 show ?thesis by (simp add: valid_utf8.simps(2))
  next
    case False
    show ?thesis
    proof (cases "rune_len (c # cs)")
      case None
      with 2 False show ?thesis by (simp add: valid_utf8.simps(2) byte_def)
    next
      case (Some k)
      with 2 False whole_rune [OF False Some] show ?thesis by (simp add: whole_def)
    qed
  qed
qed simp

text \<open>The shown text is made of visible characters that were there, and perhaps the ellipsis.\<close>

lemma shown_from_parts:
  assumes "list_all whole rs" and "list_all whole bs" and "list_all (\<lambda>(r, _). \<not> hidden_rune r) bs"
    and "length (concat (map snd bs)) \<le> maxShownError"
  shows "\<exists>xs. list_all whole xs \<and> list_all (\<lambda>(r, _). \<not> hidden_rune r) xs \<and> length (concat (map snd xs)) \<le> maxShownError
    \<and> shown_from (concat (map snd bs)) rs \<in> {concat (map snd xs), concat (map snd xs) @ ellipsis}"
  using assms
proof (induction rs arbitrary: bs)
  case Nil
  then show ?case by auto
next
  case (Cons x rs)
  obtain r s where x: "x = (r, s)" by fastforce
  show ?case
  proof (cases "hidden_rune r \<or> maxShownError < length (concat (map snd bs)) + length s")
    case True
    with Cons x show ?thesis by auto
  next
    case False
    with Cons.IH [of "bs @ [x]"] Cons.prems x show ?thesis by simp
  qed
qed

lemma whole_ellipsis: "whole (0x2026, ellipsis)" "\<not> hidden_rune 0x2026" "length ellipsis = 3"
proof -
  have "rune_len ellipsis = Some 3" by (simp add: ellipsis_def rune_len.simps rune_class_def cont_def byte_def)
  then have "whole (rune_value (take 3 ellipsis), take 3 ellipsis)"
    using whole_rune [of "CHR 0xE2" "[CHR 0x80, CHR 0xA6]" 3] by (simp add: ellipsis_def byte_def)
  then show "whole (0x2026, ellipsis)" by (simp add: ellipsis_def rune_value_def byte_def)
qed (simp_all add: hidden_rune_def control_rune_def format_rune_def format_ranges_def separator_rune_def ellipsis_def)

lemma whole_dash: "whole (0x2D, ''-'')" "\<not> hidden_rune 0x2D"
  using whole_char [of "CHR ''-''"]
  by (simp_all add: byte_def hidden_rune_def control_rune_def format_rune_def format_ranges_def separator_rune_def)

lemma sanitized_parts:
  "\<exists>xs. list_all whole xs \<and> list_all (\<lambda>(r, _). \<not> hidden_rune r) xs \<and> sanitized s = concat (map snd xs)
    \<and> length (sanitized s) \<le> maxShownError + 3 \<and> sanitized s \<noteq> []"
proof -
  obtain xs where xs: "list_all whole xs" "list_all (\<lambda>(r, _). \<not> hidden_rune r) xs" "length (concat (map snd xs)) \<le> maxShownError"
    and sh: "shown_from [] (runes (to_valid False s)) \<in> {concat (map snd xs), concat (map snd xs) @ ellipsis}"
    using shown_from_parts [OF runes_whole [OF to_valid_valid], of "[]" False s] by auto
  show ?thesis
  proof (cases "shown_from [] (runes (to_valid False s)) = []")
    case True
    then have "sanitized s = ''-''" by (simp add: sanitized_def)
    then show ?thesis using whole_dash by (intro exI [of _ "[(0x2D, ''-'')]"]) (simp add: maxShownError_def)
  next
    case False
    then have s: "sanitized s = shown_from [] (runes (to_valid False s))" by (simp add: sanitized_def)
    show ?thesis
    proof (cases "sanitized s = concat (map snd xs)")
      case True
      with xs s False show ?thesis by (intro exI [of _ xs]) simp
    next
      case False
      with xs s sh whole_ellipsis show ?thesis
        by (intro exI [of _ "xs @ [(0x2026, ellipsis)]"]) auto
    qed
  qed
qed

section \<open>The properties\<close>

text \<open>
  C34. \<open>ParseCode\<close> accepts a text exactly when it is short enough and, of all its maximal runs of base64url
  characters, exactly one (in however many places) is a payload, which is for an agent, over an allowed
  scheme, and not expired; what it returns is read from that payload alone.
\<close>

theorem code_is_the_only_payload:
  "parse_code L s now = Inr c \<longleftrightarrow> length s \<le> MaxCodeInput
    \<and> {r. maximal_run s r \<and> payload (cl_parse L) r} = {cd_link c}
    \<and> (\<exists>q. cl_parse L (cd_link c) = Some q \<and> qr_kind q = KindAgent
        \<and> relay_scheme_allowed (cl_scheme L) (cl_devstack L) (qr_relay q) \<and> now < qr_exp q
        \<and> c = \<lparr>cd_link = cd_link c, cd_relay = qr_relay q, cd_exp = qr_exp q, cd_claim = qr_claim q,
            cd_key = b64_raw_url (qr_key q)\<rparr>)"
proof -
  have found: "find_payload (cl_parse L) s = Inr (l, q) \<longleftrightarrow> length s \<le> MaxCodeInput
      \<and> cl_parse L l = Some q \<and> {r. maximal_run s r \<and> payload (cl_parse L) r} = {l}" for l q
  proof -
    have "find_payload (cl_parse L) s = Inr (l, q) \<longleftrightarrow> length s \<le> MaxCodeInput
        \<and> find_in (cl_parse L) None (base64URLRuns s) = Inr (Some (l, q))"
      by (auto simp: find_payload_def split: sum.splits option.splits)
    moreover have "{r \<in> set (base64URLRuns s). payload (cl_parse L) r} = {r. maximal_run s r \<and> payload (cl_parse L) r}"
      by (auto simp: runs_maximal)
    ultimately show ?thesis using find_in_spec [of None "cl_parse L" "base64URLRuns s" l q] by simp
  qed
  have parsed: "parse_code L s now = Inr c \<longleftrightarrow> (\<exists>l q. find_payload (cl_parse L) s = Inr (l, q) \<and> qr_kind q = KindAgent
      \<and> relay_scheme_allowed (cl_scheme L) (cl_devstack L) (qr_relay q) \<and> now < qr_exp q
      \<and> c = \<lparr>cd_link = l, cd_relay = qr_relay q, cd_exp = qr_exp q, cd_claim = qr_claim q, cd_key = b64_raw_url (qr_key q)\<rparr>)"
    by (auto simp: parse_code_def split: sum.splits prod.splits if_splits)
  show ?thesis unfolding parsed found by (cases c) auto
qed

text \<open>
  C29. Redacting hides the code's secrets: what is left holds none of them, whatever the text was and in
  whatever order the secrets overlap, provided a secret holds no bracket and is no part of the word that
  takes its place.
\<close>

theorem redacted_text_holds_no_secret:
  assumes "x \<in> set xs" and "hideable x"
  shows "\<not> sublist x (redact xs s)"
  using redact_keeps_away [OF assms(2)] assms(1) by blast

theorem redacted_text_holds_no_secret_witness:
  "\<not> sublist ''abab'' (redact [''abab'', ''xaba''] ''xabababx'')"
  by (rule redacted_text_holds_no_secret)
    (simp_all add: hideable_def bracket_free_def sublist_code)

text \<open>
  A foreign text is shown on one terminal line: at least one byte and at most 203, valid UTF-8, and no
  control character, no invisible formatting character and no line or paragraph separator.
\<close>

lemma shown_text_is_safe:
  "valid_utf8 (sanitized s) \<and> list_all (\<lambda>(r, _). \<not> hidden_rune r) (runes (sanitized s))
    \<and> 0 < length (sanitized s) \<and> length (sanitized s) \<le> 203"
proof -
  obtain xs where xs: "list_all whole xs" "list_all (\<lambda>(r, _). \<not> hidden_rune r) xs" "sanitized s = concat (map snd xs)"
    "length (sanitized s) \<le> maxShownError + 3" "sanitized s \<noteq> []"
    using sanitized_parts by blast
  have "runes (sanitized s) = xs" "valid_utf8 (sanitized s)" using whole_text [OF xs(1), of "[]"] xs(3) by simp_all
  with xs show ?thesis by (simp add: maxShownError_def)
qed

text \<open>
  The two do not compose in the order the code uses them: a text with a control character inside a secret
  holds no secret to redact, and sanitizing then drops the control character and shows the secret whole.
\<close>

lemma url_byte: "b64url_char c \<Longrightarrow> byte c < 0x80 \<and> \<not> hidden_rune (byte c)"
  by (auto simp: b64url_char_def Let_def hidden_rune_def control_rune_def format_rune_def format_ranges_def
      separator_rune_def byte_def)

lemma replace_all_absent: "\<not> sublist x s \<Longrightarrow> replace_all x y s = s"
proof (induction x y s rule: replace_all.induct)
  case (1 x y s)
  show ?case
  proof (cases "x = [] \<or> s = []")
    case True
    then show ?thesis by (subst replace_all.simps) simp
  next
    case False
    have "\<not> prefix x s" using "1.prems" by (auto dest: prefix_imp_sublist)
    moreover have "\<not> sublist x (tl s)" using "1.prems" False by (cases s) (auto simp: sublist_Cons_right)
    ultimately show ?thesis using "1.IH"(2) False by (subst replace_all.simps) simp
  qed
qed

lemma ascii_text:
  "list_all (\<lambda>c. byte c < 0x80) s \<Longrightarrow> to_valid b s = s \<and> runes s = map (\<lambda>c. (byte c, [c])) s"
  by (induction s arbitrary: b) auto

lemma ascii_shown:
  "length b + length s \<le> maxShownError \<Longrightarrow>
    shown_from b (map (\<lambda>c. (byte c, [c])) s) = b @ filter (\<lambda>c. \<not> hidden_rune (byte c)) s"
  by (induction s arbitrary: b) auto

lemma sanitizing_undoes_redacting:
  assumes "url_run x" and "2 \<le> length x" and "length x < maxShownError"
  shows "\<exists>s. \<not> sublist x s \<and> sanitized (redact [x] s) = x"
proof -
  obtain c d xs where x: "x = c # d # xs" using assms(2) by (cases x; cases "tl x") auto
  let ?s = "c # CHR 0x01 # d # xs"
  have one: "byte (CHR 0x01) = 1" "\<not> b64url_char (CHR 0x01)" by (simp_all add: b64url_char_def byte_def)
  have u: "list_all b64url_char (c # d # xs)" using assms(1) x by (simp add: url_run_def)
  have "\<not> sublist x (d # xs)" using x by (auto dest: sublist_length_le)
  moreover have "d \<noteq> CHR 0x01" "c \<noteq> CHR 0x01" using u one by auto
  ultimately have absent: "\<not> sublist x ?s" using x by (simp add: sublist_Cons_right)
  have "redact [x] ?s = ?s" using replace_all_absent [OF absent] by (simp add: redact_def)
  moreover have "list_all (\<lambda>c. byte c < 0x80) ?s" using u url_byte one by (auto simp: list_all_iff)
  moreover have "filter (\<lambda>c. \<not> hidden_rune (byte c)) ?s = x"
    using u url_byte one x by (auto simp: list_all_iff hidden_rune_def control_rune_def filter_id_conv)
  ultimately have "sanitized (redact [x] ?s) = x"
    using ascii_text [of ?s False] ascii_shown [of "[]" ?s] assms(3) x by (simp add: sanitized_def)
  with absent show ?thesis by blast
qed

text \<open>The name sent when the operator gives none passes the check of a name; it is never a shortened one.\<close>

lemma agent_name: "check_name ''Agent'' = None"
  by (simp add: check_name_def MaxNameBytes_def valid_utf8.simps byte_def trim_space_def trimmed_def space_len_def Let_def
      space_end_def control_rune_def format_rune_def format_ranges_def separator_rune_def)

lemma default_name_checked:
  "check_name (default_name host) = None"
  "default_name host \<in> {''Agent'', ''Agent on '' @ trim_space (the host)}"
proof -
  have "length s \<le> MaxNameBytes" if "check_name s = None" for s using that by (auto simp: check_name_def split: if_splits)
  then have cut: "truncate_utf8 s MaxNameBytes = s" if "check_name s = None" for s
    using that by (simp add: truncate_utf8_def)
  have "default_name host = ''Agent'' \<or> default_name host = ''Agent on '' @ trim_space (the host)
      \<and> check_name (''Agent on '' @ trim_space (the host)) = None"
    using cut by (cases host) (auto simp: default_name_def Let_def simp del: append_Cons)
  then show "check_name (default_name host) = None"
    "default_name host \<in> {''Agent'', ''Agent on '' @ trim_space (the host)}"
    using agent_name by auto
qed

lemma sas_is_six_digits:
  "format_sas s = Some t \<longleftrightarrow> length s = 6 \<and> list_all digit_char s \<and> t = take 3 s @ '' '' @ drop 3 s"
  by (auto simp: format_sas_def)

end
