(* ===== verification/StateFile.thy ===== *)
theory StateFile
  imports JsonText
begin

text \<open>
  \<open>internal/state/format.go\<close>: the state file. The cipher is a parameter: \<open>seal\<close> and \<open>unseal\<close> are
  XChaCha20-Poly1305's \<open>Seal\<close> and \<open>Open\<close> (key, nonce, text, additional data), and a protector is its
  name with its \<open>Wrap\<close> and \<open>Unwrap\<close>. Of the cipher the properties use \<open>aead\<close>: that its text is 16 bytes
  longer, and that \<open>Open\<close> gives a text for exactly what \<open>Seal\<close> makes of it.
\<close>

definition Version :: int where "Version = 1"
definition MaxHeaderLen :: nat where "MaxHeaderLen = 8192"
definition MaxWrappedKeyLen :: nat where "MaxWrappedKeyLen = 4096"
definition MaxStateLen :: nat where "MaxStateLen = 16 * 2 ^ 20"
definition DataKeyLen :: nat where "DataKeyLen = 32"
definition NonceLen :: nat where "NonceLen = 24"
definition Overhead :: nat where "Overhead = 16"
definition maxFileLen :: nat where "maxFileLen = 2 + MaxHeaderLen + 4 + MaxStateLen + Overhead"

lemmas lengths = MaxHeaderLen_def MaxWrappedKeyLen_def MaxStateLen_def DataKeyLen_def NonceLen_def Overhead_def

datatype state_error =
    SeFormat string
  | SeUnknownProtector
  | SeUnwrap
  | SeDecrypt
  | SeOther string

record header =
  hd_v :: int
  hd_protector :: string
  hd_wrapped :: string
  hd_nonce :: string
  hd_created :: int

text \<open>The form of a protector's name, \<open>^[a-z][a-z0-9-]{0,31}$\<close>.\<close>

definition lower_char :: "char \<Rightarrow> bool" where
  "lower_char c = (97 \<le> byte c \<and> byte c \<le> 122)"

definition protectorName :: "string \<Rightarrow> bool" where
  "protectorName s = (case s of [] \<Rightarrow> False
     | c # cs \<Rightarrow> lower_char c \<and> length cs \<le> 31
         \<and> list_all (\<lambda>c. lower_char c \<or> 48 \<le> byte c \<and> byte c \<le> 57 \<or> c = CHR ''-'') cs)"

definition validate :: "header \<Rightarrow> state_error option" where
  "validate h =
    (if hd_v h \<noteq> Version then Some (SeFormat ''unknown version'')
     else if \<not> protectorName (hd_protector h) then Some (SeFormat ''protector name'')
     else if hd_wrapped h = [] \<or> MaxWrappedKeyLen < length (hd_wrapped h) then Some (SeFormat ''wrapped key length'')
     else if length (hd_nonce h) \<noteq> NonceLen then Some (SeFormat ''nonce length'')
     else if hd_created h \<le> 0 then Some (SeFormat ''created_at'')
     else None)"

text \<open>\<open>json.Marshal\<close> of the header; a \<open>[]byte\<close> is standard base64 (an empty one is taken as nil here).\<close>

definition header_json :: "header \<Rightarrow> json" where
  "header_json h = JObj
     [(''v'', JNum (show_int (hd_v h))), (''protector'', JStr (hd_protector h)),
      (''wrapped_key'', JStr (b64_std (hd_wrapped h))), (''nonce'', JStr (b64_std (hd_nonce h))),
      (''created_at'', JNum (show_int (hd_created h)))]"

definition header_text :: "header \<Rightarrow> string" where
  "header_text h = marshal_text (header_json h)"

definition marshal :: "header \<Rightarrow> state_error + string" where
  "marshal h = (case validate h of Some e \<Rightarrow> Inl e
     | None \<Rightarrow> if MaxHeaderLen < length (header_text h) then Inl (SeFormat ''header length'') else Inr (header_text h))"

definition header_names :: "string list" where
  "header_names = [''v'', ''protector'', ''wrapped_key'', ''nonce'', ''created_at'']"

definition decode_header :: "(string \<times> json) list \<Rightarrow> header option" where
  "decode_header ms =
    (let (v, k1) = dec_field ''v'' dec_int ms 0; (p, k2) = dec_field ''protector'' dec_string ms [];
         (w, k3) = dec_field ''wrapped_key'' dec_bytes ms None; (n, k4) = dec_field ''nonce'' dec_bytes ms None;
         (c, k5) = dec_field ''created_at'' dec_int ms 0 in
     if known_members header_names ms \<and> k1 \<and> k2 \<and> k3 \<and> k4 \<and> k5
     then Some \<lparr>hd_v = v, hd_protector = p, hd_wrapped = (case w of None \<Rightarrow> [] | Some w \<Rightarrow> w),
       hd_nonce = (case n of None \<Rightarrow> [] | Some n \<Rightarrow> n), hd_created = c\<rparr> else None)"

text \<open>
  \<open>parseHeader\<close>. Nothing follows the header's value, so the decoder's \<open>More\<close> is false; the header is
  re-encoded only when it is valid, so the nil slices above do not occur.
\<close>

definition parse_header :: "string \<Rightarrow> state_error + header" where
  "parse_header b = (case struct_members (json_scan b) of
       None \<Rightarrow> Inl (SeFormat ''header is not a JSON object'')
     | Some ms \<Rightarrow>
       if fst (dec_field ''v'' dec_raw ms None) \<noteq> Some (JNum ''1'') then Inl (SeFormat ''unknown version'')
       else (case decode_header ms of
           None \<Rightarrow> Inl (SeFormat ''header members'')
         | Some h \<Rightarrow> (case validate h of Some e \<Rightarrow> Inl e
             | None \<Rightarrow> if header_text h \<noteq> b then Inl (SeFormat ''header is not canonical'') else Inr h)))"

section \<open>The file\<close>

definition be16 :: "nat \<Rightarrow> string" where
  "be16 n = [char_byte (n div 256 mod 256), char_byte (n mod 256)]"

definition be32 :: "nat \<Rightarrow> string" where
  "be32 n = be16 (n div 65536 mod 65536) @ be16 (n mod 65536)"

definition get16 :: "string \<Rightarrow> nat" where
  "get16 s = byte (s ! 0) * 256 + byte (s ! 1)"

definition get32 :: "string \<Rightarrow> nat" where
  "get32 s = get16 s * 65536 + get16 (drop 2 s)"

type_synonym cipher = "string \<Rightarrow> string \<Rightarrow> string \<Rightarrow> string \<Rightarrow> string"
type_synonym opener = "string \<Rightarrow> string \<Rightarrow> string \<Rightarrow> string \<Rightarrow> string option"

definition encode_file :: "cipher \<Rightarrow> header \<Rightarrow> string \<Rightarrow> string \<Rightarrow> state_error + string" where
  "encode_file seal h key plain =
    (if length key \<noteq> DataKeyLen then Inl (SeOther ''state: data key length'')
     else if MaxStateLen < length plain then Inl (SeOther ''state: state too large'')
     else (case marshal h of Inl e \<Rightarrow> Inl e
       | Inr hb \<Rightarrow> Inr (be16 (length hb) @ hb @ be32 (length plain + Overhead) @ seal key (hd_nonce h) plain hb)))"

definition split_file :: "string \<Rightarrow> state_error + string \<times> string" where
  "split_file raw =
    (if length raw < 2 then Inl (SeFormat ''truncated'')
     else (let hlen = get16 raw in
       if hlen = 0 \<or> MaxHeaderLen < hlen then Inl (SeFormat ''header length'')
       else if length raw < 2 + hlen + 4 then Inl (SeFormat ''truncated'')
       else (let clen = get32 (drop (2 + hlen) raw); rest = length raw - (2 + hlen + 4) in
         if clen < Overhead \<or> MaxStateLen + Overhead < clen then Inl (SeFormat ''ciphertext length'')
         else if rest < clen then Inl (SeFormat ''truncated'')
         else if clen < rest then Inl (SeFormat ''trailing bytes'')
         else Inr (take hlen (drop 2 raw), drop (2 + hlen + 4) raw))))"

record protector =
  pr_name :: string
  pr_wrap :: "string \<Rightarrow> string option"
  pr_unwrap :: "string \<Rightarrow> string option"

text \<open>\<open>decodeFile\<close>: the plaintext, the header, the protector and the data key.\<close>

definition decode_file ::
  "opener \<Rightarrow> string \<Rightarrow> (string \<Rightarrow> protector option) option \<Rightarrow> state_error + string \<times> header \<times> protector \<times> string" where
  "decode_file unseal raw resolve = (case split_file raw of Inl e \<Rightarrow> Inl e
     | Inr (hb, ct) \<Rightarrow> (case parse_header hb of Inl e \<Rightarrow> Inl e
       | Inr h \<Rightarrow> (case resolve of None \<Rightarrow> Inl SeUnknownProtector
         | Some f \<Rightarrow> (case f (hd_protector h) of None \<Rightarrow> Inl SeUnknownProtector
           | Some p \<Rightarrow>
             if pr_name p \<noteq> hd_protector h then Inl SeUnknownProtector
             else (case pr_unwrap p (hd_wrapped h) of None \<Rightarrow> Inl SeUnwrap
               | Some key \<Rightarrow>
                 if length key \<noteq> DataKeyLen then Inl SeUnwrap
                 else (case unseal key (hd_nonce h) ct hb of None \<Rightarrow> Inl SeDecrypt
                   | Some plain \<Rightarrow> Inr (plain, h, p, key)))))))"

definition aead :: "cipher \<Rightarrow> opener \<Rightarrow> bool" where
  "aead seal unseal = ((\<forall>k n t a. length (seal k n t a) = length t + Overhead)
     \<and> (\<forall>k n c a t. (unseal k n c a = Some t) = (c = seal k n t a)))"

section \<open>The header's encoding\<close>

lemma plain_byte:
  assumes "byte c \<in> {43, 47} \<or> 48 \<le> byte c \<and> byte c \<le> 57 \<or> 65 \<le> byte c \<and> byte c \<le> 90 \<or> 97 \<le> byte c \<and> byte c \<le> 122"
  shows "safe_char c"
  using assms by (auto simp: safe_char_def simple_char_def byte_def)

lemma b64_char_text:
  assumes "n < 64"
  shows "safe_char (b64_char True n)"
proof (rule plain_byte)
  let ?c = "b64_char True n"
  have "byte ?c = (if n < 26 then 65 + n else if n < 52 then 71 + n else if n < 62 then n - 4 else if n = 62 then 43 else 47)"
    using assms by (simp add: b64_char_def byte_def)
  then show "byte ?c \<in> {43, 47} \<or> 48 \<le> byte ?c \<and> byte ?c \<le> 57 \<or> 65 \<le> byte ?c \<and> byte ?c \<le> 90 \<or> 97 \<le> byte ?c \<and> byte ?c \<le> 122"
    using assms by auto
qed

lemma b64_plain: "plain_text (b64_std s)"
proof -
  have "safe_char CHR ''=''" by (simp add: safe_char_def simple_char_def byte_def)
  then show ?thesis
    by (induction "True" "True" s rule: b64_encode.induct) (auto simp: plain_text_def b64_char_text six_bits)
qed

lemma name_plain: "protectorName p \<Longrightarrow> plain_text p"
  by (auto simp: protectorName_def plain_text_def lower_char_def safe_char_def simple_char_def byte_def list_all_iff
      split: list.splits)

lemma protector_length: "protectorName p \<Longrightarrow> length p \<le> 32"
  by (auto simp: protectorName_def split: list.splits)

lemma names_text [simp]:
  "plain_text ''v''" "plain_text ''protector''" "plain_text ''wrapped_key''" "plain_text ''nonce''" "plain_text ''created_at''"
  by (simp_all add: plain_text_def safe_char_def simple_char_def byte_def)

lemma names_plain [simp]:
  "plain_name ''v''" "plain_name ''protector''" "plain_name ''wrapped_key''" "plain_name ''nonce''" "plain_name ''created_at''"
  by (simp_all add: plain_name_def byte_def)

lemma validD:
  assumes "validate h = None"
  shows "hd_v h = 1" and "protectorName (hd_protector h)" and "hd_wrapped h \<noteq> []"
    and "length (hd_wrapped h) \<le> 4096" and "length (hd_nonce h) = 24" and "0 < hd_created h"
  using assms by (simp_all add: validate_def Version_def lengths split: if_splits)

lemma header_plain: "validate h = None \<Longrightarrow> plain_json (header_json h)"
  by (auto simp: header_json_def b64_plain name_plain [OF validD(2)])

lemma header_scanned: "validate h = None \<Longrightarrow> json_scan (header_text h) = Some (header_json h)"
  unfolding header_text_def by (rule scan_text [OF header_plain])

lemma show_nat_length: "n < 10 ^ Suc k \<Longrightarrow> length (show_nat n) \<le> Suc k"
proof (induction k arbitrary: n)
  case 0
  then show ?case by (simp add: show_nat.simps)
next
  case (Suc k)
  then have "n div 10 < 10 ^ Suc k" by (simp add: less_mult_imp_div_less)
  from Suc.IH [OF this] show ?case by (subst show_nat.simps) simp
qed

text \<open>A valid header is never too long for its length field.\<close>

lemma header_length:
  assumes "validate h = None" and "hd_created h < 2 ^ 63"
  shows "length (header_text h) \<le> MaxHeaderLen"
proof -
  note v = validD [OF assms(1)]
  have "nat (hd_created h) < 10 ^ Suc 18" using assms(2) by simp
  then have "length (show_nat (nat (hd_created h))) \<le> Suc 18" by (rule show_nat_length)
  moreover have "Suc (Suc (length (hd_wrapped h))) div 3 \<le> 1366" using v(4) by presburger
  ultimately show ?thesis
    using v protector_length [OF v(2)] name_plain [OF v(2)]
    by (simp add: header_text_def header_json_def marshal_string_def marshal_plain b64_plain b64_std_length show_int_def
        comma_join_def show_nat.simps [of "Suc 0"] MaxHeaderLen_def)
qed

lemma one_text: "show_int 1 = ''1''"
proof -
  have "char_byte 49 = CHR ''1''" using char_byte_byte [of "CHR ''1''"] by (simp add: byte_def)
  then show ?thesis by (simp add: show_int_def show_nat.simps [of "Suc 0"])
qed

lemma dec_field_keeps:
  assumes "\<And>j v. P v \<Longrightarrow> P (fst (d j v))" and "P v"
  shows "P (fst (dec_field n d ms v))"
  using assms(2)
proof (induction ms arbitrary: v)
  case (Cons p ms)
  then show ?case by (cases p) (simp add: case_prod_beta assms(1))
qed simp

lemma parse_int_less: "parse_int s = Some n \<Longrightarrow> n < 2 ^ 63"
  by (cases s) (auto split: if_splits option.splits)

lemma decoded_created: "decode_header ms = Some h \<Longrightarrow> hd_created h < 2 ^ 63"
proof -
  have "fst (dec_field ''created_at'' dec_int ms 0) < 2 ^ 63"
  proof (rule dec_field_keeps [where P = "\<lambda>n. n < 2 ^ 63"])
    show "fst (dec_int j v) < 2 ^ 63" if "v < 2 ^ 63" for j v
      using that by (cases j) (auto dest: parse_int_less split: option.split)
  qed simp
  then show "decode_header ms = Some h \<Longrightarrow> hd_created h < 2 ^ 63"
    by (auto simp: decode_header_def case_prod_beta Let_def split: if_splits)
qed

lemma header_read_back:
  assumes "validate h = None" and "hd_created h < 2 ^ 63"
  shows "parse_header (header_text h) = Inr h"
proof -
  note v = validD [OF assms(1)]
  let ?ms = "[(''v'', JNum (show_int (hd_v h))), (''protector'', JStr (hd_protector h)),
      (''wrapped_key'', JStr (b64_std (hd_wrapped h))), (''nonce'', JStr (b64_std (hd_nonce h))),
      (''created_at'', JNum (show_int (hd_created h)))]"
  have members: "struct_members (json_scan (header_text h)) = Some ?ms"
    using header_scanned [OF assms(1)] by (simp add: header_json_def)
  have c: "- (2 ^ 63) \<le> hd_created h" using v(6) by simp
  have dec: "dec_field n d ?ms x = (case map_of ?ms n of None \<Rightarrow> (x, True) | Some j \<Rightarrow> d j x)" if "plain_name n" for n d x
    by (rule dec_field_plain [OF that]) auto
  have "known_members header_names ?ms" by (simp add: known_members_def header_names_def)
  moreover have "dec_field ''v'' dec_int ?ms 0 = (hd_v h, True)"
    by (simp only: dec names_plain) (simp add: v(1))
  moreover have "dec_field ''protector'' dec_string ?ms [] = (hd_protector h, True)"
    by (simp only: dec names_plain) simp
  moreover have "dec_field ''wrapped_key'' dec_bytes ?ms None = (Some (hd_wrapped h), True)"
    by (simp only: dec names_plain) simp
  moreover have "dec_field ''nonce'' dec_bytes ?ms None = (Some (hd_nonce h), True)"
    by (simp only: dec names_plain) simp
  moreover have "dec_field ''created_at'' dec_int ?ms 0 = (hd_created h, True)"
    by (simp only: dec names_plain) (simp add: parse_show_int [OF c assms(2)])
  ultimately have "decode_header ?ms = Some h"
    by (simp only: decode_header_def Let_def case_prod_conv simp_thms if_True option.case) simp
  moreover have "fst (dec_field ''v'' dec_raw ?ms None) = Some (JNum ''1'')"
    by (simp only: dec names_plain) (simp add: v(1) one_text)
  ultimately show ?thesis using assms by (simp add: parse_header_def members del: dec_field.simps)
qed

lemma parsed_header:
  "parse_header b = Inr h \<longleftrightarrow> validate h = None \<and> hd_created h < 2 ^ 63 \<and> b = header_text h"
  (is "?l = ?r")
proof
  assume ?l
  then obtain ms where "decode_header ms = Some h" "validate h = None" "header_text h = b"
    by (auto simp: parse_header_def split: option.splits if_splits)
  with decoded_created show ?r by blast
next
  assume ?r
  with header_read_back show ?l by blast
qed

section \<open>The file's encoding\<close>

lemma be16_get: "n < 65536 \<Longrightarrow> get16 (be16 n @ t) = n"
proof -
  assume "n < 65536"
  then have "n div 256 < 256" by simp
  then have "n div 256 mod 256 = n div 256" by simp
  then show ?thesis by (simp add: be16_def get16_def byte_char_byte mod_less_divisor)
qed

lemma be16_length [simp]: "length (be16 n) = 2"
  by (simp add: be16_def)

lemma be32_get: "n < 2 ^ 32 \<Longrightarrow> get32 (be32 n @ t) = n"
proof -
  assume "n < 2 ^ 32"
  then have "n div 65536 < 65536" by simp
  then have "n div 65536 mod 65536 = n div 65536" by simp
  moreover have "drop 2 (be16 m @ s) = s" for m s by (simp add: be16_def)
  ultimately show ?thesis using be16_get [of "n div 65536" "be16 (n mod 65536) @ t"] be16_get [of "n mod 65536" t]
    by (simp add: get32_def be32_def)
qed

lemma be32_length [simp]: "length (be32 n) = 4"
  by (simp add: be32_def)

lemma two_bytes: "2 \<le> length s \<Longrightarrow> take 2 s = be16 (get16 s)"
proof -
  assume "2 \<le> length s"
  then obtain a b t where s: "s = a # b # t" by (cases s; cases "tl s") auto
  show ?thesis using byte_less [of a] byte_less [of b] by (simp add: s be16_def get16_def)
qed

lemma get16_less: "get16 s < 65536"
  using byte_less [of "s ! 0"] byte_less [of "s ! 1"] by (simp add: get16_def)

lemma four_bytes: "4 \<le> length s \<Longrightarrow> take 4 s = be32 (get32 s)"
proof -
  assume s: "4 \<le> length s"
  have "take 4 s = take 2 s @ take 2 (drop 2 s)" using take_add [of 2 2 s] by simp
  moreover have "get16 (drop 2 s) < 65536" "get16 s < 65536" by (rule get16_less)+
  ultimately show ?thesis using two_bytes [of s] two_bytes [of "drop 2 s"] s by (simp add: get32_def be32_def)
qed

text \<open>A file splits into a header and a ciphertext exactly when it is their framing.\<close>

lemma split_file_iff:
  "split_file raw = Inr (hb, ct) \<longleftrightarrow>
     raw = be16 (length hb) @ hb @ be32 (length ct) @ ct \<and> hb \<noteq> [] \<and> length hb \<le> MaxHeaderLen
     \<and> Overhead \<le> length ct \<and> length ct \<le> MaxStateLen + Overhead"
  (is "?l = ?r")
proof
  assume l: ?l
  let ?h = "get16 raw" and ?c = "get32 (drop (2 + get16 raw) raw)"
  have len: "2 + ?h + 4 \<le> length raw" and h: "0 < ?h" "?h \<le> MaxHeaderLen"
    and c: "Overhead \<le> ?c" "?c \<le> MaxStateLen + Overhead" "length raw - (2 + ?h + 4) = ?c"
    and hb: "hb = take ?h (drop 2 raw)" and ct: "ct = drop (2 + ?h + 4) raw"
    using l by (auto simp: split_file_def Let_def split: if_splits)
  have hl: "length hb = ?h" and cl: "length ct = ?c" using len hb ct c(3) by simp_all
  have "take 2 raw = be16 ?h" using len by (intro two_bytes) simp
  moreover have "take 4 (drop (2 + ?h) raw) = be32 ?c" using len by (intro four_bytes) simp
  moreover have "raw = take 2 raw @ take ?h (drop 2 raw) @ take 4 (drop (2 + ?h) raw) @ drop (2 + ?h + 4) raw"
    by (metis append_take_drop_id drop_drop add.commute)
  ultimately have "raw = be16 (length hb) @ hb @ be32 (length ct) @ ct" unfolding hl cl using hb ct by simp
  then show ?r using hl cl h c by auto
next
  assume r: ?r
  then have raw: "raw = be16 (length hb) @ hb @ be32 (length ct) @ ct" by simp
  have small: "length hb < 65536" "length ct < 2 ^ 32" using r by (simp_all add: lengths)
  have "get16 raw = length hb" unfolding raw using small(1) by (rule be16_get)
  moreover have drops: "drop (2 + length hb) raw = be32 (length ct) @ ct" "drop 2 raw = hb @ be32 (length ct) @ ct"
    unfolding raw by (simp_all add: be16_def)
  moreover have "drop (2 + length hb + 4) raw = ct"
  proof -
    have "raw = (be16 (length hb) @ hb @ be32 (length ct)) @ ct" using raw by simp
    moreover have "length (be16 (length hb) @ hb @ be32 (length ct)) = 2 + length hb + 4" by simp
    ultimately show ?thesis by (metis append_eq_conv_conj)
  qed
  moreover have "get32 (be32 (length ct) @ ct) = length ct" using small(2) by (rule be32_get)
  ultimately show ?l using r by (simp add: split_file_def Let_def)
qed

lemma marshal_valid:
  assumes "hd_created h < 2 ^ 63"
  shows "marshal h = Inr hb \<longleftrightarrow> validate h = None \<and> hb = header_text h"
  using header_length [OF _ assms] by (auto simp: marshal_def not_less [symmetric] split: option.split)

lemma header_text_not_Nil: "header_text h \<noteq> []"
  by (simp add: header_text_def header_json_def)

lemma decoded_iff:
  assumes "aead seal unseal"
  shows "decode_file unseal raw (Some f) = Inr (plain, h, p, key) \<longleftrightarrow>
    f (hd_protector h) = Some p \<and> pr_name p = hd_protector h \<and> pr_unwrap p (hd_wrapped h) = Some key
    \<and> hd_created h < 2 ^ 63 \<and> encode_file seal h key plain = Inr raw"
    (is "?l = ?r")
proof
  assume l: ?l
  then obtain hb ct where split: "split_file raw = Inr (hb, ct)" and head: "parse_header hb = Inr h"
    and p: "f (hd_protector h) = Some p" "pr_name p = hd_protector h" "pr_unwrap p (hd_wrapped h) = Some key"
    and key: "length key = DataKeyLen" and ct: "unseal key (hd_nonce h) ct hb = Some plain"
    by (auto simp: decode_file_def split: sum.splits prod.splits option.splits if_splits)
  have sealed: "ct = seal key (hd_nonce h) plain hb" "length ct = length plain + Overhead"
    using assms ct by (auto simp: aead_def)
  have head': "validate h = None" "hd_created h < 2 ^ 63" "hb = header_text h" using head by (simp_all add: parsed_header)
  have raw: "raw = be16 (length hb) @ hb @ be32 (length ct) @ ct" "length ct \<le> MaxStateLen + Overhead"
    using split by (auto simp: split_file_iff)
  have "marshal h = Inr hb" using head' by (simp add: marshal_valid)
  with raw sealed key have "encode_file seal h key plain = Inr raw" by (simp add: encode_file_def)
  with p head'(2) show ?r by simp
next
  assume r: ?r
  then obtain hb where key: "length key = DataKeyLen" and plain: "length plain \<le> MaxStateLen" and m: "marshal h = Inr hb"
    and raw: "raw = be16 (length hb) @ hb @ be32 (length plain + Overhead) @ seal key (hd_nonce h) plain hb"
    by (auto simp: encode_file_def split: if_splits sum.splits)
  let ?ct = "seal key (hd_nonce h) plain hb"
  have head: "validate h = None" "hb = header_text h" using m r by (simp_all add: marshal_valid)
  then have "parse_header hb = Inr h" using r by (simp add: parsed_header)
  moreover have "length ?ct = length plain + Overhead" "unseal key (hd_nonce h) ?ct hb = Some plain"
    using assms by (auto simp: aead_def)
  moreover from this have "split_file raw = Inr (hb, ?ct)"
    using raw head header_text_not_Nil header_length [OF head(1)] r plain by (simp add: split_file_iff)
  ultimately show ?l using r key by (simp add: decode_file_def)
qed

section \<open>Properties\<close>

text \<open>
  A header has one encoding: the parser accepts a text exactly when it is, byte for byte, what the
  writer makes of a valid header, and gives that header; so nothing in an accepted header is lost to
  repeated, unknown or differently cased members, spaces or another spelling of a number.
\<close>

lemma header_has_one_encoding:
  "parse_header b = Inr h \<longleftrightarrow> validate h = None \<and> hd_created h < 2 ^ 63 \<and> b = header_text h"
  by (rule parsed_header)

text \<open>
  C21. A state file is accepted exactly when it is what the writer makes of the header, the data key and
  the state it gives, with the key the header's own protector unwraps: nothing else decodes, and what
  was written decodes to what was written.
\<close>

theorem file_decodes_to_what_was_encoded:
  assumes "aead seal unseal"
  shows "decode_file unseal raw (Some f) = Inr (plain, h, p, key) \<longleftrightarrow>
    f (hd_protector h) = Some p \<and> pr_name p = hd_protector h \<and> pr_unwrap p (hd_wrapped h) = Some key
    \<and> hd_created h < 2 ^ 63 \<and> encode_file seal h key plain = Inr raw"
  by (rule decoded_iff [OF assms])

text \<open>A cipher with the laws, and a protector: the tag is the whole input, cut to its length.\<close>

definition toy_seal :: cipher where
  "toy_seal k n t a = replicate Overhead CHR ''t'' @ t"

definition toy_unseal :: opener where
  "toy_unseal k n c a = (if Overhead \<le> length c \<and> take Overhead c = replicate Overhead CHR ''t'' then Some (drop Overhead c) else None)"

lemma toy_aead: "aead toy_seal toy_unseal"
proof -
  have "(toy_unseal k n c a = Some t) = (c = toy_seal k n t a)" for k n c a t
    by (auto simp: toy_unseal_def toy_seal_def) (metis append_take_drop_id)
  then show ?thesis by (simp add: aead_def toy_seal_def)
qed

definition toy_protector :: protector where
  "toy_protector = \<lparr>pr_name = ''p'', pr_wrap = Some, pr_unwrap = Some\<rparr>"

definition toy_key :: string where "toy_key = replicate DataKeyLen CHR ''k''"

definition toy_header :: header where
  "toy_header = \<lparr>hd_v = 1, hd_protector = ''p'', hd_wrapped = toy_key, hd_nonce = replicate NonceLen CHR ''n'', hd_created = 1\<rparr>"

lemma toy_header_valid: "validate toy_header = None"
  by (simp add: validate_def toy_header_def Version_def protectorName_def lower_char_def byte_def toy_key_def lengths)

theorem file_decodes_to_what_was_encoded_witness:
  "\<exists>raw. decode_file toy_unseal raw (Some (\<lambda>_. Some toy_protector)) = Inr (''state'', toy_header, toy_protector, toy_key)"
proof -
  have "marshal toy_header = Inr (header_text toy_header)"
    using toy_header_valid by (simp add: marshal_valid toy_header_def)
  then obtain raw where "encode_file toy_seal toy_header toy_key ''state'' = Inr raw"
    by (simp add: encode_file_def toy_key_def lengths)
  then show ?thesis
    using file_decodes_to_what_was_encoded [OF toy_aead, of raw "\<lambda>_. Some toy_protector" "''state''" toy_header toy_protector toy_key]
    by (auto simp: toy_protector_def toy_header_def)
qed

end
