(* ===== verification/Store.thy ===== *)
theory Store
  imports StateFile
begin

text \<open>
  \<open>internal/state/state.go\<close> with the POSIX checks of \<open>fs_posix.go\<close>: one state directory, locked by
  this process. The directory is what is at the state file's path, the temporary files beside it, and
  which protectors still hold their key. Each operation is a function of the store, the directory and
  the results of its system calls, of the random source and of the protector (a record of outcomes);
  it returns both, and the error.
\<close>

section \<open>The directory\<close>

record stat =
  sa_uid :: nat
  sa_mode :: nat
  sa_links :: nat

datatype node = NoFile | Symlink | Special stat | Regular stat string

record dir =
  d_file :: node
  d_temps :: "string list"
  d_keys :: "string set"

datatype store_error =
    EInUse
  | ENotFound
  | EFile state_error
  | ENotOwnerOnly string
  | EReplaced
  | EExists
  | EProtectorUnknown
  | ENotDurable
  | EReplaceIncomplete
  | EReplacedPartly
  | ENothingToWipe
  | ENotLoaded
  | EClosed
  | EOther string

text \<open>\<open>checkOwnerMode\<close>, \<open>checkLinks\<close> and \<open>checkFile\<close>; the owner and the mode come first.\<close>

definition check_owner_mode :: "nat \<Rightarrow> stat \<Rightarrow> store_error option" where
  "check_owner_mode euid st =
    (if sa_uid st \<noteq> euid then Some (ENotOwnerOnly ''is owned by another user'')
     else if and (sa_mode st) 63 \<noteq> 0 then Some (ENotOwnerOnly ''is accessible to group or others'')
     else None)"

definition check_links :: "nat \<Rightarrow> store_error option" where
  "check_links n = (if n = 1 then None else if n = 0 then Some EReplaced
     else Some (ENotOwnerOnly ''has other links''))"

fun check_file :: "nat \<Rightarrow> node \<Rightarrow> store_error option" where
  "check_file euid (Regular st _) = (case check_owner_mode euid st of Some e \<Rightarrow> Some e | None \<Rightarrow> check_links (sa_links st))"
| "check_file euid _ = Some (ENotOwnerOnly ''is not a regular file'')"

datatype dir_node = NoDir | DirLink | DirOther | Dir stat

fun check_dir :: "nat \<Rightarrow> dir_node \<Rightarrow> store_error option" where
  "check_dir euid (Dir st) = check_owner_mode euid st"
| "check_dir euid DirLink = Some (ENotOwnerOnly ''is a symbolic link'')"
| "check_dir euid DirOther = Some (EOther ''not a directory'')"
| "check_dir euid NoDir = Some (EOther ''state directory'')"

text \<open>\<open>readNoFollow\<close> on what is at the path when it is opened.\<close>

fun read_no_follow :: "nat \<Rightarrow> bool \<Rightarrow> node \<Rightarrow> store_error + string" where
  "read_no_follow euid check NoFile = Inl ENotFound"
| "read_no_follow euid check Symlink = Inl (ENotOwnerOnly ''is a symbolic link'')"
| "read_no_follow euid check (Special st) =
     (if check then Inl (ENotOwnerOnly ''is not a regular file'') else Inl (EOther ''read''))"
| "read_no_follow euid check (Regular st b) =
     (case (if check then check_file euid (Regular st b) else None) of Some e \<Rightarrow> Inl e
      | None \<Rightarrow> if maxFileLen < length b then Inl (EFile (SeFormat ''file too large'')) else Inr b)"

section \<open>Writing\<close>

text \<open>
  How \<open>writeAtomic\<close> ends: a step before the rename is done fails (what is left of the temporary file, if
  it could not be removed); the flush after the rename fails; or all is done.
\<close>

datatype write_end = WFails string "string option" | WNotFlushed | WDone

definition new_stat :: "nat \<Rightarrow> stat" where
  "new_stat euid = \<lparr>sa_uid = euid, sa_mode = 384, sa_links = 1\<rparr>"

definition left_behind :: "string option \<Rightarrow> dir \<Rightarrow> dir" where
  "left_behind t d = d\<lparr>d_temps := (case t of None \<Rightarrow> [] | Some t \<Rightarrow> [t]) @ d_temps d\<rparr>"

definition write_atomic :: "nat \<Rightarrow> write_end \<Rightarrow> string \<Rightarrow> dir \<Rightarrow> dir \<times> store_error option" where
  "write_atomic euid w raw d = (case w of
       WFails step t \<Rightarrow> (left_behind t d, Some (EOther step))
     | WNotFlushed \<Rightarrow> (d\<lparr>d_file := Regular (new_stat euid) raw\<rparr>, Some ENotDurable)
     | WDone \<Rightarrow> (d\<lparr>d_file := Regular (new_stat euid) raw\<rparr>, None))"

text \<open>The outside of the store: the user, the cipher, and the protector a header's name stands for.\<close>

record surround =
  su_euid :: nat
  su_seal :: cipher
  su_unseal :: opener
  su_resolve :: "(string \<Rightarrow> protector option) option"

record loaded =
  ld_prot :: protector
  ld_wrapped :: string
  ld_key :: string
  ld_created :: int

record store =
  st_lock :: bool
  st_loaded :: "loaded option"

definition write_state ::
  "surround \<Rightarrow> header \<Rightarrow> string option \<Rightarrow> write_end \<Rightarrow> string \<Rightarrow> string \<Rightarrow> dir \<Rightarrow> dir \<times> store_error option" where
  "write_state U h nonce w key state d = (case nonce of None \<Rightarrow> (d, Some (EOther ''rand''))
     | Some n \<Rightarrow> (case encode_file (su_seal U) (h\<lparr>hd_nonce := n\<rparr>) key state of
         Inl e \<Rightarrow> (d, Some (EFile e))
       | Inr raw \<Rightarrow> write_atomic (su_euid U) w raw d))"

definition save :: "surround \<Rightarrow> string option \<Rightarrow> write_end \<Rightarrow> string \<Rightarrow> store \<Rightarrow> dir \<Rightarrow> dir \<times> store_error option" where
  "save U nonce w state s d =
    (if \<not> st_lock s then (d, Some EClosed)
     else (case st_loaded s of None \<Rightarrow> (d, Some ENotLoaded)
       | Some l \<Rightarrow> write_state U \<lparr>hd_v = Version, hd_protector = pr_name (ld_prot l), hd_wrapped = ld_wrapped l,
             hd_nonce = [], hd_created = ld_created l\<rparr> nonce w (ld_key l) state d))"

section \<open>Opening, loading and closing\<close>

definition forget :: "store \<Rightarrow> store" where
  "forget s = s\<lparr>st_loaded := None\<rparr>"

definition load :: "surround \<Rightarrow> dir_node \<Rightarrow> store \<Rightarrow> dir \<Rightarrow> store \<times> (store_error + string)" where
  "load U dn s d =
    (if \<not> st_lock s then (s, Inl EClosed)
     else (case check_dir (su_euid U) dn of Some e \<Rightarrow> (s, Inl e)
       | None \<Rightarrow> (case read_no_follow (su_euid U) True (d_file d) of Inl e \<Rightarrow> (s, Inl e)
         | Inr raw \<Rightarrow> (case decode_file (su_unseal U) raw (su_resolve U) of Inl e \<Rightarrow> (s, Inl (EFile e))
           | Inr (plain, h, p, key) \<Rightarrow>
               (s\<lparr>st_loaded := Some \<lparr>ld_prot = p, ld_wrapped = hd_wrapped h, ld_key = key, ld_created = hd_created h\<rparr>\<rparr>,
                Inr plain)))))"

definition close_store :: "store \<Rightarrow> store" where
  "close_store s = \<lparr>st_lock = False, st_loaded = None\<rparr>"

text \<open>\<open>Lstat\<close> may fail for another reason than a missing file.\<close>

definition exists_file :: "bool \<Rightarrow> store \<Rightarrow> dir \<Rightarrow> store_error + bool" where
  "exists_file stat_ok s d = (if \<not> st_lock s then Inl EClosed else if \<not> stat_ok then Inl (EOther ''lstat'')
     else Inr (d_file d \<noteq> NoFile))"

section \<open>Creating\<close>

text \<open>What creating takes from outside: the random key and nonce, the clock, and how the write ends.\<close>

record create_io =
  ci_stat :: bool
  ci_key :: "string option"
  ci_now :: int
  ci_nonce :: "string option"
  ci_write :: write_end

definition check_protector :: "protector option \<Rightarrow> store_error option" where
  "check_protector p = (case p of None \<Rightarrow> Some (EOther ''state: invalid protector'')
     | Some p \<Rightarrow> if protectorName (pr_name p) then None else Some (EOther ''state: invalid protector''))"

definition add_key :: "string \<Rightarrow> dir \<Rightarrow> dir" where
  "add_key n d = d\<lparr>d_keys := insert n (d_keys d)\<rparr>"

definition create_file ::
  "surround \<Rightarrow> create_io \<Rightarrow> protector \<Rightarrow> string \<Rightarrow> store \<Rightarrow> dir \<Rightarrow> store \<times> dir \<times> store_error option" where
  "create_file U io p state s d = (case ci_key io of None \<Rightarrow> (s, d, Some (EOther ''rand''))
     | Some key \<Rightarrow> (case pr_wrap p key of None \<Rightarrow> (s, d, Some (EOther ''could not wrap the key''))
       | Some wrapped \<Rightarrow>
         (let (d, e) = write_state U \<lparr>hd_v = Version, hd_protector = pr_name p, hd_wrapped = wrapped, hd_nonce = [],
               hd_created = ci_now io\<rparr> (ci_nonce io) (ci_write io) key state (add_key (pr_name p) d) in
          if e \<noteq> None \<and> e \<noteq> Some ENotDurable then (s, d, e)
          else (s\<lparr>st_loaded := Some \<lparr>ld_prot = p, ld_wrapped = wrapped, ld_key = key, ld_created = ci_now io\<rparr>\<rparr>, d, e))))"

definition create :: "surround \<Rightarrow> create_io \<Rightarrow> protector option \<Rightarrow> string \<Rightarrow> store \<Rightarrow> dir \<Rightarrow> store \<times> dir \<times> store_error option" where
  "create U io p state s d =
    (if \<not> st_lock s then (s, d, Some EClosed)
     else (case check_protector p of Some e \<Rightarrow> (s, d, Some e)
       | None \<Rightarrow> (case exists_file (ci_stat io) s d of Inl e \<Rightarrow> (s, d, Some e)
         | Inr found \<Rightarrow> if found then (s, d, Some EExists) else create_file U io (the p) state s d)))"

text \<open>\<open>oldProtector\<close>: the one loaded, or the one the file's header names.\<close>

definition old_protector :: "surround \<Rightarrow> store \<Rightarrow> dir \<Rightarrow> protector option" where
  "old_protector U s d = (case st_loaded s of Some l \<Rightarrow> Some (ld_prot l)
     | None \<Rightarrow> (case su_resolve U of None \<Rightarrow> None
       | Some f \<Rightarrow> (case read_no_follow (su_euid U) False (d_file d) of Inl _ \<Rightarrow> None
         | Inr raw \<Rightarrow> (case split_file raw of Inl _ \<Rightarrow> None
           | Inr (hb, _) \<Rightarrow> (case parse_header hb of Inl _ \<Rightarrow> None
             | Inr h \<Rightarrow> (case f (hd_protector h) of None \<Rightarrow> None
               | Some p \<Rightarrow> if pr_name p = hd_protector h then Some p else None))))))"

section \<open>Replacing\<close>

text \<open>
  The outcomes of \<open>CreateReplace\<close>: the probe (whether the file system can rename over an open file), the
  old protector's \<open>Wipe\<close>, opening the old file, the two places it may be overwritten (what it holds after
  a failure), the flushes retried (\<open>flushRetries\<close> of them; none on POSIX), and closing it.
\<close>

record replace_io =
  ri_create :: create_io
  ri_probe :: "bool option"
  ri_wipe :: bool
  ri_open :: bool
  ri_early :: "string option"
  ri_flush :: "bool list"
  ri_late :: bool
  ri_close :: bool

definition drop_key :: "string \<Rightarrow> dir \<Rightarrow> dir" where
  "drop_key n d = d\<lparr>d_keys := d_keys d - {n}\<rparr>"

definition zeros :: "nat \<Rightarrow> string" where
  "zeros n = replicate n (char_byte 0)"

text \<open>What became of the old file's bytes, once the name is gone: there was no file held, or they were
  kept, overwritten, or overwritten in part.\<close>

datatype old_bytes = NotHeld | Kept | Zeroed | ZeroFailed

text \<open>The old file, opened: held, not a regular file, or not opened.\<close>

datatype opened = Held stat string | NotRegular | OpenFailed

definition open_for_overwrite :: "bool \<Rightarrow> node \<Rightarrow> opened" where
  "open_for_overwrite ok n = (case n of Regular st b \<Rightarrow> if ok then Held st b else OpenFailed
     | NoFile \<Rightarrow> OpenFailed | _ \<Rightarrow> NotRegular)"

definition overwrite_held :: "replace_io \<Rightarrow> store \<times> dir \<times> store_error option \<Rightarrow> store \<times> dir \<times> old_bytes \<times> store_error option" where
  "overwrite_held io r = (case r of (s, d, e) \<Rightarrow>
     if e \<noteq> None \<and> e \<noteq> Some ENotDurable then (s, d, Kept, Some EReplaceIncomplete)
     else if e = Some ENotDurable \<and> True \<notin> set (ri_flush io) then (s, d, Kept, Some ENotDurable)
     else if \<not> ri_late io then (s, d, ZeroFailed, Some EReplacedPartly)
     else if \<not> ri_close io then (s, d, Zeroed, Some EReplacedPartly)
     else (s, d, Zeroed, None))"

definition not_held :: "store \<times> dir \<times> store_error option \<Rightarrow> store \<times> dir \<times> old_bytes \<times> store_error option" where
  "not_held r = (case r of (s, d, e) \<Rightarrow>
     (s, d, NotHeld, if e \<noteq> None \<and> e \<noteq> Some ENotDurable then Some EReplaceIncomplete else e))"

definition replace_file ::
  "surround \<Rightarrow> replace_io \<Rightarrow> bool \<Rightarrow> protector \<Rightarrow> string \<Rightarrow> store \<Rightarrow> dir \<Rightarrow> store \<times> dir \<times> old_bytes \<times> store_error option" where
  "replace_file U io hold p state s d = (case open_for_overwrite (ri_open io) (d_file d) of
       OpenFailed \<Rightarrow> (s, d, Kept, Some EReplaceIncomplete)
     | NotRegular \<Rightarrow> not_held (create_file U (ri_create io) p state s d)
     | Held st b \<Rightarrow>
         if hold then overwrite_held io (create_file U (ri_create io) p state s d)
         else (case ri_early io of
             Some part \<Rightarrow> (s, d\<lparr>d_file := Regular st part\<rparr>, ZeroFailed, Some EReplaceIncomplete)
           | None \<Rightarrow> not_held (create_file U (ri_create io) p state s (d\<lparr>d_file := Regular st (zeros (length b))\<rparr>))))"

definition create_replace ::
  "surround \<Rightarrow> replace_io \<Rightarrow> protector option \<Rightarrow> string \<Rightarrow> store \<Rightarrow> dir \<Rightarrow> store \<times> dir \<times> old_bytes \<times> store_error option" where
  "create_replace U io p state s d =
    (if \<not> st_lock s then (s, d, Kept, Some EClosed)
     else (case check_protector p of Some e \<Rightarrow> (s, d, Kept, Some e)
       | None \<Rightarrow> (case exists_file (ci_stat (ri_create io)) s d of Inl e \<Rightarrow> (s, d, Kept, Some e)
         | Inr found \<Rightarrow>
           if \<not> found then (case create_file U (ri_create io) (the p) state s d of (s, d, e) \<Rightarrow> (s, d, NotHeld, e))
           else (case old_protector U s d of None \<Rightarrow> (s, d, Kept, Some EProtectorUnknown)
             | Some q \<Rightarrow> (case ri_probe io of None \<Rightarrow> (s, d, Kept, Some (EOther ''nothing was replaced''))
               | Some hold \<Rightarrow>
                 if \<not> ri_wipe io then (s, d, Kept, Some (EOther ''could not delete the old key''))
                 else replace_file U io hold (the p) state (forget s) (drop_key (pr_name q) d))))))"

section \<open>Wiping\<close>

text \<open>
  \<open>overwriteAndRemove\<close> of one file: it may fail before anything is written, while it is overwritten (what the
  file then holds), or after that, before it is removed.
\<close>

datatype remove_end = Removed | NotOverwritten | PartWritten string | NotRemoved

record wipe_io =
  wi_wipe :: bool
  wi_stat :: bool
  wi_file :: remove_end
  wi_list :: bool
  wi_temps :: "remove_end list"
  wi_sync :: bool

definition remove_node :: "remove_end \<Rightarrow> node \<Rightarrow> node" where
  "remove_node e n = (case n of
       NoFile \<Rightarrow> NoFile
     | Regular st b \<Rightarrow> (case e of Removed \<Rightarrow> NoFile | NotOverwritten \<Rightarrow> n | PartWritten p \<Rightarrow> Regular st p
         | NotRemoved \<Rightarrow> Regular st (zeros (length b)))
     | _ \<Rightarrow> if e = Removed then NoFile else n)"

fun remove_temps :: "remove_end list \<Rightarrow> string list \<Rightarrow> string list" where
  "remove_temps es [] = []"
| "remove_temps es (t # ts) =
     (case es of [] \<Rightarrow> t # ts
      | e # es \<Rightarrow> (case e of Removed \<Rightarrow> [] | NotOverwritten \<Rightarrow> [t] | PartWritten p \<Rightarrow> [p]
          | NotRemoved \<Rightarrow> [zeros (length t)]) @ remove_temps es ts)"

definition remove_files :: "wipe_io \<Rightarrow> dir \<Rightarrow> dir \<times> store_error list" where
  "remove_files io d =
    (let f = remove_node (wi_file io) (d_file d);
         ts = (if wi_list io then remove_temps (wi_temps io) (d_temps d) else d_temps d) in
     (d\<lparr>d_file := f, d_temps := ts\<rparr>,
      (if f \<noteq> NoFile then [EOther ''wipe state file''] else [])
      @ (if \<not> wi_list io \<or> ts \<noteq> [] then [EOther ''remove temporary file''] else [])
      @ (if wi_sync io then [] else [EOther ''sync state directory''])))"

text \<open>\<open>Wipe\<close>; its error is the list of the errors joined, none when it is empty.\<close>

definition wipe :: "surround \<Rightarrow> wipe_io \<Rightarrow> store \<Rightarrow> dir \<Rightarrow> store \<times> dir \<times> store_error list" where
  "wipe U io s d =
    (if \<not> st_lock s then (s, d, [EClosed])
     else (case old_protector U s d of
         None \<Rightarrow> (case exists_file (wi_stat io) s d of Inl e \<Rightarrow> (s, d, [e])
           | Inr found \<Rightarrow>
             if \<not> found \<and> wi_list io \<and> d_temps d = [] then (s, d, [ENothingToWipe])
             else (case remove_files io d of (d, es) \<Rightarrow> (forget s, d, EProtectorUnknown # es)))
       | Some p \<Rightarrow>
           if \<not> wi_wipe io then (s, d, [EOther ''could not delete its key''])
           else (case remove_files io (drop_key (pr_name p) d) of (d, es) \<Rightarrow> (forget s, d, es))))"

text \<open>\<open>WipeAll\<close>: every protector is asked, whatever the others answered; \<open>None\<close> is a nil entry.\<close>

fun wipe_keys :: "(protector option \<times> bool) list \<Rightarrow> dir \<Rightarrow> dir \<times> store_error list" where
  "wipe_keys [] d = (d, [])"
| "wipe_keys ((None, _) # ps) d = wipe_keys ps d"
| "wipe_keys ((Some p, ok) # ps) d =
     (let (d, es) = wipe_keys ps (if ok then drop_key (pr_name p) d else d) in
      (d, if ok then es else EOther ''could not delete its key'' # es))"

definition wipe_all :: "wipe_io \<Rightarrow> (protector option \<times> bool) list \<Rightarrow> store \<Rightarrow> dir \<Rightarrow> store \<times> dir \<times> store_error list" where
  "wipe_all io ps s d =
    (if \<not> st_lock s then (s, d, [EClosed])
     else (case wipe_keys ps d of (d, es) \<Rightarrow> (case remove_files io d of (d, es') \<Rightarrow> (forget s, d, es @ es'))))"

section \<open>Opening\<close>

text \<open>\<open>Open\<close>: whether the directory could be made, what it is then, the lock, and removing what a crash left.\<close>

datatype lock_end = Locked | InUse | LockFailed

definition open_store :: "nat \<Rightarrow> bool \<Rightarrow> dir_node \<Rightarrow> lock_end \<Rightarrow> wipe_io \<Rightarrow> dir \<Rightarrow> dir \<times> (store_error + store)" where
  "open_store euid made dn lk io d =
    (if \<not> made then (d, Inl (EOther ''create state directory''))
     else (case check_dir euid dn of Some e \<Rightarrow> (d, Inl e)
       | None \<Rightarrow> (case lk of InUse \<Rightarrow> (d, Inl EInUse) | LockFailed \<Rightarrow> (d, Inl (EOther ''lock''))
         | Locked \<Rightarrow>
             if \<not> wi_list io then (d, Inl (EOther ''read directory''))
             else (let ts = remove_temps (wi_temps io) (d_temps d) in
               (d\<lparr>d_temps := ts\<rparr>, if ts \<noteq> [] then Inl (EOther ''remove temporary file'')
                 else Inr \<lparr>st_lock = True, st_loaded = None\<rparr>)))))"

section \<open>Reading only\<close>

definition readOnlyAttempts :: nat where "readOnlyAttempts = 20"

definition read_only_delay :: "nat \<Rightarrow> duration" where
  "read_only_delay n = min (millisecond * 2 ^ min (n - 1) 7) (100 * millisecond)"

text \<open>The attempts: what is at the path at each (it may change between), and the time slept.\<close>

fun read_attempts :: "nat \<Rightarrow> nat \<Rightarrow> nat \<Rightarrow> (nat \<Rightarrow> node) \<Rightarrow> (store_error + string) \<times> duration" where
  "read_attempts euid 0 n at = (Inl EReplaced, 0)"
| "read_attempts euid (Suc m) n at =
     (let wait = (if 0 < n then read_only_delay n else 0) in
      case read_no_follow euid True (at n) of
        Inl EReplaced \<Rightarrow> (let (r, t) = read_attempts euid m (n + 1) at in (r, wait + t))
      | r \<Rightarrow> (r, wait))"

definition read_only :: "surround \<Rightarrow> dir_node \<Rightarrow> (nat \<Rightarrow> node) \<Rightarrow> (store_error + string \<times> string \<times> int) \<times> duration" where
  "read_only U dn at =
    (if dn = NoDir then (Inl ENotFound, 0)
     else (case check_dir (su_euid U) dn of Some e \<Rightarrow> (Inl e, 0)
       | None \<Rightarrow> (case read_attempts (su_euid U) readOnlyAttempts 0 at of
           (Inl e, t) \<Rightarrow> (Inl e, t)
         | (Inr raw, t) \<Rightarrow> (case decode_file (su_unseal U) raw (su_resolve U) of
             Inl e \<Rightarrow> (Inl (EFile e), t)
           | Inr (plain, h, p, key) \<Rightarrow> (Inr (plain, hd_protector h, hd_created h), t)))))"

section \<open>What the directory holds\<close>

text \<open>What \<open>Load\<close> gives for the directory as it is, in a store that is open and may read it.\<close>

definition stored :: "surround \<Rightarrow> dir \<Rightarrow> store_error + string" where
  "stored U d = (case read_no_follow (su_euid U) True (d_file d) of Inl e \<Rightarrow> Inl e
     | Inr raw \<Rightarrow> (case decode_file (su_unseal U) raw (su_resolve U) of Inl e \<Rightarrow> Inl (EFile e)
       | Inr (plain, _) \<Rightarrow> Inr plain))"

lemma load_stored:
  assumes "st_lock s" and "check_dir (su_euid U) dn = None"
  shows "snd (load U dn s d) = stored U d"
  using assms by (simp add: load_def stored_def split: sum.split prod.split)

text \<open>A protector a header's name leads back to, and that unwraps what it wrapped.\<close>

definition prot_ok :: "surround \<Rightarrow> protector \<Rightarrow> bool" where
  "prot_ok U p = ((\<exists>f. su_resolve U = Some f \<and> f (pr_name p) = Some p)
     \<and> (\<forall>k w. pr_wrap p k = Some w \<longrightarrow> pr_unwrap p w = Some k))"

text \<open>What the store holds opens its own file.\<close>

definition loaded_ok :: "surround \<Rightarrow> loaded \<Rightarrow> bool" where
  "loaded_ok U l = ((\<exists>f. su_resolve U = Some f \<and> f (pr_name (ld_prot l)) = Some (ld_prot l))
     \<and> pr_unwrap (ld_prot l) (ld_wrapped l) = Some (ld_key l) \<and> ld_created l < 2 ^ 63)"

definition store_ok :: "surround \<Rightarrow> store \<Rightarrow> bool" where
  "store_ok U s = (\<forall>l. st_loaded s = Some l \<longrightarrow> loaded_ok U l)"

definition header_for :: "loaded \<Rightarrow> string \<Rightarrow> header" where
  "header_for l n = \<lparr>hd_v = Version, hd_protector = pr_name (ld_prot l), hd_wrapped = ld_wrapped l, hd_nonce = n,
     hd_created = ld_created l\<rparr>"

definition in_place :: "store_error option \<Rightarrow> bool" where
  "in_place e = (e = None \<or> e = Some ENotDurable)"

lemma encoded_length:
  assumes "aead seal unseal" and "encode_file seal h key plain = Inr raw"
  shows "length raw \<le> maxFileLen"
proof -
  obtain hb where "length plain \<le> MaxStateLen" and m: "marshal h = Inr hb"
    and raw: "raw = be16 (length hb) @ hb @ be32 (length plain + Overhead) @ seal key (hd_nonce h) plain hb"
    using assms(2) by (auto simp: encode_file_def split: if_splits sum.splits)
  moreover have "length hb \<le> MaxHeaderLen" using m by (auto simp: marshal_def split: option.splits if_splits)
  moreover have "length (seal key (hd_nonce h) plain hb) = length plain + Overhead" using assms(1) by (simp add: aead_def)
  ultimately show ?thesis by (simp add: maxFileLen_def)
qed

text \<open>A file the store wrote reads back as what was written.\<close>

lemma stored_written:
  assumes "aead (su_seal U) (su_unseal U)" and "loaded_ok U l"
    and "encode_file (su_seal U) (header_for l n) (ld_key l) state = Inr raw"
    and "d_file d = Regular (new_stat (su_euid U)) raw"
  shows "stored U d = Inr state"
proof -
  obtain f where f: "su_resolve U = Some f" "f (pr_name (ld_prot l)) = Some (ld_prot l)"
    and u: "pr_unwrap (ld_prot l) (ld_wrapped l) = Some (ld_key l)" "ld_created l < 2 ^ 63"
    using assms(2) by (auto simp: loaded_ok_def)
  have "decode_file (su_unseal U) raw (Some f) = Inr (state, header_for l n, ld_prot l, ld_key l)"
    using decoded_iff [OF assms(1), of raw f state "header_for l n" "ld_prot l" "ld_key l"] f u assms(3)
    by (simp add: header_for_def)
  moreover have "read_no_follow (su_euid U) True (d_file d) = Inr raw"
    using encoded_length [OF assms(1,3)] assms(4)
    by (simp add: new_stat_def check_owner_mode_def check_links_def)
  ultimately show ?thesis using f(1) by (simp add: stored_def)
qed

text \<open>\<open>writeAtomic\<close>: the new file is in place, or the path is as it was.\<close>

lemma write_state_ends:
  assumes "write_state U h nonce w key state d = (d', e)"
  shows "if in_place e then (\<exists>n raw. nonce = Some n \<and> encode_file (su_seal U) (h\<lparr>hd_nonce := n\<rparr>) key state = Inr raw
        \<and> d' = d\<lparr>d_file := Regular (new_stat (su_euid U)) raw\<rparr>)
    else d_file d' = d_file d \<and> d_keys d' = d_keys d"
  using assms
  by (auto simp: write_state_def write_atomic_def in_place_def left_behind_def split: option.splits sum.splits write_end.splits)

lemma write_state_errors:
  assumes "write_state U h nonce w key state d = (d', Some e)"
  shows "e \<in> {ENotDurable} \<union> range EFile \<union> range EOther"
  using assms by (auto simp: write_state_def write_atomic_def split: option.splits sum.splits write_end.splits)

lemma save_ends:
  assumes "aead (su_seal U) (su_unseal U)" and "store_ok U s" and "save U nonce w state s d = (d', e)"
  shows "if in_place e then stored U d' = Inr state else d_file d' = d_file d \<and> d_keys d' = d_keys d"
proof (cases "st_lock s \<and> st_loaded s \<noteq> None")
  case True
  then obtain l where l: "st_loaded s = Some l" by auto
  then have ok: "loaded_ok U l" using assms(2) by (simp add: store_ok_def)
  have w: "write_state U (header_for l []) nonce w (ld_key l) state d = (d', e)"
    using assms(3) True l by (simp add: save_def header_for_def)
  show ?thesis
  proof (cases "in_place e")
    case True
    then obtain n raw where "encode_file (su_seal U) (header_for l n) (ld_key l) state = Inr raw"
      and "d' = d\<lparr>d_file := Regular (new_stat (su_euid U)) raw\<rparr>"
      using write_state_ends [OF w] by (auto simp: header_for_def)
    then show ?thesis using stored_written [OF assms(1) ok] True by simp
  next
    case False
    with write_state_ends [OF w] show ?thesis by simp
  qed
next
  case False
  with assms(3) show ?thesis by (auto simp: save_def in_place_def split: if_splits option.splits)
qed

lemma create_file_ends:
  assumes "aead (su_seal U) (su_unseal U)" and "prot_ok U p" and "ci_now io < 2 ^ 63"
    and "create_file U io p state s d = (s', d', e)"
  shows "if in_place e
    then stored U d' = Inr state \<and> st_lock s' = st_lock s \<and> (\<exists>l. st_loaded s' = Some l \<and> loaded_ok U l \<and> ld_prot l = p)
    else d_file d' = d_file d \<and> s' = s"
proof (cases "\<exists>key wrapped. ci_key io = Some key \<and> pr_wrap p key = Some wrapped")
  case False
  with assms(4) show ?thesis by (auto simp: create_file_def in_place_def split: option.splits)
next
  case True
  then obtain key wrapped where k: "ci_key io = Some key" and wr: "pr_wrap p key = Some wrapped" by blast
  let ?l = "\<lparr>ld_prot = p, ld_wrapped = wrapped, ld_key = key, ld_created = ci_now io\<rparr>"
  obtain d1 e1 where w: "write_state U (header_for ?l []) (ci_nonce io) (ci_write io) key state (add_key (pr_name p) d) = (d1, e1)"
    by fastforce
  have r: "d' = d1" "e = e1" "s' = (if in_place e1 then s\<lparr>st_loaded := Some ?l\<rparr> else s)"
    using assms(4) k wr w by (auto simp: create_file_def header_for_def in_place_def split: if_splits)
  have ok: "loaded_ok U ?l" using assms(2,3) wr by (auto simp: loaded_ok_def prot_ok_def)
  show ?thesis
  proof (cases "in_place e1")
    case True
    then obtain n raw where "encode_file (su_seal U) (header_for ?l n) (ld_key ?l) state = Inr raw"
      and "d1 = (add_key (pr_name p) d)\<lparr>d_file := Regular (new_stat (su_euid U)) raw\<rparr>"
      using write_state_ends [OF w] by (auto simp: header_for_def)
    then have "stored U d1 = Inr state" by (intro stored_written [OF assms(1) ok]) simp_all
    with True r ok show ?thesis by simp
  next
    case False
    with write_state_ends [OF w] r show ?thesis by (simp add: add_key_def)
  qed
qed

lemma create_ends:
  assumes "aead (su_seal U) (su_unseal U)" and "\<forall>q. p = Some q \<longrightarrow> prot_ok U q" and "ci_now io < 2 ^ 63"
    and "create U io p state s d = (s', d', e)"
  shows "if in_place e
    then stored U d' = Inr state \<and> st_lock s' = st_lock s \<and> (\<exists>l. st_loaded s' = Some l \<and> loaded_ok U l)
    else d_file d' = d_file d \<and> s' = s"
proof (cases "\<exists>q. p = Some q \<and> create U io p state s d = create_file U io q state s d")
  case True
  then obtain q where q: "p = Some q" "create U io p state s d = create_file U io q state s d" by blast
  have "prot_ok U q" using assms(2) q(1) by simp
  then have "if in_place e
      then stored U d' = Inr state \<and> st_lock s' = st_lock s \<and> (\<exists>l. st_loaded s' = Some l \<and> loaded_ok U l \<and> ld_prot l = q)
      else d_file d' = d_file d \<and> s' = s"
    using create_file_ends [OF assms(1) _ assms(3)] assms(4) unfolding q(2) by blast
  then show ?thesis by (cases "in_place e") auto
next
  case False
  then have "s' = s \<and> d' = d \<and> \<not> in_place e"
    using assms(4)
    by (auto simp: create_def check_protector_def exists_file_def in_place_def split: option.splits sum.splits if_splits)
  then show ?thesis by simp
qed

text \<open>What \<open>CreateReplace\<close> leaves when there was a file, by its error.\<close>

definition replace_left ::
  "surround \<Rightarrow> protector option \<Rightarrow> string \<Rightarrow> store \<Rightarrow> dir \<Rightarrow> store \<times> dir \<times> old_bytes \<times> store_error option \<Rightarrow> bool" where
  "replace_left U p state s d r = (case r of (s', d', old, e) \<Rightarrow>
     (let new = (stored U d' = Inr state \<and> (\<exists>l. st_loaded s' = Some l \<and> loaded_ok U l \<and> Some (ld_prot l) = p)) in
      case e of
        None \<Rightarrow> new \<and> old \<in> {Zeroed, NotHeld}
      | Some EReplaceIncomplete \<Rightarrow> st_loaded s' = None \<and> (d_file d' = d_file d \<or> old \<in> {NotHeld, ZeroFailed})
      | Some ENotDurable \<Rightarrow> new \<and> old \<in> {Kept, NotHeld}
      | Some EReplacedPartly \<Rightarrow> new \<and> old \<in> {Zeroed, ZeroFailed}
      | Some _ \<Rightarrow> s' = s \<and> d' = d \<and> old = Kept))"

lemma replace_file_left:
  assumes "aead (su_seal U) (su_unseal U)" and "prot_ok U p" and "ci_now (ri_create io) < 2 ^ 63"
    and "st_loaded s = None"
  shows "replace_left U (Some p) state s0 d (replace_file U io hold p state s (drop_key q d))"
proof -
  have ends: "if in_place e
      then stored U d' = Inr state \<and> (\<exists>l. st_loaded s' = Some l \<and> loaded_ok U l \<and> ld_prot l = p)
      else st_loaded s' = None \<and> d_file d' = d_file d1"
    if "create_file U (ri_create io) p state s d1 = (s', d', e)" for s' d' e d1
    using create_file_ends [OF assms(1-3) that] assms(4) by (cases "in_place e") auto
  have nh: "replace_left U (Some p) state s0 d (not_held (create_file U (ri_create io) p state s d1))" for d1
  proof -
    obtain s' d' e where c: "create_file U (ri_create io) p state s d1 = (s', d', e)" using prod_cases3 by blast
    show ?thesis
    proof (cases "in_place e")
      case True
      then have "e = None \<or> e = Some ENotDurable" by (simp add: in_place_def)
      with ends [OF c] True show ?thesis by (auto simp: not_held_def c replace_left_def)
    next
      case False
      with ends [OF c] show ?thesis by (auto simp: not_held_def c replace_left_def in_place_def)
    qed
  qed
  have held: "replace_left U (Some p) state s0 d (overwrite_held io (create_file U (ri_create io) p state s (drop_key q d)))"
  proof -
    obtain s' d' e where c: "create_file U (ri_create io) p state s (drop_key q d) = (s', d', e)" using prod_cases3 by blast
    show ?thesis
    proof (cases "in_place e")
      case True
      then have "e = None \<or> e = Some ENotDurable" by (simp add: in_place_def)
      with ends [OF c] True show ?thesis by (auto simp: overwrite_held_def c replace_left_def)
    next
      case False
      then have "overwrite_held io (s', d', e) = (s', d', Kept, Some EReplaceIncomplete)"
        by (simp add: overwrite_held_def in_place_def)
      moreover have "d_file (drop_key q d) = d_file d" by (simp add: drop_key_def)
      ultimately show ?thesis using ends [OF c] False by (simp add: c replace_left_def)
    qed
  qed
  show ?thesis
  proof (cases "open_for_overwrite (ri_open io) (d_file (drop_key q d))")
    case (Held st b)
    then show ?thesis
      using held nh assms(4) by (auto simp: replace_file_def replace_left_def split: option.split)
  next
    case NotRegular
    with nh show ?thesis by (simp add: replace_file_def)
  next
    case OpenFailed
    then show ?thesis using assms(4) by (simp add: replace_file_def replace_left_def drop_key_def)
  qed
qed

lemma create_replace_left:
  assumes "aead (su_seal U) (su_unseal U)" and "prot_ok U p" and "ci_now (ri_create io) < 2 ^ 63"
    and "d_file d \<noteq> NoFile"
  shows "replace_left U (Some p) state s d (create_replace U io (Some p) state s d)"
proof -
  have same: "replace_left U (Some p) state s d (s, d, Kept, Some e)"
    if "e \<notin> {EReplaceIncomplete, ENotDurable, EReplacedPartly}" for e
    using that by (simp add: replace_left_def split: store_error.split)
  have repl: "replace_left U (Some p) state s d (replace_file U io hold p state (forget s) (drop_key q d))" for hold q
    by (rule replace_file_left [OF assms(1-3)]) (simp add: forget_def)
  show ?thesis
  proof (cases "st_lock s \<and> check_protector (Some p) = None \<and> ci_stat (ri_create io) \<and> ri_probe io \<noteq> None \<and> ri_wipe io
      \<and> old_protector U s d \<noteq> None")
    case True
    then show ?thesis using repl assms(4) by (auto simp: create_replace_def exists_file_def)
  next
    case False
    then show ?thesis using assms(4)
      by (auto simp: create_replace_def exists_file_def check_protector_def intro!: same split: option.split)
  qed
qed

section \<open>The store as a cell\<close>

text \<open>
  What a user of the store sees: a cell that holds a state, is empty, or (after an operation that failed
  half-way) may hold anything. An operation and what it answered determine the cell that follows.
\<close>

datatype cell = Holds string | Empty | Unsure

datatype store_op =
    OpLoad dir_node
  | OpSave "string option" write_end string
  | OpCreate create_io "protector option" string
  | OpReplace replace_io "protector option" string
  | OpWipe wipe_io
  | OpWipeAll wipe_io "(protector option \<times> bool) list"
  | OpClose

datatype store_reply = Gave string | Ended "store_error list"

definition ended :: "store_error option \<Rightarrow> store_reply" where
  "ended e = Ended (case e of None \<Rightarrow> [] | Some e \<Rightarrow> [e])"

fun store_do :: "surround \<Rightarrow> store_op \<Rightarrow> store \<times> dir \<Rightarrow> store_reply \<times> store \<times> dir" where
  "store_do U (OpLoad dn) (s, d) = (case load U dn s d of (s', Inl e) \<Rightarrow> (Ended [e], s', d) | (s', Inr x) \<Rightarrow> (Gave x, s', d))"
| "store_do U (OpSave n w x) (s, d) = (case save U n w x s d of (d', e) \<Rightarrow> (ended e, s, d'))"
| "store_do U (OpCreate io p x) (s, d) = (case create U io p x s d of (s', d', e) \<Rightarrow> (ended e, s', d'))"
| "store_do U (OpReplace io p x) (s, d) = (case create_replace U io p x s d of (s', d', _, e) \<Rightarrow> (ended e, s', d'))"
| "store_do U (OpWipe io) (s, d) = (case wipe U io s d of (s', d', es) \<Rightarrow> (Ended es, s', d'))"
| "store_do U (OpWipeAll io ps) (s, d) = (case wipe_all io ps s d of (s', d', es) \<Rightarrow> (Ended es, s', d'))"
| "store_do U OpClose (s, d) = (Ended [], close_store s, d)"

text \<open>What a caller may pass: protectors that can be found again by name, a clock before the year 292e9.\<close>

fun op_ok :: "surround \<Rightarrow> store_op \<Rightarrow> bool" where
  "op_ok U (OpCreate io p x) = ((\<forall>q. p = Some q \<longrightarrow> prot_ok U q) \<and> ci_now io < 2 ^ 63)"
| "op_ok U (OpReplace io p x) = ((\<forall>q. p = Some q \<longrightarrow> prot_ok U q) \<and> ci_now (ri_create io) < 2 ^ 63)"
| "op_ok U _ = True"

definition sstep :: "surround \<Rightarrow> store \<times> dir \<Rightarrow> store_op \<times> store_reply \<Rightarrow> store \<times> dir \<Rightarrow> bool" where
  "sstep U w l w' = (op_ok U (fst l) \<and> store_do U (fst l) w = (snd l, w'))"

text \<open>The specification: what may be answered, and the cell that follows.\<close>

fun cell_after :: "store_op \<Rightarrow> store_reply \<Rightarrow> cell \<Rightarrow> cell" where
  "cell_after (OpSave n w x) (Ended es) c = (if es \<in> {[], [ENotDurable]} then Holds x else c)"
| "cell_after (OpCreate io p x) (Ended es) c = (if es \<in> {[], [ENotDurable]} then Holds x else c)"
| "cell_after (OpReplace io p x) (Ended es) c =
     (if es \<in> {[], [ENotDurable], [EReplacedPartly]} then Holds x else if es = [EReplaceIncomplete] then Unsure else c)"
| "cell_after (OpWipe io) (Ended es) c = (if es = [] then Empty
     else if es \<in> {[EClosed], [ENothingToWipe], [EOther ''could not delete its key'']} then c else Unsure)"
| "cell_after (OpWipeAll io ps) (Ended es) c = (if es = [] then Empty else if es = [EClosed] then c else Unsure)"
| "cell_after _ _ c = c"

fun cell_allows :: "surround \<Rightarrow> store_op \<Rightarrow> store_reply \<Rightarrow> cell \<Rightarrow> bool" where
  "cell_allows U (OpLoad dn) (Gave y) c = (c \<noteq> Empty \<and> (\<forall>x. c = Holds x \<longrightarrow> x = y))"
| "cell_allows U (OpLoad dn) (Ended es) c =
     (\<forall>x. c = Holds x \<longrightarrow> es = [EClosed] \<or> (\<exists>e. check_dir (su_euid U) dn = Some e \<and> es = [e]))"
| "cell_allows U (OpCreate io p x) r c = (\<forall>y. c = Holds y \<longrightarrow> r \<notin> {Ended [], Ended [ENotDurable]})"
| "cell_allows U _ r c = (\<forall>x. r \<noteq> Gave x)"

definition cell_step :: "surround \<Rightarrow> cell \<Rightarrow> store_op \<times> store_reply \<Rightarrow> cell \<Rightarrow> bool" where
  "cell_step U c l c' = (cell_allows U (fst l) (snd l) c \<and> c' = cell_after (fst l) (snd l) c)"

text \<open>The relation between the two.\<close>

fun file_is :: "surround \<Rightarrow> dir \<Rightarrow> cell \<Rightarrow> bool" where
  "file_is U d (Holds x) = (stored U d = Inr x)"
| "file_is U d Empty = (d_file d = NoFile)"
| "file_is U d Unsure = True"

definition store_is :: "surround \<Rightarrow> store \<times> dir \<Rightarrow> cell \<Rightarrow> bool" where
  "store_is U w c = (store_ok U (fst w) \<and> file_is U (snd w) c)"

lemma file_is_same: "d_file d' = d_file d \<Longrightarrow> file_is U d' c = file_is U d c"
  by (cases c) (simp_all add: stored_def)

lemma stored_NoFile: "d_file d = NoFile \<Longrightarrow> stored U d \<noteq> Inr x"
  by (simp add: stored_def)

lemma load_ok:
  assumes "aead (su_seal U) (su_unseal U)" and "load U dn s d = (s', r)" and "store_ok U s"
  shows "store_ok U s'"
proof (cases r)
  case (Inl e)
  with assms(2,3) show ?thesis by (auto simp: load_def split: if_splits option.splits sum.splits)
next
  case (Inr x)
  then obtain raw h p key where dec: "decode_file (su_unseal U) raw (su_resolve U) = Inr (x, h, p, key)"
    and s': "s' = s\<lparr>st_loaded := Some \<lparr>ld_prot = p, ld_wrapped = hd_wrapped h, ld_key = key, ld_created = hd_created h\<rparr>\<rparr>"
    using assms(2) by (auto simp: load_def split: if_splits option.splits sum.splits)
  obtain f where f: "su_resolve U = Some f"
    using dec by (auto simp: decode_file_def split: sum.splits prod.splits option.splits)
  show ?thesis using dec decoded_iff [OF assms(1)] f by (auto simp: store_ok_def loaded_ok_def s')
qed

lemma loads_as_stored:
  assumes "store_is U (s, d) c" and "aead (su_seal U) (su_unseal U)" and "load U dn s d = (s', r)"
  shows "\<exists>c'. cell_step U c (OpLoad dn, case r of Inl e \<Rightarrow> Ended [e] | Inr x \<Rightarrow> Gave x) c' \<and> store_is U (s', d) c'"
proof -
  have ok: "store_ok U s'" using load_ok [OF assms(2,3)] assms(1) by (simp add: store_is_def)
  have gave: "stored U d = Inr x" if "r = Inr x" for x
    using assms(3) that by (auto simp: load_def stored_def split: if_splits option.splits sum.splits)
  have failed: "e = EClosed \<or> check_dir (su_euid U) dn = Some e" if "stored U d = Inr x" "r = Inl e" for x e
    using assms(3) that by (auto simp: load_def stored_def split: if_splits option.splits sum.splits)
  have "cell_allows U (OpLoad dn) (case r of Inl e \<Rightarrow> Ended [e] | Inr x \<Rightarrow> Gave x) c"
    using gave failed assms(1) stored_NoFile by (cases r; cases c) (auto simp: store_is_def)
  moreover have "store_is U (s', d) c" using ok assms(1) by (simp add: store_is_def)
  ultimately show ?thesis by (cases r) (auto simp: cell_step_def)
qed

lemma store_ok_forget: "store_ok U (forget s)"
  by (simp add: store_ok_def forget_def)

lemma remove_files_ends:
  assumes "remove_files io d = (d', es)"
  shows "es = [] \<Longrightarrow> d_file d' = NoFile \<and> d_temps d' = []" and "d_keys d' = d_keys d"
  using assms by (auto simp: remove_files_def Let_def split: if_splits)

definition half_wiped :: "store_error set" where
  "half_wiped = {EProtectorUnknown, EOther ''wipe state file'', EOther ''remove temporary file'', EOther ''sync state directory''}"

lemma remove_files_errors: "remove_files io d = (d', es) \<Longrightarrow> set es \<subseteq> half_wiped"
  by (auto simp: remove_files_def Let_def half_wiped_def split: if_splits)

lemma unknown_half_wiped: "EProtectorUnknown \<in> half_wiped"
  by (simp add: half_wiped_def)

text \<open>\<open>Wipe\<close>: nothing is left, or nothing was done, or something failed on the way.\<close>

lemma wipe_ends:
  assumes "wipe U io s d = (s', d', es)"
  shows "(es = [] \<and> d_file d' = NoFile \<and> d_temps d' = [] \<and> s' = forget s)
    \<or> (es \<in> {[EClosed], [ENothingToWipe], [EOther ''could not delete its key''], [EOther ''lstat'']} \<and> d' = d \<and> s' = s)
    \<or> (es \<noteq> [] \<and> s' = forget s \<and> set es \<subseteq> half_wiped)"
proof -
  show ?thesis
  proof (cases "st_lock s")
    case False
    then show ?thesis using assms by (simp add: wipe_def)
  next
    case lock: True
    show ?thesis
    proof (cases "old_protector U s d")
      case None
      show ?thesis
      proof (cases "wi_stat io \<and> \<not> (d_file d = NoFile \<and> wi_list io \<and> d_temps d = [])")
        case True
        obtain d2 es2 where r: "remove_files io d = (d2, es2)" by fastforce
        have "s' = forget s" "es = EProtectorUnknown # es2"
          using True lock None r assms by (auto simp: wipe_def exists_file_def)
        then show ?thesis using remove_files_errors [OF r] unknown_half_wiped by simp
      next
        case False
        then show ?thesis using lock None assms by (auto simp: wipe_def exists_file_def split: if_splits)
      qed
    next
      case (Some p)
      obtain d2 es2 where r: "remove_files io (drop_key (pr_name p) d) = (d2, es2)" by fastforce
      show ?thesis
        using remove_files_errors [OF r] remove_files_ends(1) [OF r] assms lock Some r by (auto simp: wipe_def split: if_splits)
    qed
  qed
qed

lemma ended_simps [simp]:
  "(ended e = Ended []) = (e = None)" "(ended e = Ended [x]) = (e = Some x)" "ended e \<noteq> Gave y"
  by (auto simp: ended_def split: option.splits)

lemma saves_as_cell:
  assumes "store_is U (s, d) c" and "aead (su_seal U) (su_unseal U)" and "save U n w x s d = (d', e)"
  shows "\<exists>c'. cell_step U c (OpSave n w x, ended e) c' \<and> store_is U (s, d') c'"
proof (cases "in_place e")
  case True
  then have "cell_after (OpSave n w x) (ended e) c = Holds x" by (auto simp: in_place_def ended_def)
  moreover have "stored U d' = Inr x" using save_ends [OF assms(2) _ assms(3)] True assms(1) by (simp add: store_is_def)
  ultimately show ?thesis using assms(1) by (auto simp: cell_step_def store_is_def)
next
  case False
  then have "cell_after (OpSave n w x) (ended e) c = c" by (auto simp: in_place_def ended_def split: option.splits)
  moreover from False have "d_file d' = d_file d" using save_ends [OF assms(2) _ assms(3)] False assms(1) by (simp add: store_is_def)
  moreover from calculation(2) have "file_is U d' c" using file_is_same [of d' d U c] assms(1) by (simp add: store_is_def)
  ultimately show ?thesis using assms(1) by (auto simp: cell_step_def store_is_def)
qed

lemma create_needs_no_file:
  "create U io p x s d = (s', d', e) \<Longrightarrow> in_place e \<Longrightarrow> d_file d = NoFile"
  by (auto simp: create_def exists_file_def check_protector_def in_place_def split: if_splits option.splits)

lemma creates_as_cell:
  assumes "store_is U (s, d) c" and "aead (su_seal U) (su_unseal U)" and "op_ok U (OpCreate io p x)"
    and "create U io p x s d = (s', d', e)"
  shows "\<exists>c'. cell_step U c (OpCreate io p x, ended e) c' \<and> store_is U (s', d') c'"
proof (cases "in_place e")
  case True
  then have "cell_after (OpCreate io p x) (ended e) c = Holds x" by (auto simp: in_place_def ended_def)
  moreover have "stored U d' = Inr x" "store_ok U s'"
    using create_ends [OF assms(2) _ _ assms(4)] True assms(3) by (auto simp: store_ok_def)
  moreover have "\<forall>y. c \<noteq> Holds y"
    using create_needs_no_file [OF assms(4) True] stored_NoFile assms(1) by (auto simp: store_is_def)
  ultimately show ?thesis by (auto simp: cell_step_def store_is_def)
next
  case False
  then have "cell_after (OpCreate io p x) (ended e) c = c" by (auto simp: in_place_def ended_def split: option.splits)
  moreover have same: "d_file d' = d_file d" "s' = s"
    using create_ends [OF assms(2) _ _ assms(4)] False assms(3) by auto
  moreover have "store_is U (s', d') c" using file_is_same [OF same(1), of U c] same(2) assms(1) by (simp add: store_is_def)
  ultimately show ?thesis using False by (auto simp: cell_step_def in_place_def)
qed

lemma wipes_as_cell:
  assumes "store_is U (s, d) c" and "wipe U io s d = (s', d', es)"
  shows "\<exists>c'. cell_step U c (OpWipe io, Ended es) c' \<and> store_is U (s', d') c'"
proof -
  have "store_is U (s', d') (cell_after (OpWipe io) (Ended es) c)"
    using wipe_ends [OF assms(2)]
  proof (elim disjE conjE)
    assume "es \<noteq> []" "s' = forget s" "set es \<subseteq> half_wiped"
    then have "cell_after (OpWipe io) (Ended es) c = Unsure" by (auto simp: half_wiped_def)
    with \<open>s' = forget s\<close> show ?thesis by (simp add: store_is_def store_ok_forget)
  qed (use assms(1) in \<open>auto simp: store_is_def store_ok_forget\<close>)
  then show ?thesis by (simp add: cell_step_def)
qed

lemma wipe_keys_errors: "wipe_keys ps d = (d', es) \<Longrightarrow> set es \<subseteq> {EOther ''could not delete its key''}"
  by (induction ps d arbitrary: d' es rule: wipe_keys.induct) (auto split: prod.splits if_splits)

lemma wipe_alls_as_cell:
  assumes "store_is U (s, d) c" and "wipe_all io ps s d = (s', d', es)"
  shows "\<exists>c'. cell_step U c (OpWipeAll io ps, Ended es) c' \<and> store_is U (s', d') c'"
proof -
  have "store_is U (s', d') (cell_after (OpWipeAll io ps) (Ended es) c)"
  proof (cases "st_lock s")
    case False
    with assms show ?thesis by (auto simp: wipe_all_def)
  next
    case True
    obtain d1 es1 where k: "wipe_keys ps d = (d1, es1)" by fastforce
    obtain d2 es2 where r: "remove_files io d1 = (d2, es2)" by fastforce
    have "s' = forget s" "d' = d2" "es = es1 @ es2" using assms(2) True k r by (auto simp: wipe_all_def)
    moreover have "es \<noteq> [EClosed]"
    proof
      assume "es = [EClosed]"
      then have "EClosed \<in> set es1 \<union> set es2" using \<open>es = es1 @ es2\<close> by (metis list.set_intros(1) set_append)
      then show False using wipe_keys_errors [OF k] remove_files_errors [OF r] by (auto simp: half_wiped_def)
    qed
    ultimately show ?thesis using remove_files_ends(1) [OF r] by (auto simp: store_is_def store_ok_forget)
  qed
  then show ?thesis by (simp add: cell_step_def)
qed

lemma create_file_lock: "create_file U io p state s d = (s', d', e) \<Longrightarrow> st_lock s' = st_lock s"
  by (auto simp: create_file_def split: option.splits prod.splits if_splits)

lemma create_replace_empty:
  assumes "d_file d = NoFile"
  shows "create_replace U io p x s d = (s, d, Kept, Some EClosed)
    \<or> (\<exists>e. create_replace U io p x s d = (s, d, Kept, Some (EOther e)))
    \<or> (\<exists>q s1 d1 e1. p = Some q \<and> create_file U (ri_create io) q x s d = (s1, d1, e1)
        \<and> create_replace U io p x s d = (s1, d1, NotHeld, e1))"
  using assms by (auto simp: create_replace_def check_protector_def exists_file_def split: option.split prod.split)

lemma create_file_errors:
  "create_file U io p x s d = (s', d', Some e) \<Longrightarrow> e \<in> {ENotDurable} \<union> range EFile \<union> range EOther"
  by (auto simp: create_file_def split: option.splits prod.splits if_splits dest: write_state_errors)

lemma create_errors:
  "create U io p x s d = (s', d', Some e) \<Longrightarrow> e \<in> {EClosed, EExists, ENotDurable} \<union> range EFile \<union> range EOther"
  using create_file_errors
  by (auto simp: create_def check_protector_def exists_file_def split: if_splits option.splits)

lemma wipe_all_errors:
  assumes "wipe_all io ps s d = (s', d', es)"
  shows "set es \<subseteq> {EClosed, EOther ''could not delete its key''} \<union> half_wiped"
proof (cases "st_lock s")
  case False
  with assms show ?thesis by (auto simp: wipe_all_def)
next
  case True
  obtain d1 es1 where k: "wipe_keys ps d = (d1, es1)" by fastforce
  obtain d2 es2 where r: "remove_files io d1 = (d2, es2)" by fastforce
  have "es = es1 @ es2" using assms True k r by (auto simp: wipe_all_def)
  then show ?thesis using wipe_keys_errors [OF k] remove_files_errors [OF r] by auto
qed

lemma create_replace_ends:
  assumes "aead (su_seal U) (su_unseal U)" and "store_ok U s" and "\<forall>q. p = Some q \<longrightarrow> prot_ok U q"
    and "ci_now (ri_create io) < 2 ^ 63" and "create_replace U io p x s d = (s', d', old, e)"
  shows "store_ok U s' \<and> (e \<in> {None, Some ENotDurable, Some EReplacedPartly} \<longrightarrow> stored U d' = Inr x)
    \<and> (e \<notin> {None, Some ENotDurable, Some EReplacedPartly, Some EReplaceIncomplete} \<longrightarrow> d_file d' = d_file d)"
proof (cases "d_file d = NoFile")
  case True
  consider (failed) "s' = s" "d' = d" "e = Some EClosed \<or> (\<exists>m. e = Some (EOther m))"
    | (created) q where "p = Some q" "create_file U (ri_create io) q x s d = (s', d', e)"
    using create_replace_empty [OF True, of U io p x s] assms(5) by auto
  then show ?thesis
  proof cases
    case failed
    then show ?thesis using assms(2) by auto
  next
    case created
    have ends: "if in_place e
      then stored U d' = Inr x \<and> st_lock s' = st_lock s \<and> (\<exists>l. st_loaded s' = Some l \<and> loaded_ok U l \<and> ld_prot l = q)
      else d_file d' = d_file d \<and> s' = s"
      by (rule create_file_ends [OF assms(1) _ _ created(2)]) (use assms(3,4) created(1) in simp_all)
    show ?thesis
    proof (cases "in_place e")
      case True
      with ends show ?thesis by (auto simp: store_ok_def in_place_def)
    next
      case False
      with ends assms(2) show ?thesis using create_file_errors [of U "ri_create io" q x s d s' d'] created(2)
        by (auto simp: in_place_def)
    qed
  qed
next
  case False
  show ?thesis
  proof (cases p)
    case None
    then show ?thesis using assms(2,5) by (auto simp: create_replace_def check_protector_def split: if_splits)
  next
    case (Some q)
    have left: "replace_left U p x s d (s', d', old, e)"
      using create_replace_left [OF assms(1) _ assms(4) False, of q x s] assms(3,5) Some by simp
    show ?thesis
    proof (cases "e \<in> {None, Some ENotDurable, Some EReplacedPartly}")
      case True
      with left show ?thesis by (auto simp: replace_left_def store_ok_def)
    next
      case other: False
      show ?thesis
      proof (cases "e = Some EReplaceIncomplete")
        case True
        with left show ?thesis by (simp add: replace_left_def store_ok_def)
      next
        case False
        obtain y where y: "e = Some y" "y \<notin> {ENotDurable, EReplacedPartly, EReplaceIncomplete}" using other False by auto
        then have "s' = s \<and> d' = d" using left by (cases y) (simp_all add: replace_left_def)
        with other assms(2) show ?thesis by auto
      qed
    qed
  qed
qed

lemma replaces_as_cell:
  assumes "store_is U (s, d) c" and "aead (su_seal U) (su_unseal U)" and "op_ok U (OpReplace io p x)"
    and "create_replace U io p x s d = (s', d', old, e)"
  shows "\<exists>c'. cell_step U c (OpReplace io p x, ended e) c' \<and> store_is U (s', d') c'"
proof -
  let ?after = "cell_after (OpReplace io p x) (ended e) c"
  have ends: "store_ok U s' \<and> (e \<in> {None, Some ENotDurable, Some EReplacedPartly} \<longrightarrow> stored U d' = Inr x)
      \<and> (e \<notin> {None, Some ENotDurable, Some EReplacedPartly, Some EReplaceIncomplete} \<longrightarrow> d_file d' = d_file d)"
    by (rule create_replace_ends [OF assms(2) _ _ _ assms(4)]) (use assms(1,3) in \<open>simp_all add: store_is_def\<close>)
  have "file_is U d' ?after"
  proof (cases "e \<in> {None, Some ENotDurable, Some EReplacedPartly}")
    case True
    then have "?after = Holds x" by (auto simp: ended_def)
    with True ends show ?thesis by simp
  next
    case other: False
    show ?thesis
    proof (cases "e = Some EReplaceIncomplete")
      case False
      then have "?after = c" using other by (auto simp: ended_def split: option.split)
      moreover have "d_file d' = d_file d" using False other ends by simp
      ultimately show ?thesis using file_is_same [of d' d U c] assms(1) by (simp add: store_is_def)
    qed (simp add: ended_def)
  qed
  with ends show ?thesis by (simp add: cell_step_def store_is_def)
qed

lemma steps_as_cell:
  assumes "aead (su_seal U) (su_unseal U)" and "sstep U w l w'" and "store_is U w c"
  shows "\<exists>c'. cell_step U c l c' \<and> store_is U w' c'"
proof -
  obtain o' r s d s' d' where l: "l = (o', r)" and w: "w = (s, d)" and w': "w' = (s', d')"
    by (cases l; cases w; cases w') auto
  have step: "op_ok U o'" "store_do U o' (s, d) = (r, s', d')" using assms(2) by (simp_all add: sstep_def l w w')
  have c: "store_is U (s, d) c" using assms(3) by (simp add: w)
  have "\<exists>c'. cell_step U c (o', r) c' \<and> store_is U (s', d') c'"
  proof (cases o')
    case (OpLoad dn)
    obtain s1 r1 where "load U dn s d = (s1, r1)" by fastforce
    with loads_as_stored [OF c assms(1) this] step OpLoad show ?thesis by (cases r1) auto
  next
    case (OpSave n x st)
    obtain d1 e1 where "save U n x st s d = (d1, e1)" by fastforce
    with saves_as_cell [OF c assms(1) this] step OpSave show ?thesis by auto
  next
    case (OpCreate io p x)
    obtain s1 d1 e1 where e: "create U io p x s d = (s1, d1, e1)" using prod_cases3 by blast
    with creates_as_cell [OF c assms(1) _ e] step OpCreate show ?thesis by auto
  next
    case (OpReplace io p x)
    obtain s1 d1 b1 e1 where e: "create_replace U io p x s d = (s1, d1, b1, e1)" using prod_cases4 by blast
    with replaces_as_cell [OF c assms(1) _ e] step OpReplace show ?thesis by auto
  next
    case (OpWipe io)
    obtain s1 d1 es1 where e: "wipe U io s d = (s1, d1, es1)" using prod_cases3 by blast
    with wipes_as_cell [OF c e] step OpWipe show ?thesis by auto
  next
    case (OpWipeAll io ps)
    obtain s1 d1 es1 where e: "wipe_all io ps s d = (s1, d1, es1)" using prod_cases3 by blast
    with wipe_alls_as_cell [OF c e] step OpWipeAll show ?thesis by auto
  next
    case OpClose
    with step c show ?thesis by (auto simp: cell_step_def store_is_def store_ok_def close_store_def)
  qed
  then show ?thesis by (simp add: l w')
qed

text \<open>The cipher's law is the only one the simulation rests on.\<close>

interpretation store_cell: simulation "sstep U" "cell_step U" "\<lambda>w c. aead (su_seal U) (su_unseal U) \<and> store_is U w c" for U
  by unfold_locales (use steps_as_cell in blast)

section \<open>Bounds and keys\<close>

lemma write_state_keys: "write_state U h nonce w key state d = (d', e) \<Longrightarrow> d_keys d' = d_keys d"
  by (auto simp: write_state_def write_atomic_def left_behind_def split: option.splits sum.splits write_end.splits)

lemma create_file_keys:
  assumes "create_file U io p state s d = (s', d', e)"
  shows "d_keys d' \<subseteq> insert (pr_name p) (d_keys d)"
proof (cases "\<exists>key wrapped. ci_key io = Some key \<and> pr_wrap p key = Some wrapped")
  case False
  with assms show ?thesis by (auto simp: create_file_def split: option.splits)
next
  case True
  then obtain h key where "write_state U h (ci_nonce io) (ci_write io) key state (add_key (pr_name p) d) = (d', e)"
    using assms by (auto simp: create_file_def split: prod.splits if_splits)
  from write_state_keys [OF this] show ?thesis by (simp add: add_key_def)
qed

lemma replace_file_keys:
  assumes "replace_file U io hold p state s d = (s', d', old, e)"
  shows "d_keys d' \<subseteq> insert (pr_name p) (d_keys d)"
proof -
  have k: "d_keys d2 \<subseteq> insert (pr_name p) (d_keys d)"
    if "create_file U (ri_create io) p state s d1 = (s2, d2, e2)" "d_keys d1 = d_keys d" for s2 d2 e2 d1
    using create_file_keys [OF that(1)] that(2) by simp
  have nh: "d_keys d' \<subseteq> insert (pr_name p) (d_keys d)"
    if "not_held (create_file U (ri_create io) p state s d1) = (s', d', old, e)" "d_keys d1 = d_keys d" for d1
    using that k by (cases "create_file U (ri_create io) p state s d1") (auto simp: not_held_def)
  have held: "d_keys d' \<subseteq> insert (pr_name p) (d_keys d)"
    if "overwrite_held io (create_file U (ri_create io) p state s d) = (s', d', old, e)"
    using that k by (cases "create_file U (ri_create io) p state s d") (auto simp: overwrite_held_def split: if_splits)
  show ?thesis
  proof (cases "open_for_overwrite (ri_open io) (d_file d)")
    case (Held st b)
    show ?thesis
    proof (cases hold)
      case True
      then show ?thesis using assms Held held by (simp add: replace_file_def)
    next
      case False
      then show ?thesis using assms Held nh by (auto simp: replace_file_def split: option.splits)
    qed
  next
    case NotRegular
    then show ?thesis using assms nh by (simp add: replace_file_def)
  next
    case OpenFailed
    then show ?thesis using assms by (auto simp: replace_file_def)
  qed
qed

lemma create_replace_keys:
  assumes "create_replace U io (Some p) state s d = (s', d', old, e)" and "old_protector U s d = Some q" and "d' \<noteq> d"
    and "d_file d \<noteq> NoFile"
  shows "pr_name q \<in> d_keys d' \<Longrightarrow> pr_name q = pr_name p"
proof -
  assume "pr_name q \<in> d_keys d'"
  obtain hold where "replace_file U io hold p state (forget s) (drop_key (pr_name q) d) = (s', d', old, e)"
    using assms by (auto simp: create_replace_def exists_file_def split: if_splits option.splits)
  from replace_file_keys [OF this] \<open>pr_name q \<in> d_keys d'\<close> show ?thesis by (auto simp: drop_key_def)
qed

lemma read_attempts_again:
  "read_no_follow euid True (at n) = Inl EReplaced \<Longrightarrow> read_attempts euid (Suc m) n at =
    (fst (read_attempts euid m (n + 1) at), (if 0 < n then read_only_delay n else 0) + snd (read_attempts euid m (n + 1) at))"
  by (simp add: Let_def split_beta)

lemma read_attempts_once:
  assumes "read_no_follow euid True (at n) \<noteq> Inl EReplaced"
  shows "read_attempts euid (Suc m) n at = (read_no_follow euid True (at n), if 0 < n then read_only_delay n else 0)"
proof (cases "read_no_follow euid True (at n)")
  case (Inl e)
  with assms show ?thesis by (cases e) simp_all
qed simp

declare read_attempts.simps(2) [simp del]

lemma read_attempts_time:
  "snd (read_attempts euid m n at) \<le> sum_list (map (\<lambda>k. if 0 < k then read_only_delay k else 0) [n..<n + m])"
proof (induction m arbitrary: n)
  case (Suc m)
  have pos: "0 \<le> sum_list (map (\<lambda>k. if 0 < k then read_only_delay k else 0) [Suc n..<Suc n + m])"
    by (intro sum_list_nonneg) (auto simp: read_only_delay_def durations)
  have up: "[n..<Suc (n + m)] = n # [Suc n..<Suc (n + m)]" by (simp add: upt_rec)
  show ?case
  proof (cases "read_no_follow euid True (at n) = Inl EReplaced")
    case True
    then show ?thesis using Suc.IH [of "Suc n"] by (simp add: read_attempts_again up del: upt_Suc)
  next
    case False
    then show ?thesis using pos by (simp add: read_attempts_once up del: upt_Suc)
  qed
qed simp

lemma read_attempts_file:
  "fst (read_attempts euid m n at) = Inr raw \<Longrightarrow>
    \<exists>k<m. read_no_follow euid True (at (n + k)) = Inr raw \<and> (\<forall>j<k. read_no_follow euid True (at (n + j)) = Inl EReplaced)"
proof (induction m arbitrary: n)
  case (Suc m)
  show ?case
  proof (cases "read_no_follow euid True (at n) = Inl EReplaced")
    case True
    then have "fst (read_attempts euid m (n + 1) at) = Inr raw" using Suc.prems by (simp add: read_attempts_again)
    from Suc.IH [OF this] obtain k where "k < m" "read_no_follow euid True (at (n + Suc k)) = Inr raw"
      "\<forall>j<k. read_no_follow euid True (at (n + Suc j)) = Inl EReplaced" by auto
    then show ?thesis using True by (intro exI [of _ "Suc k"]) (auto simp: less_Suc_eq_0_disj)
  next
    case False
    then have "read_no_follow euid True (at n) = Inr raw" using Suc.prems by (simp add: read_attempts_once)
    then show ?thesis by (intro exI [of _ 0]) simp
  qed
qed simp

section \<open>The properties\<close>

definition toy_surround :: surround where
  "toy_surround = \<lparr>su_euid = 1000, su_seal = toy_seal, su_unseal = toy_unseal, su_resolve = Some (\<lambda>n. if n = ''p'' then Some toy_protector else None)\<rparr>"

definition toy_store :: "store \<times> dir" where
  "toy_store = (\<lparr>st_lock = True, st_loaded = None\<rparr>, \<lparr>d_file = NoFile, d_temps = [], d_keys = {}\<rparr>)"

definition toy_create :: create_io where
  "toy_create = \<lparr>ci_stat = True, ci_key = Some toy_key, ci_now = 1, ci_nonce = Some (replicate NonceLen CHR ''n''), ci_write = WDone\<rparr>"

definition toy_dir :: dir_node where
  "toy_dir = Dir \<lparr>sa_uid = 1000, sa_mode = 448, sa_links = 2\<rparr>"

lemma toy_sealed: "aead (su_seal toy_surround) (su_unseal toy_surround)"
  by (simp add: toy_surround_def toy_aead)

lemma toy_prot_ok: "prot_ok toy_surround toy_protector"
  by (simp add: prot_ok_def toy_surround_def toy_protector_def)

lemma toy_create_file:
  "\<exists>s' d'. create_file toy_surround toy_create toy_protector ''state'' (fst toy_store) d = (s', d', None)"
proof -
  have "marshal toy_header = Inr (header_text toy_header)"
    using toy_header_valid by (simp add: marshal_valid toy_header_def)
  then have "\<exists>raw. encode_file toy_seal toy_header toy_key ''state'' = Inr raw"
    by (simp add: encode_file_def toy_key_def lengths)
  then show ?thesis
    by (auto simp: create_file_def write_state_def write_atomic_def toy_create_def toy_surround_def toy_protector_def
        toy_header_def Version_def Let_def)
qed

lemma toy_created:
  "\<exists>s' d'. create toy_surround toy_create (Some toy_protector) ''state'' (fst toy_store) (snd toy_store) = (s', d', None)"
  using toy_create_file
  by (simp add: create_def check_protector_def exists_file_def toy_store_def toy_create_def toy_protector_def
      protectorName_def lower_char_def byte_def)




definition toy_replace :: replace_io where
  "toy_replace = \<lparr>ri_create = toy_create, ri_probe = Some True, ri_wipe = True, ri_open = True, ri_early = None,
     ri_flush = [], ri_late = True, ri_close = True\<rparr>"

definition toy_old :: dir where
  "toy_old = \<lparr>d_file = Regular (new_stat 1000) ''old'', d_temps = [], d_keys = {''p''}\<rparr>"

definition toy_loaded :: store where
  "toy_loaded = \<lparr>st_lock = True, st_loaded = Some \<lparr>ld_prot = toy_protector, ld_wrapped = toy_key, ld_key = toy_key, ld_created = 1\<rparr>\<rparr>"


text \<open>
  C15. \<open>Wipe\<close> without an error left nothing: the state file and the temporary files are gone, the key that opens
  the state was deleted at its protector, and no other, and the store has forgotten it. When the protector
  could not delete the key, nothing was touched, so the wipe can be asked again.
\<close>

theorem wipe_leaves_nothing:
  assumes "wipe U io s d = (s', d', es)"
  shows "(es = [] \<longrightarrow> d_file d' = NoFile \<and> d_temps d' = [] \<and> st_loaded s' = None
      \<and> (\<exists>p. old_protector U s d = Some p \<and> wi_wipe io \<and> d_keys d' = d_keys d - {pr_name p}))
    \<and> (old_protector U s d \<noteq> None \<and> \<not> wi_wipe io \<longrightarrow> es \<noteq> [] \<and> s' = s \<and> d' = d)"
proof (intro conjI impI)
  assume none: "es = []"
  with assms obtain p where p: "old_protector U s d = Some p" "wi_wipe io"
    and r: "remove_files io (drop_key (pr_name p) d) = (d', [])" and s': "s' = forget s"
    by (auto simp: wipe_def split: if_splits option.splits sum.splits prod.splits)
  show "d_file d' = NoFile" "d_temps d' = []" using remove_files_ends(1) [OF r] by simp_all
  show "st_loaded s' = None" by (simp add: s' forget_def)
  show "\<exists>p. old_protector U s d = Some p \<and> wi_wipe io \<and> d_keys d' = d_keys d - {pr_name p}"
    using p remove_files_ends(2) [OF r] by (simp add: drop_key_def)
qed (use assms in \<open>auto simp: wipe_def split: if_splits option.splits\<close>)

definition toy_wipe :: wipe_io where
  "toy_wipe = \<lparr>wi_wipe = True, wi_stat = True, wi_file = Removed, wi_list = True, wi_temps = [], wi_sync = True\<rparr>"

theorem wipe_leaves_nothing_witness:
  "\<exists>s' d'. wipe toy_surround toy_wipe toy_loaded toy_old = (s', d', []) \<and> d_file d' = NoFile \<and> d_keys d' = {}"
proof -
  obtain s' d' where w: "wipe toy_surround toy_wipe toy_loaded toy_old = (s', d', [])"
    by (auto simp: wipe_def toy_loaded_def old_protector_def toy_wipe_def remove_files_def drop_key_def toy_old_def
        remove_node_def Let_def)
  have "old_protector toy_surround toy_loaded toy_old = Some toy_protector" by (simp add: old_protector_def toy_loaded_def)
  with wipe_leaves_nothing [OF w] w show ?thesis by (auto simp: toy_old_def toy_protector_def)
qed

text \<open>
  \<open>ReadOnly\<close> ends: it looks at the path at most 20 times and sleeps at most 1327 milliseconds in all, whatever
  another process does to the file meanwhile. What it returns is the state in a file that passed every check
  when it was opened, and every file it saw before that one had been replaced.
\<close>

lemma read_only_ends:
  "snd (read_only U dn at) \<le> 1327 * millisecond
    \<and> (\<forall>x. fst (read_only U dn at) = Inr x \<longrightarrow> check_dir (su_euid U) dn = None
      \<and> (\<exists>k<readOnlyAttempts. (\<forall>j<k. read_no_follow (su_euid U) True (at j) = Inl EReplaced)
        \<and> check_file (su_euid U) (at k) = None \<and> stored U \<lparr>d_file = at k, d_temps = [], d_keys = {}\<rparr> = Inr (fst x)))"
proof (intro conjI allI impI)
  have "sum_list (map (\<lambda>k. if 0 < k then read_only_delay k else 0) [0..<0 + readOnlyAttempts]) = 1327 * millisecond"
    by (simp add: readOnlyAttempts_def read_only_delay_def durations upt_rec min_def)
  then have "snd (read_attempts (su_euid U) readOnlyAttempts 0 at) \<le> 1327 * millisecond"
    using read_attempts_time [of "su_euid U" readOnlyAttempts 0 at] by simp
  then show "snd (read_only U dn at) \<le> 1327 * millisecond"
    by (auto simp: read_only_def durations split: option.split sum.split prod.split)
next
  fix x
  assume r: "fst (read_only U dn at) = Inr x"
  then obtain raw where dir: "check_dir (su_euid U) dn = None" and raw: "fst (read_attempts (su_euid U) readOnlyAttempts 0 at) = Inr raw"
    and dec: "\<exists>h p key. decode_file (su_unseal U) raw (su_resolve U) = Inr (fst x, h, p, key)"
    by (auto simp: read_only_def split: option.splits sum.splits prod.splits if_splits)
  from read_attempts_file [OF raw] obtain k where k: "k < readOnlyAttempts" "read_no_follow (su_euid U) True (at k) = Inr raw"
    "\<forall>j<k. read_no_follow (su_euid U) True (at j) = Inl EReplaced" by auto
  have "check_file (su_euid U) (at k) = None" using k(2) by (cases "at k") (auto split: option.splits)
  moreover have "stored U \<lparr>d_file = at k, d_temps = [], d_keys = {}\<rparr> = Inr (fst x)" using k(2) dec by (auto simp: stored_def)
  ultimately show "\<exists>k<readOnlyAttempts. (\<forall>j<k. read_no_follow (su_euid U) True (at j) = Inl EReplaced)
      \<and> check_file (su_euid U) (at k) = None \<and> stored U \<lparr>d_file = at k, d_temps = [], d_keys = {}\<rparr> = Inr (fst x)"
    using k by blast
  show "check_dir (su_euid U) dn = None" by (rule dir)
qed

lemma read_only_stored:
  assumes "stored U d = Inr x" and "check_dir (su_euid U) dn = None" and "dn \<noteq> NoDir"
  shows "\<exists>y. fst (read_only U dn (\<lambda>_. d_file d)) = Inr y \<and> fst y = x"
proof -
  obtain raw where raw: "read_no_follow (su_euid U) True (d_file d) = Inr raw"
    and dec: "\<exists>h p key. decode_file (su_unseal U) raw (su_resolve U) = Inr (x, h, p, key)"
    using assms(1) by (auto simp: stored_def split: sum.splits)
  have "read_attempts (su_euid U) readOnlyAttempts 0 (\<lambda>_. d_file d) = (Inr raw, 0)"
    using read_attempts_once [of "su_euid U" "\<lambda>_. d_file d" 0 19] raw by (simp add: readOnlyAttempts_def)
  then show ?thesis using assms(2,3) dec by (auto simp: read_only_def)
qed

lemma read_only_ends_witness:
  "\<exists>(d :: dir) y. fst (read_only toy_surround toy_dir (\<lambda>_. d_file d)) = Inr y \<and> fst y = ''state''
    \<and> check_file 1000 (d_file d) = None"
proof -
  obtain s' d' where "create_file toy_surround toy_create toy_protector ''state'' (fst toy_store) (snd toy_store) = (s', d', None)"
    using toy_create_file by blast
  from create_file_ends [OF toy_sealed toy_prot_ok _ this] have "stored toy_surround d' = Inr ''state''"
    by (simp add: toy_create_def in_place_def)
  moreover have "check_dir (su_euid toy_surround) toy_dir = None"
    by (simp add: toy_dir_def toy_surround_def check_owner_mode_def)
  ultimately obtain y where y: "fst (read_only toy_surround toy_dir (\<lambda>_. d_file d')) = Inr y" "fst y = ''state''"
    using read_only_stored [of toy_surround d' "''state''" toy_dir] by (auto simp: toy_dir_def)
  have "check_file (su_euid toy_surround) (d_file d') = None"
    using read_only_ends [of toy_surround toy_dir "\<lambda>_. d_file d'"] y(1) by blast
  then have "check_file 1000 (d_file d') = None" by (simp add: toy_surround_def)
  with y show ?thesis by (intro exI [of _ d'] exI [of _ y]) simp
qed

end
