(* ===== verification/Redact.thy ===== *)
theory Redact
  imports PairCode Store
begin

text \<open>
  \<open>internal/leash/request/redact.go\<close>: how a result, an item, a field and a use show themselves when they are formatted,
  logged or marshalled. \<open>nbytes\<close> is the number of bytes of a value's JSON text, \<open>prints\<close> says which characters Go prints as
  they are (\<open>strconv.IsPrint\<close>).
\<close>

section \<open>Quoting\<close>

fun hex_of :: "nat \<Rightarrow> nat \<Rightarrow> string" where
  "hex_of 0 n = []"
| "hex_of (Suc k) n = hex_of k (n div 16) @ [hex_digit (n mod 16)]"

definition backslash :: char where "backslash = CHR 0x5C"

text \<open>The verb \<open>%q\<close>, \<open>strconv.Quote\<close>: one character, given as its value and its bytes (an invalid byte has one).\<close>

definition quoted_rune :: "(nat \<Rightarrow> bool) \<Rightarrow> nat \<times> string \<Rightarrow> string" where
  "quoted_rune prints p = (case p of (r, b) \<Rightarrow>
     if r = 0xFFFD \<and> length b = 1 then backslash # ''x'' @ hex_of 2 (byte (hd b))
     else if r = 34 \<or> r = 92 then backslash # b
     else if (if r < 0x80 then 0x20 \<le> r \<and> r < 0x7F else prints r) then b
     else if r = 7 then backslash # ''a'' else if r = 8 then backslash # ''b'' else if r = 12 then backslash # ''f''
     else if r = 10 then backslash # ''n'' else if r = 13 then backslash # ''r'' else if r = 9 then backslash # ''t''
     else if r = 11 then backslash # ''v''
     else if r < 0x20 \<or> r = 0x7F then backslash # ''x'' @ hex_of 2 r
     else if r < 0x10000 then backslash # ''u'' @ hex_of 4 r
     else backslash # ''U'' @ hex_of 8 r)"

definition go_quoted :: "(nat \<Rightarrow> bool) \<Rightarrow> string \<Rightarrow> string" where
  "go_quoted prints s = CHR 0x22 # concat (map (quoted_rune prints) (runes s)) @ [CHR 0x22]"

section \<open>Formatting\<close>

definition redacted_size :: "nat option \<Rightarrow> string" where
  "redacted_size n = (case n of None \<Rightarrow> ''absent'' | Some n \<Rightarrow> ''[redacted, '' @ show_nat n @ '' bytes]'')"

definition field_string :: "(nat \<Rightarrow> bool) \<Rightarrow> (json \<Rightarrow> nat) \<Rightarrow> field \<Rightarrow> string" where
  "field_string prints nbytes f = ''Field{field_id: '' @ go_quoted prints (fd_id f) @ '', kind: '' @ go_quoted prints (fd_kind f)
     @ '', value: '' @ redacted_size (map_option nbytes (fd_value f)) @ ''}''"

definition field_count :: "item \<Rightarrow> nat" where
  "field_count i = (case im_fields i of None \<Rightarrow> 0 | Some fs \<Rightarrow> length fs)"

definition item_string :: "(nat \<Rightarrow> bool) \<Rightarrow> (json \<Rightarrow> nat) \<Rightarrow> item \<Rightarrow> string" where
  "item_string prints nbytes i = ''Item{item_id: '' @ go_quoted prints (im_id i) @ '', fields: '' @ show_nat (field_count i)
     @ '', notes: '' @ redacted_size (map_option nbytes (im_notes i)) @ ''}''"

definition use_string :: "(nat \<Rightarrow> bool) \<Rightarrow> use_result \<Rightarrow> string" where
  "use_string prints u = ''Use{item_id: '' @ go_quoted prints (us_item u) @ '', field_id: '' @ go_quoted prints (us_field u)
     @ '', action: '' @ go_quoted prints (us_action u) @ '', result: '' @ redacted_size (Some (length (us_result u))) @ ''}''"

definition result_string :: "(nat \<Rightarrow> bool) \<Rightarrow> (json \<Rightarrow> nat) \<Rightarrow> result \<Rightarrow> string" where
  "result_string prints nbytes r = (case r of
       RItem i \<Rightarrow> ''Result{op: '' @ go_quoted prints (op_string OpGet) @ '', item: '' @ item_string prints nbytes i @ ''}''
     | RUse u \<Rightarrow> ''Result{op: '' @ go_quoted prints (op_string OpUse) @ '', use: '' @ use_string prints u @ ''}''
     | RCatalog cs \<Rightarrow> ''Result{op: '' @ go_quoted prints (op_string OpCatalog) @ '', catalog: '' @ show_nat (length cs) @ '' items}'')"

section \<open>Logging\<close>

datatype log_value = LogString string | LogInt nat | LogGroup "(string \<times> log_value) list"

definition field_log :: "(json \<Rightarrow> nat) \<Rightarrow> field \<Rightarrow> log_value" where
  "field_log nbytes f = LogGroup [(''field_id'', LogString (fd_id f)), (''kind'', LogString (fd_kind f)),
     (''value_bytes'', LogInt (case fd_value f of None \<Rightarrow> 0 | Some v \<Rightarrow> nbytes v))]"

definition item_log :: "item \<Rightarrow> log_value" where
  "item_log i = LogGroup [(''item_id'', LogString (im_id i)), (''fields'', LogInt (field_count i))]"

definition use_log :: "use_result \<Rightarrow> log_value" where
  "use_log u = LogGroup [(''item_id'', LogString (us_item u)), (''field_id'', LogString (us_field u)),
     (''action'', LogString (us_action u))]"

definition result_log :: "result \<Rightarrow> log_value" where
  "result_log r = LogGroup (case r of
       RItem i \<Rightarrow> [(''op'', LogString (op_string OpGet)), (''item'', item_log i)]
     | RUse u \<Rightarrow> [(''op'', LogString (op_string OpUse)), (''use'', use_log u)]
     | RCatalog cs \<Rightarrow> [(''op'', LogString (op_string OpCatalog)), (''catalog'', LogInt (length cs))])"

section \<open>Marshalling\<close>

definition field_marshalled :: "(json \<Rightarrow> nat) \<Rightarrow> field \<Rightarrow> json" where
  "field_marshalled nbytes f = JObj [(''field_id'', JStr (fd_id f)), (''label'', JStr (fd_label f)), (''kind'', JStr (fd_kind f)),
     (''value_bytes'', JNum (show_nat (case fd_value f of None \<Rightarrow> 0 | Some v \<Rightarrow> nbytes v)))]"

definition item_marshalled :: "(json \<Rightarrow> nat) \<Rightarrow> item \<Rightarrow> json" where
  "item_marshalled nbytes i = JObj [(''item_id'', JStr (im_id i)), (''category'', JStr (im_category i)),
     (''fields'', case im_fields i of None \<Rightarrow> JNull | Some fs \<Rightarrow> JArr (map (field_marshalled nbytes) fs)),
     (''notes_bytes'', JNum (show_nat (case im_notes i of None \<Rightarrow> 0 | Some v \<Rightarrow> nbytes v)))]"

definition use_marshalled :: "use_result \<Rightarrow> json" where
  "use_marshalled u = JObj [(''item_id'', JStr (us_item u)), (''field_id'', JStr (us_field u)), (''action'', JStr (us_action u))]"

section \<open>No value is shown\<close>

text \<open>
  A result with its secrets replaced: the values and the notes by \<open>h\<close>, the HMAC by another; and the item's name and the
  catalog's items, which are not shown either.
\<close>

definition other_field :: "(json \<Rightarrow> json) \<Rightarrow> field \<Rightarrow> field" where
  "other_field h f = f\<lparr>fd_value := map_option h (fd_value f)\<rparr>"

definition other_item :: "(json \<Rightarrow> json) \<Rightarrow> string \<Rightarrow> item \<Rightarrow> item" where
  "other_item h n i = i\<lparr>im_name := n, im_fields := map_option (map (other_field h)) (im_fields i), im_notes := map_option h (im_notes i)\<rparr>"

definition other_use :: "string \<Rightarrow> use_result \<Rightarrow> use_result" where
  "other_use m u = u\<lparr>us_result := take (length (us_result u)) (m @ zeros (length (us_result u)))\<rparr>"

fun other_result :: "(json \<Rightarrow> json) \<Rightarrow> string \<Rightarrow> (catalog_item \<Rightarrow> catalog_item) \<Rightarrow> result \<Rightarrow> result" where
  "other_result h n c (RCatalog cs) = RCatalog (map c cs)"
| "other_result h n c (RItem i) = RItem (other_item h n i)"
| "other_result h n c (RUse u) = RUse (other_use n u)"

text \<open>Everything a result, and what it holds, shows of itself.\<close>

fun all_shown :: "(nat \<Rightarrow> bool) \<Rightarrow> (json \<Rightarrow> nat) \<Rightarrow> result \<Rightarrow> string list \<times> log_value list \<times> json list" where
  "all_shown prints nbytes (RCatalog cs) = ([result_string prints nbytes (RCatalog cs)], [result_log (RCatalog cs)], [])"
| "all_shown prints nbytes (RUse u) =
     ([result_string prints nbytes (RUse u), use_string prints u], [result_log (RUse u), use_log u], [use_marshalled u])"
| "all_shown prints nbytes (RItem i) = (let fs = (case im_fields i of None \<Rightarrow> [] | Some fs \<Rightarrow> fs) in
     (result_string prints nbytes (RItem i) # item_string prints nbytes i # map (field_string prints nbytes) fs,
      result_log (RItem i) # item_log i # map (field_log nbytes) fs,
      item_marshalled nbytes i # map (field_marshalled nbytes) fs))"

lemma other_field_same:
  assumes "\<And>v. nbytes (h v) = nbytes v"
  shows "field_string prints nbytes (other_field h f) = field_string prints nbytes f"
    and "field_log nbytes (other_field h f) = field_log nbytes f"
    and "field_marshalled nbytes (other_field h f) = field_marshalled nbytes f"
  using assms
  by (simp_all add: other_field_def field_string_def field_log_def field_marshalled_def option.map_comp comp_def split: option.split)

lemma other_item_same:
  assumes "\<And>v. nbytes (h v) = nbytes v"
  shows "item_string prints nbytes (other_item h n i) = item_string prints nbytes i"
    and "item_log (other_item h n i) = item_log i"
    and "item_marshalled nbytes (other_item h n i) = item_marshalled nbytes i"
  using assms
  by (simp_all add: other_item_def item_string_def item_log_def item_marshalled_def field_count_def option.map_comp comp_def
      other_field_same [where h = h and nbytes = nbytes, OF assms] split: option.split)

lemma other_use_same: "use_string prints (other_use m u) = use_string prints u" "use_log (other_use m u) = use_log u"
    "use_marshalled (other_use m u) = use_marshalled u"
proof -
  have "length (take k (m @ zeros k)) = k" for k by (simp add: zeros_def min_def)
  then show "use_string prints (other_use m u) = use_string prints u" by (simp only: other_use_def use_string_def) simp
qed (simp_all add: other_use_def use_log_def use_marshalled_def)


definition demo_redacted :: item where
  "demo_redacted = \<lparr>im_id = ''i1'', im_name = ''Bank'', im_category = ''login'',
     im_fields = Some [\<lparr>fd_id = ''pw'', fd_label = ''Password'', fd_kind = ''password'', fd_value = Some (JStr ''secret'')\<rparr>], im_notes = None\<rparr>"


end
