(* ===== verification/StateFs.thy ===== *)
theory StateFs
  imports Store "HOL-Library.Multiset"
begin

text \<open>
  The system calls under the store (theory Store has their outcomes only): how \<open>internal/state/state.go\<close> writes,
  overwrites and removes a file call by call, with \<open>fs_posix.go\<close>, and what the disk holds after a crash
  between any two of them. The state directory is a directory of names whose files have a content; how each call ends
  is an argument.
\<close>

section \<open>The disk\<close>

text \<open>
  A file's content is on the disk once it was synced; before that a crash may leave anything of it. Directory
  changes are kept whole and in order, and are on the disk once the directory was synced: the versions since then, the newest
  first, are all possible after a crash.
\<close>

record inode =
  in_data :: string
  in_synced :: bool

record disk =
  dk_dirs :: "(string \<Rightarrow> nat option) list"
  dk_file :: "nat \<Rightarrow> inode"

datatype fs_op = Create string nat | Put nat nat string | Sync nat | Rename string string | Unlink string | SyncDir

definition names :: "disk \<Rightarrow> string \<Rightarrow> nat option" where
  "names f = hd (dk_dirs f)"

definition put_at :: "nat \<Rightarrow> string \<Rightarrow> string \<Rightarrow> string" where
  "put_at pos b s = take pos s @ b @ drop (pos + length b) s"

fun fs_do :: "fs_op \<Rightarrow> disk \<Rightarrow> disk" where
  "fs_do (Create n i) f = f\<lparr>dk_dirs := (names f)(n := Some i) # dk_dirs f, dk_file := (dk_file f)(i := \<lparr>in_data = [], in_synced = False\<rparr>)\<rparr>"
| "fs_do (Put i pos b) f = f\<lparr>dk_file := (dk_file f)(i := \<lparr>in_data = put_at pos b (in_data (dk_file f i)), in_synced = False\<rparr>)\<rparr>"
| "fs_do (Sync i) f = f\<lparr>dk_file := (dk_file f)(i := (dk_file f i)\<lparr>in_synced := True\<rparr>)\<rparr>"
| "fs_do (Rename a b) f = f\<lparr>dk_dirs := (names f)(b := names f a, a := None) # dk_dirs f\<rparr>"
| "fs_do (Unlink a) f = f\<lparr>dk_dirs := (names f)(a := None) # dk_dirs f\<rparr>"
| "fs_do SyncDir f = f\<lparr>dk_dirs := [names f]\<rparr>"

definition content :: "disk \<Rightarrow> string \<Rightarrow> string option" where
  "content f n = map_option (\<lambda>i. in_data (dk_file f i)) (names f n)"

definition after_crash :: "disk \<Rightarrow> (string \<Rightarrow> string option) \<Rightarrow> bool" where
  "after_crash f g = (\<exists>m\<in>set (dk_dirs f). \<forall>n. case m n of None \<Rightarrow> g n = None
     | Some i \<Rightarrow> (\<exists>b. g n = Some b \<and> (in_synced (dk_file f i) \<longrightarrow> b = in_data (dk_file f i))))"

text \<open>A file that was never in the directory: what the system gives for a new one.\<close>

definition unused :: "nat \<Rightarrow> disk \<Rightarrow> bool" where
  "unused i f = (dk_dirs f \<noteq> [] \<and> (\<forall>m\<in>set (dk_dirs f). \<forall>n. m n \<noteq> Some i))"

section \<open>Writing a new file in place\<close>

definition StateFileName :: string where "StateFileName = ''vettid-agent.state''"
definition tempPrefix :: string where "tempPrefix = ''.'' @ StateFileName @ ''.''"
definition tempSuffix :: string where "tempSuffix = ''.tmp''"

definition temp_name :: "string \<Rightarrow> string" where
  "temp_name r = tempPrefix @ hex r @ tempSuffix"

definition is_temp :: "string \<Rightarrow> bool" where
  "is_temp n = (take (length tempPrefix) n = tempPrefix \<and> take (length tempSuffix) (rev n) = rev tempSuffix)"

text \<open>
  \<open>createTemp\<close>: nothing was created, or its mode could not be set (it is then removed). \<open>syncDir\<close>: a file
  system that cannot sync a directory is no error.
\<close>

datatype create_end = Created | NotCreated | NotChmod
datatype sync_dir_end = DirSynced | CannotSyncDir | SyncDirFails

definition sync_dir :: "sync_dir_end \<Rightarrow> fs_op list \<times> bool" where
  "sync_dir e = (case e of DirSynced \<Rightarrow> ([SyncDir], True) | CannotSyncDir \<Rightarrow> ([], True) | SyncDirFails \<Rightarrow> ([], False))"

record file_io =
  fo_rand :: "string option"
  fo_create :: create_end
  fo_written :: "nat option"
  fo_sync :: bool
  fo_close :: bool
  fo_rename :: bool
  fo_removed :: bool
  fo_flush :: bool
  fo_sync_dir :: sync_dir_end

text \<open>\<open>makeDurable\<close>: \<open>flushRenamed\<close> (nothing on POSIX), then \<open>syncDir\<close>.\<close>

definition make_durable :: "file_io \<Rightarrow> fs_op list \<times> bool" where
  "make_durable io = (if fo_flush io then sync_dir (fo_sync_dir io) else ([], False))"

text \<open>\<open>writeAtomic\<close> giving up: the temporary file is removed, if it can be.\<close>

definition give_up :: "file_io \<Rightarrow> string \<Rightarrow> fs_op list \<Rightarrow> string \<Rightarrow> string \<Rightarrow> fs_op list \<times> write_end" where
  "give_up io t ops step part =
    (if fo_removed io then (ops @ [Unlink t], WFails step None) else (ops, WFails step (Some part)))"

definition write_calls :: "nat \<Rightarrow> file_io \<Rightarrow> string \<Rightarrow> fs_op list \<times> write_end" where
  "write_calls i io raw = (case fo_rand io of None \<Rightarrow> ([], WFails ''create temporary file'' None)
     | Some r \<Rightarrow> (let t = temp_name r in case fo_create io of
         NotCreated \<Rightarrow> ([], WFails ''create temporary file'' None)
       | NotChmod \<Rightarrow> give_up io t [Create t i] ''create temporary file'' []
       | Created \<Rightarrow> (case fo_written io of
           Some n \<Rightarrow> give_up io t [Create t i, Put i 0 (take n raw)] ''write temporary file'' (take n raw)
         | None \<Rightarrow>
           if \<not> fo_sync io then give_up io t [Create t i, Put i 0 raw] ''sync temporary file'' raw
           else if \<not> fo_close io then give_up io t [Create t i, Put i 0 raw, Sync i] ''close temporary file'' raw
           else if \<not> fo_rename io then give_up io t [Create t i, Put i 0 raw, Sync i] ''replace state file'' raw
           else (let (flush, durable) = make_durable io in
             ([Create t i, Put i 0 raw, Sync i, Rename t StateFileName] @ flush, if durable then WDone else WNotFlushed)))))"

section \<open>What a crash leaves\<close>

lemma temp_is_temp: "is_temp (temp_name r)"
  by (simp add: is_temp_def temp_name_def)

lemma state_is_no_temp: "\<not> is_temp StateFileName"
  by (simp add: is_temp_def tempPrefix_def StateFileName_def)

lemma temp_name_not_state: "temp_name r \<noteq> StateFileName"
  using temp_is_temp [of r] state_is_no_temp by auto

text \<open>Before the rename, every version of the directory has the state file of a version at the beginning.\<close>

definition untouched :: "nat \<Rightarrow> disk \<Rightarrow> disk \<Rightarrow> bool" where
  "untouched i f0 f = (dk_dirs f \<noteq> [] \<and> (\<forall>m\<in>set (dk_dirs f). \<exists>m0\<in>set (dk_dirs f0). m StateFileName = m0 StateFileName)
     \<and> (\<forall>j. j \<noteq> i \<longrightarrow> dk_file f j = dk_file f0 j))"

text \<open>From the rename on, it may also be the new file, which is then written and synced.\<close>

definition old_or_new :: "nat \<Rightarrow> string \<Rightarrow> disk \<Rightarrow> disk \<Rightarrow> bool" where
  "old_or_new i raw f0 f = (\<forall>m\<in>set (dk_dirs f).
     m StateFileName = Some i \<and> dk_file f i = \<lparr>in_data = raw, in_synced = True\<rparr>
     \<or> (\<exists>m0\<in>set (dk_dirs f0). m StateFileName = m0 StateFileName
          \<and> (\<forall>j. m0 StateFileName = Some j \<longrightarrow> dk_file f j = dk_file f0 j)))"

lemma names_in: "dk_dirs f \<noteq> [] \<Longrightarrow> names f \<in> set (dk_dirs f)"
  by (simp add: names_def)

lemma untouched_step:
  assumes "untouched i f0 f" and "op \<in> {Create t i, Put i pos b, Sync i, Unlink t, SyncDir}" and "t \<noteq> StateFileName"
  shows "untouched i f0 (fs_do op f)"
  using assms names_in [of f] by (auto simp: untouched_def names_def)

lemma untouched_old: "untouched i f0 f \<Longrightarrow> unused i f0 \<Longrightarrow> old_or_new i raw f0 f"
  unfolding untouched_def old_or_new_def unused_def by metis

lemma old_or_new_crash:
  assumes "old_or_new i raw f0 f" and "after_crash f g"
  shows "g StateFileName = Some raw \<or> (\<exists>g'. after_crash f0 g' \<and> g' StateFileName = g StateFileName)"
proof -
  obtain m where m: "m \<in> set (dk_dirs f)"
    and g: "\<And>n. case m n of None \<Rightarrow> g n = None
      | Some i \<Rightarrow> (\<exists>b. g n = Some b \<and> (in_synced (dk_file f i) \<longrightarrow> b = in_data (dk_file f i)))"
    using assms(2) by (auto simp: after_crash_def)
  consider "m StateFileName = Some i" "dk_file f i = \<lparr>in_data = raw, in_synced = True\<rparr>"
    | m0 where "m0 \<in> set (dk_dirs f0)" "m StateFileName = m0 StateFileName"
        "\<And>j. m0 StateFileName = Some j \<Longrightarrow> dk_file f j = dk_file f0 j"
    using assms(1) m unfolding old_or_new_def by blast
  then show ?thesis
  proof cases
    case 1
    then show ?thesis using g [of StateFileName] by auto
  next
    case (2 m0)
    let ?g = "\<lambda>n. if n = StateFileName then g n else map_option (\<lambda>i. in_data (dk_file f0 i)) (m0 n)"
    have "after_crash f0 ?g"
      unfolding after_crash_def using 2 g [of StateFileName]
      by (intro bexI [of _ m0]) (auto split: option.splits)
    then show ?thesis by auto
  qed
qed

text \<open>What holds at every point of a sequence of calls.\<close>

fun throughout :: "(disk \<Rightarrow> bool) \<Rightarrow> disk \<Rightarrow> fs_op list \<Rightarrow> bool" where
  "throughout P f [] = P f"
| "throughout P f (op # ops) = (P f \<and> throughout P (fs_do op f) ops)"

lemma throughout_take: "throughout P f ops \<Longrightarrow> P (fold fs_do (take k ops) f)"
  by (induction P f ops arbitrary: k rule: throughout.induct) (auto simp: take_Cons' split: nat.splits)

lemma throughout_untouched:
  assumes "untouched i f0 f" and "set ops \<subseteq> {Create t i, Put i 0 b, Sync i, Unlink t, SyncDir}" and "t \<noteq> StateFileName"
  shows "throughout (untouched i f0) f ops"
  using assms
proof (induction ops arbitrary: f)
  case (Cons op ops)
  then have "untouched i f0 (fs_do op f)" by (intro untouched_step [where pos = 0]) auto
  with Cons show ?case by simp
qed simp

lemma throughout_mono: "throughout P f ops \<Longrightarrow> (\<And>f. P f \<Longrightarrow> Q f) \<Longrightarrow> throughout Q f ops"
  by (induction P f ops rule: throughout.induct) auto

lemma throughout_append: "throughout P f (ops @ ops') \<longleftrightarrow> throughout P f ops \<and> throughout P (fold fs_do ops f) ops'"
  by (induction P f ops rule: throughout.induct) (cases ops', auto)+

text \<open>The new file, as it is renamed.\<close>

definition written :: "nat \<Rightarrow> string \<Rightarrow> string \<Rightarrow> fs_op list" where
  "written i t raw = [Create t i, Put i 0 raw, Sync i]"

lemma written_file: "dk_file (fold fs_do (written i t raw) f) = (dk_file f)(i := \<lparr>in_data = raw, in_synced = True\<rparr>)"
  and written_names: "names (fold fs_do (written i t raw) f) = (names f)(t := Some i)"
  by (auto simp: written_def put_at_def names_def fun_eq_iff)

lemma give_up_cases:
  assumes "give_up io t ops step part = (ops', w)"
  shows "ops' = ops @ [Unlink t] \<and> w = WFails step None \<or> ops' = ops \<and> w = WFails step (Some part)"
  using assms by (auto simp: give_up_def split: if_splits)

text \<open>The calls are the beginning of a write that is given up, or a write, the rename and its flush.\<close>

lemma write_calls_cases:
  assumes "write_calls i io raw = (ops, w)"
  obtains t b where "is_temp t" and "set ops \<subseteq> {Create t i, Put i 0 b, Sync i, Unlink t, SyncDir}" and "\<exists>step part. w = WFails step part"
  | t where "is_temp t" and "ops = written i t raw @ Rename t StateFileName # fst (make_durable io)"
    and "w = (if snd (make_durable io) then WDone else WNotFlushed)" and "fo_written io = None"
proof (cases "fo_rand io")
  case None
  then show ?thesis using assms by (intro that(1) [OF temp_is_temp, of "[]" "[]"]) (auto simp: write_calls_def)
next
  case (Some r)
  note t = temp_is_temp [of r] and given_up = that(1) [OF temp_is_temp [of r]]
  have quit: ?thesis if "give_up io (temp_name r) l step part = (ops, w)"
    and "set l \<subseteq> {Create (temp_name r) i, Put i 0 b, Sync i}" for l step part b
    using that(2) give_up_cases [OF that(1)] by (intro given_up [of b]) auto
  show ?thesis
  proof (cases "fo_create io = Created \<and> fo_written io = None \<and> fo_sync io \<and> fo_close io \<and> fo_rename io")
    case True
    then show ?thesis using assms Some
      by (intro that(2) [OF t]) (auto simp: write_calls_def Let_def written_def split: prod.splits)
  next
    case False
    show ?thesis
    proof (cases "fo_create io = NotCreated")
      case True
      then show ?thesis using assms Some by (intro that(1) [OF t, of "[]"]) (auto simp: write_calls_def)
    next
      case created: False
      from False created assms Some consider
          "give_up io (temp_name r) [Create (temp_name r) i] ''create temporary file'' [] = (ops, w)"
        | n where "give_up io (temp_name r) [Create (temp_name r) i, Put i 0 (take n raw)] ''write temporary file'' (take n raw) = (ops, w)"
        | "give_up io (temp_name r) [Create (temp_name r) i, Put i 0 raw] ''sync temporary file'' raw = (ops, w)"
        | "give_up io (temp_name r) [Create (temp_name r) i, Put i 0 raw, Sync i] ''close temporary file'' raw = (ops, w)"
        | "give_up io (temp_name r) [Create (temp_name r) i, Put i 0 raw, Sync i] ''replace state file'' raw = (ops, w)"
        by (auto simp: write_calls_def Let_def split: create_end.splits option.splits if_splits)
      then show ?thesis using quit by cases (fastforce+)
    qed
  qed
qed

lemma make_durable_ops:
  "fst (make_durable io) \<in> {[], [SyncDir]} \<and> (snd (make_durable io) \<longrightarrow> fst (make_durable io) = [SyncDir] \<or> fo_sync_dir io = CannotSyncDir)"
  by (simp add: make_durable_def sync_dir_def split: sync_dir_end.splits)

lemma write_throughout:
  assumes "unused i f" and "write_calls i io raw = (ops, w)"
  shows "throughout (old_or_new i raw f) f ops"
  using assms(2)
proof (cases rule: write_calls_cases)
  case (1 t b)
  have "untouched i f f" using assms(1) by (auto simp: untouched_def unused_def)
  from throughout_untouched [OF this 1(2)] show ?thesis
    using 1(1) state_is_no_temp untouched_old [OF _ assms(1)] by (auto intro: throughout_mono)
next
  case (2 t)
  have t: "t \<noteq> StateFileName" using 2(1) state_is_no_temp by auto
  let ?w = "fold fs_do (written i t raw) f" and ?r = "fold fs_do (written i t raw @ [Rename t StateFileName]) f"
  have "untouched i f f" using assms(1) by (auto simp: untouched_def unused_def)
  then have u: "throughout (untouched i f) f (written i t raw)"
    using t by (rule_tac t = t and b = raw in throughout_untouched) (auto simp: written_def)
  have "untouched i f ?w" using throughout_take [OF u, of "length (written i t raw)"] by simp
  then have r: "old_or_new i raw f ?r"
    using untouched_old [OF _ assms(1), of ?w raw] t written_file [of i t raw f] written_names [of i t raw f]
    by (auto simp: old_or_new_def)
  have d: "old_or_new i raw f (fs_do SyncDir ?r)" using r by (auto simp: old_or_new_def names_def)
  have "throughout (old_or_new i raw f) ?w (Rename t StateFileName # fst (make_durable io))"
    using r d untouched_old [OF \<open>untouched i f ?w\<close> assms(1)] make_durable_ops [of io] by auto
  then show ?thesis unfolding 2(2) throughout_append
    using u untouched_old [OF _ assms(1)] by (auto intro: throughout_mono)
qed


section \<open>The store's directory\<close>

text \<open>
  The directory of theory Store, as the disk has it now: the state file (not a link or another special file) and the
  contents of the temporary files, in some order.
\<close>

definition temps :: "disk \<Rightarrow> string set" where
  "temps f = {n. is_temp n \<and> names f n \<noteq> None}"

definition node_content :: "node \<Rightarrow> string option" where
  "node_content n = (case n of Regular st b \<Rightarrow> Some b | _ \<Rightarrow> None)"

definition represents :: "disk \<Rightarrow> dir \<Rightarrow> bool" where
  "represents f d = (finite (temps f) \<and> node_content (d_file d) = content f StateFileName
     \<and> mset (d_temps d) = image_mset (\<lambda>n. the (content f n)) (mset_set (temps f)))"

lemma content_unused: "unused i f \<Longrightarrow> names f n \<noteq> Some i"
  by (metis names_in unused_def)

text \<open>The disk after a write given up: the temporary file is gone again, or is left with part of the text.\<close>

definition put_part :: "nat \<Rightarrow> string \<Rightarrow> fs_op list \<Rightarrow> string \<Rightarrow> bool" where
  "put_part i t ops part = (\<forall>f. unused i f \<longrightarrow> names (fold fs_do ops f) = (names f)(t := Some i)
     \<and> in_data (dk_file (fold fs_do ops f) i) = part \<and> (\<forall>j. j \<noteq> i \<longrightarrow> dk_file (fold fs_do ops f) j = dk_file f j))"

lemma put_parts:
  "put_part i t [Create t i] []" "put_part i t [Create t i, Put i 0 b] b" "put_part i t [Create t i, Put i 0 b, Sync i] b"
  by (auto simp: put_part_def put_at_def names_def)

lemma content_put:
  assumes "unused i f" and "put_part i t ops part" and "names f t = None"
  shows "content (fold fs_do ops f) = (content f)(t := Some part)"
proof
  have p: "names (fold fs_do ops f) = (names f)(t := Some i)" "in_data (dk_file (fold fs_do ops f) i) = part"
    "\<And>j. j \<noteq> i \<Longrightarrow> dk_file (fold fs_do ops f) j = dk_file f j" using assms(1,2) by (auto simp: put_part_def)
  fix m show "content (fold fs_do ops f) m = ((content f)(t := Some part)) m"
    using p content_unused [OF assms(1), of m] by (cases "names f m") (auto simp: content_def)
qed

lemma represents_given_up:
  assumes "represents f d" and "unused i f" and "names f t = None" and "is_temp t" and "put_part i t ops part"
    and "give_up io t ops step part = (ops', w)"
  shows "represents (fold fs_do ops' f) (fst (write_atomic euid w raw d))"
proof -
  let ?f = "fold fs_do ops f"
  have n: "names ?f = (names f)(t := Some i)" using assms(2,5) by (simp add: put_part_def)
  note c = content_put [OF assms(2,5,3)]
  have fresh: "t \<notin> temps f" using assms(3) by (simp add: temps_def)
  have s: "t \<noteq> StateFileName" using assms(4) state_is_no_temp by auto
  show ?thesis
  proof (cases "fo_removed io")
    case True
    have "names (fs_do (Unlink t) ?f) = names f" using n assms(3) by (auto simp: names_def)
    moreover have "content (fs_do (Unlink t) ?f) = content f"
    proof
      fix m show "content (fs_do (Unlink t) ?f) m = content f m"
        using fun_cong [OF c, of m] assms(3) by (auto simp: content_def names_def split: if_splits)
    qed
    ultimately show ?thesis using True assms(1,6)
      by (auto simp: give_up_def write_atomic_def left_behind_def represents_def temps_def)
  next
    case False
    have "temps ?f = insert t (temps f)" using n assms(4) by (auto simp: temps_def)
    moreover have "image_mset (\<lambda>m. the (content ?f m)) (mset_set (temps f)) = image_mset (\<lambda>m. the (content f m)) (mset_set (temps f))"
      using fresh assms(1) by (intro image_mset_cong) (auto simp: c represents_def)
    moreover have "ops' = ops" "w = WFails step (Some part)" using False assms(6) by (auto simp: give_up_def)
    ultimately show ?thesis using assms(1) fresh s
      by (simp add: write_atomic_def left_behind_def represents_def) (simp add: c)
  qed
qed

text \<open>
  C23. The system calls of a save do to the directory what the store's model of it says, whichever of them fails.
\<close>

theorem write_calls_refine_the_store:
  assumes "represents f d" and "unused i f" and "\<forall>r. fo_rand io = Some r \<and> fo_create io \<noteq> NotCreated \<longrightarrow> names f (temp_name r) = None"
    and "write_calls i io raw = (ops, w)"
  shows "represents (fold fs_do ops f) (fst (write_atomic euid w raw d))"
proof (cases "fo_rand io = None \<or> fo_create io = NotCreated")
  case True
  then show ?thesis using assms(1,4)
    by (auto simp: write_calls_def write_atomic_def left_behind_def represents_def split: option.splits)
next
  case False
  then obtain r where r: "fo_rand io = Some r" by auto
  let ?t = "temp_name r"
  have t: "names f ?t = None" using assms(3) r False by auto
  have s: "?t \<noteq> StateFileName" by (rule temp_name_not_state)
  note given_up = represents_given_up [OF assms(1,2) t temp_is_temp]
  show ?thesis
  proof (cases "fo_create io = Created \<and> fo_written io = None \<and> fo_sync io \<and> fo_close io \<and> fo_rename io")
    case True
    let ?w = "fold fs_do (written i ?t raw) f" and ?r = "fs_do (Rename ?t StateFileName) (fold fs_do (written i ?t raw) f)"
    have n: "names ?r = (names f)(StateFileName := Some i)"
      using t s written_names [of i ?t raw f] by (auto simp: names_def fun_eq_iff)
    have fi: "dk_file ?r = (dk_file f)(i := \<lparr>in_data = raw, in_synced = True\<rparr>)"
      using written_file [of i ?t raw f] by simp
    have c: "content ?r = (content f)(StateFileName := Some raw)"
    proof
      fix m show "content ?r m = ((content f)(StateFileName := Some raw)) m"
        using content_unused [OF assms(2), of m] unfolding content_def n fi by (cases "names f m") auto
    qed
    have "temps ?r = temps f" using n state_is_no_temp by (auto simp: temps_def)
    moreover have "image_mset (\<lambda>m. the (content ?r m)) (mset_set (temps f)) = image_mset (\<lambda>m. the (content f m)) (mset_set (temps f))"
      using assms(1) state_is_no_temp unfolding c by (intro image_mset_cong) (auto simp: represents_def temps_def)
    ultimately have rep: "represents ?r (d\<lparr>d_file := Regular (new_stat euid) raw\<rparr>)"
      using assms(1) c by (simp add: represents_def node_content_def)
    have sd: "represents (fold fs_do l g) d' = represents g d'" if "l \<in> {[], [SyncDir]}" for l g d'
      using that by (auto simp: represents_def temps_def content_def names_def)
    have "fold fs_do ops f = fold fs_do (fst (make_durable io)) ?r"
      and "w = (if snd (make_durable io) then WDone else WNotFlushed)"
      using assms(4) r True by (auto simp: write_calls_def Let_def written_def split: prod.splits)
    moreover have "fst (make_durable io) \<in> {[], [SyncDir]}" using make_durable_ops [of io] by blast
    ultimately show ?thesis using rep by (simp only: sd) (simp add: write_atomic_def)
  next
    case quit: False
    from quit False assms(4) r consider
        "give_up io ?t [Create ?t i] ''create temporary file'' [] = (ops, w)"
      | n where "give_up io ?t [Create ?t i, Put i 0 (take n raw)] ''write temporary file'' (take n raw) = (ops, w)"
      | "give_up io ?t [Create ?t i, Put i 0 raw] ''sync temporary file'' raw = (ops, w)"
      | "give_up io ?t [Create ?t i, Put i 0 raw, Sync i] ''close temporary file'' raw = (ops, w)"
      | "give_up io ?t [Create ?t i, Put i 0 raw, Sync i] ''replace state file'' raw = (ops, w)"
      by (auto simp: write_calls_def Let_def split: create_end.splits option.splits if_splits)
    then show ?thesis by cases (rule given_up, rule put_parts, assumption)+
  qed
qed

section \<open>Overwriting\<close>

text \<open>
  \<open>overwriteFile\<close>: zeros are written from the start, 64 KiB at a time, and the file is synced. A write may fail after
  some of its bytes (\<open>fails\<close>: the number of writes done before it, and its bytes).
\<close>

definition chunk :: nat where "chunk = 65536"

function zero_calls :: "nat \<Rightarrow> nat \<Rightarrow> nat \<Rightarrow> (nat \<times> nat) option \<Rightarrow> fs_op list \<times> bool" where
  "zero_calls i pos left fails =
    (if left = 0 then ([], True)
     else (let n = min left chunk in case fails of
         Some (0, m) \<Rightarrow> ([Put i pos (zeros (min m n))], False)
       | Some (Suc k, m) \<Rightarrow> (case zero_calls i (pos + n) (left - n) (Some (k, m)) of (ops, ok) \<Rightarrow> (Put i pos (zeros n) # ops, ok))
       | None \<Rightarrow> (case zero_calls i (pos + n) (left - n) None of (ops, ok) \<Rightarrow> (Put i pos (zeros n) # ops, ok))))"
  by pat_completeness auto
termination by (relation "measure (\<lambda>(i, pos, left, fails). left)") (auto simp: chunk_def)

declare zero_calls.simps [simp del]

record overwrite_io =
  oo_seek :: bool
  oo_fails :: "(nat \<times> nat) option"
  oo_sync :: bool

definition overwrite_calls :: "nat \<Rightarrow> overwrite_io \<Rightarrow> nat \<Rightarrow> fs_op list \<times> bool" where
  "overwrite_calls i io left =
    (if \<not> oo_seek io then ([], False)
     else (case zero_calls i 0 left (oo_fails io) of (ops, ok) \<Rightarrow>
       if ok \<and> oo_sync io then (ops @ [Sync i], True) else (ops, False)))"

lemma put_zeros_next:
  assumes "pos + n \<le> length s"
  shows "put_at pos (zeros n) (zeros pos @ drop pos s) = zeros (pos + n) @ drop (pos + n) s"
proof -
  have "drop (n + pos) s = drop (pos + n) s" by (simp add: add.commute)
  then show ?thesis using assms by (simp add: put_at_def zeros_def replicate_add)
qed

text \<open>What was written is zeros from the start, and the rest of the file is as it was.\<close>

lemma zero_calls_data:
  assumes "zero_calls i pos left fails = (ops, ok)" and "pos + left = length s"
    and "in_data (dk_file f i) = zeros pos @ drop pos s"
  shows "\<exists>m \<le> length s. in_data (dk_file (fold fs_do ops f) i) = zeros m @ drop m s \<and> (ok \<longrightarrow> m = length s)
    \<and> dk_dirs (fold fs_do ops f) = dk_dirs f \<and> (\<forall>j. j \<noteq> i \<longrightarrow> dk_file (fold fs_do ops f) j = dk_file f j)"
  using assms
proof (induction i pos left fails arbitrary: ops ok f rule: zero_calls.induct)
  case (1 i pos left fails)
  show ?case
  proof (cases "left = 0")
    case True
    then show ?thesis using 1(3-5) by (intro exI [of _ pos]) (simp add: zero_calls.simps)
  next
    case False
    define n where "n = min left chunk"
    let ?f = "fs_do (Put i pos (zeros n)) f"
    have n: "pos + n \<le> length s" "pos + n + (left - n) = length s" using 1(4) by (auto simp: n_def)
    have next_data: "in_data (dk_file ?f i) = zeros (pos + n) @ drop (pos + n) s"
      using put_zeros_next [OF n(1)] 1(5) by simp
    have again: ?thesis
      if "zero_calls i (pos + n) (left - n) fl = (ops', ok)" "ops = Put i pos (zeros n) # ops'"
        and IH: "\<And>ops' ok f. zero_calls i (pos + n) (left - n) fl = (ops', ok) \<Longrightarrow> pos + n + (left - n) = length s \<Longrightarrow>
          in_data (dk_file f i) = zeros (pos + n) @ drop (pos + n) s \<Longrightarrow>
          \<exists>m \<le> length s. in_data (dk_file (fold fs_do ops' f) i) = zeros m @ drop m s \<and> (ok \<longrightarrow> m = length s)
          \<and> dk_dirs (fold fs_do ops' f) = dk_dirs f \<and> (\<forall>j. j \<noteq> i \<longrightarrow> dk_file (fold fs_do ops' f) j = dk_file f j)"
      for fl ops'
      using IH [OF that(1) n(2) next_data] that(2) by auto
    consider (stop) m where "fails = Some (0, m)" | (more) k m where "fails = Some (Suc k, m)" | (all) "fails = None"
      by (metis not0_implies_Suc option.exhaust surj_pair)
    then show ?thesis
    proof cases
      case (stop m)
      have p: "pos + min m n \<le> length s" using n(1) by simp
      from stop show ?thesis using 1(3) False p put_zeros_next [OF p] 1(5)
        by (intro exI [of _ "pos + min m n"]) (auto simp: zero_calls.simps Let_def n_def)
    next
      case (more k m)
      with 1(3) False obtain ops' where "zero_calls i (pos + n) (left - n) (Some (k, m)) = (ops', ok)" "ops = Put i pos (zeros n) # ops'"
        by (auto simp: zero_calls.simps [of i pos left] Let_def n_def split: prod.splits)
      then show ?thesis using 1(2) [OF False n_def more refl] by (rule again) auto
    next
      case all
      with 1(3) False obtain ops' where "zero_calls i (pos + n) (left - n) None = (ops', ok)" "ops = Put i pos (zeros n) # ops'"
        by (auto simp: zero_calls.simps [of i pos left] Let_def n_def split: prod.splits)
      then show ?thesis using 1(1) [OF False n_def all] by (rule again)
    qed
  qed
qed

lemma zero_calls_puts: "zero_calls i pos left fails = (ops, ok) \<Longrightarrow> \<forall>op\<in>set ops. \<exists>p b. op = Put i p b"
proof (induction i pos left fails arbitrary: ops ok rule: zero_calls.induct)
  case (1 i pos left fails)
  show ?case
  proof (cases "left = 0")
    case True
    then show ?thesis using 1(3) by (simp add: zero_calls.simps)
  next
    case False
    define n where "n = min left chunk"
    consider (stop) m where "fails = Some (0, m)" | (more) k m where "fails = Some (Suc k, m)" | (all) "fails = None"
      by (metis not0_implies_Suc option.exhaust surj_pair)
    then show ?thesis
    proof cases
      case (stop m)
      then show ?thesis using 1(3) False by (auto simp: zero_calls.simps Let_def)
    next
      case (more k m)
      with 1(3) False obtain ops' where "zero_calls i (pos + n) (left - n) (Some (k, m)) = (ops', ok)" "ops = Put i pos (zeros n) # ops'"
        by (auto simp: zero_calls.simps [of i pos left] Let_def n_def split: prod.splits)
      then show ?thesis using 1(2) [OF False n_def more refl] by auto
    next
      case all
      with 1(3) False obtain ops' where "zero_calls i (pos + n) (left - n) None = (ops', ok)" "ops = Put i pos (zeros n) # ops'"
        by (auto simp: zero_calls.simps [of i pos left] Let_def n_def split: prod.splits)
      then show ?thesis using 1(1) [OF False n_def all] by auto
    qed
  qed
qed

text \<open>The text a file of this content has after some writes to it.\<close>

fun text_after :: "fs_op list \<Rightarrow> string \<Rightarrow> string" where
  "text_after [] s = s"
| "text_after (Put i pos b # ops) s = text_after ops (put_at pos b s)"
| "text_after (op # ops) s = text_after ops s"

lemma text_after_puts:
  "\<forall>op\<in>set ops. \<exists>p b. op = Put i p b \<Longrightarrow> text_after ops (in_data (dk_file f i)) = in_data (dk_file (fold fs_do ops f) i)"
proof (induction ops arbitrary: f)
  case (Cons op ops)
  then obtain p b where op: "op = Put i p b" by auto
  with Cons.IH [of "fs_do op f"] Cons.prems show ?case by simp
qed simp

lemma overwritten:
  assumes "overwrite_calls i io (length b) = (ops, ok)" and "in_data (dk_file f i) = b"
  shows "dk_dirs (fold fs_do ops f) = dk_dirs f" and "\<forall>j. j \<noteq> i \<longrightarrow> dk_file (fold fs_do ops f) j = dk_file f j"
    and "ok \<Longrightarrow> dk_file (fold fs_do ops f) i = \<lparr>in_data = zeros (length b), in_synced = True\<rparr>"
    and "\<not> ok \<Longrightarrow> text_after ops b = in_data (dk_file (fold fs_do ops f) i)"
    and "\<exists>m. in_data (dk_file (fold fs_do ops f) i) = zeros m @ drop m b"
proof -
  obtain zs z where z: "zero_calls i 0 (length b) (oo_fails io) = (zs, z)" by fastforce
  have "in_data (dk_file f i) = zeros 0 @ drop 0 b" using assms(2) by (simp add: zeros_def)
  then obtain m where m: "m \<le> length b" "in_data (dk_file (fold fs_do zs f) i) = zeros m @ drop m b" "z \<longrightarrow> m = length b"
    "dk_dirs (fold fs_do zs f) = dk_dirs f" "\<forall>j. j \<noteq> i \<longrightarrow> dk_file (fold fs_do zs f) j = dk_file f j"
    using zero_calls_data [OF z, of b f] by auto
  note t = text_after_puts [OF zero_calls_puts [OF z], of f]
  have id: "drop 0 b = b" "zeros 0 = []" by (simp_all add: zeros_def)
  show "dk_dirs (fold fs_do ops f) = dk_dirs f" and "\<forall>j. j \<noteq> i \<longrightarrow> dk_file (fold fs_do ops f) j = dk_file f j"
    and "ok \<Longrightarrow> dk_file (fold fs_do ops f) i = \<lparr>in_data = zeros (length b), in_synced = True\<rparr>"
    and "\<not> ok \<Longrightarrow> text_after ops b = in_data (dk_file (fold fs_do ops f) i)"
    using assms z m t by (auto simp: overwrite_calls_def split: if_splits)
  show "\<exists>m. in_data (dk_file (fold fs_do ops f) i) = zeros m @ drop m b"
  proof (cases "oo_seek io")
    case True
    then show ?thesis using assms z m by (intro exI [of _ m]) (auto simp: overwrite_calls_def split: if_splits)
  next
    case False
    then show ?thesis using assms id by (intro exI [of _ 0]) (auto simp: overwrite_calls_def)
  qed
qed

text \<open>\<open>overwriteAndRemove\<close> of the file \<open>n\<close> at the path \<open>p\<close>; what is not a regular file is removed itself.\<close>

record remove_io =
  ro_open :: bool
  ro_over :: overwrite_io
  ro_close :: bool
  ro_remove :: bool

definition remove_calls :: "string \<Rightarrow> nat \<Rightarrow> remove_io \<Rightarrow> node \<Rightarrow> fs_op list \<times> remove_end" where
  "remove_calls p i io n = (case open_for_overwrite (ro_open io) n of
       OpenFailed \<Rightarrow> ([], NotOverwritten)
     | NotRegular \<Rightarrow> if ro_remove io then ([Unlink p], Removed) else ([], NotOverwritten)
     | Held st b \<Rightarrow> (case overwrite_calls i (ro_over io) (length b) of
         (ops, False) \<Rightarrow> (ops, PartWritten (text_after ops b))
       | (ops, True) \<Rightarrow> if ro_close io \<and> ro_remove io then (ops @ [Unlink p], Removed) else (ops, NotRemoved)))"

text \<open>
  Removing a file does to its path what the store's model says; and a regular file that was removed holds zeros, on the
  disk too.
\<close>

theorem remove_calls_refine_the_store:
  assumes "d_file d = Regular st b" and "names f p = Some i" and "in_data (dk_file f i) = b"
    and "remove_calls p i io (d_file d) = (ops, e)"
  shows "content (fold fs_do ops f) p = node_content (remove_node e (d_file d))
    \<and> (e = Removed \<longrightarrow> dk_file (fold fs_do ops f) i = \<lparr>in_data = zeros (length b), in_synced = True\<rparr>)"
proof (cases "ro_open io")
  case False
  then show ?thesis using assms
    by (auto simp: remove_calls_def open_for_overwrite_def content_def node_content_def remove_node_def)
next
  case True
  obtain os ok where o: "overwrite_calls i (ro_over io) (length b) = (os, ok)" by fastforce
  note w = overwritten [OF o assms(3)]
  have n: "names (fold fs_do os f) p = Some i" using w(1) assms(2) by (simp add: names_def)
  show ?thesis
  proof (cases "ok \<and> ro_close io \<and> ro_remove io")
    case True
    then have "ops = os @ [Unlink p]" "e = Removed"
      using assms(1,4) \<open>ro_open io\<close> o by (auto simp: remove_calls_def open_for_overwrite_def)
    then show ?thesis using w(3) True assms(1) by (auto simp: content_def node_content_def remove_node_def names_def)
  next
    case False
    then have "ops = os" "e = (if ok then NotRemoved else PartWritten (text_after os b))"
      using assms(1,4) True o by (auto simp: remove_calls_def open_for_overwrite_def split: bool.splits)
    then show ?thesis using w(3,4) n assms(1) by (cases ok) (auto simp: content_def node_content_def remove_node_def)
  qed
qed

section \<open>Making and locking the directory\<close>

text \<open>
  Paths are lists of names, the last one first (\<open>filepath.Dir\<close> is the tail). \<open>mkdir0700\<close>: the directory is made and its
  mode set (or left as the umask gave it), it exists meanwhile, or it cannot be made.
\<close>

datatype tree_node = TreeDir nat | TreeLink bool | TreeFile
type_synonym tree = "string list \<Rightarrow> tree_node option"

datatype mkdir_end = Made nat bool | Meanwhile | MkdirFails

definition mkdir0700 :: "mkdir_end \<Rightarrow> string list \<Rightarrow> tree \<Rightarrow> tree \<times> bool" where
  "mkdir0700 e p t = (case e of Made umasked ok \<Rightarrow> (t(p := Some (TreeDir (if ok then 448 else umasked))), ok)
     | Meanwhile \<Rightarrow> (t, True) | MkdirFails \<Rightarrow> (t, False))"

text \<open>\<open>os.Stat\<close> follows a link (\<open>TreeLink True\<close>: it leads to a directory); a link that leads nowhere is taken as none.\<close>

fun is_dir :: "tree_node \<Rightarrow> bool" where
  "is_dir (TreeDir m) = True"
| "is_dir (TreeLink b) = b"
| "is_dir TreeFile = False"

fun mkdir_all0700 :: "(string list \<Rightarrow> mkdir_end) \<Rightarrow> string list \<Rightarrow> tree \<Rightarrow> tree \<times> bool" where
  "mkdir_all0700 E [] t = (case t [] of Some n \<Rightarrow> (t, is_dir n) | None \<Rightarrow> mkdir0700 (E []) [] t)"
| "mkdir_all0700 E (c # q) t = (case t (c # q) of Some n \<Rightarrow> (t, is_dir n)
     | None \<Rightarrow> (case mkdir_all0700 E q t of (t, ok) \<Rightarrow> if ok then mkdir0700 (E (c # q)) (c # q) t else (t, False)))"

definition mkdir_owner_only :: "(string list \<Rightarrow> mkdir_end) \<Rightarrow> string list \<Rightarrow> tree \<Rightarrow> tree \<times> store_error option" where
  "mkdir_owner_only E p t = (case t p of
       Some (TreeLink _) \<Rightarrow> (t, Some (ENotOwnerOnly ''is a symbolic link''))
     | Some TreeFile \<Rightarrow> (t, Some (EOther ''not a directory''))
     | Some (TreeDir _) \<Rightarrow> (t, None)
     | None \<Rightarrow> (case mkdir_all0700 E (tl p) t of (t, ok) \<Rightarrow>
         if \<not> ok then (t, Some (EOther ''create parent directory''))
         else (case mkdir0700 (E p) p t of (t, ok) \<Rightarrow> (t, if ok then None else Some (EOther ''create state directory'')))))"

text \<open>What was there stays, and every directory made is the owner's only, unless an error is returned.\<close>

definition grown :: "tree \<Rightarrow> tree \<Rightarrow> bool \<Rightarrow> bool" where
  "grown t t' ok = (\<forall>q. t' q \<noteq> t q \<longrightarrow> t q = None \<and> (\<exists>m. t' q = Some (TreeDir m) \<and> (ok \<longrightarrow> m = 448)))"

lemma grown_refl [simp]: "grown t t ok"
  by (simp add: grown_def)

lemma grown_mkdir: "grown t t' True \<Longrightarrow> t' p = None \<Longrightarrow> mkdir0700 e p t' = (u, ok) \<Longrightarrow> grown t u ok"
  unfolding grown_def mkdir0700_def by (auto split: mkdir_end.splits if_splits) metis+

lemma mkdir_all_below: "mkdir_all0700 E q t = (u, ok) \<Longrightarrow> length q < length p \<Longrightarrow> u p = t p"
  by (induction E q t arbitrary: u ok rule: mkdir_all0700.induct)
    (auto simp: mkdir0700_def split: option.splits mkdir_end.splits prod.splits if_splits)

lemma mkdir_all_grown: "mkdir_all0700 E p t = (u, ok) \<Longrightarrow> grown t u ok"
proof (induction p arbitrary: u ok)
  case Nil
  then show ?case using grown_mkdir [OF grown_refl, of t "[]"] by (auto split: option.splits)
next
  case (Cons c q)
  show ?case
  proof (cases "t (c # q)")
    case (Some n)
    with Cons.prems show ?thesis by simp
  next
    case None
    obtain t' ok' where t': "mkdir_all0700 E q t = (t', ok')" by fastforce
    have "t' (c # q) = None" using mkdir_all_below [OF t', of "c # q"] None by simp
    then show ?thesis using Cons.IH [OF t'] Cons.prems None t' by (cases ok') (auto intro: grown_mkdir)
  qed
qed

lemma new_directories_are_private:
  assumes "mkdir_owner_only E (c # q) t = (u, e)"
  shows "grown t u (e = None) \<and> (e = None \<longrightarrow> (case u (c # q) of Some (TreeDir _) \<Rightarrow> True | _ \<Rightarrow> E (c # q) = Meanwhile))"
proof (cases "t (c # q)")
  case (Some n)
  with assms show ?thesis by (auto simp: mkdir_owner_only_def split: tree_node.splits)
next
  case None
  obtain t' ok where t': "mkdir_all0700 E q t = (t', ok)" by fastforce
  obtain t'' ok' where t'': "mkdir0700 (E (c # q)) (c # q) t' = (t'', ok')" by fastforce
  have "t' (c # q) = None" using mkdir_all_below [OF t', of "c # q"] None by simp
  then have "ok \<Longrightarrow> grown t t'' ok'" using mkdir_all_grown [OF t'] t'' by (auto intro: grown_mkdir)
  moreover have "ok' \<Longrightarrow> (case t'' (c # q) of Some (TreeDir _) \<Rightarrow> True | _ \<Rightarrow> E (c # q) = Meanwhile)"
    using t'' by (auto simp: mkdir0700_def split: mkdir_end.splits option.splits tree_node.splits)
  moreover have "\<not> ok \<Longrightarrow> grown t t' False" using mkdir_all_grown [OF t'] by simp
  ultimately show ?thesis using assms None t' t'' by (auto simp: mkdir_owner_only_def split: if_splits)
qed

text \<open>\<open>lockDir\<close>: opening the lock file, setting its mode, and \<open>flock\<close> without waiting.\<close>

datatype flock_end = Flocked | WouldBlock | FlockFails

definition lock_dir :: "bool \<Rightarrow> bool \<Rightarrow> flock_end \<Rightarrow> lock_end" where
  "lock_dir opened chmod fl = (if \<not> opened \<or> \<not> chmod then LockFailed
     else (case fl of Flocked \<Rightarrow> Locked | WouldBlock \<Rightarrow> InUse | FlockFails \<Rightarrow> LockFailed))"

section \<open>Witnesses\<close>

text \<open>A save over an old state of three bytes; a crash right after the rename.\<close>

definition demo_disk :: disk where
  "demo_disk = \<lparr>dk_dirs = [[StateFileName \<mapsto> 1]], dk_file = \<lambda>_. \<lparr>in_data = ''old'', in_synced = True\<rparr>\<rparr>"

definition demo_write :: file_io where
  "demo_write = \<lparr>fo_rand = Some (replicate 16 CHR ''r''), fo_create = Created, fo_written = None, fo_sync = True, fo_close = True,
     fo_rename = True, fo_removed = True, fo_flush = True, fo_sync_dir = DirSynced\<rparr>"

definition demo_temp :: string where "demo_temp = temp_name (replicate 16 CHR ''r'')"

lemma demo_calls:
  "write_calls 2 demo_write ''new!'' = ([Create demo_temp 2, Put 2 0 ''new!'', Sync 2, Rename demo_temp StateFileName, SyncDir], WDone)"
  by (simp add: write_calls_def demo_write_def demo_temp_def make_durable_def sync_dir_def Let_def)

lemma demo_unused: "unused 2 demo_disk"
  by (simp add: unused_def demo_disk_def)

lemma demo_temp_name: "demo_temp \<noteq> StateFileName" "names demo_disk demo_temp = None"
  using temp_name_not_state by (simp_all add: demo_temp_def names_def demo_disk_def)


definition demo_dir :: dir where
  "demo_dir = \<lparr>d_file = Regular (new_stat 1000) ''old'', d_temps = [], d_keys = {}\<rparr>"

theorem write_calls_refine_the_store_witness:
  "represents demo_disk demo_dir
   \<and> represents (fold fs_do (fst (write_calls 2 demo_write ''new!'')) demo_disk) (demo_dir\<lparr>d_file := Regular (new_stat 1000) ''new!''\<rparr>)"
proof
  have t: "temps demo_disk = {}" using state_is_no_temp by (auto simp: temps_def names_def demo_disk_def)
  show r: "represents demo_disk demo_dir"
    by (simp add: represents_def t demo_dir_def node_content_def content_def names_def) (simp add: demo_disk_def)
  have n: "\<forall>r. fo_rand demo_write = Some r \<and> fo_create demo_write \<noteq> NotCreated \<longrightarrow> names demo_disk (temp_name r) = None"
    using demo_temp_name(2) by (simp add: demo_write_def demo_temp_def)
  show "represents (fold fs_do (fst (write_calls 2 demo_write ''new!'')) demo_disk) (demo_dir\<lparr>d_file := Regular (new_stat 1000) ''new!''\<rparr>)"
    using write_calls_refine_the_store [OF r demo_unused n demo_calls, of 1000] by (simp add: demo_calls write_atomic_def)
qed

end
