(* ===== verification/Pair.thy ===== *)
theory Pair
  imports PairRecord PairCode Store
begin

text \<open>
  \<open>internal/pairing/pair.go\<close>: one run of \<open>vettid-agent pair\<close> over a state directory (theory Store). What the
  run cannot decide itself is its environment: the results of the store's system calls, one record for each
  call; the code the operator gives; and what vettid-vault's client answers (the fresh device, the
  handshake, the device states it hands over for saving, and how the wait for the owner ends).
\<close>

section \<open>The run and its environment\<close>

record store_io =
  io_stat :: bool
  io_dir :: dir_node
  io_nonce :: "string option"
  io_write :: write_end
  io_create :: create_io
  io_replace :: replace_io
  io_wipe :: wipe_io
  io_all :: "(protector option \<times> bool) list"

text \<open>How a call of the client failed, as far as \<open>pairError\<close> tells it apart.\<close>

datatype client_fail = FailExpired | FailHash | FailInvite | FailUsed | FailRelay nat string | FailProtocol | FailOther string

record client_end =
  ce_ctx :: bool
  ce_deadline :: bool
  ce_fail :: client_fail

datatype await_end = AwaitPaired "time option" | AwaitRejected | AwaitInterrupted | AwaitDeadline | AwaitFailed

record penv =
  pe_around :: surround
  pe_times :: env
  pe_json :: "json \<Rightarrow> string"
  pe_read :: "string \<Rightarrow> record_text"
  pe_lib :: code_lib
  pe_io :: "nat \<Rightarrow> store_io"
  pe_device :: "nat \<Rightarrow> json option option"
  pe_code :: "string option"
  pe_protector :: "(protector \<times> string) option"
  pe_new :: "client_end option"
  pe_pair :: "client_end + string"
  pe_mailbox :: string
  pe_pending :: "json option \<Rightarrow> bool"
  pe_restored :: bool
  pe_paired :: "json decoder"
  pe_session :: "json \<Rightarrow> time"
  pe_batches :: "json option list"
  pe_await :: await_end
  pe_now :: time
  pe_started :: time
  pe_name :: string
  pe_host :: "string option"
  pe_code_given :: bool
  pe_restart :: bool
  pe_stdin :: bool
  pe_pass_chosen :: bool

datatype shown = ShowText string | ShowContacting | ShowSAS string | ShowWaiting | ShowPaired | ShowNotFlushed
  | ShowResume time | ShowResumeStdin | ShowResumePassphrase | ShowKept | ShowMaybeReplaced
  | ShowReplaced | ShowDiscarded | ShowDiscardedUnreadable

datatype pair_error =
    PairName name_error
  | PairStore store_error
  | PairUnreadable
  | AlreadyPaired
  | PairExpired
  | PairExpiredKept
  | NotPending
  | NotRestored
  | PairCodeText
  | PairCode code_error
  | PairProtector
  | InterruptedEarly
  | Interrupted time
  | RelayMismatch
  | BadSAS
  | Rejected
  | NotPrepared
  | NotEncoded record_err
  | NotSaved store_error
  | ApprovedNotSaved pair_error
  | BadAnswer
  | PairFailed string
  | WipeFailed pair_error

datatype replacing = Unfinished | WasPaired | Unreadable

text \<open>\<open>run\<close>: the store's state, the calls made of it, what was shown (with the directory at that moment),
  and the fields of the Go struct.\<close>

record prun =
  pw :: "store \<times> dir"
  pn :: nat
  p_shown :: "(shown \<times> dir) list"
  p_cur :: "prec option"
  p_paired :: bool
  p_replacing :: replacing
  p_replaced :: bool
  p_old_gone :: bool
  p_prot :: "protector option"
  p_created :: bool
  p_replace :: bool

definition show_op :: "shown \<Rightarrow> prun \<Rightarrow> prun" where
  "show_op t r = r\<lparr>p_shown := p_shown r @ [(t, snd (pw r))]\<rparr>"

section \<open>The calls of the store\<close>

definition sop :: "penv \<Rightarrow> (store_io \<Rightarrow> store_op) \<Rightarrow> prun \<Rightarrow> store_reply \<times> prun" where
  "sop P f r = (case store_do (pe_around P) (f (pe_io P (pn r))) (pw r) of (rep, w) \<Rightarrow> (rep, r\<lparr>pw := w, pn := pn r + 1\<rparr>))"

fun reply_error :: "store_reply \<Rightarrow> store_error option" where
  "reply_error (Ended (e # es)) = Some e"
| "reply_error _ = None"

definition st_save :: "penv \<Rightarrow> string \<Rightarrow> prun \<Rightarrow> store_error option \<times> prun" where
  "st_save P b r = (case sop P (\<lambda>io. OpSave (io_nonce io) (io_write io) b) r of (rep, r) \<Rightarrow> (reply_error rep, r))"

definition st_create :: "penv \<Rightarrow> string \<Rightarrow> prun \<Rightarrow> store_error option \<times> prun" where
  "st_create P b r = (case sop P (\<lambda>io. OpCreate (io_create io) (p_prot r) b) r of (rep, r) \<Rightarrow> (reply_error rep, r))"

definition st_replace :: "penv \<Rightarrow> string \<Rightarrow> prun \<Rightarrow> store_error option \<times> prun" where
  "st_replace P b r = (case sop P (\<lambda>io. OpReplace (io_replace io) (p_prot r) b) r of (rep, r) \<Rightarrow> (reply_error rep, r))"

definition st_wipe :: "penv \<Rightarrow> prun \<Rightarrow> store_error option \<times> prun" where
  "st_wipe P r = (case sop P (\<lambda>io. OpWipe (io_wipe io)) r of (rep, r) \<Rightarrow> (reply_error rep, r))"

definition st_wipe_all :: "penv \<Rightarrow> prun \<Rightarrow> store_error option \<times> prun" where
  "st_wipe_all P r = (case sop P (\<lambda>io. OpWipeAll (io_wipe io) (io_all io)) r of (rep, r) \<Rightarrow> (reply_error rep, r))"

section \<open>Writing and wiping\<close>

definition show_replaced :: "prun \<Rightarrow> prun" where
  "show_replaced r = show_op (case p_replacing r of WasPaired \<Rightarrow> ShowReplaced | Unreadable \<Rightarrow> ShowDiscardedUnreadable
     | Unfinished \<Rightarrow> ShowDiscarded) r"

text \<open>The first write over what the directory held.\<close>

definition write_over :: "penv \<Rightarrow> string \<Rightarrow> prun \<Rightarrow> store_error option \<times> prun" where
  "write_over P b r =
    (let (e, r) = st_replace P b r;
         (e, r) = (if e = Some EProtectorUnknown \<and> pe_restart P then
             (case st_wipe_all P (r\<lparr>p_old_gone := True\<rparr>) of
                (Some e, r) \<Rightarrow> (Some e, r)
              | (None, r) \<Rightarrow> st_create P b r) else (e, r)) in
     (e, if e = Some EReplacedPartly then r\<lparr>p_old_gone := True, p_created := True\<rparr>
         else if e = Some EReplaceIncomplete then r\<lparr>p_old_gone := True\<rparr> else r))"

definition write_run :: "penv \<Rightarrow> string \<Rightarrow> prun \<Rightarrow> store_error option \<times> prun" where
  "write_run P b r =
    (if p_created r then st_save P b r
     else (let (e, r) = (if p_replace r then write_over P b r else st_create P b r) in
       (e, if e = None \<or> e = Some ENotDurable
           then (let r = r\<lparr>p_created := True\<rparr> in
             if p_replace r \<and> \<not> p_replaced r then show_replaced (r\<lparr>p_replaced := True\<rparr>) else r)
           else r)))"

text \<open>\<open>save\<close>: the device's state now, in the current record.\<close>

definition save_run :: "penv \<Rightarrow> prun \<Rightarrow> pair_error option \<times> prun" where
  "save_run P r = (case pe_device P (pn r) of None \<Rightarrow> (Some NotPrepared, r)
     | Some dev \<Rightarrow>
       (let rec = (the (p_cur r))\<lparr>pr_device := dev\<rparr>; r = r\<lparr>p_cur := Some rec\<rparr> in
        case encode_record (pe_times P) rec of Inl e \<Rightarrow> (Some (NotEncoded e), r)
        | Inr j \<Rightarrow>
          (let (e, r) = write_run P (pe_json P j) r;
               (e, r) = (if e = Some ENotDurable then st_save P (pe_json P j) r else (e, r)) in
           (case e of None \<Rightarrow> None | Some e \<Rightarrow> Some (if e = ENotDurable then PairStore e else NotSaved e), r))))"

definition fail_wipe :: "penv \<Rightarrow> pair_error \<Rightarrow> prun \<Rightarrow> pair_error option \<times> prun" where
  "fail_wipe P e r =
    (if \<not> p_created r then (Some e, r)
     else (case st_wipe P r of (we, r) \<Rightarrow>
       if we \<noteq> None \<and> we \<noteq> Some ENothingToWipe then (Some (WipeFailed e), r)
       else (Some e, r\<lparr>p_created := False\<rparr>)))"

section \<open>Saving what the client hands over\<close>

text \<open>\<open>accessFromPaired\<close>: an absent time is the zero time here.\<close>

definition access_from_paired :: "time option \<Rightarrow> access" where
  "access_from_paired t = (case t of None \<Rightarrow> unknown_access
     | Some t \<Rightarrow> if t = 0 then unknown_access else \<lparr>acc_state = AccessActive, acc_session = [], acc_expires = t\<rparr>)"

text \<open>The parts of the device state that \<open>persist\<close> reads: the device id, the vault record, \<open>paired\<close>.\<close>

definition batch_state :: "penv \<Rightarrow> json option \<Rightarrow> (string \<times> json option \<times> json option) option" where
  "batch_state P st = (case struct_members st of None \<Rightarrow> None
     | Some ms \<Rightarrow>
       (let (i, k1) = dec_field ''device_id'' dec_string ms []; (v, k2) = dec_field ''vault'' dec_raw ms None;
            (p, k3) = dec_field ''paired'' (dec_ptr (JObj []) (pe_paired P)) ms None in
        if k1 \<and> k2 \<and> k3 then Some (i, v, p) else None))"

definition save_paired_or_not :: "penv \<Rightarrow> prec \<Rightarrow> prun \<Rightarrow> bool \<times> prun" where
  "save_paired_or_not P rec r = (case encode_record (pe_times P) rec of Inl e \<Rightarrow> (False, r)
     | Inr j \<Rightarrow> (case st_save P (pe_json P j) r of
         (Some e, r) \<Rightarrow> (False, r)
       | (None, r) \<Rightarrow> (True, if pr_phase rec = PhasePaired then r\<lparr>p_paired := True\<rparr> else r)))"

text \<open>\<open>persist\<close>: whether the batch may be acknowledged.\<close>

definition persist :: "penv \<Rightarrow> json option \<Rightarrow> prun \<Rightarrow> bool \<times> prun" where
  "persist P st r = (case p_cur r of None \<Rightarrow> (True, r)
     | Some cur \<Rightarrow>
       if \<not> p_created r then (True, r)
       else (case batch_state P st of None \<Rightarrow> (False, r)
         | Some (i, v, p) \<Rightarrow>
           if i \<noteq> [] then
             save_paired_or_not P \<lparr>pr_phase = PhasePaired, pr_deadline = 0, pr_device = st,
               pr_access = access_from_paired (map_option (pe_session P) p), pr_leash = None\<rparr> r
           else if v = None \<or> v = Some JNull then (True, r)
           else save_paired_or_not P \<lparr>pr_phase = pr_phase cur, pr_deadline = pr_deadline cur, pr_device = st,
               pr_access = unknown_access, pr_leash = None\<rparr> r))"

section \<open>Waiting for the owner\<close>

text \<open>\<open>AwaitPaired\<close> hands over the state of each batch it collects, then ends.\<close>

definition collect_batches :: "penv \<Rightarrow> prun \<Rightarrow> prun" where
  "collect_batches P r = fold (\<lambda>st r. snd (persist P st r)) (pe_batches P) r"

definition approved :: "penv \<Rightarrow> time option \<Rightarrow> prun \<Rightarrow> pair_error option \<times> prun" where
  "approved P paired r =
    (let cur = the (p_cur r);
         r = r\<lparr>p_cur := Some (cur\<lparr>pr_phase := PhasePaired, pr_deadline := 0,
           pr_access := (case paired of None \<Rightarrow> pr_access cur | Some t \<Rightarrow> access_from_paired (Some t))\<rparr>)\<rparr> in
     case save_run P r of
       (None, r) \<Rightarrow> (None, show_op ShowPaired r)
     | (Some e, r) \<Rightarrow> if e = PairStore ENotDurable then (None, show_op ShowNotFlushed (show_op ShowPaired r))
         else fail_wipe P (ApprovedNotSaved e) r)"

definition wait_run :: "penv \<Rightarrow> prun \<Rightarrow> pair_error option \<times> prun" where
  "wait_run P r =
    (let r = collect_batches P r in
     case pe_await P of
       AwaitPaired paired \<Rightarrow> if p_paired r then (None, show_op ShowPaired r) else approved P paired r
     | AwaitRejected \<Rightarrow> fail_wipe P Rejected r
     | AwaitInterrupted \<Rightarrow> (Some (Interrupted (pr_deadline (the (p_cur r)))), r)
     | AwaitDeadline \<Rightarrow> fail_wipe P PairExpired r
     | AwaitFailed \<Rightarrow> fail_wipe P BadAnswer r)"

section \<open>A new pairing\<close>

definition Window :: duration where "Window = 10 * minute"

text \<open>\<open>pairError\<close>; a foreign text is redacted and sanitized before it is shown.\<close>

definition pair_failed :: "code \<Rightarrow> client_end \<Rightarrow> pair_error" where
  "pair_failed c x =
    (if ce_ctx x then InterruptedEarly
     else if ce_deadline x \<or> ce_fail x = FailExpired then PairExpired
     else (case ce_fail x of
         FailHash \<Rightarrow> PairFailed ''the pairing code does not match''
       | FailInvite \<Rightarrow> PairFailed ''the invitation could not be opened''
       | FailUsed \<Rightarrow> PairFailed ''the pairing code was already used''
       | FailRelay n s \<Rightarrow> PairFailed (shown_error c s)
       | FailProtocol \<Rightarrow> PairFailed ''the handshake failed''
       | FailOther s \<Rightarrow> PairFailed (shown_error c s)
       | FailExpired \<Rightarrow> PairExpired))"

definition trim_slashes :: "string \<Rightarrow> string" where
  "trim_slashes s = rev (dropWhile (\<lambda>c. c = CHR ''/'') (rev s))"

definition start_record :: "penv \<Rightarrow> prec" where
  "start_record P = \<lparr>pr_phase = PhaseStarted, pr_deadline = pe_started P + Window, pr_device = None,
     pr_access = unknown_access, pr_leash = None\<rparr>"

text \<open>From the handshake on: the SAS is shown after the record is saved as waiting.\<close>

definition after_handshake :: "penv \<Rightarrow> code \<Rightarrow> string \<Rightarrow> prun \<Rightarrow> pair_error option \<times> prun" where
  "after_handshake P c sas r =
    (if pe_mailbox P = [] \<or> trim_slashes (pe_mailbox P) \<noteq> trim_slashes (cd_relay c) then fail_wipe P RelayMismatch r
     else (case format_sas sas of None \<Rightarrow> fail_wipe P BadSAS r
       | Some s \<Rightarrow>
         (case save_run P (r\<lparr>p_cur := Some ((the (p_cur r))\<lparr>pr_phase := PhaseWaiting\<rparr>)\<rparr>) of
            (Some e, r) \<Rightarrow> fail_wipe P e r
          | (None, r) \<Rightarrow> wait_run P (show_op ShowWaiting (show_op (ShowSAS s) r)))))"

definition with_device :: "penv \<Rightarrow> code \<Rightarrow> prun \<Rightarrow> pair_error option \<times> prun" where
  "with_device P c r = (case save_run P r of
       (Some e, r) \<Rightarrow> fail_wipe P e r
     | (None, r) \<Rightarrow> (case pe_pair P of
         Inl x \<Rightarrow> fail_wipe P (pair_failed c x) r
       | Inr sas \<Rightarrow> after_handshake P c sas r))"

definition pair_new :: "penv \<Rightarrow> prun \<Rightarrow> pair_error option \<times> prun" where
  "pair_new P r = (case pe_code P of None \<Rightarrow> (Some PairCodeText, r)
     | Some text \<Rightarrow> (case parse_code (pe_lib P) text (pe_now P) of
         Inl e \<Rightarrow> (Some (if e = ErrCodeExpired then PairExpired else PairCode e), r)
       | Inr c \<Rightarrow> (case pe_protector P of None \<Rightarrow> (Some PairProtector, r)
         | Some (p, notice) \<Rightarrow>
           (let r = r\<lparr>p_prot := Some p\<rparr>;
                r = show_op ShowContacting (if notice \<noteq> [] then show_op (ShowText notice) r else r);
                r = r\<lparr>p_cur := Some (start_record P)\<rparr> in
            case pe_new P of Some x \<Rightarrow> (Some (pair_failed c x), r) | None \<Rightarrow> with_device P c r))))"

section \<open>What the directory held\<close>

datatype existing = Stop pair_error | Resume prec | Fresh

definition load_existing :: "penv \<Rightarrow> prun \<Rightarrow> existing \<times> prun" where
  "load_existing P r = (case sop P (\<lambda>io. OpLoad (io_dir io)) r of (rep, r) \<Rightarrow>
     (case (case rep of Gave raw \<Rightarrow> decode_record (pe_times P) (pe_read P raw) | Ended es \<Rightarrow> Inl NotJson) of
        Inl e \<Rightarrow> if \<not> pe_restart P then (Stop PairUnreadable, r)
                 else (Fresh, r\<lparr>p_replace := True, p_replacing := Unreadable\<rparr>)
      | Inr rec \<Rightarrow>
        (let r = r\<lparr>p_replace := True\<rparr> in
         if pr_phase rec = PhasePaired then
           (if \<not> pe_restart P then (Stop AlreadyPaired, r) else (Fresh, r\<lparr>p_replacing := WasPaired\<rparr>))
         else if pr_phase rec = PhaseWaiting \<and> \<not> pe_restart P \<and> \<not> pe_code_given P then
           (if pe_now P < pr_deadline rec then (Resume rec, r)
            else (case st_wipe P r of (Some e, r) \<Rightarrow> (Stop PairExpiredKept, r) | (None, r) \<Rightarrow> (Stop PairExpired, r)))
         else (Fresh, r\<lparr>p_replacing := Unfinished\<rparr>))))"

definition resume_run :: "penv \<Rightarrow> prec \<Rightarrow> prun \<Rightarrow> pair_error option \<times> prun" where
  "resume_run P rec r =
    (if \<not> pe_pending P (pr_device rec) then (Some NotPending, r)
     else (let r = r\<lparr>p_cur := Some rec\<rparr> in
       if \<not> pe_restored P then (Some NotRestored, r)
       else (let r = show_op (ShowResume (pr_deadline rec)) (r\<lparr>p_created := True\<rparr>);
                 r = (if pe_stdin P then show_op ShowResumeStdin r else r);
                 r = (if pe_pass_chosen P then show_op ShowResumePassphrase r else r) in
         wait_run P (show_op ShowWaiting r))))"

definition what_is_kept :: "pair_error option \<times> prun \<Rightarrow> pair_error option \<times> prun" where
  "what_is_kept x = (case x of (e, r) \<Rightarrow>
     (e, if e = None \<or> \<not> p_replace r \<or> p_replaced r then r
         else if \<not> p_old_gone r then show_op ShowKept r else show_op ShowMaybeReplaced r))"

definition pair_name :: "penv \<Rightarrow> string" where
  "pair_name P = (if pe_name P = [] then default_name (pe_host P) else pe_name P)"

definition pair_run :: "penv \<Rightarrow> prun \<Rightarrow> pair_error option \<times> prun" where
  "pair_run P r = (case check_name (pair_name P) of Some e \<Rightarrow> (Some (PairName e), r)
     | None \<Rightarrow> (case exists_file (io_stat (pe_io P (pn r))) (fst (pw r)) (snd (pw r)) of
         Inl e \<Rightarrow> (Some (PairStore e), r)
       | Inr found \<Rightarrow>
         (let r = r\<lparr>pn := pn r + 1\<rparr> in
          if \<not> found then what_is_kept (pair_new P r)
          else (case load_existing P r of
              (Stop e, r) \<Rightarrow> (Some e, r)
            | (Resume rec, r) \<Rightarrow> resume_run P rec r
            | (Fresh, r) \<Rightarrow> what_is_kept (pair_new P r)))))"

definition start_run :: "store \<Rightarrow> dir \<Rightarrow> prun" where
  "start_run s d = \<lparr>pw = (s, d), pn = 0, p_shown = [], p_cur = None, p_paired = False, p_replacing = Unfinished,
     p_replaced = False, p_old_gone = False, p_prot = None, p_created = False, p_replace = False\<rparr>"

section \<open>What each call leaves\<close>

text \<open>The environment keeps the documented laws: the cipher's, the protector's, and a clock before 2^63 seconds.\<close>

definition env_ok :: "penv \<Rightarrow> bool" where
  "env_ok P = (aead (su_seal (pe_around P)) (su_unseal (pe_around P))
     \<and> (\<forall>n. ci_now (io_create (pe_io P n)) < 2 ^ 63 \<and> ci_now (ri_create (io_replace (pe_io P n))) < 2 ^ 63)
     \<and> (\<forall>p t. pe_protector P = Some (p, t) \<longrightarrow> prot_ok (pe_around P) p))"

definition run_ok :: "penv \<Rightarrow> prun \<Rightarrow> bool" where
  "run_ok P r = (store_ok (pe_around P) (fst (pw r)) \<and> (\<forall>p. p_prot r = Some p \<longrightarrow> prot_ok (pe_around P) p))"

abbreviation held_state :: "penv \<Rightarrow> prun \<Rightarrow> store_error + string" where
  "held_state P r \<equiv> stored (pe_around P) (snd (pw r))"

abbreviation file_of :: "prun \<Rightarrow> node" where
  "file_of r \<equiv> d_file (snd (pw r))"

text \<open>A call changes nothing of the run but the store and the count of calls.\<close>

lemma sop_frame: "sop P f r = (rep, r') \<Longrightarrow> r' = r\<lparr>pw := pw r', pn := pn r + 1\<rparr>"
  by (auto simp: sop_def split: prod.splits)

definition same_run :: "prun \<Rightarrow> prun \<Rightarrow> bool" where
  "same_run r r' = (\<exists>w n. r' = r\<lparr>pw := w, pn := n\<rparr>)"

lemma same_runI [simp]: "same_run r (r\<lparr>pw := w, pn := n\<rparr>)"
  unfolding same_run_def by blast

lemma same_run_fields:
  assumes "same_run r r'"
  shows "p_shown r' = p_shown r" "p_cur r' = p_cur r" "p_paired r' = p_paired r" "p_replacing r' = p_replacing r"
    "p_replaced r' = p_replaced r" "p_old_gone r' = p_old_gone r" "p_prot r' = p_prot r" "p_created r' = p_created r"
    "p_replace r' = p_replace r"
  using assms by (auto simp: same_run_def)

lemma st_save_ends:
  assumes "env_ok P" and "run_ok P r" and "st_save P b r = (e, r')"
  shows "same_run r r' \<and> run_ok P r' \<and> (if in_place e then held_state P r' = Inr b else file_of r' = file_of r)"
proof -
  obtain s d where w: "pw r = (s, d)" by fastforce
  obtain d' e' where sv: "save (pe_around P) (io_nonce (pe_io P (pn r))) (io_write (pe_io P (pn r))) b s d = (d', e')" by fastforce
  have e: "e = e'" "r' = r\<lparr>pw := (s, d'), pn := pn r + 1\<rparr>"
    using assms(3) sv w by (auto simp: st_save_def sop_def ended_def split: option.splits)
  have "if in_place e' then stored (pe_around P) d' = Inr b else d_file d' = d_file d \<and> d_keys d' = d_keys d"
    using save_ends [OF _ _ sv] assms(1,2) w by (simp add: env_ok_def run_ok_def)
  with e assms(2) w show ?thesis by (auto simp: run_ok_def)
qed

lemma st_create_ends:
  assumes "env_ok P" and "run_ok P r" and "st_create P b r = (e, r')"
  shows "same_run r r' \<and> run_ok P r' \<and> (if in_place e then held_state P r' = Inr b else file_of r' = file_of r)
    \<and> e \<notin> {Some EReplacedPartly, Some EReplaceIncomplete}"
proof -
  let ?io = "io_create (pe_io P (pn r))"
  obtain s d where w: "pw r = (s, d)" by fastforce
  obtain s' d' e' where cr: "create (pe_around P) ?io (p_prot r) b s d = (s', d', e')" using prod_cases3 by blast
  have e: "e = e'" "r' = r\<lparr>pw := (s', d'), pn := pn r + 1\<rparr>"
    using assms(3) cr w by (auto simp: st_create_def sop_def ended_def split: option.splits)
  have ends: "if in_place e' then stored (pe_around P) d' = Inr b \<and> st_lock s' = st_lock s
      \<and> (\<exists>l. st_loaded s' = Some l \<and> loaded_ok (pe_around P) l) else d_file d' = d_file d \<and> s' = s"
    using create_ends [OF _ _ _ cr] assms(1,2) by (simp add: env_ok_def run_ok_def)
  have "store_ok (pe_around P) s'" using ends assms(2) w by (auto simp: store_ok_def run_ok_def split: if_splits)
  moreover have "e' \<notin> {Some EReplacedPartly, Some EReplaceIncomplete}"
    using create_errors [of "pe_around P" ?io "p_prot r" b s d s' d'] cr by (cases e') auto
  ultimately show ?thesis using ends e assms(2) w by (auto simp: run_ok_def split: if_splits)
qed

lemma st_replace_ends:
  assumes "env_ok P" and "run_ok P r" and "st_replace P b r = (e, r')"
  shows "same_run r r' \<and> run_ok P r' \<and> (e \<in> {None, Some ENotDurable, Some EReplacedPartly} \<longrightarrow> held_state P r' = Inr b)
    \<and> (e \<notin> {None, Some ENotDurable, Some EReplacedPartly, Some EReplaceIncomplete} \<longrightarrow> file_of r' = file_of r)"
proof -
  let ?io = "io_replace (pe_io P (pn r))"
  obtain s d where w: "pw r = (s, d)" by fastforce
  obtain s' d' old e' where cr: "create_replace (pe_around P) ?io (p_prot r) b s d = (s', d', old, e')" using prod_cases4 by blast
  have e: "e = e'" "r' = r\<lparr>pw := (s', d'), pn := pn r + 1\<rparr>"
    using assms(3) cr w by (auto simp: st_replace_def sop_def ended_def split: option.splits)
  have "store_ok (pe_around P) s' \<and> (e' \<in> {None, Some ENotDurable, Some EReplacedPartly} \<longrightarrow> stored (pe_around P) d' = Inr b)
      \<and> (e' \<notin> {None, Some ENotDurable, Some EReplacedPartly, Some EReplaceIncomplete} \<longrightarrow> d_file d' = d_file d)"
    by (rule create_replace_ends [OF _ _ _ _ cr]) (use assms(1,2) w in \<open>simp_all add: env_ok_def run_ok_def\<close>)
  with e assms(2) w show ?thesis by (simp add: run_ok_def)
qed

lemma wipe_nothing: "wipe U io s d = (s', d', [ENothingToWipe]) \<Longrightarrow> d_file d' = NoFile"
proof -
  assume w: "wipe U io s d = (s', d', [ENothingToWipe])"
  from wipe_ends [OF w] have "d' = d" by (auto simp: half_wiped_def)
  have "\<not> set [ENothingToWipe] \<subseteq> half_wiped" by (simp add: half_wiped_def)
  then show ?thesis using w
    by (auto simp: wipe_def exists_file_def split: if_splits option.splits prod.splits dest!: remove_files_errors)
qed

lemma st_wipe_ends:
  assumes "run_ok P r" and "st_wipe P r = (e, r')"
  shows "same_run r r' \<and> run_ok P r' \<and> (e \<in> {None, Some ENothingToWipe} \<longrightarrow> file_of r' = NoFile)"
proof -
  obtain s d where w: "pw r = (s, d)" by fastforce
  obtain s' d' es where wi: "wipe (pe_around P) (io_wipe (pe_io P (pn r))) s d = (s', d', es)" using prod_cases3 by blast
  have e: "e = (case es of [] \<Rightarrow> None | x # _ \<Rightarrow> Some x)" "r' = r\<lparr>pw := (s', d'), pn := pn r + 1\<rparr>"
    using assms(2) wi w by (auto simp: st_wipe_def sop_def split: list.splits)
  have "d_file d' = NoFile" if "es = []" using wipe_ends [OF wi] that by auto
  moreover have "d_file d' = NoFile" if "\<exists>es'. es = ENothingToWipe # es'"
  proof -
    have "es = [ENothingToWipe]" using wipe_ends [OF wi] that by (auto simp: half_wiped_def)
    then show ?thesis using wipe_nothing wi by simp
  qed
  moreover have "store_ok (pe_around P) s'" using wipe_ends [OF wi] assms(1) w by (auto simp: run_ok_def store_ok_forget)
  ultimately show ?thesis using e assms(1) w by (auto simp: run_ok_def split: list.splits)
qed

lemma st_wipe_all_ends:
  assumes "run_ok P r" and "st_wipe_all P r = (e, r')"
  shows "same_run r r' \<and> run_ok P r' \<and> e \<notin> {Some EReplacedPartly, Some EReplaceIncomplete, Some ENotDurable}"
proof -
  let ?io = "pe_io P (pn r)"
  obtain s d where w: "pw r = (s, d)" by fastforce
  obtain s' d' es where wi: "wipe_all (io_wipe ?io) (io_all ?io) s d = (s', d', es)" using prod_cases3 by blast
  have e: "e = (case es of [] \<Rightarrow> None | x # _ \<Rightarrow> Some x)" "r' = r\<lparr>pw := (s', d'), pn := pn r + 1\<rparr>"
    using assms(2) wi w by (auto simp: st_wipe_all_def sop_def split: list.splits)
  moreover have "e \<notin> {Some EReplacedPartly, Some EReplaceIncomplete, Some ENotDurable}"
    using wipe_all_errors [OF wi] e(1) by (auto simp: half_wiped_def split: list.splits)
  moreover have "s' = s \<or> s' = forget s" using wi by (auto simp: wipe_all_def split: if_splits prod.splits)
  ultimately show ?thesis using assms(1) w by (auto simp: run_ok_def store_ok_forget)
qed

section \<open>What the run has written\<close>

text \<open>The file holds a record of the given phase, as this program writes it.\<close>

definition saved_as :: "penv \<Rightarrow> dir \<Rightarrow> phase \<Rightarrow> bool" where
  "saved_as P d ph = (\<exists>rec j. pr_phase rec = ph \<and> encode_record (pe_times P) rec = Inr j
     \<and> stored (pe_around P) d = Inr (pe_json P j))"

text \<open>What stood on the terminal was true when it was shown; \<open>f\<close> is the file the run began with.\<close>

fun shown_true :: "penv \<Rightarrow> node \<Rightarrow> shown \<times> dir \<Rightarrow> bool" where
  "shown_true P f (ShowSAS _, d) = saved_as P d PhaseWaiting"
| "shown_true P f (ShowPaired, d) = saved_as P d PhasePaired"
| "shown_true P f (ShowKept, d) = (d_file d = f)"
| "shown_true P f _ = True"

text \<open>
  The run's book-keeping: while it has created nothing, the file is the old one unless it says that it may
  be gone, or there is none; having created over an old one, it says so.
\<close>

definition books :: "penv \<Rightarrow> node \<Rightarrow> prun \<Rightarrow> bool" where
  "books P f r = (run_ok P r \<and> (\<forall>x \<in> set (p_shown r). shown_true P f x)
     \<and> (\<not> p_created r \<longrightarrow> file_of r = f \<or> file_of r = NoFile \<or> p_old_gone r))"

text \<open>For a new pairing (\<open>new\<close>; not for a resumed one): until it has replaced anything, the old file is there.\<close>

definition books_of :: "bool \<Rightarrow> penv \<Rightarrow> node \<Rightarrow> prun \<Rightarrow> bool" where
  "books_of new P f r = (books P f r \<and> (new \<or> p_created r)
     \<and> (new \<and> p_replace r \<and> \<not> p_replaced r \<and> \<not> p_old_gone r \<longrightarrow> \<not> p_created r \<and> file_of r = f))"

lemma books_same:
  assumes "books P f r" and "same_run r r'" and "run_ok P r'" and "p_created r"
  shows "books P f r'"
  using assms by (simp add: books_def same_run_fields)

lemma books_of_same:
  assumes "books_of new P f r" and "same_run r r'" and "run_ok P r'" and "p_created r"
  shows "books_of new P f r'"
  using assms books_same [OF _ assms(2-4)] by (auto simp: books_of_def same_run_fields)

lemma show_books: "shown_true P f (t, snd (pw r)) \<Longrightarrow> books P f r \<Longrightarrow> books P f (show_op t r)"
  by (auto simp: books_def show_op_def run_ok_def)

lemma show_fields [simp]:
  "pw (show_op t r) = pw r" "p_created (show_op t r) = p_created r" "p_cur (show_op t r) = p_cur r"
  "p_paired (show_op t r) = p_paired r" "p_replaced (show_op t r) = p_replaced r" "p_replace (show_op t r) = p_replace r"
  "p_old_gone (show_op t r) = p_old_gone r" "p_prot (show_op t r) = p_prot r" "pn (show_op t r) = pn r"
  "p_shown (show_op t r) = p_shown r @ [(t, snd (pw r))]"
  by (simp_all add: show_op_def)

lemma show_books_of: "shown_true P f (t, snd (pw r)) \<Longrightarrow> books_of new P f r \<Longrightarrow> books_of new P f (show_op t r)"
  using show_books by (auto simp: books_of_def)

text \<open>The first write over what was there.\<close>

lemma write_over_ends:
  assumes "env_ok P" and "run_ok P r" and "\<not> p_created r" and "write_over P b r = (e, r')"
  shows "run_ok P r' \<and> p_shown r' = p_shown r \<and> p_cur r' = p_cur r \<and> p_replaced r' = p_replaced r
    \<and> p_paired r' = p_paired r \<and> p_replace r' = p_replace r \<and> p_prot r' = p_prot r
    \<and> p_created r' = (e = Some EReplacedPartly)
    \<and> (in_place e \<or> e = Some EReplacedPartly \<longrightarrow> held_state P r' = Inr b)
    \<and> (e = Some EReplacedPartly \<longrightarrow> p_old_gone r')
    \<and> (in_place e \<or> p_old_gone r' \<or> file_of r' = file_of r) \<and> (p_old_gone r \<longrightarrow> p_old_gone r')"
proof -
  obtain e1 r1 where r1: "st_replace P b r = (e1, r1)" by fastforce
  note one = st_replace_ends [OF assms(1,2) r1]
  note f1 = same_run_fields [of r r1]
  show ?thesis
  proof (cases "e1 = Some EProtectorUnknown \<and> pe_restart P")
    case False
    then have "e = e1" "r' = (if e1 = Some EReplacedPartly then r1\<lparr>p_old_gone := True, p_created := True\<rparr>
         else if e1 = Some EReplaceIncomplete then r1\<lparr>p_old_gone := True\<rparr> else r1)"
      using assms(4) r1 by (auto simp: write_over_def split: if_splits)
    with one f1 assms(3) show ?thesis by (auto simp: in_place_def run_ok_def split: if_splits)
  next
    case True
    let ?r = "r1\<lparr>p_old_gone := True\<rparr>"
    obtain e2 r2 where r2: "st_wipe_all P ?r = (e2, r2)" by fastforce
    have "run_ok P ?r" using one by (simp add: run_ok_def)
    note two = st_wipe_all_ends [OF this r2]
    note f2 = same_run_fields [of ?r r2]
    show ?thesis
    proof (cases e2)
      case None
      obtain e3 r3 where r3: "st_create P b r2 = (e3, r3)" by fastforce
      note three = st_create_ends [OF assms(1) _ r3]
      note f3 = same_run_fields [of r2 r3]
      have "e = e3" "r' = (if e3 = Some EReplacedPartly then r3\<lparr>p_old_gone := True, p_created := True\<rparr>
         else if e3 = Some EReplaceIncomplete then r3\<lparr>p_old_gone := True\<rparr> else r3)"
        using assms(4) r1 r2 r3 True None by (auto simp: write_over_def split: if_splits)
      then show ?thesis using one two three f1 f2 f3 assms(3) by (auto simp: in_place_def run_ok_def split: if_splits)
    next
      case (Some y)
      then have "e = Some y" "r' = (if y = EReplacedPartly then r2\<lparr>p_old_gone := True, p_created := True\<rparr>
         else if y = EReplaceIncomplete then r2\<lparr>p_old_gone := True\<rparr> else r2)"
        using assms(4) r1 r2 True by (auto simp: write_over_def split: if_splits)
      then show ?thesis using one two f1 f2 assms(3) Some by (auto simp: in_place_def run_ok_def split: if_splits)
    qed
  qed
qed

lemma books_of_run_ok: "books_of new P f r \<Longrightarrow> run_ok P r"
  by (simp add: books_of_def books_def)

lemma books_field:
  "books_of new P f (r\<lparr>p_cur := c\<rparr>) = books_of new P f r" "books_of new P f (r\<lparr>p_paired := b\<rparr>) = books_of new P f r"
  by (simp_all add: books_of_def books_def run_ok_def)

lemma show_replaced_true: "\<exists>t. show_replaced r = show_op t r \<and> shown_true P f (t, d)"
  by (cases "p_replacing r") (auto simp: show_replaced_def)

lemma write_run_ends:
  assumes "env_ok P" and "books_of new P f r" and "write_run P b r = (e, r')"
  shows "books_of new P f r' \<and> p_cur r' = p_cur r \<and> p_paired r' = p_paired r
    \<and> (in_place e \<longrightarrow> held_state P r' = Inr b \<and> p_created r') \<and> (p_created r \<longrightarrow> p_created r')"
proof (cases "p_created r")
  case True
  then have s: "st_save P b r = (e, r')" using assms(3) by (simp add: write_run_def)
  note ends = st_save_ends [OF assms(1) books_of_run_ok [OF assms(2)] s]
  then show ?thesis using books_of_same [OF assms(2), of r'] True same_run_fields [of r r'] by auto
next
  case False
  define x where "x = (if p_replace r then write_over P b r else st_create P b r)"
  obtain e1 r1 where x1: "x = (e1, r1)" by fastforce
  have ok: "run_ok P r" using books_of_run_ok [OF assms(2)] .
  have new: new using assms(2) False by (simp add: books_of_def)
  have r: "e = e1" "r' = (if in_place e1
      then (if p_replace r1 \<and> \<not> p_replaced r1 then show_replaced (r1\<lparr>p_created := True, p_replaced := True\<rparr>)
            else r1\<lparr>p_created := True\<rparr>) else r1)"
    using assms(3) False x1 by (auto simp: write_run_def x_def in_place_def Let_def split: if_splits)
  have one: "run_ok P r1 \<and> p_shown r1 = p_shown r \<and> p_cur r1 = p_cur r \<and> p_replaced r1 = p_replaced r
    \<and> p_paired r1 = p_paired r \<and> p_replace r1 = p_replace r
    \<and> (p_created r1 \<longrightarrow> p_old_gone r1)
    \<and> (in_place e1 \<longrightarrow> held_state P r1 = Inr b)
    \<and> (in_place e1 \<or> p_old_gone r1 \<or> file_of r1 = file_of r) \<and> (p_old_gone r \<longrightarrow> p_old_gone r1)"
  proof (cases "p_replace r")
    case True
    then have w: "write_over P b r = (e1, r1)" using x1 by (simp add: x_def)
    from write_over_ends [OF assms(1) ok False w] show ?thesis by blast
  next
    case no: False
    then have "st_create P b r = (e1, r1)" using x1 by (simp add: x_def)
    from st_create_ends [OF assms(1) ok this] same_run_fields [of r r1] False show ?thesis by (auto split: if_splits)
  qed
  show ?thesis
  proof (cases "in_place e1")
    case True
    let ?r = "r1\<lparr>p_created := True, p_replaced := True\<rparr>"
    obtain t where t: "show_replaced ?r = show_op t ?r" "shown_true P f (t, snd (pw ?r))" using show_replaced_true by blast
    have b1: "books_of new P f (r1\<lparr>p_created := True\<rparr>)" if "\<not> (p_replace r1 \<and> \<not> p_replaced r1)"
      using one assms(2) that by (auto simp: books_of_def books_def run_ok_def)
    have "books_of new P f ?r" using one assms(2) by (auto simp: books_of_def books_def run_ok_def)
    from show_books_of [OF t(2) this] b1 t(1) r True one show ?thesis by auto
  next
    case False
    then have "r' = r1" using r by simp
    moreover have "books_of new P f r1"
      using one assms(2) False new \<open>\<not> p_created r\<close> by (auto simp: books_of_def books_def)
    ultimately show ?thesis using one r(1) False \<open>\<not> p_created r\<close> by auto
  qed
qed

lemma save_run_ends:
  assumes "env_ok P" and "books_of new P f r" and "save_run P r = (e, r')" and "p_cur r = Some c"
  shows "books_of new P f r' \<and> p_paired r' = p_paired r \<and> (p_created r \<longrightarrow> p_created r')
    \<and> (\<exists>c'. p_cur r' = Some c' \<and> pr_phase c' = pr_phase c \<and> pr_deadline c' = pr_deadline c)
    \<and> (e = None \<or> e = Some (PairStore ENotDurable) \<longrightarrow> p_created r' \<and> saved_as P (snd (pw r')) (pr_phase c))"
proof (cases "pe_device P (pn r)")
  case None
  with assms show ?thesis by (auto simp: save_run_def)
next
  case (Some dev)
  let ?c = "c\<lparr>pr_device := dev\<rparr>"
  let ?r = "r\<lparr>p_cur := Some ?c\<rparr>"
  have b0: "books_of new P f ?r" using assms(2) by (simp add: books_field)
  show ?thesis
  proof (cases "encode_record (pe_times P) ?c")
    case (Inl x)
    with assms Some b0 show ?thesis by (auto simp: save_run_def)
  next
    case (Inr j)
    obtain e1 r1 where w: "write_run P (pe_json P j) ?r = (e1, r1)" by fastforce
    note one = write_run_ends [OF assms(1) b0 w]
    have saved: "saved_as P d (pr_phase c)" if "stored (pe_around P) d = Inr (pe_json P j)" for d
      using that Inr unfolding saved_as_def by (intro exI [of _ ?c] exI [of _ j]) simp
    show ?thesis
    proof (cases "e1 = Some ENotDurable")
      case False
      have "e = (case e1 of None \<Rightarrow> None | Some e \<Rightarrow> Some (NotSaved e))" "r' = r1"
        using assms(3,4) Some Inr w False by (auto simp: save_run_def Let_def split: option.splits)
      with one saved False show ?thesis by (auto simp: in_place_def split: option.splits)
    next
      case True
      obtain e2 r2 where s: "st_save P (pe_json P j) r1 = (e2, r2)" by fastforce
      have r: "e = (case e2 of None \<Rightarrow> None | Some e \<Rightarrow> Some (if e = ENotDurable then PairStore e else NotSaved e))" "r' = r2"
        using assms(3,4) Some Inr w True s by (auto simp: save_run_def Let_def split: option.splits)
      have one': "books_of new P f r1" "p_created r1" "p_cur r1 = Some ?c" "p_paired r1 = p_paired r"
        using one True by (simp_all add: in_place_def)
      note two = st_save_ends [OF assms(1) books_of_run_ok [OF one'(1)] s]
      then have "books_of new P f r2" using books_of_same [OF one'(1) _ _ one'(2)] by blast
      with two one' r saved same_run_fields [of r1 r2] show ?thesis
        by (auto simp: in_place_def split: option.splits if_splits)
    qed
  qed
qed

lemma fail_wipe_ends:
  assumes "books_of new P f r" and "fail_wipe P e r = (x, r')"
  shows "books P f r' \<and> (new \<longrightarrow> books_of new P f r') \<and> p_cur r' = p_cur r \<and> (x = Some e \<and> \<not> p_created r' \<or> x = Some (WipeFailed e))"
proof (cases "p_created r")
  case False
  with assms show ?thesis by (auto simp: fail_wipe_def books_of_def)
next
  case True
  obtain we r1 where w: "st_wipe P r = (we, r1)" by fastforce
  note one = st_wipe_ends [OF books_of_run_ok [OF assms(1)] w]
  have b1: "books_of new P f r1" using books_of_same [OF assms(1) _ _ True] one by blast
  note f1 = same_run_fields [of r r1]
  show ?thesis
  proof (cases "we \<noteq> None \<and> we \<noteq> Some ENothingToWipe")
    case fails: True
    then have "x = Some (WipeFailed e)" "r' = r1" using assms(2) True w by (auto simp: fail_wipe_def)
    with b1 one f1 show ?thesis by (auto simp: books_of_def)
  next
    case ok: False
    then have x: "x = Some e" "r' = r1\<lparr>p_created := False\<rparr>" using assms(2) True w by (auto simp: fail_wipe_def)
    have "file_of r1 = NoFile" using one ok by blast
    with b1 x f1 one True show ?thesis by (auto simp: books_of_def books_def run_ok_def)
  qed
qed

section \<open>The wait and the whole run\<close>

text \<open>A batch's state has the device id; the client never forgets it again.\<close>

definition has_id :: "penv \<Rightarrow> json option \<Rightarrow> bool" where
  "has_id P st = (case batch_state P st of None \<Rightarrow> False | Some (i, v, p) \<Rightarrow> i \<noteq> [])"

definition ids_stay :: "penv \<Rightarrow> bool" where
  "ids_stay P = sorted (map (has_id P) (pe_batches P))"

lemma saved_as_file: "d_file d' = d_file d \<Longrightarrow> saved_as P d' ph = saved_as P d ph"
  by (simp add: saved_as_def stored_def)

text \<open>A pairing recorded as complete stays saved as complete.\<close>

definition paired_saved :: "penv \<Rightarrow> prun \<Rightarrow> bool" where
  "paired_saved P r = (p_paired r \<longrightarrow> saved_as P (snd (pw r)) PhasePaired)"

lemma save_paired_ends:
  assumes "env_ok P" and "books_of new P f r" and "p_created r" and "save_paired_or_not P rec r = (ok, r')"
  shows "books_of new P f r' \<and> p_created r' \<and> p_cur r' = p_cur r
    \<and> (pr_phase rec = PhasePaired \<and> paired_saved P r \<longrightarrow> paired_saved P r')
    \<and> (pr_phase rec \<noteq> PhasePaired \<longrightarrow> p_paired r' = p_paired r)"
proof (cases "encode_record (pe_times P) rec")
  case (Inl e)
  with assms show ?thesis by (auto simp: save_paired_or_not_def)
next
  case (Inr j)
  obtain e1 r1 where s: "st_save P (pe_json P j) r = (e1, r1)" by fastforce
  note one = st_save_ends [OF assms(1) books_of_run_ok [OF assms(2)] s]
  note f1 = same_run_fields [of r r1]
  have b1: "books_of new P f r1" using books_of_same [OF assms(2) _ _ assms(3)] one by blast
  have saved: "pr_phase rec = PhasePaired \<Longrightarrow> in_place e1 \<Longrightarrow> saved_as P (snd (pw r1)) PhasePaired"
    using one Inr unfolding saved_as_def by auto
  show ?thesis
  proof (cases e1)
    case None
    then have "r' = (if pr_phase rec = PhasePaired then r1\<lparr>p_paired := True\<rparr> else r1)"
      using assms(4) Inr s by (simp add: save_paired_or_not_def)
    with b1 f1 one saved None assms(3) show ?thesis by (auto simp: books_field paired_saved_def in_place_def)
  next
    case (Some y)
    then have r': "r' = r1" using assms(4) Inr s by (simp add: save_paired_or_not_def)
    have "pr_phase rec = PhasePaired \<and> paired_saved P r \<longrightarrow> paired_saved P r1"
      using saved one f1 saved_as_file [of "snd (pw r1)" "snd (pw r)" P PhasePaired]
      by (cases "in_place e1") (auto simp: paired_saved_def)
    with b1 f1 one r' assms(3) show ?thesis by auto
  qed
qed

lemma persist_ends:
  assumes "env_ok P" and "books_of new P f r" and "p_created r" and "p_cur r = Some c" and "pr_phase c \<noteq> PhasePaired"
    and "persist P st r = (ok, r')"
  shows "books_of new P f r' \<and> p_created r' \<and> p_cur r' = Some c
    \<and> (paired_saved P r \<and> (p_paired r \<longrightarrow> has_id P st) \<longrightarrow> paired_saved P r')
    \<and> (p_paired r' \<longrightarrow> p_paired r \<or> has_id P st)"
proof (cases "batch_state P st")
  case None
  with assms show ?thesis by (auto simp: persist_def)
next
  case (Some x)
  obtain i v p where x: "x = (i, v, p)" using prod_cases3 by blast
  show ?thesis
  proof (cases "i \<noteq> []")
    case True
    then obtain rec where s: "save_paired_or_not P rec r = (ok, r')" "pr_phase rec = PhasePaired"
      using assms(3,4,6) Some x by (auto simp: persist_def)
    moreover have "has_id P st" using Some x True by (simp add: has_id_def)
    ultimately show ?thesis using save_paired_ends [OF assms(1-3) s(1)] assms(4) by auto
  next
    case no: False
    then have id: "\<not> has_id P st" using Some x by (simp add: has_id_def)
    show ?thesis
    proof (cases "v = None \<or> v = Some JNull")
      case True
      then have "r' = r" using assms(3,4,6) Some x no by (auto simp: persist_def)
      with assms show ?thesis by auto
    next
      case False
      let ?rec = "\<lparr>pr_phase = pr_phase c, pr_deadline = pr_deadline c, pr_device = st, pr_access = unknown_access, pr_leash = None\<rparr>"
      have s: "save_paired_or_not P ?rec r = (ok, r')" using assms(3,4,6) Some x no False by (simp add: persist_def)
      from save_paired_ends [OF assms(1-3) s] assms(4,5) id show ?thesis
        by (auto simp: paired_saved_def)
    qed
  qed
qed

lemma batches_end:
  assumes "env_ok P" and "pr_phase c \<noteq> PhasePaired"
  shows "books_of new P f r \<Longrightarrow> p_created r \<Longrightarrow> p_cur r = Some c \<Longrightarrow> sorted (map (has_id P) sts) \<Longrightarrow> paired_saved P r
    \<Longrightarrow> (p_paired r \<longrightarrow> (\<forall>st \<in> set sts. has_id P st))
    \<Longrightarrow> (let r' = fold (\<lambda>st r. snd (persist P st r)) sts r in
      books_of new P f r' \<and> p_created r' \<and> p_cur r' = Some c \<and> paired_saved P r')"
proof (induction sts arbitrary: r)
  case (Cons st sts)
  obtain ok r1 where p: "persist P st r = (ok, r1)" by fastforce
  note one = persist_ends [OF assms(1) Cons.prems(1-3) assms(2) p]
  have "p_paired r1 \<longrightarrow> (\<forall>st \<in> set sts. has_id P st)" using one Cons.prems(4,6) by auto
  with Cons.IH [of r1] one Cons.prems show ?case by (simp add: p)
qed (simp add: Let_def)

lemma batches_books:
  assumes "env_ok P" and "pr_phase c \<noteq> PhasePaired"
  shows "books_of new P f r \<Longrightarrow> p_created r \<Longrightarrow> p_cur r = Some c
    \<Longrightarrow> (let r' = fold (\<lambda>st r. snd (persist P st r)) sts r in books_of new P f r' \<and> p_created r' \<and> p_cur r' = Some c)"
proof (induction sts arbitrary: r)
  case (Cons st sts)
  obtain ok r1 where p: "persist P st r = (ok, r1)" by fastforce
  with persist_ends [OF assms(1) Cons.prems assms(2) p] Cons.IH [of r1] show ?case by simp
qed (simp add: Let_def)

text \<open>What a run may end with: an error leaves nothing of it unless it says so; a success is saved.\<close>

definition ended_well :: "bool \<Rightarrow> penv \<Rightarrow> node \<Rightarrow> pair_error option \<times> prun \<Rightarrow> bool" where
  "ended_well new P f x = (case x of (e, r) \<Rightarrow>
     books P f r \<and> (new \<longrightarrow> books_of new P f r)
     \<and> (e = None \<and> ids_stay P \<longrightarrow> saved_as P (snd (pw r)) PhasePaired)
     \<and> (e \<noteq> None \<and> p_created r \<longrightarrow> (\<exists>t. e = Some (Interrupted t)) \<or> (\<exists>e'. e = Some (WipeFailed e'))))"

text \<open>\<open>ShowPaired\<close> is only claimed when the client keeps the device id; otherwise nothing is said of it.\<close>

lemma fail_wipe_well:
  assumes "books_of new P f r"
  shows "ended_well new P f (fail_wipe P e r)"
proof -
  obtain x r' where w: "fail_wipe P e r = (x, r')" by fastforce
  from fail_wipe_ends [OF assms w] show ?thesis by (auto simp: ended_well_def w)
qed

lemma paired_shown:
  assumes "books_of new P f r" and "saved_as P (snd (pw r)) PhasePaired"
  shows "ended_well new P f (None, show_op ShowPaired r)"
proof -
  have "books_of new P f (show_op ShowPaired r)" by (rule show_books_of) (use assms in simp_all)
  with assms(2) show ?thesis by (simp add: ended_well_def books_of_def)
qed

lemma wait_run_well:
  assumes "env_ok P" and "ids_stay P" and "books_of new P f r" and "p_created r" and "p_cur r = Some c"
    and "pr_phase c = PhaseWaiting" and "\<not> p_paired r"
  shows "ended_well new P f (wait_run P r)"
proof -
  define r1 where "r1 = collect_batches P r"
  have b: "books_of new P f r1" "p_created r1" "p_cur r1 = Some c" "paired_saved P r1"
    using batches_end [OF assms(1) _ assms(3-5), of "pe_batches P"] assms(2,6,7)
    by (auto simp: Let_def r1_def collect_batches_def ids_stay_def paired_saved_def)
  have w: "wait_run P r = (case pe_await P of
       AwaitPaired paired \<Rightarrow> if p_paired r1 then (None, show_op ShowPaired r1) else approved P paired r1
     | AwaitRejected \<Rightarrow> fail_wipe P Rejected r1
     | AwaitInterrupted \<Rightarrow> (Some (Interrupted (pr_deadline (the (p_cur r1)))), r1)
     | AwaitDeadline \<Rightarrow> fail_wipe P PairExpired r1
     | AwaitFailed \<Rightarrow> fail_wipe P BadAnswer r1)"
    by (simp only: wait_run_def r1_def Let_def)
  show ?thesis
  proof (cases "pe_await P")
    case (AwaitPaired paired)
    show ?thesis
    proof (cases "p_paired r1")
      case True
      with b have "saved_as P (snd (pw r1)) PhasePaired" by (simp add: paired_saved_def)
      with paired_shown [OF b(1)] show ?thesis by (simp add: w AwaitPaired True)
    next
      case False
      define c' where "c' = c\<lparr>pr_phase := PhasePaired, pr_deadline := 0,
           pr_access := (case paired of None \<Rightarrow> pr_access c | Some t \<Rightarrow> access_from_paired (Some t))\<rparr>"
      let ?r = "r1\<lparr>p_cur := Some c'\<rparr>"
      obtain e2 r2 where s: "save_run P ?r = (e2, r2)" by fastforce
      have ph: "pr_phase c' = PhasePaired" by (simp add: c'_def)
      have "books_of new P f ?r" using b(1) by (simp add: books_field)
      note one = save_run_ends [OF assms(1) this s, of c']
      have a: "approved P paired r1 = (case (e2, r2) of (None, r) \<Rightarrow> (None, show_op ShowPaired r)
          | (Some e, r) \<Rightarrow> if e = PairStore ENotDurable then (None, show_op ShowNotFlushed (show_op ShowPaired r))
            else fail_wipe P (ApprovedNotSaved e) r)"
        using s b(3) by (simp add: approved_def Let_def c'_def)
      consider "e2 = None" | "e2 = Some (PairStore ENotDurable)" | e where "e2 = Some e" "e \<noteq> PairStore ENotDurable"
        by (cases e2) auto
      then show ?thesis
      proof cases
        assume "e2 = None"
        with one ph paired_shown [of new P f r2] show ?thesis by (simp add: w AwaitPaired False a)
      next
        assume "e2 = Some (PairStore ENotDurable)"
        with one ph have "books_of new P f r2" "saved_as P (snd (pw r2)) PhasePaired" by simp_all
        then have "ended_well new P f (None, show_op ShowPaired r2)" by (rule paired_shown)
        then have "ended_well new P f (None, show_op ShowNotFlushed (show_op ShowPaired r2))"
          using show_books [of P f ShowNotFlushed "show_op ShowPaired r2"] show_books_of [of P f ShowNotFlushed "show_op ShowPaired r2"]
          by (auto simp: ended_well_def)
        then show ?thesis by (simp add: w AwaitPaired False a \<open>e2 = Some (PairStore ENotDurable)\<close>)
      next
        fix e
        assume "e2 = Some e" "e \<noteq> PairStore ENotDurable"
        with one fail_wipe_well [of new P f r2] show ?thesis by (simp add: w AwaitPaired False a)
      qed
    qed
  next
    case AwaitInterrupted
    with b show ?thesis by (simp add: w ended_well_def books_of_def)
  qed (use fail_wipe_well [OF b(1)] in \<open>simp_all add: w\<close>)
qed

lemma after_handshake_well:
  assumes "env_ok P" and "ids_stay P" and "books_of new P f r" and "p_cur r = Some cur" and "\<not> p_paired r"
  shows "ended_well new P f (after_handshake P c sas r)"
proof -
  let ?c = "cur\<lparr>pr_phase := PhaseWaiting\<rparr>"
  let ?r = "r\<lparr>p_cur := Some ?c\<rparr>"
  obtain e1 r1 where s: "save_run P ?r = (e1, r1)" by fastforce
  have "books_of new P f ?r" using assms(3) by (simp add: books_field)
  note one = save_run_ends [OF assms(1) this s, of ?c]
  have saved: "ended_well new P f (case (e1, r1) of (Some e, r) \<Rightarrow> fail_wipe P e r
          | (None, r) \<Rightarrow> wait_run P (show_op ShowWaiting (show_op (ShowSAS t) r)))" for t
  proof (cases e1)
    case None
    obtain c' where c': "p_cur r1 = Some c'" "pr_phase c' = PhaseWaiting" using one by auto
    have "books_of new P f (show_op (ShowSAS t) r1)" by (rule show_books_of) (use one None in simp_all)
    then have "books_of new P f (show_op ShowWaiting (show_op (ShowSAS t) r1))" by (rule show_books_of [rotated]) simp
    then have "ended_well new P f (wait_run P (show_op ShowWaiting (show_op (ShowSAS t) r1)))"
      by (rule wait_run_well [OF assms(1,2)]) (use one None c' assms(5) in simp_all)
    with None show ?thesis by simp
  next
    case (Some e)
    with one fail_wipe_well [of new P f r1] show ?thesis by simp
  qed
  show ?thesis
    unfolding after_handshake_def using fail_wipe_well [OF assms(3)] saved s assms(4)
    by (auto split: option.split)
qed

lemma with_device_well:
  assumes "env_ok P" and "ids_stay P" and "books_of new P f r" and "p_cur r = Some cur" and "\<not> p_paired r"
  shows "ended_well new P f (with_device P c r)"
proof -
  obtain e1 r1 where s: "save_run P r = (e1, r1)" by fastforce
  note one = save_run_ends [OF assms(1,3) s assms(4)]
  show ?thesis
  proof (cases e1)
    case (Some e)
    with one fail_wipe_well [of new P f r1] show ?thesis by (simp add: with_device_def s)
  next
    case None
    obtain c' where "p_cur r1 = Some c'" using one by blast
    then have "ended_well new P f (after_handshake P c sas r1)" for sas
      using after_handshake_well [OF assms(1,2), of new f r1 c'] one assms(5) by simp
    moreover have "ended_well new P f (fail_wipe P x r1)" for x using one fail_wipe_well by blast
    ultimately show ?thesis using None by (auto simp: with_device_def s split: sum.split)
  qed
qed

lemma stops_well: "books_of True P f r \<Longrightarrow> \<not> p_created r \<Longrightarrow> ended_well True P f (Some e, r)"
  by (simp add: ended_well_def books_of_def)

lemma pair_new_well:
  assumes "env_ok P" and "ids_stay P" and "books_of True P f r" and "\<not> p_created r" and "\<not> p_paired r"
  shows "ended_well True P f (pair_new P r)"
proof (cases "pe_code P")
  case None
  with assms show ?thesis by (simp add: pair_new_def stops_well)
next
  case (Some s)
  show ?thesis
  proof (cases "parse_code (pe_lib P) s (pe_now P)")
    case (Inl e)
    with assms Some show ?thesis by (simp add: pair_new_def stops_well)
  next
    case (Inr c)
    show ?thesis
    proof (cases "pe_protector P")
      case None
      with assms Some Inr show ?thesis by (simp add: pair_new_def stops_well)
    next
      case prot: (Some pt)
      obtain p notice where pt: "pt = (p, notice)" by fastforce
      define r1 where "r1 = r\<lparr>p_prot := Some p\<rparr>"
      define r2 where "r2 = (if notice \<noteq> [] then show_op (ShowText notice) r1 else r1)"
      define r3 where "r3 = (show_op ShowContacting r2)\<lparr>p_cur := Some (start_record P)\<rparr>"
      have "prot_ok (pe_around P) p" using assms(1) prot pt by (simp add: env_ok_def)
      then have b1: "books_of True P f r1" using assms(3) by (simp add: r1_def books_of_def books_def run_ok_def)
      then have "books_of True P f r2" by (cases "notice = []") (simp_all add: r2_def show_books_of)
      then have "books_of True P f (show_op ShowContacting r2)" by (simp add: show_books_of)
      then have b3: "books_of True P f r3" by (simp add: r3_def books_field)
      have f3: "\<not> p_created r3" "\<not> p_paired r3" "p_cur r3 = Some (start_record P)"
        using assms(4,5) by (simp_all add: r3_def r2_def r1_def)
      have "pair_new P r = (case pe_new P of Some x \<Rightarrow> (Some (pair_failed c x), r3) | None \<Rightarrow> with_device P c r3)"
        by (simp only: pair_new_def Some Inr prot pt option.case sum.case prod.case Let_def r1_def r2_def r3_def)
      then show ?thesis
        using stops_well [OF b3 f3(1)] with_device_well [OF assms(1,2) b3 f3(3,2)] by (simp split: option.split)
    qed
  qed
qed

lemma kept_well:
  assumes "ended_well True P f x"
  shows "ended_well False P f (what_is_kept x)"
proof -
  obtain e r where x: "x = (e, r)" by fastforce
  have b: "books P f r" "books_of True P f r" using assms x by (simp_all add: ended_well_def)
  have "books P f (show_op ShowKept r)" if "p_replace r" "\<not> p_replaced r" "\<not> p_old_gone r"
    by (rule show_books) (use b that in \<open>simp_all add: books_of_def\<close>)
  moreover have "books P f (show_op ShowMaybeReplaced r)" by (rule show_books) (use b in simp_all)
  ultimately show ?thesis using assms x b by (auto simp: ended_well_def what_is_kept_def)
qed

lemma resume_well:
  assumes "env_ok P" and "ids_stay P" and "books P f r" and "\<not> p_created r" and "\<not> p_paired r"
    and "pr_phase rec = PhaseWaiting"
  shows "ended_well False P f (resume_run P rec r)"
proof -
  let ?r0 = "r\<lparr>p_cur := Some rec\<rparr>"
  define r1 where "r1 = show_op (ShowResume (pr_deadline rec)) (?r0\<lparr>p_created := True\<rparr>)"
  define r2 where "r2 = (if pe_stdin P then show_op ShowResumeStdin r1 else r1)"
  define r3 where "r3 = (if pe_pass_chosen P then show_op ShowResumePassphrase r2 else r2)"
  have stop: "ended_well False P f (Some e, r)" "ended_well False P f (Some e, ?r0)" for e
    using assms(3,4) by (simp_all add: ended_well_def books_def run_ok_def)
  have "books_of False P f (?r0\<lparr>p_created := True\<rparr>)" using assms(3) by (simp add: books_of_def books_def run_ok_def)
  then have "books_of False P f r1" by (simp add: r1_def show_books_of)
  then have "books_of False P f r2" by (simp add: r2_def show_books_of)
  then have "books_of False P f r3" by (simp add: r3_def show_books_of)
  then have "books_of False P f (show_op ShowWaiting r3)" by (simp add: show_books_of)
  then have "ended_well False P f (wait_run P (show_op ShowWaiting r3))"
    by (rule wait_run_well [OF assms(1,2)]) (use assms(5,6) in \<open>simp_all add: r3_def r2_def r1_def\<close>)
  moreover have "resume_run P rec r = (if \<not> pe_pending P (pr_device rec) then (Some NotPending, r)
      else if \<not> pe_restored P then (Some NotRestored, ?r0) else wait_run P (show_op ShowWaiting r3))"
    by (simp only: resume_run_def Let_def r1_def r2_def r3_def)
  ultimately show ?thesis using stop by simp
qed

text \<open>What \<open>loadExisting\<close> finds, and what it leaves.\<close>

lemma sop_load:
  assumes "env_ok P" and "run_ok P r" and "sop P (\<lambda>io. OpLoad (io_dir io)) r = (rep, r')"
  shows "same_run r r' \<and> run_ok P r' \<and> snd (pw r') = snd (pw r) \<and> (\<forall>x. rep = Gave x \<longrightarrow> held_state P r = Inr x)"
proof -
  obtain s d where w: "pw r = (s, d)" by fastforce
  obtain s' v where l: "load (pe_around P) (io_dir (pe_io P (pn r))) s d = (s', v)" by fastforce
  have r': "r' = r\<lparr>pw := (s', d), pn := pn r + 1\<rparr>" "rep = (case v of Inl e \<Rightarrow> Ended [e] | Inr x \<Rightarrow> Gave x)"
    using assms(3) w l by (auto simp: sop_def split: sum.splits)
  have "store_ok (pe_around P) s'"
    by (rule load_ok [OF _ l]) (use assms(1,2) w in \<open>simp_all add: env_ok_def run_ok_def\<close>)
  moreover have "\<forall>x. v = Inr x \<longrightarrow> stored (pe_around P) d = Inr x"
    using l by (auto simp: load_def stored_def split: if_splits option.splits sum.splits)
  ultimately show ?thesis using r' w assms(2) by (auto simp: run_ok_def split: sum.splits)
qed

lemma books_found:
  "books P f r \<Longrightarrow> books P f (r\<lparr>p_replace := b, p_replacing := w\<rparr>)" "books P f r \<Longrightarrow> books P f (r\<lparr>p_replace := b\<rparr>)"
  by (simp_all add: books_def run_ok_def)

lemma load_existing_well:
  assumes "env_ok P" and "books P f r" and "file_of r = f" and "\<not> p_created r" and "\<not> p_paired r" and "p_shown r = []"
    and "load_existing P r = (x, r')"
  shows "\<not> p_paired r' \<and> (case x of
      Stop e \<Rightarrow> p_shown r' = [] \<and> (e \<noteq> PairExpiredKept \<longrightarrow> ended_well False P f (Some e, r'))
    | Resume rec \<Rightarrow> books P f r' \<and> \<not> p_created r' \<and> pr_phase rec = PhaseWaiting
    | Fresh \<Rightarrow> books_of True P f r' \<and> \<not> p_created r')"
proof -
  obtain rep r1 where l: "sop P (\<lambda>io. OpLoad (io_dir io)) r = (rep, r1)" by fastforce
  have ok: "run_ok P r" using assms(2) by (simp add: books_def)
  note one = sop_load [OF assms(1) ok l]
  note f1 = same_run_fields [of r r1]
  have b1: "books P f r1" using assms(2,3) one f1 by (auto simp: books_def)
  define dec where "dec = (case rep of Gave raw \<Rightarrow> decode_record (pe_times P) (pe_read P raw) | Ended es \<Rightarrow> Inl NotJson)"
  have stop: "ended_well False P f (Some e, q)" if "books P f q" "\<not> p_created q" for e q
    using that by (simp add: ended_well_def)
  have fresh: "books_of True P f (r1\<lparr>p_replace := True, p_replacing := w\<rparr>)" for w
    using books_found(1) [OF b1] one f1 assms(3,4) by (simp add: books_of_def)
  have unf: "load_existing P r = (case dec of
      Inl e \<Rightarrow> if \<not> pe_restart P then (Stop PairUnreadable, r1) else (Fresh, r1\<lparr>p_replace := True, p_replacing := Unreadable\<rparr>)
    | Inr rec \<Rightarrow> (let r = r1\<lparr>p_replace := True\<rparr> in
         if pr_phase rec = PhasePaired then
           (if \<not> pe_restart P then (Stop AlreadyPaired, r) else (Fresh, r\<lparr>p_replacing := WasPaired\<rparr>))
         else if pr_phase rec = PhaseWaiting \<and> \<not> pe_restart P \<and> \<not> pe_code_given P then
           (if pe_now P < pr_deadline rec then (Resume rec, r)
            else (case st_wipe P r of (Some e, r) \<Rightarrow> (Stop PairExpiredKept, r) | (None, r) \<Rightarrow> (Stop PairExpired, r)))
         else (Fresh, r\<lparr>p_replacing := Unfinished\<rparr>)))"
    by (simp only: load_existing_def l prod.case dec_def)
  show ?thesis
  proof (cases dec)
    case (Inl e)
    with unf assms(4-7) one f1 stop [OF b1] fresh show ?thesis by (auto split: if_splits)
  next
    case (Inr rec)
    let ?r = "r1\<lparr>p_replace := True\<rparr>"
    have b2: "books P f ?r" by (rule books_found(2) [OF b1])
    have f2: "\<not> p_created ?r" "\<not> p_paired ?r" "p_shown ?r = []" using f1 one assms(4-6) by simp_all
    show ?thesis
    proof (cases "pr_phase rec = PhaseWaiting \<and> \<not> pe_restart P \<and> \<not> pe_code_given P \<and> \<not> pe_now P < pr_deadline rec")
      case True
      obtain we r2 where w: "st_wipe P ?r = (we, r2)" by fastforce
      have "run_ok P ?r" using b2 by (simp add: books_def)
      note two = st_wipe_ends [OF this w]
      note f3 = same_run_fields [of ?r r2]
      have x: "x = Stop (if we = None then PairExpired else PairExpiredKept)" "r' = r2"
        using assms(7) unf Inr True w by (auto split: option.splits)
      have "ended_well False P f (Some PairExpired, r2)" if "we = None"
        using two f3 f2 that by (intro stop) (auto simp: books_def)
      with x two f3 f2 show ?thesis by auto
    next
      case False
      then have "(x, r') \<in> {(Stop AlreadyPaired, ?r), (Fresh, ?r\<lparr>p_replacing := WasPaired\<rparr>), (Fresh, ?r\<lparr>p_replacing := Unfinished\<rparr>)}
          \<or> x = Resume rec \<and> r' = ?r \<and> pr_phase rec = PhaseWaiting"
        using assms(7) unf Inr by (auto simp: Let_def split: if_splits)
      with b2 f2 stop [OF b2] fresh show ?thesis by auto
    qed
  qed
qed

lemma pair_run_well:
  assumes "env_ok P" and "ids_stay P" and "store_ok (pe_around P) s" and "pair_run P (start_run s d) = (e, r')"
  shows "ended_well False P (d_file d) (e, r') \<or> e = Some PairExpiredKept \<and> p_shown r' = []"
proof -
  let ?f = "d_file d" and ?r = "start_run s d"
  have b0: "books P ?f ?r" "\<not> p_created ?r" "\<not> p_paired ?r" "p_shown ?r = []" "file_of ?r = ?f"
    using assms(3) by (simp_all add: books_def run_ok_def start_run_def)
  let ?r1 = "?r\<lparr>pn := pn ?r + 1\<rparr>"
  have b1: "books P ?f ?r1" "\<not> p_created ?r1" "\<not> p_paired ?r1" "p_shown ?r1 = []" "file_of ?r1 = ?f"
    using b0 by (simp_all add: books_def run_ok_def)
  have new: "books_of True P ?f ?r1" using b1 by (simp add: books_of_def)
  obtain x r2 where l: "load_existing P ?r1 = (x, r2)" by fastforce
  note ex = load_existing_well [OF assms(1) b1(1,5,2,3,4) l]
  have name: "ended_well False P ?f (Some e, ?r)" for e using b0 by (simp add: ended_well_def)
  consider (stop) e' where "(e, r') = (Some e', ?r)"
    | (new) "(e, r') = what_is_kept (pair_new P ?r1)"
    | (found) "(e, r') = (case (x, r2) of (Stop e, r) \<Rightarrow> (Some e, r) | (Resume rec, r) \<Rightarrow> resume_run P rec r
          | (Fresh, r) \<Rightarrow> what_is_kept (pair_new P r))"
    using assms(4) l by (auto simp: pair_run_def Let_def split: option.splits sum.splits if_splits)
  then show ?thesis
  proof cases
    case stop
    with name show ?thesis by simp
  next
    case new
    have "ended_well False P ?f (what_is_kept (pair_new P ?r1))"
      by (intro kept_well pair_new_well [OF assms(1,2) \<open>books_of True P ?f ?r1\<close> b1(2,3)])
    with new show ?thesis by simp
  next
    case found
    show ?thesis
    proof (cases x)
      case (Stop e')
      with found ex show ?thesis by auto
    next
      case (Resume rec)
      with found ex resume_well [OF assms(1,2)] show ?thesis by auto
    next
      case Fresh
      with ex have b: "books_of True P ?f r2" "\<not> p_created r2" "\<not> p_paired r2" by simp_all
      have "ended_well False P ?f (what_is_kept (pair_new P r2))"
        by (rule kept_well [OF pair_new_well [OF assms(1,2) b]])
      with found Fresh show ?thesis by simp
    qed
  qed
qed

section \<open>A run, computed\<close>

text \<open>An environment in which all goes well: the code is given, the handshake succeeds, the owner approves.\<close>

definition toy_link :: string where "toy_link = replicate 64 CHR ''A''"

definition toy_qr :: qr where
  "toy_qr = \<lparr>qr_kind = KindAgent, qr_relay = ''https://r/'', qr_exp = 100, qr_claim = ''claim'', qr_key = ''key''\<rparr>"

definition toy_io :: store_io where
  "toy_io = \<lparr>io_stat = True, io_dir = toy_dir, io_nonce = Some (replicate NonceLen CHR ''n''), io_write = WDone,
     io_create = toy_create, io_replace = toy_replace, io_wipe = toy_wipe, io_all = []\<rparr>"

definition toy_penv :: penv where
  "toy_penv = \<lparr>pe_around = toy_surround, pe_times = toy_clock, pe_json = (\<lambda>_. ''state''),
     pe_read = (\<lambda>s. text_of (length s) (JObj (members (record_fields toy_clock toy_record)))),
     pe_lib = \<lparr>cl_parse = (\<lambda>_. Some toy_qr), cl_scheme = (\<lambda>_. Some ''https''), cl_devstack = False\<rparr>,
     pe_io = (\<lambda>_. toy_io), pe_device = (\<lambda>_. Some (Some (JObj []))), pe_code = Some toy_link,
     pe_protector = Some (toy_protector, []), pe_new = None, pe_pair = Inr ''123456'', pe_mailbox = ''https://r'',
     pe_pending = (\<lambda>_. False), pe_restored = True, pe_paired = (\<lambda>j _. (j, True)), pe_session = (\<lambda>_. 0),
     pe_batches = [], pe_await = AwaitPaired (Some 7), pe_now = 1, pe_started = 2, pe_name = ''Agent'', pe_host = None,
     pe_code_given = True, pe_restart = False, pe_stdin = False, pe_pass_chosen = False\<rparr>"

definition toy_key_held :: loaded where
  "toy_key_held = \<lparr>ld_prot = toy_protector, ld_wrapped = toy_key, ld_key = toy_key, ld_created = 1\<rparr>"

definition toy_written :: "string \<Rightarrow> dir" where
  "toy_written raw = \<lparr>d_file = Regular (new_stat 1000) raw, d_temps = [], d_keys = {''p''}\<rparr>"

lemma toy_raw: "\<exists>raw. encode_file toy_seal toy_header toy_key ''state'' = Inr raw"
proof -
  have "marshal toy_header = Inr (header_text toy_header)"
    using toy_header_valid by (simp add: marshal_valid toy_header_def)
  then show ?thesis by (simp add: encode_file_def toy_key_def lengths)
qed

lemma runs_from_run: "url_run s \<Longrightarrow> r @ s \<noteq> [] \<Longrightarrow> runs_from r s = [r @ s]"
  by (induction s arbitrary: r) (auto simp: url_run_def)

lemma toy_code: "\<exists>c. parse_code (pe_lib toy_penv) toy_link 1 = Inr c \<and> cd_relay c = ''https://r/''"
proof -
  have "base64URLRuns toy_link = [toy_link]"
    using runs_from_run [of toy_link "[]"] by (simp add: base64URLRuns_def url_run_def toy_link_def list_all_iff b64url_char_def byte_def)
  then have "find_payload (\<lambda>_. Some toy_qr) toy_link = Inr (toy_link, toy_qr)"
    by (simp add: find_payload_def MaxCodeInput_def minPayloadLen_def toy_link_def)
  then show ?thesis by (simp add: parse_code_def toy_penv_def toy_qr_def relay_scheme_allowed_def)
qed

text \<open>The same with a notice of the protector's.\<close>

definition toy_with :: "string \<Rightarrow> penv" where
  "toy_with t = toy_penv\<lparr>pe_protector := Some (toy_protector, t)\<rparr>"

lemma toy_st_create:
  assumes "encode_file toy_seal toy_header toy_key ''state'' = Inr raw" and "pw r = toy_store" and "p_prot r = Some toy_protector"
  shows "st_create (toy_with t) ''state'' r = (None, r\<lparr>pw := (\<lparr>st_lock = True, st_loaded = Some toy_key_held\<rparr>, toy_written raw), pn := pn r + 1\<rparr>)"
proof -
  have "protectorName ''p''" by (simp add: protectorName_def lower_char_def byte_def)
  with assms show ?thesis
    by (simp add: st_create_def sop_def toy_with_def toy_penv_def toy_io_def toy_store_def create_def exists_file_def toy_create_def
        check_protector_def create_file_def write_state_def write_atomic_def toy_surround_def toy_protector_def
        toy_header_def Version_def add_key_def ended_def toy_key_held_def toy_written_def)
qed

lemma toy_st_save:
  assumes "encode_file toy_seal toy_header toy_key ''state'' = Inr raw"
    and "pw r = (\<lparr>st_lock = True, st_loaded = Some toy_key_held\<rparr>, toy_written raw)"
  shows "st_save (toy_with t) ''state'' r = (None, r\<lparr>pn := pn r + 1\<rparr>)"
  using assms
  by (simp add: st_save_def sop_def toy_with_def toy_penv_def toy_io_def save_def write_state_def write_atomic_def toy_surround_def
      toy_key_held_def toy_protector_def toy_header_def Version_def ended_def toy_written_def)

lemma toy_save_run:
  assumes "encode_file toy_seal toy_header toy_key ''state'' = Inr raw" and "p_created r" and "p_cur r = Some c"
    and "pw r = (\<lparr>st_lock = True, st_loaded = Some toy_key_held\<rparr>, toy_written raw)" and "check_phase c = None" and "pr_leash c = None"
  shows "save_run (toy_with t) r = (None, r\<lparr>p_cur := Some (c\<lparr>pr_device := Some (JObj [])\<rparr>), pn := pn r + 1\<rparr>)"
proof -
  have "check_phase (c\<lparr>pr_device := Some (JObj [])\<rparr>) = check_phase c" by (simp add: check_phase_def)
  then have "check_record (c\<lparr>pr_device := Some (JObj [])\<rparr>) = None" using assms(5,6) by (simp add: check_record_def)
  then obtain j where "encode_record toy_clock (c\<lparr>pr_device := Some (JObj [])\<rparr>) = Inr j" by (simp add: encode_record_def)
  then show ?thesis
    using toy_st_save [OF assms(1), of "r\<lparr>p_cur := Some (c\<lparr>pr_device := Some (JObj [])\<rparr>)\<rparr>"] assms(2-4)
    by (simp add: save_run_def toy_with_def toy_penv_def write_run_def)
qed

text \<open>The run of \<open>toy_with\<close> over an empty directory: paired, with the SAS shown on the way.\<close>

lemma toy_name: "check_name (pair_name (toy_with t)) = None"
  by (simp add: pair_name_def toy_with_def toy_penv_def agent_name)

lemma toy_with_paired:
  assumes "encode_file toy_seal toy_header toy_key ''state'' = Inr raw"
  shows "\<exists>r. pair_run (toy_with t) (start_run (fst toy_store) (snd toy_store)) = (None, r)
    \<and> p_shown r = (if t = [] then [] else [(ShowText t, snd toy_store)]) @ [(ShowContacting, snd toy_store),
        (ShowSAS ''123 456'', toy_written raw), (ShowWaiting, toy_written raw), (ShowPaired, toy_written raw)]
    \<and> snd (pw r) = toy_written raw"
proof -
  let ?w = "(\<lparr>st_lock = True, st_loaded = Some toy_key_held\<rparr>, toy_written raw)"
  obtain c where c: "parse_code (pe_lib (toy_with t)) toy_link 1 = Inr c" "cd_relay c = ''https://r/''" using toy_code by (auto simp: toy_with_def)
  define r0 where "r0 = start_run (fst toy_store) (snd toy_store)"
  define r1 where "r1 = (show_op ShowContacting ((if t = [] then (\<lambda>r. r) else show_op (ShowText t)) (r0\<lparr>pn := 1, p_prot := Some toy_protector\<rparr>)))\<lparr>p_cur := Some (start_record (toy_with t))\<rparr>"
  define c1 where "c1 = (start_record (toy_with t))\<lparr>pr_device := Some (JObj [])\<rparr>"
  define r2 where "r2 = r1\<lparr>p_cur := Some c1, pw := ?w, pn := 2, p_created := True\<rparr>"
  define c2 where "c2 = c1\<lparr>pr_phase := PhaseWaiting\<rparr>"
  define r3 where "r3 = r2\<lparr>p_cur := Some c2, pn := 3\<rparr>"
  define r4 where "r4 = show_op ShowWaiting (show_op (ShowSAS ''123 456'') r3)"
  define c3 where "c3 = c2\<lparr>pr_phase := PhasePaired, pr_deadline := 0, pr_access := access_from_paired (Some 7)\<rparr>"
  define r5 where "r5 = r4\<lparr>p_cur := Some c3, pn := 4\<rparr>"
  have enc: "\<exists>j. encode_record toy_clock c1 = Inr j"
    by (simp add: encode_record_def check_record_def check_phase_def c1_def start_record_def toy_with_def toy_penv_def Window_def durations
        access_valid_def unknown_access_def)
  have s1: "save_run (toy_with t) r1 = (None, r2)"
  proof -
    have "st_create (toy_with t) ''state'' (r1\<lparr>p_cur := Some c1\<rparr>) = (None, r1\<lparr>p_cur := Some c1, pw := ?w, pn := 2\<rparr>)"
      using toy_st_create [OF assms, of "r1\<lparr>p_cur := Some c1\<rparr>"] by (simp add: r1_def r0_def start_run_def)
    moreover have "\<not> p_created r1" "\<not> p_replace r1" "p_cur r1 = Some (start_record (toy_with t))" by (simp_all add: r1_def r0_def start_run_def)
    moreover have "pe_device (toy_with t) (pn r1) = Some (Some (JObj []))" "pe_times (toy_with t) = toy_clock" "\<And>j. pe_json (toy_with t) j = ''state''"
      by (simp_all add: toy_with_def toy_penv_def)
    ultimately show ?thesis using enc by (auto simp: save_run_def write_run_def r2_def c1_def)
  qed
  have s2: "save_run (toy_with t) (r2\<lparr>p_cur := Some c2\<rparr>) = (None, r3)"
  proof -
    have "check_phase c2 = None" "pr_leash c2 = None" "c2\<lparr>pr_device := Some (JObj [])\<rparr> = c2"
      by (simp_all add: c2_def c1_def start_record_def toy_with_def toy_penv_def check_phase_def Window_def durations access_valid_def unknown_access_def)
    then show ?thesis using toy_save_run [OF assms, of "r2\<lparr>p_cur := Some c2\<rparr>" c2] by (simp add: r3_def r2_def)
  qed
  have s3: "save_run (toy_with t) (r4\<lparr>p_cur := Some c3\<rparr>) = (None, r5)"
  proof -
    have "check_phase c3 = None" "pr_leash c3 = None" "c3\<lparr>pr_device := Some (JObj [])\<rparr> = c3"
      by (simp_all add: c3_def c2_def c1_def start_record_def check_phase_def access_from_paired_def access_valid_def max_session_id_def)
    then show ?thesis
      using toy_save_run [OF assms, of "r4\<lparr>p_cur := Some c3\<rparr>" c3] by (simp add: r5_def r4_def r3_def r2_def)
  qed
  have wait: "wait_run (toy_with t) r4 = (None, show_op ShowPaired r5)"
  proof -
    have "collect_batches (toy_with t) r4 = r4" "pe_await (toy_with t) = AwaitPaired (Some 7)"
      by (simp_all add: collect_batches_def toy_with_def toy_penv_def)
    moreover have "\<not> p_paired r4" "p_cur r4 = Some c2" by (simp_all add: r4_def r3_def r2_def r1_def r0_def start_run_def)
    ultimately show ?thesis using s3 by (simp add: wait_run_def approved_def Let_def c3_def)
  qed
  have "format_sas ''123456'' = Some ''123 456''" by (simp add: format_sas_def digit_char_def byte_def)
  moreover have "trim_slashes ''https://r'' = trim_slashes ''https://r/''" by (simp add: trim_slashes_def)
  ultimately have hs: "after_handshake (toy_with t) c ''123456'' r2 = (None, show_op ShowPaired r5)"
    using s2 wait c(2) by (simp add: after_handshake_def r4_def c2_def r2_def) (simp add: toy_with_def toy_penv_def)
  have wd: "with_device (toy_with t) c r1 = (None, show_op ShowPaired r5)"
    using s1 hs by (simp add: with_device_def) (simp add: toy_with_def toy_penv_def)
  have fields: "pe_code (toy_with t) = Some toy_link" "pe_now (toy_with t) = 1" "pe_new (toy_with t) = None"
    "pe_protector (toy_with t) = Some (toy_protector, t)" by (simp_all add: toy_with_def toy_penv_def)
  have "r0\<lparr>pn := 1, p_prot := Some toy_protector\<rparr> = (r0\<lparr>pn := 1\<rparr>)\<lparr>p_prot := Some toy_protector\<rparr>" by simp
  then have "pair_new (toy_with t) (r0\<lparr>pn := 1\<rparr>) = with_device (toy_with t) c r1"
    using c(1) by (simp add: pair_new_def fields r1_def Let_def)
  with wd have "pair_new (toy_with t) (r0\<lparr>pn := 1\<rparr>) = (None, show_op ShowPaired r5)" by simp
  then have "pair_run (toy_with t) r0 = (None, show_op ShowPaired r5)"
    using toy_name by (simp add: pair_run_def exists_file_def what_is_kept_def r0_def start_run_def toy_store_def)
      (simp add: toy_with_def toy_penv_def toy_io_def)
  then show ?thesis
    by (auto simp: r0_def r5_def r4_def r3_def r2_def r1_def start_run_def)
qed

lemma toy_with_nothing: "toy_with [] = toy_penv"
  by (simp add: toy_with_def toy_penv_def)

lemmas toy_paired = toy_with_paired [of _ "[]", unfolded toy_with_nothing, simplified]

lemma toy_env_ok: "env_ok toy_penv" "ids_stay toy_penv" "store_ok (pe_around toy_penv) (fst toy_store)"
  using toy_sealed toy_prot_ok
  by (simp_all add: env_ok_def ids_stay_def toy_penv_def toy_io_def toy_create_def toy_replace_def toy_store_def store_ok_def)

section \<open>The properties\<close>

text \<open>
  C5. What \<open>pair\<close> shows is so when it is shown, whatever fails on the way: the SAS only when the state file
  holds this pairing's record as waiting (so an interrupted wait can be resumed with the keys the phone was
  shown), that it is paired only when the file holds the record as paired, and that the earlier state was
  kept only when the file is the one the run began with.
\<close>

theorem pair_shows_what_is_so:
  assumes "env_ok P" and "ids_stay P" and "store_ok (pe_around P) s" and "pair_run P (start_run s d) = (e, r)"
    and "(t, d1) \<in> set (p_shown r)"
  shows "shown_true P (d_file d) (t, d1)"
  using pair_run_well [OF assms(1-4)] assms(5) by (auto simp: ended_well_def books_def)

theorem pair_shows_what_is_so_witness:
  "\<exists>raw. encode_file toy_seal toy_header toy_key ''state'' = Inr raw
    \<and> saved_as toy_penv (toy_written raw) PhaseWaiting \<and> saved_as toy_penv (toy_written raw) PhasePaired"
proof -
  obtain raw where raw: "encode_file toy_seal toy_header toy_key ''state'' = Inr raw" using toy_raw by blast
  obtain r where r: "pair_run toy_penv (start_run (fst toy_store) (snd toy_store)) = (None, r)"
    "(ShowSAS ''123 456'', toy_written raw) \<in> set (p_shown r)" "(ShowPaired, toy_written raw) \<in> set (p_shown r)"
    using toy_paired [OF raw] by auto
  from pair_shows_what_is_so [OF toy_env_ok r(1,2)] pair_shows_what_is_so [OF toy_env_ok r(1,3)] raw
  show ?thesis by auto
qed


text \<open>
  \<open>pair\<close> returns without an error only if the state file holds this pairing's record as paired.
\<close>

lemma success_is_saved:
  assumes "env_ok P" and "ids_stay P" and "store_ok (pe_around P) s" and "pair_run P (start_run s d) = (None, r)"
  shows "saved_as P (snd (pw r)) PhasePaired"
  using pair_run_well [OF assms(1-4)] assms(2) by (auto simp: ended_well_def)

lemma success_is_saved_witness:
  "\<exists>r. pair_run toy_penv (start_run (fst toy_store) (snd toy_store)) = (None, r) \<and> saved_as toy_penv (snd (pw r)) PhasePaired"
proof -
  obtain raw where raw: "encode_file toy_seal toy_header toy_key ''state'' = Inr raw" using toy_raw by blast
  obtain r where r: "pair_run toy_penv (start_run (fst toy_store) (snd toy_store)) = (None, r)"
    using toy_paired [OF raw] by blast
  from success_is_saved [OF toy_env_ok r] r show ?thesis by blast
qed

text \<open>A run that fails before it writes: what was pasted holds no code.\<close>

definition toy_no_code :: penv where
  "toy_no_code = toy_penv\<lparr>pe_code := Some ''no code here''\<rparr>"

lemma toy_no_code_run: "pair_run toy_no_code (start_run (fst toy_store) (snd toy_store)) =
    (Some (PairCode ErrNoCode), (start_run (fst toy_store) (snd toy_store))\<lparr>pn := 1\<rparr>)"
proof -
  have "base64URLRuns ''no code here'' = [''no'', ''code'', ''here'']" by (simp add: base64URLRuns_def b64url_char_def byte_def)
  then have "parse_code (pe_lib toy_no_code) ''no code here'' 1 = Inl ErrNoCode"
    by (simp add: parse_code_def find_payload_def MaxCodeInput_def minPayloadLen_def)
  then have "pair_new toy_no_code r = (Some (PairCode ErrNoCode), r)" for r
    by (simp add: pair_new_def toy_no_code_def toy_penv_def)
  moreover have "pair_name toy_no_code = ''Agent''" by (simp add: pair_name_def toy_no_code_def toy_penv_def)
  ultimately show ?thesis
    by (simp add: pair_run_def agent_name exists_file_def what_is_kept_def start_run_def toy_store_def)
      (simp add: toy_no_code_def toy_penv_def toy_io_def)
qed


text \<open>
  C8. A completed pairing is never overwritten unasked: without \<open>--restart\<close>, when the state file holds a
  paired record, \<open>pair\<close> fails before it contacts anyone, shows nothing and leaves the directory as it is.
\<close>

theorem paired_state_is_kept:
  assumes "env_ok P" and "store_ok (pe_around P) s" and "\<not> pe_restart P" and "stored (pe_around P) d = Inr raw"
    and "decode_record (pe_times P) (pe_read P raw) = Inr rec" and "pr_phase rec = PhasePaired"
  shows "\<exists>e r. pair_run P (start_run s d) = (Some e, r) \<and> snd (pw r) = d \<and> p_shown r = []
    \<and> (e = AlreadyPaired \<or> e = PairUnreadable \<or> (\<exists>x. e = PairName x) \<or> (\<exists>x. e = PairStore x))"
proof -
  let ?r = "start_run s d" and ?r1 = "(start_run s d)\<lparr>pn := 1\<rparr>"
  obtain rep r1 where l: "sop P (\<lambda>io. OpLoad (io_dir io)) ?r1 = (rep, r1)" by fastforce
  have "run_ok P ?r1" using assms(2) by (simp add: run_ok_def start_run_def)
  note one = sop_load [OF assms(1) this l]
  have f1: "snd (pw r1) = d" "p_shown r1 = []" using one same_run_fields [of ?r1 r1] by (simp_all add: start_run_def)
  have "\<exists>e r. load_existing P ?r1 = (Stop e, r) \<and> snd (pw r) = d \<and> p_shown r = [] \<and> (e = AlreadyPaired \<or> e = PairUnreadable)"
  proof (cases rep)
    case (Gave x)
    then have "x = raw" using one assms(4) by (simp add: start_run_def)
    with Gave f1 assms(3,5,6) l show ?thesis by (simp add: load_existing_def)
  next
    case (Ended es)
    with f1 assms(3) l show ?thesis by (simp add: load_existing_def)
  qed
  moreover have "d_file d \<noteq> NoFile" using assms(4) stored_NoFile by blast
  moreover have "snd (pw ?r) = d" "p_shown ?r = []" "fst (pw ?r) = s" "pn ?r = 0" by (simp_all add: start_run_def)
  ultimately show ?thesis
    by (auto simp: pair_run_def exists_file_def split: option.split)
qed

text \<open>A directory that holds a completed pairing.\<close>

definition toy_reads :: penv where
  "toy_reads = toy_penv\<lparr>pe_read := (\<lambda>s. text_of (length s) (JObj (members (record_fields toy_clock toy_record))))\<rparr>"

theorem paired_state_is_kept_witness:
  "\<exists>raw e r. pair_run toy_reads (start_run (fst toy_store) (toy_written raw)) = (Some e, r)
    \<and> stored toy_surround (toy_written raw) = Inr ''state'' \<and> snd (pw r) = toy_written raw"
proof -
  obtain raw where raw: "encode_file toy_seal toy_header toy_key ''state'' = Inr raw" using toy_raw by blast
  have "loaded_ok toy_surround toy_key_held"
    by (simp add: loaded_ok_def toy_surround_def toy_key_held_def toy_protector_def)
  then have st: "stored toy_surround (toy_written raw) = Inr ''state''"
    by (rule stored_written [OF toy_sealed, where n = "replicate NonceLen CHR ''n''"])
      (use raw in \<open>simp_all add: header_for_def toy_key_held_def toy_protector_def toy_header_def Version_def toy_surround_def toy_written_def\<close>)
  have "check_record toy_record = None" and "record_normal toy_record" and "5 \<le> maxRecord"
    and "pr_phase toy_record \<noteq> PhasePaired \<longrightarrow> writable toy_clock (pr_deadline toy_record)"
    and "acc_expires (pr_access toy_record) \<noteq> 0 \<longrightarrow> writable toy_clock (acc_expires (pr_access toy_record))"
    by (simp_all add: record_eval)
  then have "decode_record toy_clock (text_of 5 (JObj (members (record_fields toy_clock toy_record)))) = Inr toy_record"
    by (rule record_read_back)
  then have dec: "decode_record (pe_times toy_reads) (pe_read toy_reads ''state'') = Inr toy_record"
    by (simp add: toy_reads_def toy_penv_def eval_nat_numeral)
  have "env_ok toy_reads" "store_ok (pe_around toy_reads) (fst toy_store)" "\<not> pe_restart toy_reads"
    "stored (pe_around toy_reads) (toy_written raw) = Inr ''state''" "pr_phase toy_record = PhasePaired"
    using toy_env_ok st by (simp_all add: env_ok_def toy_reads_def toy_penv_def toy_record_def)
  from paired_state_is_kept [OF this(1,2,3,4) dec this(5)] st show ?thesis by blast
qed

end
