(* ===== verification/Protect.thy ===== *)
theory Protect
  imports Pair
begin

text \<open>
  \<open>internal/protect\<close>: the passphrase protector (\<open>passphrase.go\<close>), the rules for a new passphrase
  (\<open>strength.go\<close>) and where a passphrase is read from (\<open>source.go\<close>, \<open>source_posix.go\<close>). Argon2id, the
  AEAD, the normalization to NFC and the Unicode category tables are parameters.
\<close>

section \<open>The protector interface\<close>

text \<open>
  What \<open>state.Protector\<close> promises: a name for the header, and that it unwraps what it wrapped. A protector
  depends on what it is made from and on the outside (\<open>'a\<close>), which \<open>outside\<close> says behaves as documented.
\<close>

locale state_protector =
  fixes prot :: "'a \<Rightarrow> protector" and outside :: "'a \<Rightarrow> bool"
  assumes named: "protectorName (pr_name (prot x))"
    and unwraps: "outside x \<Longrightarrow> pr_wrap (prot x) k = Some w \<Longrightarrow> pr_unwrap (prot x) w = Some k"
begin

lemma accepted: "check_protector (Some (prot x)) = None"
  by (simp add: check_protector_def named)

lemma usable_in_store:
  "outside x \<Longrightarrow> su_resolve U = Some f \<Longrightarrow> f (pr_name (prot x)) = Some (prot x) \<Longrightarrow> prot_ok U (prot x)"
  by (simp add: prot_ok_def unwraps)

lemma created_opens:
  assumes "outside x" and "aead (su_seal U) (su_unseal U)" and "su_resolve U = Some f"
    and "f (pr_name (prot x)) = Some (prot x)" and "st_lock s" and "ci_now io < 2 ^ 63"
    and "create_file U io (prot x) state s d = (s', d', e)" and "in_place e"
  shows "stored U d' = Inr state"
  using create_file_ends [OF assms(2) usable_in_store [OF assms(1,3,4)] assms(6,7)] assms(8) by simp

end

text \<open>\<open>select.go\<close>: the protector picked for a new state file, and the notice shown for it.\<close>

record choice =
  ch_protector :: string
  ch_reason :: string
  ch_bound :: bool

definition PassphraseName :: string where "PassphraseName = ''passphrase''"

definition NotMachineBound :: string where
  "NotMachineBound = ''Keys are protected by your passphrase only, not bound to this computer.''"

definition choice_notice :: "choice \<Rightarrow> string" where
  "choice_notice c = (if ch_bound c then [] else NotMachineBound)"

definition passphrase_choice :: "string \<Rightarrow> choice" where
  "passphrase_choice reason =
    \<lparr>ch_protector = PassphraseName, ch_reason = reason @ ''; using a passphrase'', ch_bound = False\<rparr>"

section \<open>Strength\<close>

record unicode =
  un_nfc :: "string \<Rightarrow> string"
  un_private :: "nat \<Rightarrow> bool"
  un_graphic :: "nat \<Rightarrow> bool"
  un_lower :: "nat \<Rightarrow> bool"
  un_upper :: "nat \<Rightarrow> bool"
  un_digit :: "nat \<Rightarrow> bool"
  un_other :: "nat \<Rightarrow> bool"

definition MinChars :: nat where "MinChars = 12"
definition MinClasses :: nat where "MinClasses = 3"
definition MaxBytes :: nat where "MaxBytes = 1024"

datatype weakness = WeakNotText | WeakLong | WeakControl | WeakFormat | WeakUnseen | WeakShort | WeakClasses

text \<open>The four classes seen so far: lower, upper, digit, other.\<close>

type_synonym classes = "bool \<times> bool \<times> bool \<times> bool"

fun class_scan :: "unicode \<Rightarrow> classes \<Rightarrow> (nat \<times> string) list \<Rightarrow> weakness + classes" where
  "class_scan N cl [] = Inr cl"
| "class_scan N (l, u, d, t) ((r, _) # rs) =
     (if control_rune r then Inl WeakControl
      else if format_rune r then Inl WeakFormat
      else if un_private N r \<or> \<not> un_graphic N r then Inl WeakUnseen
      else if un_lower N r then class_scan N (True, u, d, t) rs
      else if un_upper N r then class_scan N (l, True, d, t) rs
      else if un_digit N r then class_scan N (l, u, True, t) rs
      else if un_other N r then class_scan N (l, u, d, True) rs
      else class_scan N (l, u, d, t) rs)"

fun class_count :: "classes \<Rightarrow> nat" where
  "class_count (l, u, d, t) = length (filter id [l, u, d, t])"

definition check_strength :: "unicode \<Rightarrow> string \<Rightarrow> weakness option" where
  "check_strength N pass =
    (if \<not> valid_utf8 pass then Some WeakNotText
     else if MaxBytes < length pass then Some WeakLong
     else (let rs = runes (un_nfc N pass) in
       case class_scan N (False, False, False, False) rs of Inl e \<Rightarrow> Some e
       | Inr cl \<Rightarrow> if length rs < MinChars then Some WeakShort
                else if class_count cl < MinClasses then Some WeakClasses else None))"

section \<open>The passphrase protector\<close>

record params =
  pm_time :: nat
  pm_memory :: nat
  pm_threads :: nat

definition defaultParams :: params where "defaultParams = \<lparr>pm_time = 3, pm_memory = 64 * 1024, pm_threads = 1\<rparr>"
definition minParams :: params where "minParams = \<lparr>pm_time = 3, pm_memory = 64 * 1024, pm_threads = 1\<rparr>"
definition maxParams :: params where "maxParams = \<lparr>pm_time = 10, pm_memory = 256 * 1024, pm_threads = 4\<rparr>"

definition saltLen :: nat where "saltLen = 16"
definition blobHdrLen :: nat where "blobHdrLen = 1 + 4 + 4 + 1 + saltLen"
definition blobLen :: nat where "blobLen = blobHdrLen + NonceLen + DataKeyLen + Overhead"
definition blobLabel :: string where "blobLabel = ''vettid-agent/protect/passphrase/v1'' @ [char_byte 0]"

record pass_lib =
  pa_unicode :: unicode
  pa_derive :: "string \<Rightarrow> string \<Rightarrow> params \<Rightarrow> string"
  pa_seal :: cipher
  pa_unseal :: opener

datatype pass_error = ErrForgotten | ErrKeyLength | ErrWeak weakness | ErrNoRandom | ErrBlobFormat
  | ErrParamsBelowMinimum | ErrParamsAboveMaximum | ErrWrongPassphrase

datatype pass_new_error = PassEmpty | PassLong | PassNotText

definition new_passphrase :: "unicode \<Rightarrow> string \<Rightarrow> pass_new_error + string" where
  "new_passphrase N pass =
    (if pass = [] then Inl PassEmpty
     else if MaxBytes < length pass then Inl PassLong
     else if \<not> valid_utf8 pass then Inl PassNotText
     else Inr (un_nfc N pass))"

definition blob_header :: "params \<Rightarrow> string \<Rightarrow> string" where
  "blob_header pm salt = char_byte 1 # be32 (pm_time pm) @ be32 (pm_memory pm) @ char_byte (pm_threads pm) # salt"

definition wrap_with :: "pass_lib \<Rightarrow> string \<Rightarrow> string \<Rightarrow> params \<Rightarrow> string \<Rightarrow> string \<Rightarrow> string" where
  "wrap_with L pass key pm salt nonce =
    (let hdr = blob_header pm salt in
     hdr @ nonce @ pa_seal L (pa_derive L pass salt pm) nonce key (blobLabel @ hdr))"

text \<open>\<open>Wrap\<close>: \<open>None\<close> for the passphrase is one that was forgotten; the random salt and nonce may fail.\<close>

definition pass_wrap :: "pass_lib \<Rightarrow> string option \<Rightarrow> (string \<times> string) option \<Rightarrow> string \<Rightarrow> pass_error + string" where
  "pass_wrap L pass random key = (case pass of None \<Rightarrow> Inl ErrForgotten
     | Some pass \<Rightarrow>
       if length key \<noteq> DataKeyLen then Inl ErrKeyLength
       else (case check_strength (pa_unicode L) pass of Some e \<Rightarrow> Inl (ErrWeak e)
         | None \<Rightarrow> (case random of None \<Rightarrow> Inl ErrNoRandom
           | Some (salt, nonce) \<Rightarrow> Inr (wrap_with L pass key defaultParams salt nonce))))"

definition below :: "params \<Rightarrow> params \<Rightarrow> bool" where
  "below a b = (pm_time a < pm_time b \<or> pm_memory a < pm_memory b \<or> pm_threads a < pm_threads b)"

definition blob_params :: "string \<Rightarrow> params" where
  "blob_params blob = \<lparr>pm_time = get32 (drop 1 blob), pm_memory = get32 (drop 5 blob), pm_threads = byte (blob ! 9)\<rparr>"

text \<open>\<open>Unwrap\<close>, with the parameters of each key derivation it makes.\<close>

definition pass_unwrap :: "pass_lib \<Rightarrow> string option \<Rightarrow> string \<Rightarrow> (pass_error + string) \<times> params list" where
  "pass_unwrap L pass blob = (case pass of None \<Rightarrow> (Inl ErrForgotten, [])
     | Some pass \<Rightarrow>
       if length blob \<noteq> blobLen \<or> hd blob \<noteq> char_byte 1 then (Inl ErrBlobFormat, [])
       else (let pm = blob_params blob in
         if below pm minParams \<or> pm_threads pm = 0 then (Inl ErrParamsBelowMinimum, [])
         else if below maxParams pm then (Inl ErrParamsAboveMaximum, [])
         else (let hdr = take blobHdrLen blob; salt = drop 10 hdr; nonce = take NonceLen (drop blobHdrLen blob);
                   ct = drop (blobHdrLen + NonceLen) blob in
           (case pa_unseal L (pa_derive L pass salt pm) nonce ct (blobLabel @ hdr) of
              None \<Rightarrow> Inl ErrWrongPassphrase
            | Some key \<Rightarrow> Inr key, [pm]))))"

section \<open>Where a passphrase is read from\<close>

datatype source_error = BothGiven | StdFD | StoreOpen | NotOpenFD | NotPipeOrFile | NotOwned | NotPrivate
  | LineLong | LineEmpty | ReadFailed | NotOneLine | NotRegularFile | OpenFile | NoTerminal | AskFailed | NoMatch | NoPromptAllowed

definition lineLimit :: nat where "lineLimit = MaxBytes + 2"

text \<open>One \<open>Read\<close> of a byte: the byte, neither byte nor error, the end, or an error.\<close>

datatype byte_read = GotByte char | GotNothing | AtEnd | GotError

definition strip_cr :: "string \<Rightarrow> string" where
  "strip_cr s = (if s \<noteq> [] \<and> last s = char_byte 13 then butlast s else s)"

definition line_read :: "string \<Rightarrow> source_error + string" where
  "line_read buf = (let buf = strip_cr buf in if buf = [] then Inl LineEmpty else Inr buf)"

text \<open>\<open>readLine\<close>: the line and what of the input was not read.\<close>

fun read_line :: "string \<Rightarrow> byte_read list \<Rightarrow> (source_error + string) \<times> byte_read list" where
  "read_line buf [] = (line_read buf, [])"
| "read_line buf (AtEnd # rs) = (line_read buf, rs)"
| "read_line buf (GotError # rs) = (Inl ReadFailed, rs)"
| "read_line buf (GotNothing # rs) = read_line buf rs"
| "read_line buf (GotByte c # rs) =
     (if c = char_byte 10 then (line_read buf, rs)
      else if lineLimit \<le> length buf then (Inl LineLong, rs)
      else read_line (buf @ [c]) rs)"

text \<open>\<open>checkPassphraseFD\<close> and \<open>checkPassphraseFile\<close>, on what \<open>fstat\<close> gives.\<close>

datatype fd_kind = FdPipe stat bool | FdFile stat | FdOther

definition others_reach :: "stat \<Rightarrow> bool" where
  "others_reach st = (and (sa_mode st) 63 \<noteq> 0)"

fun check_passphrase_fd :: "nat \<Rightarrow> fd_kind option \<Rightarrow> source_error option" where
  "check_passphrase_fd euid None = Some NotOpenFD"
| "check_passphrase_fd euid (Some (FdPipe st named)) =
     (if sa_uid st \<noteq> euid then Some NotOwned else if others_reach st \<and> named then Some NotPrivate else None)"
| "check_passphrase_fd euid (Some (FdFile st)) =
     (if sa_uid st \<noteq> euid then Some NotOwned else if others_reach st then Some NotPrivate else None)"
| "check_passphrase_fd euid (Some FdOther) = Some NotPipeOrFile"

fun check_passphrase_file :: "nat \<Rightarrow> fd_kind \<Rightarrow> source_error option" where
  "check_passphrase_file euid (FdFile st) =
     (if sa_uid st \<noteq> euid then Some NotOwned else if others_reach st then Some NotPrivate else None)"
| "check_passphrase_file euid _ = Some NotRegularFile"

definition read_fd :: "nat \<Rightarrow> nat \<Rightarrow> nat \<Rightarrow> fd_kind option \<Rightarrow> byte_read list \<Rightarrow> source_error + string" where
  "read_fd euid open_stores fd kind input =
    (if fd \<le> 2 then Inl StdFD
     else if open_stores \<noteq> 0 then Inl StoreOpen
     else (case check_passphrase_fd euid kind of Some e \<Rightarrow> Inl e | None \<Rightarrow> fst (read_line [] input)))"

text \<open>\<open>readFile\<close> on the file's content; at most one byte beyond the limit is read.\<close>

definition file_line :: "string \<Rightarrow> source_error + string" where
  "file_line content =
    (let raw = take (lineLimit + 1) content in
     if lineLimit < length raw then Inl LineLong
     else (let pass = (if suffix [char_byte 13, char_byte 10] raw then take (length raw - 2) raw
               else if suffix [char_byte 10] raw then take (length raw - 1) raw else raw) in
       if char_byte 13 \<in> set pass \<or> char_byte 10 \<in> set pass then Inl NotOneLine
       else if pass = [] then Inl LineEmpty else Inr pass))"

definition read_file :: "nat \<Rightarrow> (fd_kind \<times> string option) option \<Rightarrow> source_error + string" where
  "read_file euid f = (case f of None \<Rightarrow> Inl OpenFile
     | Some (kind, content) \<Rightarrow> (case check_passphrase_file euid kind of Some e \<Rightarrow> Inl e
       | None \<Rightarrow> (case content of None \<Rightarrow> Inl ReadFailed | Some c \<Rightarrow> file_line c)))"

text \<open>\<open>readPrompt\<close>: what the terminal gives to the first and to the second question.\<close>

definition read_prompt :: "unicode \<Rightarrow> bool \<Rightarrow> string option \<Rightarrow> string option \<Rightarrow> bool \<Rightarrow> source_error + string" where
  "read_prompt N terminal first again confirm =
    (if \<not> terminal then Inl NoTerminal
     else (case first of None \<Rightarrow> Inl AskFailed
       | Some pass \<Rightarrow>
         if pass = [] then Inl LineEmpty
         else if \<not> confirm then Inr pass
         else (case again of None \<Rightarrow> Inl AskFailed
           | Some b \<Rightarrow> if un_nfc N pass \<noteq> un_nfc N b then Inl NoMatch else Inr pass)))"

text \<open>The outside of a source, and the flags: \<open>so_fd\<close> and \<open>so_file\<close> are \<open>None\<close> when not set.\<close>

record source_io =
  so_euid :: nat
  so_open_stores :: nat
  so_kind :: "fd_kind option"
  so_input :: "byte_read list"
  so_content :: "(fd_kind \<times> string option) option"
  so_terminal :: bool
  so_first :: "string option"
  so_again :: "string option"

record source =
  so_fd :: "nat option"
  so_file :: bool

text \<open>\<open>Read\<close>: the passphrase, and whether the terminal was asked.\<close>

definition source_read :: "unicode \<Rightarrow> source_io \<Rightarrow> source \<Rightarrow> bool \<Rightarrow> (source_error + string) \<times> bool" where
  "source_read N io s confirm =
    (if so_fd s \<noteq> None \<and> so_file s then (Inl BothGiven, False)
     else (case so_fd s of
         Some fd \<Rightarrow> (read_fd (so_euid io) (so_open_stores io) fd (so_kind io) (so_input io), False)
       | None \<Rightarrow>
         if so_file s then (read_file (so_euid io) (so_content io), False)
         else (read_prompt N (so_terminal io) (so_first io) (so_again io) confirm, so_terminal io)))"

section \<open>The blob's layout\<close>

definition bounded_params :: "params \<Rightarrow> bool" where
  "bounded_params pm = (3 \<le> pm_time pm \<and> pm_time pm \<le> 10 \<and> 65536 \<le> pm_memory pm \<and> pm_memory pm \<le> 262144
     \<and> 1 \<le> pm_threads pm \<and> pm_threads pm \<le> 4)"

lemma bounded_params_checks: "bounded_params pm \<longleftrightarrow> \<not> (below pm minParams \<or> pm_threads pm = 0) \<and> \<not> below maxParams pm"
  by (auto simp: bounded_params_def below_def minParams_def maxParams_def)

lemmas blob_lengths = blobLen_def blobHdrLen_def saltLen_def lengths

lemma blob_header_length: "length salt = saltLen \<Longrightarrow> length (blob_header pm salt) = blobHdrLen"
  by (simp add: blob_header_def blob_lengths)

lemma blob_params_header: "bounded_params pm \<Longrightarrow> blob_params (blob_header pm salt @ r) = pm"
proof -
  assume w: "bounded_params pm"
  let ?b = "blob_header pm salt @ r" and ?rest = "char_byte (pm_threads pm) # salt @ r"
  have "drop 1 ?b = be32 (pm_time pm) @ be32 (pm_memory pm) @ ?rest" by (simp add: blob_header_def)
  moreover have "drop 4 (be32 n @ t) = t" for n t by (simp add: be32_length)
  moreover have "drop 5 ?b = drop 4 (drop 1 ?b)" "?b ! 9 = drop 4 (drop 4 (drop 1 ?b)) ! 0"
    by (simp_all add: blob_header_def be32_def be16_def)
  ultimately show ?thesis using w by (simp add: blob_params_def be32_get bounded_params_def byte_char_byte)
qed

lemma header_of_blob:
  assumes "length blob = blobLen" and "hd blob = char_byte 1"
  shows "take blobHdrLen blob = blob_header (blob_params blob) (drop 10 (take blobHdrLen blob))"
proof -
  have len: "length blob = 98" using assms(1) by (simp add: blob_lengths)
  have parts: "take (m + n) (drop k blob) = take m (drop k blob) @ take n (drop (k + m) blob)" for k m n
    by (simp add: take_add add.commute)
  have split: "take 26 blob = take 1 blob @ take 4 (drop 1 blob) @ take 4 (drop 5 blob) @ take 1 (drop 9 blob) @ take 16 (drop 10 blob)"
    using parts [of 1 25 0] parts [of 4 21 1] parts [of 4 17 5] parts [of 1 16 9] by simp
  have "take 1 blob = [char_byte 1]" using assms len by (cases blob) auto
  moreover have "take 4 (drop k blob) = be32 (get32 (drop k blob))" if "k \<le> 9" for k
    using that len by (intro four_bytes) simp
  moreover have "take 1 (drop 9 blob) = [char_byte (byte (blob ! 9))]"
    using len by (simp add: take_Suc_conv_app_nth)
  moreover have "drop 10 (take blobHdrLen blob) = take 16 (drop 10 blob)" "blobHdrLen = 26"
    by (simp_all add: drop_take blob_lengths)
  ultimately show ?thesis using split by (simp only: blob_header_def blob_params_def params.simps) simp
qed

lemma opened_blob:
  assumes "aead (pa_seal L) (pa_unseal L)"
  shows "pass_unwrap L (Some pass) blob = (Inr key, ds) \<longleftrightarrow>
    (\<exists>pm salt nonce. length salt = saltLen \<and> length nonce = NonceLen \<and> length key = DataKeyLen \<and> bounded_params pm
       \<and> blob = wrap_with L pass key pm salt nonce \<and> ds = [pm])" (is "?l = ?r")
proof
  assume l: ?l
  let ?pm = "blob_params blob" and ?hdr = "take blobHdrLen blob"
  let ?salt = "drop 10 ?hdr" and ?nonce = "take NonceLen (drop blobHdrLen blob)" and ?ct = "drop (blobHdrLen + NonceLen) blob"
  have b: "length blob = blobLen" "hd blob = char_byte 1" and w: "bounded_params ?pm" "ds = [?pm]"
    and u: "pa_unseal L (pa_derive L pass ?salt ?pm) ?nonce ?ct (blobLabel @ ?hdr) = Some key"
    using l by (auto simp: pass_unwrap_def Let_def bounded_params_checks split: if_splits option.splits)
  have ct: "?ct = pa_seal L (pa_derive L pass ?salt ?pm) ?nonce key (blobLabel @ ?hdr)" "length ?ct = length key + Overhead"
    using assms u by (auto simp: aead_def)
  have "blob = ?hdr @ ?nonce @ ?ct" by (metis append_take_drop_id drop_drop add.commute)
  then have "blob = wrap_with L pass key ?pm ?salt ?nonce"
    using ct(1) header_of_blob [OF b] by (simp add: wrap_with_def Let_def)
  moreover have "length ?salt = saltLen" "length ?nonce = NonceLen" "length key = DataKeyLen"
    using b(1) ct(2) by (simp_all add: blob_lengths)
  ultimately show ?r using w by blast
next
  assume ?r
  then obtain pm salt nonce where len: "length salt = saltLen" "length nonce = NonceLen" "length key = DataKeyLen"
    and w: "bounded_params pm" and blob: "blob = wrap_with L pass key pm salt nonce" and ds: "ds = [pm]" by blast
  let ?hdr = "blob_header pm salt"
  let ?ct = "pa_seal L (pa_derive L pass salt pm) nonce key (blobLabel @ ?hdr)"
  have raw: "blob = ?hdr @ nonce @ ?ct" using blob by (simp add: wrap_with_def Let_def)
  have ct: "length ?ct = length key + Overhead" "pa_unseal L (pa_derive L pass salt pm) nonce ?ct (blobLabel @ ?hdr) = Some key"
    using assms by (auto simp: aead_def)
  have h: "length ?hdr = blobHdrLen" using len(1) by (rule blob_header_length)
  have "length blob = blobLen" using raw h len ct(1) by (simp add: blobLen_def)
  moreover have "hd blob = char_byte 1" using raw by (simp add: blob_header_def)
  moreover have "blob_params blob = pm" unfolding raw using w by (rule blob_params_header)
  moreover have "take blobHdrLen blob = ?hdr" "drop blobHdrLen blob = nonce @ ?ct" using raw h by simp_all
  moreover have "drop (blobHdrLen + NonceLen) blob = ?ct" using raw h len(2) by simp
  moreover have "drop 10 ?hdr = salt" by (simp add: blob_header_def be32_def be16_def)
  ultimately show ?l using ct(2) w len(2) ds by (simp add: pass_unwrap_def Let_def bounded_params_checks)
qed

text \<open>The protector a passphrase makes, with the random bytes it draws.\<close>

record pass_setting =
  ps_lib :: pass_lib
  ps_pass :: "string option"
  ps_random :: "(string \<times> string) option"

definition value_of :: "'e + 'a \<Rightarrow> 'a option" where
  "value_of r = (case r of Inl _ \<Rightarrow> None | Inr x \<Rightarrow> Some x)"

definition passphrase_protector :: "pass_setting \<Rightarrow> protector" where
  "passphrase_protector S = \<lparr>pr_name = PassphraseName, pr_wrap = \<lambda>k. value_of (pass_wrap (ps_lib S) (ps_pass S) (ps_random S) k),
     pr_unwrap = \<lambda>b. value_of (fst (pass_unwrap (ps_lib S) (ps_pass S) b))\<rparr>"

definition pass_outside :: "pass_setting \<Rightarrow> bool" where
  "pass_outside S = (aead (pa_seal (ps_lib S)) (pa_unseal (ps_lib S))
     \<and> (\<forall>salt nonce. ps_random S = Some (salt, nonce) \<longrightarrow> length salt = saltLen \<and> length nonce = NonceLen))"

lemma value_of_Some [simp]: "value_of r = Some x \<longleftrightarrow> r = Inr x"
  by (simp add: value_of_def split: sum.split)

lemma bounded_default: "bounded_params defaultParams"
  by (simp add: bounded_params_def defaultParams_def)

lemma wrapped_blob:
  assumes "pass_wrap L p random key = Inr w"
  obtains pass salt nonce where "p = Some pass" and "random = Some (salt, nonce)" and "length key = DataKeyLen"
    and "check_strength (pa_unicode L) pass = None" and "w = wrap_with L pass key defaultParams salt nonce"
  using assms by (auto simp: pass_wrap_def split: option.splits if_splits)

lemma wrapped_opens:
  assumes "pass_wrap L p random key = Inr w" and "aead (pa_seal L) (pa_unseal L)"
    and "\<forall>salt nonce. random = Some (salt, nonce) \<longrightarrow> length salt = saltLen \<and> length nonce = NonceLen"
  shows "pass_unwrap L p w = (Inr key, [defaultParams])"
  using assms(1)
proof (rule wrapped_blob)
  fix pass salt nonce
  assume "p = Some pass" and "random = Some (salt, nonce)" and "length key = DataKeyLen"
    and "w = wrap_with L pass key defaultParams salt nonce"
  then show ?thesis using assms(3) opened_blob [OF assms(2), of pass w key "[defaultParams]"] bounded_default by blast
qed

interpretation passphrase: state_protector passphrase_protector pass_outside
  by unfold_locales
    (auto simp: passphrase_protector_def PassphraseName_def protectorName_def lower_char_def byte_def pass_outside_def wrapped_opens)

section \<open>The rules for a new passphrase\<close>

datatype rune_kind = KindLower | KindUpper | KindDigit | KindSymbol

definition rune_refused :: "unicode \<Rightarrow> nat \<Rightarrow> bool" where
  "rune_refused N r = (control_rune r \<or> format_rune r \<or> un_private N r \<or> \<not> un_graphic N r)"

definition kind_of :: "unicode \<Rightarrow> nat \<Rightarrow> rune_kind option" where
  "kind_of N r = (if un_lower N r then Some KindLower else if un_upper N r then Some KindUpper
     else if un_digit N r then Some KindDigit else if un_other N r then Some KindSymbol else None)"

definition kinds :: "unicode \<Rightarrow> nat list \<Rightarrow> rune_kind set" where
  "kinds N rs = {k. \<exists>r\<in>set rs. kind_of N r = Some k}"

definition flags_of :: "rune_kind set \<Rightarrow> classes" where
  "flags_of K = (KindLower \<in> K, KindUpper \<in> K, KindDigit \<in> K, KindSymbol \<in> K)"

lemma kinds_Cons: "kinds N (r # rs) = (case kind_of N r of None \<Rightarrow> kinds N rs | Some k \<Rightarrow> insert k (kinds N rs))"
  by (auto simp: kinds_def split: option.split)

lemma class_scan_kinds:
  "class_scan N (flags_of K) rs =
     (if \<exists>r\<in>set (map fst rs). rune_refused N r then Inl (projl (class_scan N (flags_of K) rs))
      else Inr (flags_of (K \<union> kinds N (map fst rs))))"
proof (induction rs arbitrary: K)
  case Nil
  show ?case by (simp add: flags_of_def kinds_def)
next
  case (Cons x rs)
  obtain r s where x: "x = (r, s)" by fastforce
  show ?case
  proof (cases "rune_refused N r")
    case True
    then have "\<exists>e. class_scan N (flags_of K) (x # rs) = Inl e" by (auto simp: x flags_of_def rune_refused_def)
    with True x show ?thesis by auto
  next
    case False
    define K' where "K' = (case kind_of N r of None \<Rightarrow> K | Some k \<Rightarrow> insert k K)"
    have "class_scan N (flags_of K) (x # rs) = class_scan N (flags_of K') rs"
      using False by (simp add: x flags_of_def rune_refused_def K'_def kind_of_def)
    moreover have "K \<union> kinds N (map fst (x # rs)) = K' \<union> kinds N (map fst rs)"
      by (auto simp: K'_def x kinds_Cons split: option.splits)
    moreover have "(\<exists>r\<in>set (map fst (x # rs)). rune_refused N r) = (\<exists>r\<in>set (map fst rs). rune_refused N r)"
      using False x by simp
    ultimately show ?thesis using Cons.IH [of K'] by (simp only:)
  qed
qed

lemma class_count_flags: "class_count (flags_of K) = card K"
proof -
  have "K = (if KindLower \<in> K then {KindLower} else {}) \<union> (if KindUpper \<in> K then {KindUpper} else {})
      \<union> (if KindDigit \<in> K then {KindDigit} else {}) \<union> (if KindSymbol \<in> K then {KindSymbol} else {})" (is "_ = ?u")
  proof (rule set_eqI)
    show "x \<in> K \<longleftrightarrow> x \<in> ?u" for x by (cases x) auto
  qed
  then have "card K = card ?u" by simp
  then show ?thesis by (auto simp: flags_of_def)
qed

lemma strength_accepts:
  "check_strength N pass = None \<longleftrightarrow>
     valid_utf8 pass \<and> length pass \<le> 1024
     \<and> (let rs = map fst (runes (un_nfc N pass)) in
         (\<forall>r\<in>set rs. \<not> rune_refused N r) \<and> 12 \<le> length rs \<and> 3 \<le> card (kinds N rs))"
proof -
  have e: "(False, False, False, False) = flags_of {}" by (simp add: flags_of_def)
  have "class_scan N (False, False, False, False) rs =
     (if \<exists>r\<in>set (map fst rs). rune_refused N r then Inl (projl (class_scan N (flags_of {}) rs))
      else Inr (flags_of (kinds N (map fst rs))))" for rs
    unfolding e by (subst class_scan_kinds) simp
  then show ?thesis
    by (auto simp: check_strength_def Let_def class_count_flags MinChars_def MinClasses_def MaxBytes_def split: if_splits)
qed

section \<open>Reading a line\<close>

lemma read_line_bytes:
  "length (buf @ l) \<le> lineLimit \<Longrightarrow> char_byte 10 \<notin> set l \<Longrightarrow>
   read_line buf (map GotByte l @ rs) = read_line (buf @ l) rs"
  by (induction l arbitrary: buf) auto

text \<open>The line is read, and nothing after its line break.\<close>

lemma read_line_stops:
  assumes "length l \<le> lineLimit" and "char_byte 10 \<notin> set l"
  shows "read_line [] (map GotByte l @ GotByte (char_byte 10) # rest) = (line_read l, rest)"
    and "read_line [] (map GotByte l) = (line_read l, [])"
  using assms read_line_bytes [of "[]" l] read_line_bytes [of "[]" l "[]"] by simp_all

lemma accepted_file:
  assumes "file_line c = Inr p"
  shows "c \<in> {p, p @ [char_byte 10], p @ [char_byte 13, char_byte 10]}" and "length c \<le> lineLimit" and "p \<noteq> []"
    and "char_byte 13 \<notin> set p" and "char_byte 10 \<notin> set p"
proof -
  have c: "take (lineLimit + 1) c = c" and len: "length c \<le> lineLimit"
    using assms by (auto simp: file_line_def Let_def split: if_splits)
  have "p = (if suffix [char_byte 13, char_byte 10] c then take (length c - 2) c
      else if suffix [char_byte 10] c then take (length c - 1) c else c)"
    and p: "p \<noteq> []" "char_byte 13 \<notin> set p" "char_byte 10 \<notin> set p"
    using assms len unfolding file_line_def Let_def c by (auto split: if_splits)
  then show "c \<in> {p, p @ [char_byte 10], p @ [char_byte 13, char_byte 10]}"
    by (auto simp: suffix_def split: if_splits)
  show "length c \<le> lineLimit" "p \<noteq> []" "char_byte 13 \<notin> set p" "char_byte 10 \<notin> set p" by (fact len p)+
qed

lemma file_then_descriptor:
  assumes "file_line c = Inr p"
  shows "read_line [] (map GotByte c) = (Inr p, [])"
proof -
  note a = accepted_file [OF assms]
  have strip: "strip_cr p = p" "strip_cr (p @ [char_byte 13]) = p"
    using a(4) by (auto simp: strip_cr_def dest: last_in_set)
  consider "c = p" | "c = p @ [char_byte 10]" | "c = (p @ [char_byte 13]) @ [char_byte 10]" using a(1) by auto
  then show ?thesis
  proof cases
    case 3
    moreover have "char_byte 10 \<noteq> char_byte 13" by (auto dest: arg_cong [where f = byte] simp: byte_char_byte)
    moreover from this have "char_byte 10 \<notin> set (p @ [char_byte 13])" using a(5) by simp
    ultimately show ?thesis
      using read_line_stops(1) [of "p @ [char_byte 13]" "[]"] a strip by (simp add: line_read_def)
  qed (use read_line_stops [of p] a strip in \<open>simp_all add: line_read_def\<close>)
qed

section \<open>Properties\<close>

text \<open>
  C22. The passphrase protector gives a data key for a blob exactly when the blob is, byte for byte, what
  wrapping that key under this passphrase makes with some salt, some nonce and parameters within the
  bounds; it then derives one key, with the blob's parameters. Whatever it wraps is such a blob, so a wrapped
  key opens with the same passphrase.
\<close>

theorem passphrase_opens_its_blobs:
  assumes "aead (pa_seal L) (pa_unseal L)"
  shows "(pass_unwrap L (Some pass) blob = (Inr key, ds) \<longleftrightarrow>
      (\<exists>pm salt nonce. length salt = saltLen \<and> length nonce = NonceLen \<and> length key = DataKeyLen \<and> bounded_params pm
         \<and> blob = wrap_with L pass key pm salt nonce \<and> ds = [pm]))
    \<and> (pass_wrap L (Some pass) (Some (salt, nonce)) key = Inr blob \<and> length salt = saltLen \<and> length nonce = NonceLen
        \<longrightarrow> pass_unwrap L (Some pass) blob = (Inr key, [defaultParams]))"
proof
  show "pass_unwrap L (Some pass) blob = (Inr key, ds) \<longleftrightarrow>
      (\<exists>pm salt nonce. length salt = saltLen \<and> length nonce = NonceLen \<and> length key = DataKeyLen \<and> bounded_params pm
         \<and> blob = wrap_with L pass key pm salt nonce \<and> ds = [pm])" by (rule opened_blob [OF assms])
  show "pass_wrap L (Some pass) (Some (salt, nonce)) key = Inr blob \<and> length salt = saltLen \<and> length nonce = NonceLen
        \<longrightarrow> pass_unwrap L (Some pass) blob = (Inr key, [defaultParams])" 
    using wrapped_opens [where random = "Some (salt, nonce)", OF _ assms] by auto
qed

text \<open>
  C32. Opening a blob, whatever its bytes, derives at most one key, and with at least 3 iterations, 64 MiB
  and 1 lane and at most 10 iterations, 256 MiB and 4 lanes: a hostile file cannot make the
  connector spend more than that, nor accept a weaker key.
\<close>

theorem derivations_are_bounded:
  "list_all bounded_params (snd (pass_unwrap L p blob)) \<and> length (snd (pass_unwrap L p blob)) \<le> 1"
  by (auto simp: pass_unwrap_def Let_def bounded_params_checks split: option.split)

text \<open>
  The strength check accepts a passphrase exactly when it is UTF-8 text of at most 1024 bytes whose
  normal form has no control, format, private-use, unassigned or unseen character, at least 12 characters, and
  at least three of the kinds lower, upper, digit and other.
\<close>

lemma strength_rules:
  "check_strength N pass = None \<longleftrightarrow>
     valid_utf8 pass \<and> length pass \<le> 1024
     \<and> (let rs = map fst (runes (un_nfc N pass)) in
         filter (rune_refused N) rs = [] \<and> 12 \<le> length rs \<and> 3 \<le> card (kinds N rs))"
  by (simp add: strength_accepts filter_empty_conv Let_def)

text \<open>
  A passphrase file that is accepted holds the passphrase and at most one line break; read over a
  descriptor, byte by byte, the same bytes give the same passphrase. Over a descriptor nothing after the first
  line break is read.
\<close>

lemma file_and_descriptor_agree:
  assumes "file_line c = Inr p"
  shows "c \<in> {p, p @ [char_byte 10], p @ [char_byte 13, char_byte 10]} \<and> p \<noteq> [] \<and> length c \<le> lineLimit
    \<and> char_byte 13 \<notin> set p \<and> char_byte 10 \<notin> set p
    \<and> read_line [] (map GotByte c) = (Inr p, [])
    \<and> read_line [] (map GotByte p @ GotByte (char_byte 10) # rest) = (Inr p, rest)"
proof -
  note a = accepted_file [OF assms]
  then have "length p \<le> lineLimit" "strip_cr p = p" by (auto simp: strip_cr_def dest: last_in_set)
  with a show ?thesis using file_then_descriptor [OF assms] read_line_stops(1) [of p rest] by (simp add: line_read_def)
qed

section \<open>Witnesses\<close>

definition demo_unicode :: unicode where
  "demo_unicode = \<lparr>un_nfc = \<lambda>s. s, un_private = \<lambda>_. False, un_graphic = \<lambda>r. 32 \<le> r,
     un_lower = \<lambda>r. 97 \<le> r \<and> r \<le> 122, un_upper = \<lambda>r. 65 \<le> r \<and> r \<le> 90, un_digit = \<lambda>r. 48 \<le> r \<and> r \<le> 57,
     un_other = \<lambda>r. r = 33\<rparr>"

definition demo_pass_lib :: pass_lib where
  "demo_pass_lib = \<lparr>pa_unicode = demo_unicode, pa_derive = \<lambda>p s m. p @ s, pa_seal = toy_seal, pa_unseal = toy_unseal\<rparr>"

lemma demo_strong: "check_strength demo_unicode ''Correct horse 7'' = None"
  by (simp add: check_strength_def demo_unicode_def MaxBytes_def MinChars_def MinClasses_def valid_utf8.simps runes.simps byte_def
      control_rune_def format_rune_def format_ranges_def Let_def)

theorem passphrase_opens_its_blobs_witness:
  "\<exists>blob. pass_wrap demo_pass_lib (Some ''Correct horse 7'')
       (Some (replicate saltLen CHR ''s'', replicate NonceLen CHR ''n'')) toy_key = Inr blob
     \<and> pass_unwrap demo_pass_lib (Some ''Correct horse 7'') blob = (Inr toy_key, [defaultParams])"
proof -
  let ?s = "replicate saltLen CHR ''s''" and ?n = "replicate NonceLen CHR ''n''"
  have a: "aead (pa_seal demo_pass_lib) (pa_unseal demo_pass_lib)" using toy_aead by (simp add: demo_pass_lib_def)
  have w: "pass_wrap demo_pass_lib (Some ''Correct horse 7'') (Some (?s, ?n)) toy_key
      = Inr (wrap_with demo_pass_lib ''Correct horse 7'' toy_key defaultParams ?s ?n)"
    using demo_strong by (simp add: pass_wrap_def toy_key_def) (simp add: demo_pass_lib_def)
  then show ?thesis using passphrase_opens_its_blobs [OF a, THEN conjunct2, rule_format, OF conjI [OF w]] by simp
qed

lemma file_and_descriptor_agree_witness:
  "file_line (''horse'' @ [CHR 0x0D, CHR 0x0A]) = Inr ''horse''
   \<and> read_line [] (map GotByte (''horse'' @ [CHR 0x0D, CHR 0x0A])) = (Inr ''horse'', [])"
proof -
  have c: "char_byte 10 = CHR 0x0A" "char_byte 13 = CHR 0x0D" by (simp_all add: char_byte_def char_of_def bit_iff_odd)
  have "file_line (''horse'' @ [CHR 0x0D, CHR 0x0A]) = Inr ''horse''"
    by (simp add: file_line_def lineLimit_def MaxBytes_def Let_def suffix_def c)
  then show ?thesis using file_and_descriptor_agree [of "''horse'' @ [CHR 0x0D, CHR 0x0A]" "''horse''" "[]"] by blast
qed

end
