(* ===== verification/Dpapi.thy ===== *)
theory Dpapi
  imports Protect
begin

text \<open>
  \<open>internal/protect/dpapi_blob.go\<close>, \<open>dpapi_windows.go\<close>, \<open>select_windows.go\<close> and \<open>dpapi_reach.go\<close>: the
  Windows DPAPI protector, the form of its blobs, the choice of the protector on Windows and the notices. The two
  Windows calls, SHA-256 and the account checks are parameters; what the hint on a lost key says is left
  out.
\<close>

section \<open>Reading a DPAPI blob\<close>

definition dpapiDescription :: string where "dpapiDescription = ''vettid-agent data key''"
definition dpapiEntropyLabel :: string where "dpapiEntropyLabel = ''vettid-agent/protect/dpapi/v1'' @ [char_byte 0]"
definition dpapiCheckLabel :: string where "dpapiCheckLabel = ''vettid-agent/protect/dpapi/v1 check'' @ [char_byte 0]"
definition dpapiCheckLen :: nat where "dpapiCheckLen = 16"
definition dpapiPlainLen :: nat where "dpapiPlainLen = DataKeyLen + dpapiCheckLen"
definition maxDPAPIField :: nat where "maxDPAPIField = 1024"
definition maxDPAPIBlob :: nat where "maxDPAPIBlob = 4096"

definition dpapiProvider :: string where
  "dpapiProvider = map char_byte [0xd0, 0x8c, 0x9d, 0xdf, 0x01, 0x15, 0xd1, 0x11, 0x8c, 0x7a, 0x00, 0xc0, 0x4f, 0xc2, 0x97, 0xeb]"

definition le32 :: "nat \<Rightarrow> string" where
  "le32 n = rev (be32 n)"

definition get_le32 :: "string \<Rightarrow> nat" where
  "get_le32 s = get32 (rev (take 4 s))"

text \<open>The description as UTF-16, little-endian, with a final NUL; its characters are ASCII.\<close>

definition dpapiDescriptionBytes :: string where
  "dpapiDescriptionBytes = concat (map (\<lambda>c. [c, char_byte 0]) (dpapiDescription @ [char_byte 0]))"

type_synonym 'a taken = "('a \<times> string) option"

definition take_u32 :: "string \<Rightarrow> nat taken" where
  "take_u32 r = (if length r < 4 then None else Some (get_le32 r, drop 4 r))"

definition take_fixed :: "nat \<Rightarrow> string \<Rightarrow> string taken" where
  "take_fixed n r = (if length r < n then None else Some (take n r, drop n r))"

definition take_field :: "bool \<Rightarrow> string \<Rightarrow> string taken" where
  "take_field allow_empty r = (case take_u32 r of None \<Rightarrow> None
     | Some (n, r) \<Rightarrow> if maxDPAPIField < n \<or> n = 0 \<and> \<not> allow_empty then None else take_fixed n r)"

definition crypt_ok :: "nat \<Rightarrow> nat \<Rightarrow> bool" where
  "crypt_ok alg len = ((alg, len) \<in> {(0x660e, 128), (0x660f, 192), (0x6610, 256)})"

definition hash_ok :: "nat \<Rightarrow> nat \<Rightarrow> bool" where
  "hash_ok alg len = ((alg, len) \<in> {(0x800c, 256), (0x800d, 384), (0x800e, 512)})"

definition check_dpapi_head :: "string \<Rightarrow> string taken" where
  "check_dpapi_head r = (case take_u32 r of None \<Rightarrow> None
     | Some (v, r) \<Rightarrow> if v \<noteq> 1 then None else (case take_fixed 16 r of None \<Rightarrow> None
     | Some (g, r) \<Rightarrow> if g \<noteq> dpapiProvider then None else (case take_u32 r of None \<Rightarrow> None
     | Some (m, r) \<Rightarrow> if m \<noteq> 1 then None else (case take_fixed 16 r of None \<Rightarrow> None
     | Some (mk, r) \<Rightarrow> (case take_u32 r of None \<Rightarrow> None
     | Some (flags, r) \<Rightarrow> if flags \<noteq> 0 then None else (case take_field False r of None \<Rightarrow> None
     | Some (d, r) \<Rightarrow> if d \<noteq> dpapiDescriptionBytes then None else Some (mk, r)))))))"

definition take_alg :: "(nat \<Rightarrow> nat \<Rightarrow> bool) \<Rightarrow> string \<Rightarrow> (nat \<times> nat) taken" where
  "take_alg ok r = (case take_u32 r of None \<Rightarrow> None
     | Some (alg, r) \<Rightarrow> (case take_u32 r of None \<Rightarrow> None
       | Some (len, r) \<Rightarrow> if ok alg len then Some ((alg, len), r) else None))"

definition check_dpapi_tail :: "string \<Rightarrow> unit option" where
  "check_dpapi_tail r = (case take_alg crypt_ok r of None \<Rightarrow> None
     | Some (_, r) \<Rightarrow> (case take_field False r of None \<Rightarrow> None
     | Some (_, r) \<Rightarrow> (case take_field True r of None \<Rightarrow> None
     | Some (_, r) \<Rightarrow> (case take_alg hash_ok r of None \<Rightarrow> None
     | Some (_, r) \<Rightarrow> (case take_field False r of None \<Rightarrow> None
     | Some (_, r) \<Rightarrow> (case take_field False r of None \<Rightarrow> None
     | Some (_, r) \<Rightarrow> (case take_field False r of None \<Rightarrow> None
     | Some (_, r) \<Rightarrow> if r \<noteq> [] then None else Some ())))))))"

text \<open>\<open>checkDPAPIInner\<close>: the master key's GUID; the flags are then 0.\<close>

definition check_dpapi_inner :: "string \<Rightarrow> string option" where
  "check_dpapi_inner b = (case check_dpapi_head b of None \<Rightarrow> None
     | Some (mk, r) \<Rightarrow> (case check_dpapi_tail r of None \<Rightarrow> None | Some _ \<Rightarrow> Some mk))"

definition encode_dpapi_blob :: "string \<Rightarrow> string" where
  "encode_dpapi_blob inner = char_byte 1 # inner"

definition decode_dpapi_blob :: "string \<Rightarrow> (string \<times> string) option" where
  "decode_dpapi_blob blob =
    (if length blob < 2 \<or> maxDPAPIBlob < length blob \<or> hd blob \<noteq> char_byte 1 then None
     else (case check_dpapi_inner (tl blob) of None \<Rightarrow> None | Some mk \<Rightarrow> Some (tl blob, mk)))"

text \<open>\<open>dpapiPlaintext\<close> and \<open>dpapiKeyFromPlaintext\<close>, over SHA-256.\<close>

definition dpapi_check :: "(string \<Rightarrow> string) \<Rightarrow> string \<Rightarrow> string" where
  "dpapi_check sha key = take dpapiCheckLen (sha (dpapiCheckLabel @ key))"

definition dpapi_plaintext :: "(string \<Rightarrow> string) \<Rightarrow> string \<Rightarrow> string" where
  "dpapi_plaintext sha key = key @ dpapi_check sha key"

definition dpapi_key_from :: "(string \<Rightarrow> string) \<Rightarrow> string \<Rightarrow> string option" where
  "dpapi_key_from sha p =
    (if length p \<noteq> dpapiPlainLen then None
     else if drop DataKeyLen p \<noteq> dpapi_check sha (take DataKeyLen p) then None
     else Some (take DataKeyLen p))"

section \<open>The protector\<close>

datatype win_code = FileNotFound | PathNotFound | NoSuchLogonSession | NotFound | InvalidData | BadData
  | PasswordRestriction | BadKeyState | WinOther nat

datatype win_error = Errno win_code | NotErrno

datatype dpapi_error = DpapiKeyLength | DpapiProfile win_code | ProtectKeyState win_code | ProtectFailed win_error
  | DpapiForm | ErrDPAPIBlobFormat | ErrDPAPIRefused "win_code option" | ErrDPAPIKeyLost win_code | OpenKeyFailed win_error

definition profile_codes :: "win_code list" where
  "profile_codes = [FileNotFound, PathNotFound, NoSuchLogonSession, NotFound]"

fun classify_protect :: "win_error \<Rightarrow> dpapi_error" where
  "classify_protect NotErrno = ProtectFailed NotErrno"
| "classify_protect (Errno c) = (if c \<in> set profile_codes then DpapiProfile c
     else if c = BadKeyState then ProtectKeyState c else ProtectFailed (Errno c))"

fun classify_dpapi :: "win_error \<Rightarrow> dpapi_error" where
  "classify_dpapi NotErrno = OpenKeyFailed NotErrno"
| "classify_dpapi (Errno c) = (if c \<in> {InvalidData, BadData, PasswordRestriction} then ErrDPAPIRefused (Some c)
     else if c = BadKeyState then ErrDPAPIKeyLost c
     else if c \<in> set profile_codes then DpapiProfile c else OpenKeyFailed (Errno c))"

text \<open>
  The two calls: \<open>CryptProtectData\<close> (text, description, entropy) and \<open>CryptUnprotectData\<close> (blob, entropy),
  which gives the text and the description.
\<close>

record windows =
  wn_sha :: "string \<Rightarrow> string"
  wn_protect :: "string \<Rightarrow> string \<Rightarrow> string \<Rightarrow> win_error + string"
  wn_unprotect :: "string \<Rightarrow> string \<Rightarrow> win_error + string \<times> string"

definition dpapi_wrap :: "windows \<Rightarrow> string \<Rightarrow> dpapi_error + string" where
  "dpapi_wrap W key =
    (if length key \<noteq> DataKeyLen then Inl DpapiKeyLength
     else (case wn_protect W (dpapi_plaintext (wn_sha W) key) dpapiDescription dpapiEntropyLabel of
         Inl e \<Rightarrow> Inl (classify_protect e)
       | Inr inner \<Rightarrow> (case check_dpapi_inner inner of None \<Rightarrow> Inl DpapiForm | Some _ \<Rightarrow> Inr (encode_dpapi_blob inner))))"

definition dpapi_unwrap :: "windows \<Rightarrow> string \<Rightarrow> dpapi_error + string" where
  "dpapi_unwrap W blob = (case decode_dpapi_blob blob of None \<Rightarrow> Inl ErrDPAPIBlobFormat
     | Some (inner, _) \<Rightarrow> (case wn_unprotect W inner dpapiEntropyLabel of
         Inl e \<Rightarrow> Inl (classify_dpapi e)
       | Inr (plain, descr) \<Rightarrow>
         if descr \<noteq> dpapiDescription then Inl (ErrDPAPIRefused None)
         else (case dpapi_key_from (wn_sha W) plain of None \<Rightarrow> Inl (ErrDPAPIRefused None) | Some key \<Rightarrow> Inr key)))"

section \<open>Choosing the protector on Windows, and the notices\<close>

definition DPAPIName :: string where "DPAPIName = ''dpapi''"

datatype probe_error = ProbeRandom | ProbeWrap dpapi_error | ProbeOpen dpapi_error | ProbeOther

definition try_dpapi :: "windows \<Rightarrow> string option \<Rightarrow> probe_error option" where
  "try_dpapi W random = (case random of None \<Rightarrow> Some ProbeRandom
     | Some key \<Rightarrow> (case dpapi_wrap W key of Inl e \<Rightarrow> Some (ProbeWrap e)
       | Inr blob \<Rightarrow> (case dpapi_unwrap W blob of Inl e \<Rightarrow> Some (ProbeOpen e)
         | Inr got \<Rightarrow> if got \<noteq> key then Some ProbeOther else None)))"

definition choose_dpapi :: "(probe_error \<Rightarrow> string) \<Rightarrow> windows \<Rightarrow> string option \<Rightarrow> bool \<Rightarrow> probe_error + choice" where
  "choose_dpapi tell W random fallback = (case try_dpapi W random of
       None \<Rightarrow> Inr \<lparr>ch_protector = DPAPIName, ch_reason = ''Windows DPAPI, for this Windows user'', ch_bound = True\<rparr>
     | Some e \<Rightarrow> if fallback then Inr (passphrase_choice (tell e)) else Inl e)"

definition TextDPAPIDomain :: string where
  "TextDPAPIDomain = ''This Windows account is a domain account: your organization can recover keys protected for it.''"

definition TextDPAPIRoaming :: string where
  "TextDPAPIRoaming = ''This Windows account has a roaming profile: keys protected for it also open on the other computers where your profile is loaded.''"

text \<open>A check that fails is \<open>None\<close>.\<close>

definition dpapi_notices :: "bool option \<Rightarrow> bool option \<Rightarrow> string list" where
  "dpapi_notices domain roaming =
    (if domain = Some True then [TextDPAPIDomain] else []) @ (if roaming = Some True then [TextDPAPIRoaming] else [])"

section \<open>The blob's layout\<close>

lemma le32_length [simp]: "length (le32 n) = 4"
  by (simp add: le32_def)

lemma taken_u32: "take_u32 r = Some (v, r') \<longleftrightarrow> r = le32 v @ r' \<and> v < 2 ^ 32" (is "?l \<longleftrightarrow> ?r")
proof
  assume l: ?l
  then have len: "4 \<le> length r" and v: "v = get32 (rev (take 4 r))" and r': "r' = drop 4 r"
    by (auto simp: take_u32_def get_le32_def split: if_splits)
  have "take 4 (rev (take 4 r)) = be32 v" unfolding v using len by (intro four_bytes) simp
  then have "rev (take 4 r) = be32 v" using len by simp
  then have "take 4 r = le32 v" by (metis le32_def rev_rev_ident)
  then have "r = le32 v @ r'" using r' by (metis append_take_drop_id)
  moreover have "v < 2 ^ 32" unfolding v using get16_less [of "rev (take 4 r)"] get16_less [of "drop 2 (rev (take 4 r))"]
    by (simp add: get32_def)
  ultimately show ?r by simp
next
  assume r: ?r
  then have "get32 (be32 v @ []) = v" by (intro be32_get) simp
  with r show ?l by (simp add: take_u32_def get_le32_def le32_def)
qed

lemma taken_fixed: "take_fixed n r = Some (p, r') \<longleftrightarrow> r = p @ r' \<and> length p = n"
  by (auto simp: take_fixed_def)

definition dpapi_field :: "string \<Rightarrow> string" where
  "dpapi_field p = le32 (length p) @ p"

lemma taken_field:
  "take_field allow r = Some (p, r') \<longleftrightarrow> r = dpapi_field p @ r' \<and> length p \<le> maxDPAPIField \<and> (p \<noteq> [] \<or> allow)"
proof -
  have "take_field allow r = Some (p, r') \<longleftrightarrow> (\<exists>n s. take_u32 r = Some (n, s) \<and> n \<le> maxDPAPIField
      \<and> (n \<noteq> 0 \<or> allow) \<and> take_fixed n s = Some (p, r'))"
    by (auto simp: take_field_def split: option.split)
  then show ?thesis by (auto simp: taken_u32 taken_fixed dpapi_field_def maxDPAPIField_def)
qed

lemma alg_small: "crypt_ok alg len \<Longrightarrow> alg < 2 ^ 32 \<and> len < 2 ^ 32" "hash_ok alg len \<Longrightarrow> alg < 2 ^ 32 \<and> len < 2 ^ 32"
  by (auto simp: crypt_ok_def hash_ok_def)

lemma taken_alg:
  assumes "\<And>a l. ok a l \<Longrightarrow> a < 2 ^ 32 \<and> l < 2 ^ 32"
  shows "take_alg ok r = Some ((a, l), r') \<longleftrightarrow> r = le32 a @ le32 l @ r' \<and> ok a l"
proof -
  have "take_alg ok r = Some ((a, l), r') \<longleftrightarrow> (\<exists>s. take_u32 r = Some (a, s) \<and> take_u32 s = Some (l, r') \<and> ok a l)"
    by (auto simp: take_alg_def split: option.split)
  then show ?thesis using assms by (auto simp: taken_u32)
qed

record dpapi_parts =
  dp_master :: string
  dp_crypt :: "nat \<times> nat"
  dp_salt :: string
  dp_hmac :: string
  dp_hash :: "nat \<times> nat"
  dp_hmac2 :: string
  dp_data :: string
  dp_sign :: string

definition dpapi_layout :: "dpapi_parts \<Rightarrow> string" where
  "dpapi_layout P = le32 1 @ dpapiProvider @ le32 1 @ dp_master P @ le32 0 @ dpapi_field dpapiDescriptionBytes
     @ le32 (fst (dp_crypt P)) @ le32 (snd (dp_crypt P)) @ dpapi_field (dp_salt P) @ dpapi_field (dp_hmac P)
     @ le32 (fst (dp_hash P)) @ le32 (snd (dp_hash P)) @ dpapi_field (dp_hmac2 P) @ dpapi_field (dp_data P) @ dpapi_field (dp_sign P)"

definition short_field :: "string \<Rightarrow> bool" where
  "short_field p = (p \<noteq> [] \<and> length p \<le> maxDPAPIField)"

definition dpapi_parts_ok :: "dpapi_parts \<Rightarrow> bool" where
  "dpapi_parts_ok P = (length (dp_master P) = 16 \<and> crypt_ok (fst (dp_crypt P)) (snd (dp_crypt P))
     \<and> hash_ok (fst (dp_hash P)) (snd (dp_hash P)) \<and> length (dp_hmac P) \<le> maxDPAPIField
     \<and> list_all short_field [dp_salt P, dp_hmac2 P, dp_data P, dp_sign P])"

lemma provider_length: "length dpapiProvider = 16"
  by (simp add: dpapiProvider_def)

lemma description_length: "length dpapiDescriptionBytes \<le> maxDPAPIField" "dpapiDescriptionBytes \<noteq> []"
  by (simp_all add: dpapiDescriptionBytes_def dpapiDescription_def maxDPAPIField_def)

lemma checked_head:
  "check_dpapi_head r = Some (mk, r') \<longleftrightarrow>
     r = le32 1 @ dpapiProvider @ le32 1 @ mk @ le32 0 @ dpapi_field dpapiDescriptionBytes @ r' \<and> length mk = 16"
proof -
  have "check_dpapi_head r = Some (mk, r') \<longleftrightarrow> (\<exists>r1 r2 r3 r4 r5. take_u32 r = Some (1, r1)
      \<and> take_fixed 16 r1 = Some (dpapiProvider, r2) \<and> take_u32 r2 = Some (1, r3) \<and> take_fixed 16 r3 = Some (mk, r4)
      \<and> take_u32 r4 = Some (0, r5) \<and> take_field False r5 = Some (dpapiDescriptionBytes, r'))"
    by (auto simp: check_dpapi_head_def split: option.split)
  then show ?thesis using provider_length description_length by (auto simp: taken_u32 taken_fixed taken_field)
qed

lemma checked_tail:
  "check_dpapi_tail r = Some () \<longleftrightarrow> (\<exists>a l salt hmac h m hmac2 data sign.
     r = le32 a @ le32 l @ dpapi_field salt @ dpapi_field hmac @ le32 h @ le32 m @ dpapi_field hmac2 @ dpapi_field data @ dpapi_field sign
     \<and> crypt_ok a l \<and> hash_ok h m \<and> length hmac \<le> maxDPAPIField \<and> list_all short_field [salt, hmac2, data, sign])"
proof -
  have "check_dpapi_tail r = Some () \<longleftrightarrow> (\<exists>a l salt hmac h m hmac2 data sign r1 r2 r3 r4 r5 r6.
      take_alg crypt_ok r = Some ((a, l), r1) \<and> take_field False r1 = Some (salt, r2) \<and> take_field True r2 = Some (hmac, r3)
      \<and> take_alg hash_ok r3 = Some ((h, m), r4) \<and> take_field False r4 = Some (hmac2, r5)
      \<and> take_field False r5 = Some (data, r6) \<and> take_field False r6 = Some (sign, []))"
    by (auto simp: check_dpapi_tail_def split: option.split)
  moreover have "(\<exists>r1 r2 r3 r4 r5 r6.
      take_alg crypt_ok r = Some ((a, l), r1) \<and> take_field False r1 = Some (salt, r2) \<and> take_field True r2 = Some (hmac, r3)
      \<and> take_alg hash_ok r3 = Some ((h, m), r4) \<and> take_field False r4 = Some (hmac2, r5)
      \<and> take_field False r5 = Some (data, r6) \<and> take_field False r6 = Some (sign, [])) \<longleftrightarrow>
    r = le32 a @ le32 l @ dpapi_field salt @ dpapi_field hmac @ le32 h @ le32 m @ dpapi_field hmac2 @ dpapi_field data @ dpapi_field sign
      \<and> crypt_ok a l \<and> hash_ok h m \<and> length hmac \<le> maxDPAPIField \<and> list_all short_field [salt, hmac2, data, sign]"
    for a l salt hmac h m hmac2 data sign
    by (auto simp: taken_alg [of crypt_ok, OF alg_small(1)] taken_alg [of hash_ok, OF alg_small(2)] taken_field short_field_def)
  ultimately show ?thesis by (simp only:)
qed

lemma checked_inner:
  "check_dpapi_inner b = Some mk \<longleftrightarrow> (\<exists>P. dpapi_parts_ok P \<and> dp_master P = mk \<and> b = dpapi_layout P)" (is "?l \<longleftrightarrow> ?r")
proof
  assume ?l
  then obtain r where h: "check_dpapi_head b = Some (mk, r)" and t: "check_dpapi_tail r = Some ()"
    by (auto simp: check_dpapi_inner_def split: option.splits)
  from t obtain a l salt hmac h' m hmac2 data sign
    where r: "r = le32 a @ le32 l @ dpapi_field salt @ dpapi_field hmac @ le32 h' @ le32 m @ dpapi_field hmac2 @ dpapi_field data @ dpapi_field sign"
      "crypt_ok a l" "hash_ok h' m" "length hmac \<le> maxDPAPIField" "list_all short_field [salt, hmac2, data, sign]"
    unfolding checked_tail by blast
  define P where "P = \<lparr>dp_master = mk, dp_crypt = (a, l), dp_salt = salt, dp_hmac = hmac, dp_hash = (h', m),
    dp_hmac2 = hmac2, dp_data = data, dp_sign = sign\<rparr>"
  have "b = dpapi_layout P" "dpapi_parts_ok P" "dp_master P = mk"
    using h r unfolding checked_head by (simp_all add: P_def dpapi_layout_def dpapi_parts_ok_def)
  then show ?r by blast
next
  assume ?r
  then obtain P where P: "dpapi_parts_ok P" "dp_master P = mk" "b = dpapi_layout P" by blast
  define r where "r = le32 (fst (dp_crypt P)) @ le32 (snd (dp_crypt P)) @ dpapi_field (dp_salt P) @ dpapi_field (dp_hmac P)
     @ le32 (fst (dp_hash P)) @ le32 (snd (dp_hash P)) @ dpapi_field (dp_hmac2 P) @ dpapi_field (dp_data P) @ dpapi_field (dp_sign P)"
  have "check_dpapi_head b = Some (mk, r)" using P by (simp add: checked_head dpapi_layout_def dpapi_parts_ok_def r_def)
  moreover have "check_dpapi_tail r = Some ()" using P(1) unfolding checked_tail r_def dpapi_parts_ok_def by blast
  ultimately show ?l by (simp add: check_dpapi_inner_def)
qed

lemma key_from_plaintext:
  assumes "\<And>s. length (sha s) = 32"
  shows "dpapi_key_from sha p = Some key \<longleftrightarrow> length key = DataKeyLen \<and> p = dpapi_plaintext sha key" (is "?l \<longleftrightarrow> ?r")
proof
  assume ?l
  then have "length p = dpapiPlainLen" "drop DataKeyLen p = dpapi_check sha key" "key = take DataKeyLen p"
    by (auto simp: dpapi_key_from_def split: if_splits)
  then show ?r by (simp add: dpapi_plaintext_def dpapiPlainLen_def) (metis append_take_drop_id)
next
  assume ?r
  then show ?l using assms
    by (simp add: dpapi_key_from_def dpapi_plaintext_def dpapiPlainLen_def dpapi_check_def dpapiCheckLen_def)
qed

section \<open>The protector of a Windows account\<close>

definition dpapi_protector :: "windows \<Rightarrow> protector" where
  "dpapi_protector W = \<lparr>pr_name = DPAPIName, pr_wrap = \<lambda>k. value_of (dpapi_wrap W k),
     pr_unwrap = \<lambda>b. value_of (dpapi_unwrap W b)\<rparr>"

text \<open>
  The documented behaviour: what \<open>CryptProtectData\<close> made opens with the same entropy to the text and the
  description it was given, and fits in a state file; SHA-256 gives 32 bytes.
\<close>

definition dpapi_outside :: "windows \<Rightarrow> bool" where
  "dpapi_outside W = ((\<forall>s. length (wn_sha W s) = 32)
     \<and> (\<forall>t d e b. wn_protect W t d e = Inr b \<longrightarrow> wn_unprotect W b e = Inr (t, d) \<and> length b < maxDPAPIBlob))"

lemma wrapped_dpapi:
  assumes "dpapi_wrap W key = Inr w"
  obtains inner mk where "length key = DataKeyLen" and "w = encode_dpapi_blob inner" and "check_dpapi_inner inner = Some mk"
    and "wn_protect W (dpapi_plaintext (wn_sha W) key) dpapiDescription dpapiEntropyLabel = Inr inner"
  using assms by (auto simp: dpapi_wrap_def split: if_splits sum.splits option.splits)

lemma decode_encoded:
  assumes "check_dpapi_inner inner = Some mk"
  shows "decode_dpapi_blob (encode_dpapi_blob inner) = (if length inner < maxDPAPIBlob then Some (inner, mk) else None)"
proof -
  have "inner \<noteq> []" using assms by (auto simp: checked_inner dpapi_layout_def le32_def be32_def be16_def)
  then show ?thesis using assms by (cases inner) (auto simp: decode_dpapi_blob_def encode_dpapi_blob_def)
qed

lemma dpapi_wrapped_opens:
  assumes "dpapi_wrap W key = Inr w" and "dpapi_outside W"
  shows "dpapi_unwrap W w = Inr key"
  using assms(1)
proof (rule wrapped_dpapi)
  fix inner mk
  assume len: "length key = DataKeyLen" and w: "w = encode_dpapi_blob inner" and c: "check_dpapi_inner inner = Some mk"
    and p: "wn_protect W (dpapi_plaintext (wn_sha W) key) dpapiDescription dpapiEntropyLabel = Inr inner"
  have "wn_unprotect W inner dpapiEntropyLabel = Inr (dpapi_plaintext (wn_sha W) key, dpapiDescription)"
    and small: "length inner < maxDPAPIBlob" using assms(2) p by (simp_all add: dpapi_outside_def)
  moreover have "dpapi_key_from (wn_sha W) (dpapi_plaintext (wn_sha W) key) = Some key"
    using assms(2) len by (intro key_from_plaintext [THEN iffD2]) (simp_all add: dpapi_outside_def)
  ultimately show ?thesis using w decode_encoded [OF c] by (simp add: dpapi_unwrap_def)
qed

interpretation dpapi: state_protector dpapi_protector dpapi_outside
  by unfold_locales
    (auto simp: dpapi_protector_def DPAPIName_def protectorName_def lower_char_def byte_def dpapi_wrapped_opens)

text \<open>
  \<open>Wrap\<close> checks the blob Windows returned, but not its length: one of 4096 bytes or more is wrapped, and not
  opened again. (A state file's header refuses such a key, so no file is written with it.)
\<close>

lemma wrap_does_not_check_the_length:
  assumes "length key = DataKeyLen" and "check_dpapi_inner inner = Some mk" and "maxDPAPIBlob \<le> length inner"
    and "wn_protect W (dpapi_plaintext (wn_sha W) key) dpapiDescription dpapiEntropyLabel = Inr inner"
  shows "dpapi_wrap W key = Inr (encode_dpapi_blob inner)"
    and "dpapi_unwrap W (encode_dpapi_blob inner) = Inl ErrDPAPIBlobFormat"
    and "hd_wrapped h = encode_dpapi_blob inner \<Longrightarrow> validate h \<noteq> None"
  using assms decode_encoded [OF assms(2)]
  by (auto simp: dpapi_wrap_def dpapi_unwrap_def validate_def encode_dpapi_blob_def maxDPAPIBlob_def lengths)

section \<open>Properties\<close>

text \<open>
  C39. A wrapped key is taken for a DPAPI one exactly when it is the version byte and a DPAPI blob laid out as
  Windows does, of at most 4096 bytes: version 1, the DPAPI provider, flags 0 (user scope), this protector's
  description, AES and SHA-2 with their lengths, and five fields of at most 1024 bytes, with nothing left over.
\<close>

theorem dpapi_blob_has_one_layout:
  "decode_dpapi_blob blob = Some (inner, mk) \<longleftrightarrow>
     (\<exists>P. dpapi_parts_ok P \<and> dp_master P = mk \<and> inner = dpapi_layout P \<and> blob = encode_dpapi_blob inner
        \<and> length blob \<le> 4096)" (is "?l \<longleftrightarrow> ?r")
proof
  assume l: ?l
  then have "blob = encode_dpapi_blob inner" "check_dpapi_inner inner = Some mk" "length blob \<le> maxDPAPIBlob"
    by (cases blob; auto simp: decode_dpapi_blob_def encode_dpapi_blob_def split: if_splits option.splits)+
  then show ?r by (auto simp: checked_inner maxDPAPIBlob_def)
next
  assume ?r
  then have "check_dpapi_inner inner = Some mk" "blob = encode_dpapi_blob inner" "length inner < maxDPAPIBlob"
    by (auto simp: checked_inner encode_dpapi_blob_def maxDPAPIBlob_def)
  then show ?l by (simp add: decode_encoded)
qed

text \<open>
  A key the DPAPI protector wrapped opens to that key, and nothing it opens is anything but the
  text it gives Windows for a key: the key and its check value, under this protector's description.
\<close>

lemma dpapi_opens_what_it_wrapped:
  assumes "dpapi_outside W"
  shows "dpapi_wrap W key = Inr blob \<Longrightarrow> dpapi_unwrap W blob = Inr key"
    and "dpapi_unwrap W blob = Inr key \<Longrightarrow> length key = DataKeyLen \<and> hd blob = char_byte 1
      \<and> wn_unprotect W (tl blob) dpapiEntropyLabel = Inr (dpapi_plaintext (wn_sha W) key, dpapiDescription)"
proof -
  show "dpapi_wrap W key = Inr blob \<Longrightarrow> dpapi_unwrap W blob = Inr key" using assms by (rule dpapi_wrapped_opens [rotated])
  assume u: "dpapi_unwrap W blob = Inr key"
  then obtain inner mk p where d: "decode_dpapi_blob blob = Some (inner, mk)"
    and w: "wn_unprotect W inner dpapiEntropyLabel = Inr (p, dpapiDescription)" and k: "dpapi_key_from (wn_sha W) p = Some key"
    by (auto simp: dpapi_unwrap_def split: option.splits sum.splits prod.splits if_splits)
  have "hd blob = char_byte 1" "inner = tl blob" using d by (auto simp: decode_dpapi_blob_def split: if_splits option.splits)
  with w k assms show "length key = DataKeyLen \<and> hd blob = char_byte 1
      \<and> wn_unprotect W (tl blob) dpapiEntropyLabel = Inr (dpapi_plaintext (wn_sha W) key, dpapiDescription)"
    by (simp add: key_from_plaintext dpapi_outside_def)
qed

section \<open>Witness\<close>

text \<open>A Windows that lays a blob out by copying the text into its data.\<close>

definition demo_parts :: "string \<Rightarrow> dpapi_parts" where
  "demo_parts t = \<lparr>dp_master = replicate 16 CHR ''m'', dp_crypt = (0x6610, 256), dp_salt = ''s'', dp_hmac = [],
     dp_hash = (0x800e, 512), dp_hmac2 = ''h'', dp_data = t, dp_sign = ''g''\<rparr>"

definition demo_windows :: windows where
  "demo_windows = \<lparr>wn_sha = \<lambda>s. replicate 32 CHR ''x'',
     wn_protect = \<lambda>t d e. if d = dpapiDescription \<and> short_field t then Inr (dpapi_layout (demo_parts t)) else Inl NotErrno,
     wn_unprotect = \<lambda>b e. Inr (take (length b - 131) (drop 126 b), dpapiDescription)\<rparr>"

lemma dpapi_field_length: "length (dpapi_field p) = 4 + length p"
  by (simp add: dpapi_field_def)

lemma description_bytes: "length dpapiDescriptionBytes = 44"
  by (simp add: dpapiDescriptionBytes_def dpapiDescription_def)

lemma demo_layout: "\<exists>pre. dpapi_layout (demo_parts t) = pre @ t @ dpapi_field ''g'' \<and> length pre = 126"
proof (intro exI conjI)
  let ?pre = "le32 1 @ dpapiProvider @ le32 1 @ replicate 16 CHR ''m'' @ le32 0 @ dpapi_field dpapiDescriptionBytes
     @ le32 0x6610 @ le32 256 @ dpapi_field ''s'' @ dpapi_field [] @ le32 0x800e @ le32 512 @ dpapi_field ''h'' @ le32 (length t)"
  show "dpapi_layout (demo_parts t) = ?pre @ t @ dpapi_field ''g''" by (simp add: dpapi_layout_def demo_parts_def dpapi_field_def)
  show "length ?pre = 126"
    by (simp only: length_append le32_length length_replicate provider_length dpapi_field_length description_bytes list.size)
qed

lemma demo_outside: "dpapi_outside demo_windows"
proof -
  have "length b - 131 = length t \<and> take (length t) (drop 126 b) = t \<and> length b = 131 + length t"
    if b: "b = dpapi_layout (demo_parts t)" for b t
  proof -
    obtain pre where "b = pre @ t @ dpapi_field ''g''" "length pre = 126" using demo_layout [of t, folded b] by blast
    moreover have "length (dpapi_field ''g'') = 5" by (simp add: dpapi_field_def)
    ultimately show ?thesis by simp
  qed
  then show ?thesis
    by (auto simp: dpapi_outside_def demo_windows_def short_field_def maxDPAPIField_def maxDPAPIBlob_def split: if_splits)
qed

lemma dpapi_opens_what_it_wrapped_witness:
  "\<exists>blob. dpapi_wrap demo_windows toy_key = Inr blob \<and> dpapi_unwrap demo_windows blob = Inr toy_key
     \<and> wn_unprotect demo_windows (tl blob) dpapiEntropyLabel
       = Inr (dpapi_plaintext (wn_sha demo_windows) toy_key, dpapiDescription)"
proof -
  let ?t = "dpapi_plaintext (wn_sha demo_windows) toy_key"
  have t: "short_field ?t"
    by (simp add: demo_windows_def dpapi_plaintext_def dpapi_check_def dpapiCheckLen_def toy_key_def short_field_def
        maxDPAPIField_def lengths)
  have "dpapi_parts_ok (demo_parts ?t)"
    using t by (simp add: dpapi_parts_ok_def demo_parts_def crypt_ok_def hash_ok_def short_field_def maxDPAPIField_def)
  then have "check_dpapi_inner (dpapi_layout (demo_parts ?t)) = Some (replicate 16 CHR ''m'')"
    by (auto simp: checked_inner demo_parts_def)
  moreover have "length toy_key = DataKeyLen" by (simp add: toy_key_def)
  ultimately have w: "dpapi_wrap demo_windows toy_key = Inr (encode_dpapi_blob (dpapi_layout (demo_parts ?t)))"
    using t by (simp add: dpapi_wrap_def) (simp add: demo_windows_def)
  have u: "dpapi_unwrap demo_windows (encode_dpapi_blob (dpapi_layout (demo_parts ?t))) = Inr toy_key"
    by (rule dpapi_opens_what_it_wrapped(1) [OF demo_outside w])
  show ?thesis using w u dpapi_opens_what_it_wrapped(2) [OF demo_outside u] by blast
qed

end
