(* ===== verification/WinFs.thy ===== *)
theory WinFs
  imports StateFs Dpapi
begin

text \<open>
  The Windows side of the state directory (\<open>internal/state/fs_windows.go\<close>): the owner-only rule on access lists, the
  checks of an opened file, renaming and the probe of what the file system can rename, flushing and the lock; and what
  \<open>internal/protect\<close> asks Windows (\<open>source_windows.go\<close>, \<open>dpapi_reach_windows.go\<close>). A Windows call is an argument: its
  error code, or none.
\<close>

section \<open>Error codes\<close>

type_synonym win_errno = nat

definition ERROR_INVALID_FUNCTION :: win_errno where "ERROR_INVALID_FUNCTION = 1"
definition ERROR_FILE_NOT_FOUND :: win_errno where "ERROR_FILE_NOT_FOUND = 2"
definition ERROR_PATH_NOT_FOUND :: win_errno where "ERROR_PATH_NOT_FOUND = 3"
definition ERROR_ACCESS_DENIED :: win_errno where "ERROR_ACCESS_DENIED = 5"
definition ERROR_SHARING_VIOLATION :: win_errno where "ERROR_SHARING_VIOLATION = 32"
definition ERROR_LOCK_VIOLATION :: win_errno where "ERROR_LOCK_VIOLATION = 33"
definition ERROR_NOT_SUPPORTED :: win_errno where "ERROR_NOT_SUPPORTED = 50"
definition ERROR_INVALID_PARAMETER :: win_errno where "ERROR_INVALID_PARAMETER = 87"
definition ERROR_ALREADY_EXISTS :: win_errno where "ERROR_ALREADY_EXISTS = 183"
definition ERROR_IO_PENDING :: win_errno where "ERROR_IO_PENDING = 997"

lemmas win_errors = ERROR_INVALID_FUNCTION_def ERROR_FILE_NOT_FOUND_def ERROR_PATH_NOT_FOUND_def ERROR_ACCESS_DENIED_def
  ERROR_SHARING_VIOLATION_def ERROR_LOCK_VIOLATION_def ERROR_NOT_SUPPORTED_def ERROR_INVALID_PARAMETER_def
  ERROR_ALREADY_EXISTS_def ERROR_IO_PENDING_def

definition not_supported :: "win_errno \<Rightarrow> bool" where
  "not_supported e = (e \<in> {ERROR_INVALID_PARAMETER, ERROR_NOT_SUPPORTED, ERROR_INVALID_FUNCTION})"

definition held_by_another :: "win_errno \<Rightarrow> bool" where
  "held_by_another e = (e \<in> {ERROR_SHARING_VIOLATION, ERROR_ACCESS_DENIED})"

section \<open>Who may use an object\<close>

text \<open>
  A security identifier is its text. An entry of an access list has a type and (where it is one that allows or denies
  access) the identifier it is for; an entry or the whole list may be unreadable.
\<close>

type_synonym sid = string

datatype ace = UnreadableAce | Ace nat sid
datatype dacl = UnreadableDacl | NoDacl | Dacl "ace list"

record security =
  sec_owner :: "sid option"
  sec_dacl :: dacl

definition ACCESS_ALLOWED_ACE_TYPE :: nat where "ACCESS_ALLOWED_ACE_TYPE = 0"
definition ACCESS_DENIED_ACE_TYPE :: nat where "ACCESS_DENIED_ACE_TYPE = 1"

fun check_entries :: "sid \<Rightarrow> ace list \<Rightarrow> store_error option" where
  "check_entries user [] = None"
| "check_entries user (UnreadableAce # es) = Some (ENotOwnerOnly ''access entry is unreadable'')"
| "check_entries user (Ace ty s # es) =
     (if ty = ACCESS_DENIED_ACE_TYPE then check_entries user es
      else if ty = ACCESS_ALLOWED_ACE_TYPE then
        (if s \<noteq> user then Some (ENotOwnerOnly (''grants access to '' @ s)) else check_entries user es)
      else Some (ENotOwnerOnly ''has an access entry of unsupported type''))"

text \<open>\<open>checkSecurity\<close>; the current user may not be readable.\<close>

definition check_security :: "sid option \<Rightarrow> security \<Rightarrow> store_error option" where
  "check_security me sd = (case me of None \<Rightarrow> Some (EOther ''read the current user'')
     | Some user \<Rightarrow> (case sec_owner sd of None \<Rightarrow> Some (ENotOwnerOnly ''has no readable owner'')
       | Some owner \<Rightarrow>
         if owner \<noteq> user then Some (ENotOwnerOnly (''is owned by '' @ owner))
         else (case sec_dacl sd of UnreadableDacl \<Rightarrow> Some (ENotOwnerOnly ''has no readable access list'')
           | NoDacl \<Rightarrow> Some (ENotOwnerOnly ''has no access list (open to everyone)'')
           | Dacl es \<Rightarrow> check_entries user es)))"

text \<open>\<open>ownerOnlySA\<close>: the security descriptor of a new object as text, and what it says.\<close>

definition owner_only_sddl :: "bool \<Rightarrow> sid \<Rightarrow> string" where
  "owner_only_sddl inherit s =
    ''O:'' @ s @ ''D:P(A;'' @ (if inherit then ''OICI'' else []) @ '';FA;;;'' @ s @ '')''"

definition owner_only_security :: "sid \<Rightarrow> security" where
  "owner_only_security s = \<lparr>sec_owner = Some s, sec_dacl = Dacl [Ace ACCESS_ALLOWED_ACE_TYPE s]\<rparr>"

section \<open>The state directory and its files\<close>

datatype win_node = WinNone | WinLink | WinFile | WinDir "security option"

definition mkdir_windows :: "win_node \<Rightarrow> bool \<Rightarrow> sid option \<Rightarrow> win_errno option \<Rightarrow> win_node \<times> store_error option" where
  "mkdir_windows n parent me made = (case n of
       WinLink \<Rightarrow> (n, Some (ENotOwnerOnly ''is a link''))
     | WinFile \<Rightarrow> (n, Some (EOther ''not a directory''))
     | WinDir _ \<Rightarrow> (n, None)
     | WinNone \<Rightarrow>
       if \<not> parent then (n, Some (EOther ''create parent directory''))
       else (case me of None \<Rightarrow> (n, Some (EOther ''read the current user''))
         | Some user \<Rightarrow> (case made of None \<Rightarrow> (WinDir (Some (owner_only_security user)), None)
           | Some e \<Rightarrow> (n, if e = ERROR_ALREADY_EXISTS then None else Some (EOther ''create state directory'')))))"

definition check_dir_windows :: "sid option \<Rightarrow> win_node \<Rightarrow> store_error option" where
  "check_dir_windows me n = (case n of WinNone \<Rightarrow> Some (EOther ''state directory'')
     | WinLink \<Rightarrow> Some (ENotOwnerOnly ''is a link'')
     | WinFile \<Rightarrow> Some (EOther ''not a directory'')
     | WinDir None \<Rightarrow> Some (ENotOwnerOnly ''security is unreadable'')
     | WinDir (Some sd) \<Rightarrow> check_security me sd)"

definition FILE_ATTRIBUTE_DIRECTORY :: nat where "FILE_ATTRIBUTE_DIRECTORY = 16"
definition FILE_ATTRIBUTE_REPARSE_POINT :: nat where "FILE_ATTRIBUTE_REPARSE_POINT = 1024"

record win_file =
  wf_attributes :: nat
  wf_links :: nat
  wf_security :: "security option"

definition not_a_file :: "win_file \<Rightarrow> bool" where
  "not_a_file w = (and (wf_attributes w) (or FILE_ATTRIBUTE_DIRECTORY FILE_ATTRIBUTE_REPARSE_POINT) \<noteq> 0)"

text \<open>\<open>checkHandle\<close>: the owner and the list come before the links, so that a file refused is never taken for a replaced one.\<close>

definition check_handle :: "sid option \<Rightarrow> win_file option \<Rightarrow> store_error option" where
  "check_handle me info = (case info of None \<Rightarrow> Some (EOther ''information'')
     | Some w \<Rightarrow>
       if not_a_file w then Some (ENotOwnerOnly ''is not a regular file'')
       else (case wf_security w of None \<Rightarrow> Some (ENotOwnerOnly ''security is unreadable'')
         | Some sd \<Rightarrow> (case check_security me sd of Some e \<Rightarrow> Some e | None \<Rightarrow> check_links (wf_links w))))"

definition check_owner_only_handle :: "sid option \<Rightarrow> win_file option \<Rightarrow> store_error option" where
  "check_owner_only_handle me info = (let e = check_handle me info in
     if e = Some EReplaced then Some (EOther ''0 links: the file was deleted'') else e)"

text \<open>\<open>openNoFollow\<close>: the code of the call that opens, and the file's information.\<close>

datatype open_error = NotExist | OpenError win_errno | NoInformation | IrregularFile

definition open_no_follow :: "win_errno + win_file option \<Rightarrow> open_error + win_file" where
  "open_no_follow r = (case r of
       Inl e \<Rightarrow> Inl (if e \<in> {ERROR_FILE_NOT_FOUND, ERROR_PATH_NOT_FOUND} then NotExist else OpenError e)
     | Inr None \<Rightarrow> Inl NoInformation
     | Inr (Some w) \<Rightarrow> if not_a_file w then Inl IrregularFile else Inr w)"

definition open_private :: "win_errno + win_file option \<Rightarrow> store_error + win_file" where
  "open_private r = (case open_no_follow r of Inr w \<Rightarrow> Inr w
     | Inl IrregularFile \<Rightarrow> Inl (ENotOwnerOnly ''is a link or not a regular file'')
     | Inl NotExist \<Rightarrow> Inl ENotFound
     | Inl _ \<Rightarrow> Inl (EOther ''open''))"

section \<open>Renaming over an open file\<close>

text \<open>\<open>renameReplace\<close>: each attempt asks for POSIX semantics, and where that is not supported calls \<open>MoveFileEx\<close>.\<close>

type_synonym rename_try = "win_errno option \<times> win_errno option"

definition rename_end :: "rename_try \<Rightarrow> win_errno option" where
  "rename_end t = (case fst t of Some e \<Rightarrow> if not_supported e then snd t else Some e | None \<Rightarrow> None)"

fun rename_from :: "nat \<Rightarrow> nat \<Rightarrow> (nat \<Rightarrow> rename_try) \<Rightarrow> win_errno option \<times> duration" where
  "rename_from n 0 tries = (rename_end (tries n), 0)"
| "rename_from n (Suc left) tries = (case rename_end (tries n) of None \<Rightarrow> (None, 0)
     | Some e \<Rightarrow>
       if \<not> held_by_another e then (Some e, 0)
       else (case rename_from (n + 1) left tries of (r, t) \<Rightarrow> (r, 50 * millisecond + t)))"

definition rename_replace :: "(nat \<Rightarrow> rename_try) \<Rightarrow> win_errno option \<times> duration" where
  "rename_replace tries = rename_from 0 4 tries"

text \<open>
  \<open>renamePOSIX\<close>'s argument: \<open>FILE_RENAME_INFO\<close> as a 64-bit build lays it out, the flags, no root directory, and the
  name (its UTF-16 units without the closing zero, whose length in bytes is said).
\<close>

definition le16 :: "nat \<Rightarrow> string" where
  "le16 n = [char_byte (n mod 256), char_byte (n div 256 mod 256)]"

definition rename_info :: "nat list \<Rightarrow> string" where
  "rename_info units = le32 3 @ zeros 4 @ zeros 8 @ le32 (2 * length units) @ concat (map le16 (units @ [0]))"

section \<open>The probe\<close>

text \<open>
  \<open>probeOnce\<close>: making and opening the probe's own files may fail, and then the rename over the open one is tried.
\<close>

datatype probe_attempt = SetUpFails win_errno | RenameAnswers "win_errno option"

record probe_io =
  pi_first :: "win_errno option"
  pi_second :: "win_errno option"
  pi_hold :: "win_errno option"
  pi_rename :: "win_errno option"

definition probe_once :: "probe_io \<Rightarrow> probe_attempt" where
  "probe_once io = (case pi_first io of Some e \<Rightarrow> SetUpFails e
     | None \<Rightarrow> (case pi_second io of Some e \<Rightarrow> SetUpFails e
       | None \<Rightarrow> (case pi_hold io of Some e \<Rightarrow> SetUpFails e | None \<Rightarrow> RenameAnswers (pi_rename io))))"

text \<open>What one attempt means for \<open>replaceOpenFileSupport\<close>: its answer, or that it is tried again.\<close>

definition probe_says :: "probe_attempt \<Rightarrow> (win_errno + bool) option" where
  "probe_says p = (case p of
       RenameAnswers None \<Rightarrow> Some (Inr True)
     | RenameAnswers (Some e) \<Rightarrow> if not_supported e then Some (Inr False) else if held_by_another e then None else Some (Inl e)
     | SetUpFails e \<Rightarrow> if held_by_another e then None else Some (Inl e))"

fun probe_error_of :: "probe_attempt \<Rightarrow> win_errno" where
  "probe_error_of (SetUpFails e) = e"
| "probe_error_of (RenameAnswers e) = (case e of Some e \<Rightarrow> e | None \<Rightarrow> 0)"

text \<open>The attempts left, the number of this one and the pause before the next: the answer, the attempts and the time slept.\<close>

fun probe_from :: "nat \<Rightarrow> nat \<Rightarrow> duration \<Rightarrow> (nat \<Rightarrow> probe_io) \<Rightarrow> (win_errno + bool) \<times> nat \<times> duration" where
  "probe_from 0 n delay io = (Inl (probe_error_of (probe_once (io (n - 1)))), 0, 0)"
| "probe_from (Suc left) n delay io =
     (let wait = (if 0 < n then delay else 0); next_delay = (if 0 < n then 2 * delay else delay) in
      case probe_says (probe_once (io n)) of
        Some r \<Rightarrow> (r, 1, wait)
      | None \<Rightarrow> (case probe_from left (n + 1) next_delay io of (r, k, t) \<Rightarrow> (r, k + 1, wait + t)))"

definition replace_open_file_support :: "(nat \<Rightarrow> probe_io) \<Rightarrow> (win_errno + bool) \<times> nat \<times> duration" where
  "replace_open_file_support io = probe_from 5 0 (20 * millisecond) io"

section \<open>Flushing and the lock\<close>

definition flush_path :: "win_errno option \<Rightarrow> win_errno option \<Rightarrow> win_errno option" where
  "flush_path opened flushed = (case opened of Some e \<Rightarrow> Some e | None \<Rightarrow> flushed)"

definition sync_dir_windows :: "win_errno option \<Rightarrow> win_errno option \<Rightarrow> sync_dir_end" where
  "sync_dir_windows opened flushed = (case flush_path opened flushed of None \<Rightarrow> DirSynced
     | Some e \<Rightarrow> if e = ERROR_ACCESS_DENIED \<or> not_supported e then CannotSyncDir else SyncDirFails)"

text \<open>\<open>retryDurable\<close>: the flushes after the first, each after a pause.\<close>

definition flushRetries :: nat where "flushRetries = 3"

fun flush_again :: "nat \<Rightarrow> nat \<Rightarrow> (nat \<Rightarrow> bool) \<Rightarrow> bool \<times> duration" where
  "flush_again n 0 flushed = (False, 0)"
| "flush_again n (Suc left) flushed =
     (if flushed n then (True, 20 * millisecond)
      else (case flush_again (n + 1) left flushed of (ok, t) \<Rightarrow> (ok, 20 * millisecond + t)))"

definition retry_durable :: "(nat \<Rightarrow> bool) \<Rightarrow> bool \<times> duration" where
  "retry_durable flushed = flush_again 0 flushRetries flushed"

definition lock_dir_windows :: "sid option \<Rightarrow> win_errno option \<Rightarrow> win_errno option \<Rightarrow> lock_end" where
  "lock_dir_windows me opened locked = (case me of None \<Rightarrow> LockFailed
     | Some _ \<Rightarrow> (case opened of Some e \<Rightarrow> if e = ERROR_SHARING_VIOLATION then InUse else LockFailed
       | None \<Rightarrow> (case locked of None \<Rightarrow> Locked
         | Some e \<Rightarrow> if e \<in> {ERROR_LOCK_VIOLATION, ERROR_IO_PENDING} then InUse else LockFailed)))"

section \<open>Passphrase sources on Windows\<close>

datatype win_source_error = WinStdHandle | WinNotOpen | WinNotPipeOrFile | WinNoAttributes | WinIrregular
  | WinFileCheck store_error | WinFileFix store_error

text \<open>\<open>ownerOnly\<close> adds the fix to a refusal of the owner-only rule.\<close>

definition owner_only_error :: "store_error option \<Rightarrow> win_source_error option" where
  "owner_only_error e = (case e of None \<Rightarrow> None
     | Some e \<Rightarrow> Some (case e of ENotOwnerOnly _ \<Rightarrow> WinFileFix e | _ \<Rightarrow> WinFileCheck e))"

datatype handle_type = PipeHandle | DiskHandle "win_file option" | OtherHandle

definition check_passphrase_handle :: "sid option \<Rightarrow> nat list \<Rightarrow> nat \<Rightarrow> handle_type option \<Rightarrow> win_source_error option" where
  "check_passphrase_handle me std h kind =
    (if h \<in> set std then Some WinStdHandle
     else (case kind of None \<Rightarrow> Some WinNotOpen
       | Some PipeHandle \<Rightarrow> None
       | Some (DiskHandle f) \<Rightarrow> owner_only_error (check_owner_only_handle me f)
       | Some OtherHandle \<Rightarrow> Some WinNotPipeOrFile))"

definition check_passphrase_file_windows :: "sid option \<Rightarrow> bool option \<Rightarrow> win_file option \<Rightarrow> win_source_error option" where
  "check_passphrase_file_windows me regular f = (case regular of None \<Rightarrow> Some WinNoAttributes
     | Some r \<Rightarrow> if \<not> r then Some WinIrregular else owner_only_error (check_owner_only_handle me f))"

section \<open>How far the user's keys reach\<close>

text \<open>
  \<open>domainAccount\<close>: how the computer is joined, the account (its domain and type) and the computer's name; \<open>folded\<close> is
  Unicode's simple case folding (\<open>strings.EqualFold\<close>). \<open>None\<close> for a check that fails.
\<close>

definition NetSetupDomainName :: nat where "NetSetupDomainName = 3"
definition SidTypeUser :: nat where "SidTypeUser = 1"

definition domain_account :: "(string \<Rightarrow> string) \<Rightarrow> nat option \<Rightarrow> sid option \<Rightarrow> (string \<times> nat) option \<Rightarrow> string option \<Rightarrow> bool option" where
  "domain_account folded joined me account computer = (case joined of None \<Rightarrow> None
     | Some j \<Rightarrow>
       if j \<noteq> NetSetupDomainName then Some False
       else (case me of None \<Rightarrow> None
         | Some _ \<Rightarrow> (case account of None \<Rightarrow> None
           | Some (domain, ty) \<Rightarrow>
             if ty \<noteq> SidTypeUser then Some False
             else (case computer of None \<Rightarrow> None | Some c \<Rightarrow> Some (folded domain \<noteq> folded c)))))"

definition ptRoaming :: nat where "ptRoaming = 2"
definition ptRoamingPreexisting :: nat where "ptRoamingPreexisting = 8"

definition profile_type_roaming :: "nat option \<Rightarrow> bool option" where
  "profile_type_roaming flags = map_option (\<lambda>f. and f (or ptRoaming ptRoamingPreexisting) \<noteq> 0) flags"

text \<open>The user's profile entry: unreadable, without a central profile, or with this one.\<close>

datatype profile_entry = EntryUnreadable | NoCentralProfile | CentralUnreadable | CentralProfile string

definition central_profile_set :: "sid option \<Rightarrow> profile_entry \<Rightarrow> bool option" where
  "central_profile_set me e = (case me of None \<Rightarrow> None
     | Some _ \<Rightarrow> (case e of EntryUnreadable \<Rightarrow> None | NoCentralProfile \<Rightarrow> Some False | CentralUnreadable \<Rightarrow> None
       | CentralProfile v \<Rightarrow> Some (trim_space v \<noteq> [])))"

definition roaming_profile :: "bool option \<Rightarrow> bool option \<Rightarrow> bool option" where
  "roaming_profile by_type by_list =
    (if by_type = Some True then Some True
     else if by_list = Some True then Some True
     else if by_type = None \<and> by_list = None then None else Some False)"

section \<open>What the checks accept\<close>

lemma entries_accepted:
  "check_entries user es = None \<longleftrightarrow> set es \<subseteq> {Ace ACCESS_ALLOWED_ACE_TYPE user} \<union> range (Ace ACCESS_DENIED_ACE_TYPE)"
  by (induction user es rule: check_entries.induct) (auto simp: ACCESS_ALLOWED_ACE_TYPE_def ACCESS_DENIED_ACE_TYPE_def)

lemma entries_errors: "check_entries user es \<noteq> Some EReplaced"
  by (induction user es rule: check_entries.induct) auto

lemma security_errors: "check_security me sd \<noteq> Some EReplaced"
  using entries_errors by (simp add: check_security_def split: option.splits dacl.splits)

text \<open>A new object passes the check of the user who made it.\<close>

lemma new_object_passes: "check_security (Some user) (owner_only_security user) = None"
  by (simp add: check_security_def owner_only_security_def ACCESS_ALLOWED_ACE_TYPE_def ACCESS_DENIED_ACE_TYPE_def)

text \<open>
  C36. A file passes the Windows owner-only rule exactly when it is a regular file with one link, of the current user, with a
  readable access list in which every entry denies, or allows the current user; and it is taken for a replaced file
  exactly when all this holds but it has no link left.
\<close>

theorem windows_owner_only_rule:
  "(check_handle me (Some w) = None \<longleftrightarrow> \<not> not_a_file w \<and> wf_links w = 1
      \<and> (\<exists>user es. me = Some user \<and> wf_security w = Some \<lparr>sec_owner = Some user, sec_dacl = Dacl es\<rparr>
          \<and> set es \<subseteq> {Ace ACCESS_ALLOWED_ACE_TYPE user} \<union> range (Ace ACCESS_DENIED_ACE_TYPE)))
   \<and> (check_handle me (Some w) = Some EReplaced \<longleftrightarrow> check_handle me (Some (w\<lparr>wf_links := 1\<rparr>)) = None \<and> wf_links w = 0)"
proof
  have sec: "check_security me sd = None \<longleftrightarrow> (\<exists>user es. me = Some user \<and> sd = \<lparr>sec_owner = Some user, sec_dacl = Dacl es\<rparr>
      \<and> set es \<subseteq> {Ace ACCESS_ALLOWED_ACE_TYPE user} \<union> range (Ace ACCESS_DENIED_ACE_TYPE))" for sd
    by (cases sd) (auto simp: check_security_def entries_accepted split: option.splits dacl.splits)
  have "check_handle me (Some w) = None \<longleftrightarrow> \<not> not_a_file w \<and> wf_links w = 1
      \<and> (\<exists>sd. wf_security w = Some sd \<and> check_security me sd = None)"
    by (auto simp: check_handle_def check_links_def split: option.splits if_splits)
  then show "check_handle me (Some w) = None \<longleftrightarrow> \<not> not_a_file w \<and> wf_links w = 1
      \<and> (\<exists>user es. me = Some user \<and> wf_security w = Some \<lparr>sec_owner = Some user, sec_dacl = Dacl es\<rparr>
          \<and> set es \<subseteq> {Ace ACCESS_ALLOWED_ACE_TYPE user} \<union> range (Ace ACCESS_DENIED_ACE_TYPE))"
    unfolding sec by auto
  show "check_handle me (Some w) = Some EReplaced \<longleftrightarrow> check_handle me (Some (w\<lparr>wf_links := 1\<rparr>)) = None \<and> wf_links w = 0"
    using security_errors [of me]
    by (auto simp: check_handle_def check_links_def not_a_file_def split: option.splits if_splits)
qed

section \<open>Bounds of the retries\<close>

lemma probe_from_bounds:
  assumes "probe_from left n delay io = (r, k, t)" and "0 \<le> delay" and "0 < left"
  shows "1 \<le> k \<and> k \<le> left \<and> 0 \<le> t \<and> t \<le> delay * (2 ^ (if 0 < n then left else left - 1) - 1)
    \<and> (\<forall>b. r = Inr b \<longrightarrow> probe_says (probe_once (io (n + k - 1))) = Some (Inr b))"
  using assms
proof (induction left n delay io arbitrary: r k t rule: probe_from.induct)
  case (2 left n delay io)
  let ?wait = "if 0 < n then delay else 0" and ?next = "if 0 < n then 2 * delay else delay"
  have pow: "delay \<le> delay * (2 ^ Suc left - 1)"
    using 2(3) mult_left_mono [of 1 "2 ^ Suc left - 1" delay] self_le_power [of 2 "Suc left"] by (simp del: power_Suc)
  show ?case
  proof (cases "probe_says (probe_once (io n))")
    case (Some q)
    then have "r = q" "k = 1" "t = ?wait" using 2(2) by (auto simp: Let_def)
    then show ?thesis using Some 2(3) pow by (cases q) auto
  next
    case None
    then obtain k' t' where p: "probe_from left (n + 1) ?next io = (r, k', t')" "k = k' + 1" "t = ?wait + t'"
      using 2(2) by (auto simp: Let_def split: prod.splits)
    show ?thesis
    proof (cases left)
      case 0
      then show ?thesis using p 2(3) by auto
    next
      case (Suc m)
      have "0 \<le> ?next" using 2(3) by simp
      from 2(1) [OF refl refl None p(1) this] Suc
      have ih: "1 \<le> k'" "k' \<le> left" "0 \<le> t'" "t' \<le> ?next * (2 ^ left - 1)"
        "\<forall>b. r = Inr b \<longrightarrow> probe_says (probe_once (io (n + 1 + k' - 1))) = Some (Inr b)" by auto
      have "?wait + ?next * (2 ^ left - 1) \<le> delay * (2 ^ (if 0 < n then Suc left else left) - 1)"
        by (simp add: algebra_simps)
      then show ?thesis using ih p(2,3) 2(3) by (auto simp: add.assoc)
    qed
  qed
qed simp

text \<open>
  C37. The probe makes at most five attempts and sleeps at most 300 ms; it answers that an open file can be replaced only
  after replacing one, and that it cannot only after the rename itself said it is not supported, never for a failure
  to set the probe up.
\<close>

theorem probe_answers_only_what_it_saw:
  "case replace_open_file_support io of (r, k, t) \<Rightarrow> 1 \<le> k \<and> k \<le> 5 \<and> 0 \<le> t \<and> t \<le> 300 * millisecond
     \<and> (case r of Inl _ \<Rightarrow> True
        | Inr True \<Rightarrow> probe_once (io (k - 1)) = RenameAnswers None
        | Inr False \<Rightarrow> (case probe_once (io (k - 1)) of RenameAnswers (Some e) \<Rightarrow> not_supported e | _ \<Rightarrow> False))"
proof -
  obtain r k t where p: "replace_open_file_support io = (r, k, t)" by (metis prod_cases3)
  have d: "(0 :: int) \<le> 20 * millisecond" by (simp add: durations)
  have b: "1 \<le> k" "k \<le> 5" "0 \<le> t" "t \<le> 300 * millisecond"
    "\<forall>b. r = Inr b \<longrightarrow> probe_says (probe_once (io (k - 1))) = Some (Inr b)"
    using probe_from_bounds [OF p [unfolded replace_open_file_support_def] d] by (auto simp: durations)
  have says: "probe_says q = Some (Inr b) \<longleftrightarrow> (if b then q = RenameAnswers None
      else (case q of RenameAnswers (Some e) \<Rightarrow> not_supported e | _ \<Rightarrow> False))" for q b
    by (auto simp: probe_says_def split: probe_attempt.splits option.splits if_splits)
  show ?thesis using b p says by (auto split: sum.splits bool.splits)
qed

lemma rename_from_bounds: "rename_from n left tries = (r, t) \<Longrightarrow>
  0 \<le> t \<and> t \<le> int left * (50 * millisecond) \<and> (\<exists>k \<le> left. r = rename_end (tries (n + k)))"
proof (induction n left tries arbitrary: r t rule: rename_from.induct)
  case (2 n left tries)
  show ?case
  proof (cases "\<exists>e. rename_end (tries n) = Some e \<and> held_by_another e")
    case True
    then obtain t' where p: "rename_from (n + 1) left tries = (r, t')" "t = 50 * millisecond + t'"
      using 2(2) by (auto split: prod.splits)
    from True 2(1) p(1) obtain k where "0 \<le> t'" "t' \<le> int left * (50 * millisecond)" "k \<le> left" "r = rename_end (tries (n + 1 + k))"
      by fastforce
    then show ?thesis using p(2) by (auto simp: durations intro: exI [of _ "Suc k"])
  next
    case False
    then show ?thesis using 2(2) by (auto simp: durations split: option.splits intro: exI [of _ 0])
  qed
qed auto

text \<open>Renaming sleeps at most 200 ms, and its result is that of one of at most five attempts.\<close>

lemma rename_replace_bounds:
  "rename_replace tries = (r, t) \<Longrightarrow> 0 \<le> t \<and> t \<le> 200 * millisecond \<and> (\<exists>k \<le> 4. r = rename_end (tries k))"
  using rename_from_bounds [of 0 4 tries r t] by (simp add: rename_replace_def)

text \<open>What the store's model takes as the list of flushes retried.\<close>

lemma retry_durable_flushes: "fst (retry_durable flushed) \<longleftrightarrow> True \<in> set (map flushed [0..<flushRetries])"
  by (auto simp: retry_durable_def flushRetries_def numeral_3_eq_3 upt_rec split: prod.splits)

text \<open>A file system whose directories cannot be flushed gives no error, and the rename alone stays.\<close>

lemma sync_dir_windows_end:
  "snd (sync_dir (sync_dir_windows opened flushed)) \<longleftrightarrow>
   (case flush_path opened flushed of None \<Rightarrow> True | Some e \<Rightarrow> e = ERROR_ACCESS_DENIED \<or> not_supported e)"
  by (auto simp: sync_dir_windows_def sync_dir_def split: option.splits)

text \<open>A notice on the keys' reach is shown exactly for what a check that worked found.\<close>

lemma notices_of_the_account:
  "TextDPAPIRoaming \<in> set (dpapi_notices domain (roaming_profile by_type by_list)) \<longleftrightarrow> by_type = Some True \<or> by_list = Some True"
proof -
  have "TextDPAPIDomain \<noteq> TextDPAPIRoaming" by (simp add: TextDPAPIDomain_def TextDPAPIRoaming_def)
  then show ?thesis by (auto simp: dpapi_notices_def roaming_profile_def)
qed

lemma length_rename_info: "length (rename_info units) = 20 + 2 * (length units + 1)"
  by (simp add: rename_info_def zeros_def le16_def length_concat comp_def sum_list_triv)

end
