(* ===== verification/Tpm.thy ===== *)
theory Tpm
  imports Protect
begin

text \<open>
  \<open>internal/protect/tpm.go\<close> and \<open>select_linux.go\<close>: the Linux TPM protector and the choice of the protector of
  a new state file. The TPM is the environment: \<open>tpm_io\<close> is what it answers in one attempt; the marshalled
  forms of a sealed object's parts are predicates on bytes. Each operation gives its result and what it did
  to the device, so that handles and the device can be followed.
\<close>

section \<open>Errors and retrying\<close>

datatype tpm_rc = RcRetry | RcYielded | RcTesting | RcCanceled | RcContextGap | RcObjectMemory | RcSessionMemory
  | RcMemory | RcObjectHandles | RcReferenceH0 | RcNVRate | RcIntegrity | RcBinding | RcSize | RcValue | RcBadAuth
  | RcAuthFail | RcLockout | RcFailure | RcOther nat

datatype open_cause = OpenPermission | OpenNotExist | OpenOther

datatype tpm_error = TpmKeyLength | TpmOpen open_cause | TpmCommand string tpm_rc | TpmPublic | ErrTPMBlobFormat
  | ErrTPMUnseal | ErrTPMMismatch | ErrTPMInconsistent | ErrTPMBusy tpm_rc
  | OwnerPassword tpm_rc | FailureMode tpm_rc | NoStorageKey tpm_rc | NoStorageKeyForm tpm_error
  | NoResourceManager | NodesMissing

definition transient_codes :: "tpm_rc list" where
  "transient_codes = [RcRetry, RcYielded, RcTesting, RcCanceled, RcContextGap, RcObjectMemory, RcSessionMemory,
     RcMemory, RcObjectHandles, RcReferenceH0, RcNVRate]"

fun is_transient :: "tpm_error \<Rightarrow> bool" where
  "is_transient (TpmCommand _ rc) = (rc \<in> set transient_codes)"
| "is_transient _ = False"

definition tpmAttempts :: nat where "tpmAttempts = 5"
definition tpmRetryDelay :: nat where "tpmRetryDelay = 50"

fun the_code :: "tpm_error \<Rightarrow> tpm_rc" where
  "the_code (TpmCommand _ rc) = rc"
| "the_code _ = RcOther 0"

text \<open>
  \<open>withRetry\<close> from attempt \<open>i\<close> with \<open>n\<close> attempts left: \<open>op i\<close> is the result of attempt \<open>i\<close> and what it did.
  The milliseconds slept before each further attempt are kept.
\<close>

fun retry_from :: "(nat \<Rightarrow> (tpm_error + 'a) \<times> 'v list) \<Rightarrow> nat \<Rightarrow> nat \<Rightarrow> tpm_error \<Rightarrow> (tpm_error + 'a) \<times> 'v list \<times> nat list" where
  "retry_from op i 0 e = (Inl (ErrTPMBusy (the_code e)), [], [])"
| "retry_from op i (Suc n) e =
    (let slept = (if 0 < i then [tpmRetryDelay * 2 ^ (i - 1)] else []) in
     case op i of
       (Inr x, vs) \<Rightarrow> (Inr x, vs, slept)
     | (Inl e, vs) \<Rightarrow>
         if \<not> is_transient e then (Inl e, vs, slept)
         else (case retry_from op (Suc i) n e of (r, vs', ss) \<Rightarrow> (r, vs @ vs', slept @ ss)))"

definition with_retry :: "(nat \<Rightarrow> (tpm_error + 'a) \<times> 'v list) \<Rightarrow> (tpm_error + 'a) \<times> 'v list \<times> nat list" where
  "with_retry op = retry_from op 0 tpmAttempts (TpmCommand [] (RcOther 0))"

section \<open>One attempt\<close>

text \<open>
  \<open>CreatePrimary\<close>'s answer: the handle, whether its public area reads, the Name computed from it, the Name
  given, and whether it is the template's kind of key. \<open>Load\<close> gives a handle of its own.
\<close>

record primary =
  pm_handle :: nat
  pm_contents :: bool
  pm_computed :: "string option"
  pm_name :: string
  pm_template :: bool

record tpm_io =
  td_open :: "open_cause option"
  td_primary :: "tpm_rc + primary"
  td_create :: "string \<Rightarrow> tpm_rc + string \<times> string"
  td_load :: "string \<Rightarrow> string \<Rightarrow> tpm_rc + nat"
  td_unseal :: "nat \<Rightarrow> tpm_rc + string"

datatype tpm_event = Opened | Closed | MadeKey nat | Sealed nat string | Loaded nat nat | Unsealed nat nat | Flushed nat

definition create_srk :: "tpm_io \<Rightarrow> (tpm_error + nat \<times> string) \<times> tpm_event list" where
  "create_srk io = (case td_primary io of Inl rc \<Rightarrow> (Inl (TpmCommand ''create the storage root key'' rc), [])
     | Inr k \<Rightarrow>
       if \<not> pm_contents k then (Inl TpmPublic, [MadeKey (pm_handle k), Flushed (pm_handle k)])
       else if pm_computed k \<noteq> Some (pm_name k) \<or> \<not> pm_template k
         then (Inl ErrTPMInconsistent, [MadeKey (pm_handle k), Flushed (pm_handle k)])
       else (Inr (pm_handle k, pm_name k), [MadeKey (pm_handle k)]))"

definition encode_part :: "string \<Rightarrow> string" where
  "encode_part p = be16 (length p) @ p"

definition encode_tpm_blob :: "string \<Rightarrow> string \<Rightarrow> string \<Rightarrow> string" where
  "encode_tpm_blob srk pub priv = char_byte 2 # concat (map encode_part [srk, pub, priv])"

definition wrap_once :: "string \<Rightarrow> tpm_io \<Rightarrow> (tpm_error + string) \<times> tpm_event list" where
  "wrap_once key io = (case td_open io of Some c \<Rightarrow> (Inl (TpmOpen c), [])
     | None \<Rightarrow> (case create_srk io of
         (Inl e, vs) \<Rightarrow> (Inl e, Opened # vs @ [Closed])
       | (Inr (h, name), vs) \<Rightarrow>
           (case td_create io key of Inl rc \<Rightarrow> Inl (TpmCommand ''seal the key'' rc)
              | Inr (pub, priv) \<Rightarrow> Inr (encode_tpm_blob name pub priv),
            Opened # vs @ [Sealed h key, Flushed h, Closed])))"

definition classify_load :: "string \<Rightarrow> tpm_rc \<Rightarrow> tpm_error" where
  "classify_load step rc =
    (if rc \<in> set transient_codes then TpmCommand step rc
     else if rc \<in> {RcIntegrity, RcBinding, RcSize, RcValue} then ErrTPMUnseal
     else TpmCommand step rc)"

definition unwrap_once :: "string \<Rightarrow> string \<Rightarrow> string \<Rightarrow> tpm_io \<Rightarrow> (tpm_error + string) \<times> tpm_event list" where
  "unwrap_once srk pub priv io = (case td_open io of Some c \<Rightarrow> (Inl (TpmOpen c), [])
     | None \<Rightarrow> (case create_srk io of
         (Inl e, vs) \<Rightarrow> (Inl e, Opened # vs @ [Closed])
       | (Inr (h, name), vs) \<Rightarrow>
           if name \<noteq> srk then (Inl ErrTPMMismatch, Opened # vs @ [Flushed h, Closed])
           else (case td_load io pub priv of
               Inl rc \<Rightarrow> (Inl (classify_load ''load the sealed key'' rc), Opened # vs @ [Flushed h, Closed])
             | Inr ob \<Rightarrow>
                 (case td_unseal io ob of Inl rc \<Rightarrow> Inl (classify_load ''unseal the key'' rc)
                    | Inr key \<Rightarrow> if length key \<noteq> DataKeyLen then Inl ErrTPMUnseal else Inr key,
                  Opened # vs @ [Loaded h ob, Unsealed h ob, Flushed ob, Flushed h, Closed]))))"

section \<open>The protector\<close>

definition tpm_wrap :: "(nat \<Rightarrow> tpm_io) \<Rightarrow> string \<Rightarrow> (tpm_error + string) \<times> tpm_event list \<times> nat list" where
  "tpm_wrap io key =
    (if length key \<noteq> DataKeyLen then (Inl TpmKeyLength, [], []) else with_retry (\<lambda>i. wrap_once key (io i)))"

text \<open>The forms of a sealed object: canonical public and private parts, and the public part's kind and attributes.\<close>

record tpm_forms =
  tf_public :: "string \<Rightarrow> bool"
  tf_sealed :: "string \<Rightarrow> bool"
  tf_private :: "string \<Rightarrow> bool"

definition maxTPMPart :: nat where "maxTPMPart = 2048"
definition AlgSHA256 :: nat where "AlgSHA256 = 11"

definition take_part :: "string \<Rightarrow> (string \<times> string) option" where
  "take_part rest =
    (if length rest < 2 then None
     else (let n = get16 rest in
       if n = 0 \<or> maxTPMPart < n \<or> length rest < 2 + n then None
       else Some (take n (drop 2 rest), drop (2 + n) rest)))"

definition take_parts :: "string \<Rightarrow> (string \<times> string \<times> string) option" where
  "take_parts rest = (case take_part rest of None \<Rightarrow> None
     | Some (srk, r1) \<Rightarrow> (case take_part r1 of None \<Rightarrow> None
       | Some (pub, r2) \<Rightarrow> (case take_part r2 of None \<Rightarrow> None
         | Some (priv, r3) \<Rightarrow> if r3 \<noteq> [] then None else Some (srk, pub, priv))))"

definition decode_tpm_blob :: "tpm_forms \<Rightarrow> string \<Rightarrow> (string \<times> string \<times> string) option" where
  "decode_tpm_blob F blob =
    (if length blob < 1 \<or> hd blob \<noteq> char_byte 2 then None
     else (case take_parts (tl blob) of None \<Rightarrow> None
       | Some (srk, pub, priv) \<Rightarrow>
         if length srk \<noteq> 2 + 32 \<or> get16 srk \<noteq> AlgSHA256 then None
         else if \<not> tf_public F pub then None
         else if \<not> tf_private F priv then None
         else if \<not> tf_sealed F pub then None
         else Some (srk, pub, priv)))"

definition tpm_unwrap :: "tpm_forms \<Rightarrow> (nat \<Rightarrow> tpm_io) \<Rightarrow> string \<Rightarrow> (tpm_error + string) \<times> tpm_event list \<times> nat list" where
  "tpm_unwrap F io blob = (case decode_tpm_blob F blob of None \<Rightarrow> (Inl ErrTPMBlobFormat, [], [])
     | Some (srk, pub, priv) \<Rightarrow> with_retry (\<lambda>i. unwrap_once srk pub priv (io i)))"

section \<open>Choosing the protector on Linux\<close>

text \<open>\<open>describeSRKError\<close>; \<open>OwnerPassword\<close>, \<open>FailureMode\<close> and \<open>NoStorageKey\<close> say the cause and the fix.\<close>

definition describe_srk_error :: "tpm_error \<Rightarrow> tpm_error" where
  "describe_srk_error e =
    (if is_transient e then e
     else (case e of
         TpmCommand _ rc \<Rightarrow>
           if rc \<in> {RcBadAuth, RcAuthFail, RcLockout} then OwnerPassword rc
           else if rc = RcFailure then FailureMode rc else NoStorageKey rc
       | e \<Rightarrow> NoStorageKeyForm e))"

definition try_once :: "tpm_io \<Rightarrow> (tpm_error + unit) \<times> tpm_event list" where
  "try_once io = (case td_open io of Some c \<Rightarrow> (Inl (TpmOpen c), [])
     | None \<Rightarrow> (case create_srk io of
         (Inl e, vs) \<Rightarrow> (Inl (describe_srk_error e), Opened # vs @ [Closed])
       | (Inr (h, _), vs) \<Rightarrow> (Inr (), Opened # vs @ [Flushed h, Closed])))"

definition try_tpm :: "(nat \<Rightarrow> tpm_io) \<Rightarrow> bool \<Rightarrow> (tpm_error + unit) \<times> tpm_event list \<times> nat list" where
  "try_tpm io rm = (if \<not> rm then (Inl NoResourceManager, [], []) else with_retry (\<lambda>i. try_once (io i)))"

definition TPMName :: string where "TPMName = ''tpm''"

text \<open>
  \<open>ChooseProtector\<close>: which of the resource manager, the raw device and the kernel's entries exist; \<open>tell\<close> is
  an error's text.
\<close>

definition choose_protector :: "(tpm_error \<Rightarrow> string) \<Rightarrow> (nat \<Rightarrow> tpm_io) \<Rightarrow> bool \<Rightarrow> bool \<Rightarrow> bool \<Rightarrow> bool
    \<Rightarrow> (tpm_error + choice) \<times> tpm_event list \<times> nat list" where
  "choose_protector tell io rm raw sys fallback =
    (if \<not> rm \<and> \<not> raw \<and> \<not> sys
     then (Inr (passphrase_choice
       ''no TPM found (neither /dev/tpmrm0 nor /dev/tpm0 exists, and the kernel lists none)''), [], [])
     else (case if \<not> rm \<and> \<not> raw then (Inl NodesMissing, [], []) else try_tpm io rm of
         (Inr _, vs, ss) \<Rightarrow> (Inr \<lparr>ch_protector = TPMName, ch_reason = ''TPM 2.0 at /dev/tpmrm0'', ch_bound = True\<rparr>, vs, ss)
       | (Inl e, vs, ss) \<Rightarrow> (if fallback then Inr (passphrase_choice (tell e)) else Inl e, vs, ss)))"

section \<open>Retrying\<close>

definition retried :: "(tpm_error + 'a) \<Rightarrow> bool" where
  "retried r = (\<exists>e. r = Inl e \<and> is_transient e)"

definition sleeps :: "nat \<Rightarrow> nat list" where
  "sleeps n = map (\<lambda>i. tpmRetryDelay * 2 ^ i) [0..<n]"

lemma retry_from_ends:
  assumes "retry_from op i n e = (r, vs, ss)"
  shows "(\<exists>k<n. fst (op (i + k)) = r \<and> \<not> retried r \<and> (\<forall>j<k. retried (fst (op (i + j))))
        \<and> vs = concat (map (\<lambda>j. snd (op (i + j))) [0..<Suc k])
        \<and> ss = map (\<lambda>j. tpmRetryDelay * 2 ^ j) [(if i = 0 then 0 else i - 1)..<i + k])
    \<or> (\<exists>rc. r = Inl (ErrTPMBusy rc)) \<and> (\<forall>j<n. retried (fst (op (i + j))))
        \<and> vs = concat (map (\<lambda>j. snd (op (i + j))) [0..<n])
        \<and> ss = map (\<lambda>j. tpmRetryDelay * 2 ^ j) [(if i = 0 then 0 else i - 1)..<i + n - 1]"
  (is "?once \<or> ?busy")
  using assms
proof (induction op i n e arbitrary: r vs ss rule: retry_from.induct)
  case (1 op i e)
  then show ?case by (cases i) auto
next
  case (2 op i n e)
  obtain r0 v0 where op: "op i = (r0, v0)" by fastforce
  let ?s = "if 0 < i then [tpmRetryDelay * 2 ^ (i - 1)] else []"
  have sl: "?s @ map (\<lambda>j. tpmRetryDelay * 2 ^ j) [i..<m] = map (\<lambda>j. tpmRetryDelay * 2 ^ j) [(if i = 0 then 0 else i - 1)..<m]"
    if "i \<le> m" for m
    using that by (cases i) (simp_all add: upt_conv_Cons)
  show ?case
  proof (cases "retried r0")
    case False
    then have "r = r0" "vs = v0" "ss = ?s"
      using "2.prems" op by (auto simp: retried_def Let_def split: sum.splits if_splits)
    moreover have "?s = map (\<lambda>j. tpmRetryDelay * 2 ^ j) [(if i = 0 then 0 else i - 1)..<i]" using sl [of i] by simp
    ultimately show ?thesis using False op by (intro disjI1 exI [of _ 0]) simp
  next
    case True
    then obtain e0 where e0: "r0 = Inl e0" "is_transient e0" by (auto simp: retried_def)
    obtain r1 v1 s1 where rec: "retry_from op (Suc i) n e0 = (r1, v1, s1)" by (metis prod_cases3)
    have here: "r = r1" "vs = v0 @ v1" "ss = ?s @ s1"
      using "2.prems" op e0 rec by (auto simp: Let_def split: if_splits)
    have sh: "concat (map (\<lambda>j. snd (op (i + j))) [0..<Suc m]) = v0 @ concat (map (\<lambda>j. snd (op (Suc i + j))) [0..<m])" for m
      using op by (simp add: upt_conv_Cons map_Suc_upt [symmetric] comp_def del: upt_Suc)
    have al: "(\<forall>j<Suc m. retried (fst (op (i + j)))) = (\<forall>j<m. retried (fst (op (Suc i + j))))" for m
      using True op by (auto simp: less_Suc_eq_0_disj)
    from "2.IH" [OF refl op [symmetric] e0(1) _ rec] e0(2)
    consider (once) k where "k < n" "fst (op (Suc i + k)) = r1" "\<not> retried r1" "\<forall>j<k. retried (fst (op (Suc i + j)))"
        "v1 = concat (map (\<lambda>j. snd (op (Suc i + j))) [0..<Suc k])" "s1 = map (\<lambda>j. tpmRetryDelay * 2 ^ j) [i..<Suc i + k]"
      | (busy) rc where "r1 = Inl (ErrTPMBusy rc)" "\<forall>j<n. retried (fst (op (Suc i + j)))"
        "v1 = concat (map (\<lambda>j. snd (op (Suc i + j))) [0..<n])" "s1 = map (\<lambda>j. tpmRetryDelay * 2 ^ j) [i..<i + n]"
      by fastforce
    then show ?thesis
    proof cases
      case once
      have "ss = map (\<lambda>j. tpmRetryDelay * 2 ^ j) [(if i = 0 then 0 else i - 1)..<i + Suc k]"
        using here(3) once(6) sl [of "Suc i + k"] by simp
      moreover have "vs = concat (map (\<lambda>j. snd (op (i + j))) [0..<Suc (Suc k)])" using here(2) once(5) sh [of "Suc k"] by simp
      ultimately show ?thesis using once(1-4) here(1) al [of k] by (intro disjI1 exI [of _ "Suc k"]) simp
    next
      case busy
      have "ss = map (\<lambda>j. tpmRetryDelay * 2 ^ j) [(if i = 0 then 0 else i - 1)..<i + Suc n - 1]"
        using here(3) busy(4) sl [of "i + n"] by simp
      moreover have "vs = concat (map (\<lambda>j. snd (op (i + j))) [0..<Suc n])" using here(2) busy(3) sh [of n] by simp
      ultimately show ?thesis using busy(1,2) here(1) al [of n] by (intro disjI2) simp
    qed
  qed
qed

lemma with_retry_ends:
  assumes "with_retry op = (r, vs, ss)"
  shows "(\<exists>k<5. r = fst (op k) \<and> \<not> retried r \<and> (\<forall>j<k. retried (fst (op j)))
        \<and> vs = concat (map (\<lambda>j. snd (op j)) [0..<Suc k]) \<and> ss = sleeps k)
    \<or> (\<exists>rc. r = Inl (ErrTPMBusy rc)) \<and> (\<forall>j<5. retried (fst (op j)))
        \<and> vs = concat (map (\<lambda>j. snd (op j)) [0..<5]) \<and> ss = sleeps 4"
  using retry_from_ends [OF assms [unfolded with_retry_def tpmAttempts_def]] by (auto simp: sleeps_def)

lemma with_retry_picks:
  assumes "k < 5" and "fst (op k) = r" and "\<not> retried r" and "\<forall>j<k. retried (fst (op j))"
  shows "fst (with_retry op) = r"
proof -
  obtain r' vs ss where w: "with_retry op = (r', vs, ss)" by (metis prod_cases3)
  from with_retry_ends [OF w] show ?thesis
  proof
    assume "\<exists>k<5. r' = fst (op k) \<and> \<not> retried r' \<and> (\<forall>j<k. retried (fst (op j)))
        \<and> vs = concat (map (\<lambda>j. snd (op j)) [0..<Suc k]) \<and> ss = sleeps k"
    then obtain m where "r' = fst (op m)" "\<not> retried r'" "\<forall>j<m. retried (fst (op j))" by blast
    moreover from this assms have "m = k" by (metis linorder_neqE_nat)
    ultimately show ?thesis using assms(2) w by simp
  qed (use assms in auto)
qed

section \<open>What is left on the device\<close>

text \<open>
  The device's use: it is opened and closed in turn, every command names a key that is there, and it is
  closed with no key left; \<open>None\<close> is a use that breaks this.
\<close>

fun device_run :: "bool \<times> nat list \<Rightarrow> tpm_event list \<Rightarrow> (bool \<times> nat list) option" where
  "device_run st [] = Some st"
| "device_run (op, ks) (Opened # vs) = (if op then None else device_run (True, ks) vs)"
| "device_run (op, ks) (Closed # vs) = (if op \<and> ks = [] then device_run (False, []) vs else None)"
| "device_run (op, ks) (MadeKey h # vs) = (if op then device_run (op, h # ks) vs else None)"
| "device_run (op, ks) (Sealed h _ # vs) = (if op \<and> h \<in> set ks then device_run (op, ks) vs else None)"
| "device_run (op, ks) (Loaded h n # vs) = (if op \<and> h \<in> set ks then device_run (op, n # ks) vs else None)"
| "device_run (op, ks) (Unsealed h n # vs) = (if op \<and> h \<in> set ks \<and> n \<in> set ks then device_run (op, ks) vs else None)"
| "device_run (op, ks) (Flushed h # vs) = (if op \<and> h \<in> set ks then device_run (op, remove1 h ks) vs else None)"

definition device_tidy :: "tpm_event list \<Rightarrow> bool" where
  "device_tidy vs = (device_run (False, []) vs = Some (False, []))"

lemma device_run_append:
  "device_run st (vs @ ws) = (case device_run st vs of None \<Rightarrow> None | Some st' \<Rightarrow> device_run st' ws)"
  by (induction st vs rule: device_run.induct) auto

lemma tidy_concat: "\<forall>vs\<in>set vss. device_tidy vs \<Longrightarrow> device_tidy (concat vss)"
  by (induction vss) (auto simp: device_tidy_def device_run_append)

lemma tidy_Nil [simp]: "device_tidy []"
  by (simp add: device_tidy_def)

lemma srk_events:
  "create_srk io \<in> {(Inl e, []) |e. True} \<union> {(Inl e, [MadeKey h, Flushed h]) |e h. True}
     \<union> {(Inr (h, n), [MadeKey h]) |h n. \<exists>k. td_primary io = Inr k \<and> pm_handle k = h \<and> pm_name k = n
          \<and> pm_computed k = Some n \<and> pm_template k}"
  by (auto simp: create_srk_def split: sum.split)

lemma once_tidy: "device_tidy (snd (wrap_once key io))" "device_tidy (snd (unwrap_once srk pub priv io))" "device_tidy (snd (try_once io))"
  using srk_events [of io]
  by (auto simp: wrap_once_def unwrap_once_def try_once_def device_tidy_def split: option.split sum.split)

lemma retry_tidy:
  assumes "\<And>i. device_tidy (snd (op i))"
  shows "device_tidy (fst (snd (with_retry op)))"
proof -
  obtain r vs ss where w: "with_retry op = (r, vs, ss)" by (metis prod_cases3)
  have "\<exists>n. vs = concat (map (\<lambda>j. snd (op j)) [0..<n])" using with_retry_ends [OF w] by blast
  then show ?thesis using assms by (auto simp: w intro!: tidy_concat)
qed

lemma sealed_events:
  assumes "Sealed h k \<in> set (snd (wrap_once key io))"
  shows "k = key \<and> (\<exists>p. td_primary io = Inr p \<and> pm_handle p = h \<and> pm_computed p = Some (pm_name p) \<and> pm_template p)"
  using assms srk_events [of io] by (auto simp: wrap_once_def split: option.splits)

section \<open>The blob\<close>

lemma taken_part:
  "take_part rest = Some (p, r) \<longleftrightarrow> rest = encode_part p @ r \<and> p \<noteq> [] \<and> length p \<le> maxTPMPart" (is "?l \<longleftrightarrow> ?r")
proof
  assume l: ?l
  let ?n = "get16 rest"
  have n: "2 + ?n \<le> length rest" "0 < ?n" "?n \<le> maxTPMPart" and p: "p = take ?n (drop 2 rest)" "r = drop (2 + ?n) rest"
    using l by (auto simp: take_part_def Let_def split: if_splits)
  moreover have "take 2 rest = be16 ?n" using n(1) by (intro two_bytes) simp
  moreover have "rest = take 2 rest @ take ?n (drop 2 rest) @ drop (2 + ?n) rest"
    by (metis append_take_drop_id drop_drop add.commute)
  moreover have "length p = ?n" using n p by simp
  ultimately show ?r by (auto simp: encode_part_def)
next
  assume r: ?r
  then have "get16 rest = length p" by (simp add: encode_part_def be16_get maxTPMPart_def)
  moreover have "drop 2 rest = p @ r" using r by (simp add: encode_part_def be16_def)
  moreover from this have "drop (2 + length p) rest = r" by (metis drop_drop add.commute append_eq_conv_conj)
  moreover have "2 + length p \<le> length rest" using r by (simp add: encode_part_def)
  ultimately show ?l using r by (simp add: take_part_def Let_def)
qed

lemma decoded_tpm_blob:
  "decode_tpm_blob F blob = Some (srk, pub, priv) \<longleftrightarrow>
     blob = encode_tpm_blob srk pub priv \<and> length srk = 34 \<and> get16 srk = AlgSHA256
     \<and> pub \<noteq> [] \<and> length pub \<le> maxTPMPart \<and> priv \<noteq> [] \<and> length priv \<le> maxTPMPart
     \<and> tf_public F pub \<and> tf_private F priv \<and> tf_sealed F pub" (is "?l \<longleftrightarrow> ?r")
proof -
  have parts: "take_parts rest = Some (srk, pub, priv) \<longleftrightarrow>
      (\<exists>r1 r2. take_part rest = Some (srk, r1) \<and> take_part r1 = Some (pub, r2) \<and> take_part r2 = Some (priv, []))" for rest
    by (auto simp: take_parts_def split: option.splits if_splits)
  have "length srk = 34 \<Longrightarrow> srk \<noteq> [] \<and> length srk \<le> maxTPMPart" by (auto simp: maxTPMPart_def)
  moreover have "decode_tpm_blob F blob = Some (srk, pub, priv) \<longleftrightarrow> (\<exists>rest. blob = char_byte 2 # rest
      \<and> take_parts rest = Some (srk, pub, priv)) \<and> length srk = 34 \<and> get16 srk = AlgSHA256
      \<and> tf_public F pub \<and> tf_private F priv \<and> tf_sealed F pub"
    by (cases blob) (auto simp: decode_tpm_blob_def split: option.splits prod.splits)
  ultimately show ?thesis by (auto simp: parts taken_part encode_tpm_blob_def)
qed

section \<open>The protector of a TPM\<close>

record tpm_setting =
  ts_forms :: tpm_forms
  ts_wrap :: "nat \<Rightarrow> tpm_io"
  ts_unwrap :: "nat \<Rightarrow> tpm_io"

definition tpm_protector :: "tpm_setting \<Rightarrow> protector" where
  "tpm_protector S = \<lparr>pr_name = TPMName, pr_wrap = \<lambda>k. value_of (fst (tpm_wrap (ts_wrap S) k)),
     pr_unwrap = \<lambda>b. value_of (fst (tpm_unwrap (ts_forms S) (ts_unwrap S) b))\<rparr>"

text \<open>
  The same TPM, working: what it makes has the marshalled forms, and one of the first five attempts, after
  transient answers only, finds the same storage root key and loads and unseals what was made under it.
\<close>

definition tpm_opens :: "tpm_io \<Rightarrow> string \<Rightarrow> string \<Rightarrow> string \<Rightarrow> string \<Rightarrow> bool" where
  "tpm_opens io name pub priv key = (td_open io = None \<and> (\<exists>h. fst (create_srk io) = Inr (h, name))
     \<and> (\<exists>ob. td_load io pub priv = Inr ob \<and> td_unseal io ob = Inr key))"

definition made_forms :: "tpm_forms \<Rightarrow> string \<Rightarrow> string \<Rightarrow> string \<Rightarrow> bool" where
  "made_forms F name pub priv = (length name = 34 \<and> get16 name = AlgSHA256 \<and> pub \<noteq> [] \<and> length pub \<le> maxTPMPart
     \<and> priv \<noteq> [] \<and> length priv \<le> maxTPMPart \<and> tf_public F pub \<and> tf_private F priv \<and> tf_sealed F pub)"

definition tpm_outside :: "tpm_setting \<Rightarrow> bool" where
  "tpm_outside S = (\<forall>i key h name pub priv.
     td_open (ts_wrap S i) = None \<and> fst (create_srk (ts_wrap S i)) = Inr (h, name)
     \<and> td_create (ts_wrap S i) key = Inr (pub, priv) \<and> length key = DataKeyLen \<longrightarrow>
       made_forms (ts_forms S) name pub priv
       \<and> (\<exists>k<5. tpm_opens (ts_unwrap S k) name pub priv key
            \<and> (\<forall>j<k. retried (fst (unwrap_once name pub priv (ts_unwrap S j))))))"

lemma tpm_opens_once:
  "tpm_opens io name pub priv key \<Longrightarrow> length key = DataKeyLen \<Longrightarrow> fst (unwrap_once name pub priv io) = Inr key"
  by (auto simp: tpm_opens_def unwrap_once_def split: prod.split)

lemma wrapped_by_attempt:
  assumes "fst (tpm_wrap io key) = Inr w"
  obtains i h name pub priv where "td_open (io i) = None" and "fst (create_srk (io i)) = Inr (h, name)"
    and "td_create (io i) key = Inr (pub, priv)" and "length key = DataKeyLen" and "w = encode_tpm_blob name pub priv"
proof -
  have len: "length key = DataKeyLen" using assms by (auto simp: tpm_wrap_def split: if_splits)
  obtain r vs ss where w: "with_retry (\<lambda>i. wrap_once key (io i)) = (r, vs, ss)" by (metis prod_cases3)
  with assms len have "r = Inr w" by (simp add: tpm_wrap_def)
  with with_retry_ends [OF w] obtain i where "fst (wrap_once key (io i)) = Inr w" by auto
  then show ?thesis using that [of i] len
    by (auto simp: wrap_once_def split: option.splits sum.splits prod.splits)
qed

interpretation tpm: state_protector tpm_protector tpm_outside
proof
  show "protectorName (pr_name (tpm_protector S))" for S
    by (simp add: tpm_protector_def TPMName_def protectorName_def lower_char_def byte_def)
next
  fix S k w
  assume out: "tpm_outside S" and "pr_wrap (tpm_protector S) k = Some w"
  then have "fst (tpm_wrap (ts_wrap S) k) = Inr w" by (simp add: tpm_protector_def)
  then obtain i h name pub priv where s: "td_open (ts_wrap S i) = None" "fst (create_srk (ts_wrap S i)) = Inr (h, name)"
    "td_create (ts_wrap S i) k = Inr (pub, priv)" "length k = DataKeyLen" and w: "w = encode_tpm_blob name pub priv"
    by (rule wrapped_by_attempt)
  from out [unfolded tpm_outside_def] s
  obtain m where f: "made_forms (ts_forms S) name pub priv"
    and m: "m < 5" "tpm_opens (ts_unwrap S m) name pub priv k"
      "\<forall>j<m. retried (fst (unwrap_once name pub priv (ts_unwrap S j)))"
    by blast
  have d: "decode_tpm_blob (ts_forms S) w = Some (name, pub, priv)"
    using f w by (simp add: decoded_tpm_blob made_forms_def)
  have "fst (with_retry (\<lambda>i. unwrap_once name pub priv (ts_unwrap S i))) = Inr k"
    by (rule with_retry_picks [of m]) (use m tpm_opens_once [OF m(2) s(4)] in \<open>simp_all add: retried_def\<close>)
  then show "pr_unwrap (tpm_protector S) w = Some k" by (simp add: tpm_protector_def tpm_unwrap_def d)
qed

section \<open>Properties\<close>

text \<open>
  A TPM operation makes at most five attempts and sleeps at most 750 ms: its result is that of the first
  attempt that is not answered with a transient code, and when all five are, it is that the TPM is busy. It
  sleeps 50 ms, then twice as long each time, and only between attempts.
\<close>

lemma tpm_retries:
  "\<exists>k\<le>4. (\<exists>r vs. with_retry op = (r, vs, map (\<lambda>i. 50 * 2 ^ i) [0..<k]) \<and> filter (\<lambda>j. \<not> retried (fst (op j))) [0..<k] = []
      \<and> vs = concat (map (\<lambda>j. snd (op j)) [0..<Suc k])
      \<and> (if retried (fst (op k)) then k = 4 \<and> (\<exists>rc. r = Inl (ErrTPMBusy rc)) else r = fst (op k)))"
proof -
  obtain r vs ss where w: "with_retry op = (r, vs, ss)" by (metis prod_cases3)
  show ?thesis
  proof (cases "\<exists>k<5. r = fst (op k) \<and> \<not> retried r \<and> (\<forall>j<k. retried (fst (op j)))
        \<and> vs = concat (map (\<lambda>j. snd (op j)) [0..<Suc k]) \<and> ss = sleeps k")
    case True
    then obtain k where "k < 5" "r = fst (op k)" "\<not> retried r" "\<forall>j<k. retried (fst (op j))"
      "vs = concat (map (\<lambda>j. snd (op j)) [0..<Suc k])" "ss = sleeps k" by blast
    then show ?thesis using w by (intro exI [of _ k]) (simp add: filter_empty_conv sleeps_def tpmRetryDelay_def)
  next
    case False
    with with_retry_ends [OF w] have b: "\<exists>rc. r = Inl (ErrTPMBusy rc)" "\<forall>j<5. retried (fst (op j))"
      "vs = concat (map (\<lambda>j. snd (op j)) [0..<5])" "ss = sleeps 4" by blast+
    then show ?thesis using w by (intro exI [of _ 4]) (simp add: filter_empty_conv sleeps_def tpmRetryDelay_def eval_nat_numeral)
  qed
qed

text \<open>
  A TPM blob is accepted exactly when it is the encoding of its three parts: a SHA-256 Name, and a public
  and a private part of 1 to 2048 bytes in their marshalled forms, the public one a sealed object with this
  protector's attributes. No byte is left over and no other encoding opens.
\<close>

lemma tpm_blob_has_one_encoding:
  "decode_tpm_blob F blob = Some (srk, pub, priv) \<longleftrightarrow>
     blob = encode_tpm_blob srk pub priv \<and> length srk = 34 \<and> get16 srk = AlgSHA256
     \<and> 0 < length pub \<and> length pub \<le> 2048 \<and> 0 < length priv \<and> length priv \<le> 2048
     \<and> tf_public F pub \<and> tf_private F priv \<and> tf_sealed F pub"
  by (simp add: decoded_tpm_blob maxTPMPart_def)

text \<open>
  C27. Whatever the TPM answers, wrapping, opening and trying the TPM leave the device closed, with every
  key they made flushed, and use a key only while it is there; and the data key is only ever given to a TPM whose
  storage root key's Name is the one computed from its public area and whose kind is the template's.
\<close>

theorem tpm_is_left_tidy:
  "device_tidy (fst (snd (tpm_wrap io key))) \<and> device_tidy (fst (snd (tpm_unwrap F io blob)))
   \<and> device_tidy (fst (snd (choose_protector tell io rm raw sys fallback)))
   \<and> list_all (\<lambda>v. case v of Sealed h k \<Rightarrow> k = key \<and> (\<exists>i<5. \<exists>p. td_primary (io i) = Inr p \<and> pm_handle p = h
          \<and> pm_computed p = Some (pm_name p) \<and> pm_template p) | _ \<Rightarrow> True) (fst (snd (tpm_wrap io key)))"
proof (intro conjI)
  show "device_tidy (fst (snd (tpm_wrap io key)))" by (simp add: tpm_wrap_def retry_tidy once_tidy)
  show "device_tidy (fst (snd (tpm_unwrap F io blob)))"
    by (auto simp: tpm_unwrap_def retry_tidy once_tidy split: option.split)
  have "device_tidy (fst (snd (try_tpm io rm)))" by (simp add: try_tpm_def retry_tidy once_tidy)
  then show "device_tidy (fst (snd (choose_protector tell io rm raw sys fallback)))"
    by (auto simp: choose_protector_def split: prod.splits sum.split)
  obtain r vs ss where w: "with_retry (\<lambda>i. wrap_once key (io i)) = (r, vs, ss)" by (metis prod_cases3)
  have "\<exists>n\<le>5. vs = concat (map (\<lambda>j. snd (wrap_once key (io j))) [0..<n])"
    using with_retry_ends [OF w] by (metis Suc_leI order.refl)
  then have "\<exists>i<5. Sealed h k \<in> set (snd (wrap_once key (io i)))" if "Sealed h k \<in> set vs" for h k using that by force
  then have "k = key \<and> (\<exists>i<5. \<exists>p. td_primary (io i) = Inr p \<and> pm_handle p = h \<and> pm_computed p = Some (pm_name p)
      \<and> pm_template p)" if "Sealed h k \<in> set vs" for h k using that sealed_events by blast
  then show "list_all (\<lambda>v. case v of Sealed h k \<Rightarrow> k = key \<and> (\<exists>i<5. \<exists>p. td_primary (io i) = Inr p \<and> pm_handle p = h
          \<and> pm_computed p = Some (pm_name p) \<and> pm_template p) | _ \<Rightarrow> True) (fst (snd (tpm_wrap io key)))"
    by (auto simp: list_all_iff tpm_wrap_def w split: tpm_event.split)
qed

text \<open>
  C30. On Linux the passphrase is chosen without the operator asking for it only where there is no trace of
  a TPM; where there is one, it is used when it makes its storage key, and otherwise pairing fails with the
  cause. A choice is said to be bound to the computer exactly when it is the TPM.
\<close>

theorem no_silent_passphrase:
  "case fst (choose_protector tell io rm raw sys fallback) of
     Inr c \<Rightarrow> (ch_bound c \<longleftrightarrow> ch_protector c = TPMName) \<and> (choice_notice c = [] \<longleftrightarrow> ch_bound c)
       \<and> (if ch_protector c = TPMName then rm \<and> fst (try_tpm io rm) = Inr ()
          else ch_protector c = PassphraseName \<and> (fallback \<or> (rm, raw, sys) = (False, False, False)))
   | Inl e \<Rightarrow> (rm \<or> raw \<or> sys) \<and> \<not> fallback \<and> (if rm \<or> raw then fst (try_tpm io rm) = Inl e else e = NodesMissing)"
proof -
  have n: "TPMName \<noteq> PassphraseName" "NotMachineBound \<noteq> []"
    by (simp_all add: TPMName_def PassphraseName_def NotMachineBound_def)
  have "fst (try_tpm io False) = Inl NoResourceManager" by (simp add: try_tpm_def)
  then have "fst (try_tpm io rm) = Inr u \<Longrightarrow> rm" for u by (cases rm) auto
  then show ?thesis using n
    by (auto simp: choose_protector_def passphrase_choice_def choice_notice_def split: sum.splits prod.splits)
qed

end
