(* ===== verification/Keychain.thy ===== *)
theory Keychain
  imports Protect
begin

text \<open>
  \<open>internal/protect/keychain.go\<close>: the macOS Keychain protector. The Keychain is part of the state: its items in
  listing order, and a status for each further call (\<open>errSecSuccess\<close> when none is left), so that any call may fail
  with any status and then changes nothing. \<open>kc_stores\<close> is what macOS makes of an item it is asked to
  store. The AEAD and SHA-256 are parameters; clearing memory and messages are left out.
\<close>

section \<open>The Keychain\<close>

definition errSecSuccess :: int where "errSecSuccess = 0"
definition errSecItemNotFound :: int where "errSecItemNotFound = -25300"
definition errSecDuplicateItem :: int where "errSecDuplicateItem = -25299"
definition errSecInteractionNotAllowed :: int where "errSecInteractionNotAllowed = -25308"
definition errSecNotAvailable :: int where "errSecNotAvailable = -25291"
definition errSecAuthFailed :: int where "errSecAuthFailed = -25293"
definition errSecNoSuchKeychain :: int where "errSecNoSuchKeychain = -25294"
definition errSecMissingEntitlement :: int where "errSecMissingEntitlement = -34018"

lemmas status_defs = errSecSuccess_def errSecItemNotFound_def errSecDuplicateItem_def errSecInteractionNotAllowed_def
  errSecNotAvailable_def errSecAuthFailed_def errSecNoSuchKeychain_def errSecMissingEntitlement_def

definition entitlementAbsent :: int where "entitlementAbsent = 0"
definition entitlementPresent :: int where "entitlementPresent = 1"

text \<open>An item, with its account; the creation date is only compared.\<close>

record kitem =
  ki_account :: string
  ki_service :: string
  ki_data :: string
  ki_device_only :: bool
  ki_sync :: bool
  ki_created :: int

record keychain =
  kc_items :: "kitem list"
  kc_status :: "int list"
  kc_entitled :: int
  kc_clock :: int
  kc_stores :: "kitem \<Rightarrow> kitem"

definition kc_next :: "keychain \<Rightarrow> int \<times> keychain" where
  "kc_next w = (case kc_status w of [] \<Rightarrow> (errSecSuccess, w) | st # ss \<Rightarrow> (st, w\<lparr>kc_status := ss\<rparr>))"

definition kc_add :: "string \<Rightarrow> string \<Rightarrow> string \<Rightarrow> keychain \<Rightarrow> int \<times> keychain" where
  "kc_add service account key w = (case kc_next w of (st, w) \<Rightarrow>
     if st \<noteq> errSecSuccess then (st, w)
     else if list_ex (\<lambda>i. ki_account i = account \<and> ki_service i = service) (kc_items w) then (errSecDuplicateItem, w)
     else (errSecSuccess, w\<lparr>kc_items := kc_items w @ [(kc_stores w \<lparr>ki_account = account, ki_service = service, ki_data = key,
         ki_device_only = True, ki_sync = False, ki_created = kc_clock w\<rparr>)\<lparr>ki_account := account\<rparr>]\<rparr>))"

definition kc_get :: "string \<Rightarrow> keychain \<Rightarrow> (int + kitem) \<times> keychain" where
  "kc_get account w = (case kc_next w of (st, w) \<Rightarrow>
     if st \<noteq> errSecSuccess then (Inl st, w)
     else (case find (\<lambda>i. ki_account i = account) (kc_items w) of None \<Rightarrow> (Inl errSecItemNotFound, w) | Some i \<Rightarrow> (Inr i, w)))"

definition kc_list :: "string \<Rightarrow> keychain \<Rightarrow> (int + kitem list) \<times> keychain" where
  "kc_list service w = (case kc_next w of (st, w) \<Rightarrow>
     if st \<noteq> errSecSuccess then (Inl st, w)
     else (let found = filter (\<lambda>i. ki_service i = service) (kc_items w) in
       if found = [] then (Inl errSecItemNotFound, w) else (Inr found, w)))"

definition kc_retag :: "string \<Rightarrow> string \<Rightarrow> keychain \<Rightarrow> int \<times> keychain" where
  "kc_retag account service w = (case kc_next w of (st, w) \<Rightarrow>
     if st \<noteq> errSecSuccess then (st, w)
     else if \<not> list_ex (\<lambda>i. ki_account i = account) (kc_items w) then (errSecItemNotFound, w)
     else (errSecSuccess, w\<lparr>kc_items := map (\<lambda>i. if ki_account i = account then i\<lparr>ki_service := service\<rparr> else i) (kc_items w)\<rparr>))"

definition kc_remove :: "string \<Rightarrow> keychain \<Rightarrow> int \<times> keychain" where
  "kc_remove account w = (case kc_next w of (st, w) \<Rightarrow>
     if st \<noteq> errSecSuccess then (st, w)
     else if \<not> list_ex (\<lambda>i. ki_account i = account) (kc_items w) then (errSecItemNotFound, w)
     else (errSecSuccess, w\<lparr>kc_items := filter (\<lambda>i. ki_account i \<noteq> account) (kc_items w)\<rparr>))"

section \<open>The protector\<close>

definition keychainNameLen :: nat where "keychainNameLen = 16"
definition keychainKEKLen :: nat where "keychainKEKLen = 32"
definition keychainBlobLen :: nat where "keychainBlobLen = 1 + keychainNameLen + NonceLen + DataKeyLen + Overhead"
definition keychainADLabel :: string where "keychainADLabel = ''vettid-agent/protect/keychain/v1'' @ [char_byte 0]"
definition keychainDirLabel :: string where "keychainDirLabel = ''vettid-agent/protect/keychain/v1 dir'' @ [char_byte 0]"
definition keychainService :: string where "keychainService = ''vettid-agent/''"
definition keychainProbeName :: string where "keychainProbeName = keychainService @ ''probe/''"
definition KeychainName :: string where "KeychainName = ''keychain''"

definition keychain_dir_tag :: "(string \<Rightarrow> string) \<Rightarrow> string \<Rightarrow> string" where
  "keychain_dir_tag sha canonical = hex (take 16 (sha (keychainDirLabel @ canonical)))"

definition keychain_dir_service :: "(string \<Rightarrow> string) \<Rightarrow> string \<Rightarrow> string" where
  "keychain_dir_service sha canonical = keychainService @ keychain_dir_tag sha canonical"

record keychain_instance =
  kp_service :: string
  kp_dir_err :: bool
  kp_names :: "string list"

definition new_keychain :: "string \<Rightarrow> bool \<Rightarrow> keychain_instance" where
  "new_keychain service dir_err = \<lparr>kp_service = service, kp_dir_err = dir_err, kp_names = []\<rparr>"

datatype keychain_error = KcKeyLength | ErrKeychainUnavailable | ErrKeychainEntitlementUnknown | KcDirectory | KcRandom
  | KcNotAsAsked | ErrKeychainBlobFormat | ErrKeychainRefused | ErrKeychainLocked int | ErrKeychainItemGone int
  | KcMissingEntitlement int | KcStatus string int

definition keychain_usable :: "keychain \<Rightarrow> keychain_error option" where
  "keychain_usable w = (if kc_entitled w = entitlementPresent then None
     else if kc_entitled w = entitlementAbsent then Some ErrKeychainUnavailable else Some ErrKeychainEntitlementUnknown)"

definition status_error :: "string \<Rightarrow> int \<Rightarrow> bool \<Rightarrow> keychain_error" where
  "status_error step st opening =
    (if st = errSecMissingEntitlement then KcMissingEntitlement st
     else if st \<in> {errSecInteractionNotAllowed, errSecNotAvailable, errSecAuthFailed, errSecNoSuchKeychain} then ErrKeychainLocked st
     else if st = errSecItemNotFound \<and> opening then ErrKeychainItemGone st
     else KcStatus step st)"

definition remember :: "string \<Rightarrow> keychain_instance \<Rightarrow> keychain_instance" where
  "remember name k = (if name \<in> set (kp_names k) then k else k\<lparr>kp_names := kp_names k @ [name]\<rparr>)"

definition keychain_head :: "string \<Rightarrow> string" where
  "keychain_head i = char_byte 1 # i"

text \<open>\<open>Wrap\<close>: the random key, item name and nonce are drawn, or drawing fails.\<close>

definition keychain_wrap :: "cipher \<Rightarrow> (string \<times> string \<times> string) option \<Rightarrow> string \<Rightarrow> keychain_instance \<Rightarrow> keychain
    \<Rightarrow> (keychain_error + string) \<times> keychain_instance \<times> keychain" where
  "keychain_wrap seal random key k w =
    (if length key \<noteq> DataKeyLen then (Inl KcKeyLength, k, w)
     else (case keychain_usable w of Some e \<Rightarrow> (Inl e, k, w)
     | None \<Rightarrow>
       if kp_dir_err k then (Inl KcDirectory, k, w)
       else (case random of None \<Rightarrow> (Inl KcRandom, k, w)
     | Some (kek, i, nonce) \<Rightarrow> (case kc_add (kp_service k) (hex i) kek w of (st, w) \<Rightarrow>
       if st \<noteq> errSecSuccess then (Inl (status_error ''store a new key'' st False), k, w)
       else (case kc_get (hex i) w of
         (Inl st, w) \<Rightarrow> (Inl (status_error ''read back the new key'' st False), k, snd (kc_remove (hex i) w))
       | (Inr it, w) \<Rightarrow>
         if ki_data it \<noteq> kek \<or> \<not> ki_device_only it \<or> ki_sync it \<or> ki_service it \<noteq> kp_service k
         then (Inl KcNotAsAsked, k, snd (kc_remove (hex i) w))
         else (Inr (keychain_head i @ nonce @ seal kek nonce key (keychainADLabel @ keychain_head i)), remember (hex i) k, w))))))"

definition decode_keychain_blob :: "string \<Rightarrow> (string \<times> string \<times> string) option" where
  "decode_keychain_blob blob =
    (if length blob \<noteq> keychainBlobLen \<or> hd blob \<noteq> char_byte 1 then None
     else Some (take keychainNameLen (drop 1 blob), take NonceLen (drop (1 + keychainNameLen) blob),
       drop (1 + keychainNameLen + NonceLen) blob))"

definition keychain_unwrap :: "opener \<Rightarrow> string \<Rightarrow> keychain_instance \<Rightarrow> keychain
    \<Rightarrow> (keychain_error + string) \<times> keychain_instance \<times> keychain" where
  "keychain_unwrap unseal blob k w = (case decode_keychain_blob blob of None \<Rightarrow> (Inl ErrKeychainBlobFormat, k, w)
     | Some (i, nonce, sealed) \<Rightarrow> (case keychain_usable w of Some e \<Rightarrow> (Inl e, k, w)
     | None \<Rightarrow> (case kc_get (hex i) w of (Inl st, w) \<Rightarrow> (Inl (status_error ''open the key'' st True), k, w)
     | (Inr it, w) \<Rightarrow>
       if \<not> ki_device_only it \<or> ki_sync it \<or> \<not> prefix keychainService (ki_service it) \<or> length (ki_data it) \<noteq> keychainKEKLen
       then (Inl ErrKeychainRefused, k, w)
       else (case unseal (ki_data it) nonce sealed (keychainADLabel @ take (1 + keychainNameLen) blob) of
         None \<Rightarrow> (Inl ErrKeychainRefused, k, w)
       | Some key \<Rightarrow> (Inr key, remember (hex i) k,
           if \<not> kp_dir_err k \<and> ki_service it \<noteq> kp_service k then snd (kc_retag (hex i) (kp_service k) w) else w)))))"

section \<open>Wiping\<close>

text \<open>The newest listed item; the first of equally new ones.\<close>

fun newest :: "kitem option \<Rightarrow> kitem list \<Rightarrow> kitem option" where
  "newest best [] = best"
| "newest best (i # is) = newest (case best of None \<Rightarrow> Some i
      | Some b \<Rightarrow> if ki_account b = [] \<or> ki_created b < ki_created i then Some i else Some b) is"

definition key_in_use :: "string list \<Rightarrow> kitem list \<Rightarrow> string" where
  "key_in_use names listed = (if names \<noteq> [] then last names
     else (case newest None listed of None \<Rightarrow> [] | Some i \<Rightarrow> ki_account i))"

text \<open>The others, each once: the listed ones, then the remembered ones.\<close>

fun unseen :: "string set \<Rightarrow> string list \<Rightarrow> string list" where
  "unseen seen [] = []"
| "unseen seen (a # as) = (if a \<in> seen then unseen seen as else a # unseen (insert a seen) as)"

definition other_keys :: "string list \<Rightarrow> kitem list \<Rightarrow> string list" where
  "other_keys names listed = unseen {key_in_use names listed, []} (map ki_account listed @ names)"

fun remove_keys :: "string list \<Rightarrow> keychain \<Rightarrow> int option \<times> keychain" where
  "remove_keys [] w = (None, w)"
| "remove_keys (a # as) w = (case kc_remove a w of (st, w) \<Rightarrow>
     if st \<noteq> errSecSuccess \<and> st \<noteq> errSecItemNotFound then (Some st, w) else remove_keys as w)"

definition wipe_listed :: "kitem list \<Rightarrow> keychain_instance \<Rightarrow> keychain
    \<Rightarrow> keychain_error option \<times> keychain_instance \<times> keychain" where
  "wipe_listed listed k w = (let in_use = key_in_use (kp_names k) listed in
     (case remove_keys (other_keys (kp_names k) listed) w of
       (Some st, w) \<Rightarrow> (Some (status_error ''delete an old key'' st False), k, w)
     | (None, w) \<Rightarrow>
         if in_use = [] then (None, k\<lparr>kp_names := []\<rparr>, w)
         else (case kc_remove in_use w of (st, w) \<Rightarrow>
           if st \<noteq> errSecSuccess \<and> st \<noteq> errSecItemNotFound then (Some (status_error ''delete the key'' st False), k, w)
           else (None, k\<lparr>kp_names := []\<rparr>, w))))"

definition keychain_wipe :: "keychain_instance \<Rightarrow> keychain \<Rightarrow> keychain_error option \<times> keychain_instance \<times> keychain" where
  "keychain_wipe k w = (case keychain_usable w of Some e \<Rightarrow> (Some e, k, w)
     | None \<Rightarrow>
       if kp_dir_err k then (Some KcDirectory, k, w)
       else (case kc_list (kp_service k) w of
           (Inr listed, w) \<Rightarrow> wipe_listed listed k w
         | (Inl st, w) \<Rightarrow> if st = errSecItemNotFound then wipe_listed [] k w
             else (Some (status_error ''list the keys'' st False), k, w)))"

section \<open>Choosing the protector on macOS\<close>

datatype keychain_probe_error = KpRandom | KpWrap keychain_error | KpOpen keychain_error | KpOtherKey | KpWipe keychain_error
  | KpUsable keychain_error

text \<open>\<open>tryKeychain\<close>: the probe key and its suffix, and what \<open>Wrap\<close> draws.\<close>

definition try_keychain :: "cipher \<Rightarrow> opener \<Rightarrow> (string \<times> string) option \<Rightarrow> (string \<times> string \<times> string) option \<Rightarrow> keychain
    \<Rightarrow> keychain_probe_error option \<times> keychain" where
  "try_keychain seal unseal probe random w = (case probe of None \<Rightarrow> (Some KpRandom, w)
     | Some (key, sfx) \<Rightarrow>
       (case keychain_wrap seal random key (new_keychain (keychainProbeName @ hex sfx) False) w of
         (Inl e, k, w) \<Rightarrow> (Some (KpWrap e), w)
       | (Inr blob, k, w) \<Rightarrow> (case keychain_unwrap unseal blob k w of
           (Inl e, k, w) \<Rightarrow> (Some (KpOpen e), snd (snd (keychain_wipe k w)))
         | (Inr got, k, w) \<Rightarrow>
             if got \<noteq> key then (Some KpOtherKey, snd (snd (keychain_wipe k w)))
             else (case keychain_wipe k w of (Some e, k, w) \<Rightarrow> (Some (KpWipe e), w) | (None, k, w) \<Rightarrow> (None, w)))))"

definition choose_keychain :: "(keychain_probe_error \<Rightarrow> string) \<Rightarrow> cipher \<Rightarrow> opener \<Rightarrow> (string \<times> string) option
    \<Rightarrow> (string \<times> string \<times> string) option \<Rightarrow> bool \<Rightarrow> keychain \<Rightarrow> (keychain_probe_error + choice) \<times> keychain" where
  "choose_keychain tell seal unseal probe random fallback w =
    (if kc_entitled w = entitlementAbsent
     then (Inr (passphrase_choice ''this vettid-agent build cannot use the macOS Keychain (only the signed vettid-agent app can: run it from vettid-agent.app/Contents/MacOS/vettid-agent to bind keys to this Mac)''), w)
     else (case (case keychain_usable w of Some e \<Rightarrow> (Some (KpUsable e), w) | None \<Rightarrow> try_keychain seal unseal probe random w) of
         (None, w) \<Rightarrow> (Inr \<lparr>ch_protector = KeychainName, ch_reason = ''macOS Keychain, this Mac only'', ch_bound = True\<rparr>, w)
       | (Some e, w) \<Rightarrow> (if fallback then Inr (passphrase_choice (tell e)) else Inl e, w)))"

text \<open>\<open>keychainProtectors\<close>: which protectors a wipe of a directory asks.\<close>

definition keychain_protectors :: "keychain \<Rightarrow> string list" where
  "keychain_protectors w = (if kc_entitled w = entitlementAbsent then [PassphraseName] else [KeychainName, PassphraseName])"

section \<open>Calls\<close>

lemma next_items: "kc_next w = (st, w') \<Longrightarrow> kc_items w' = kc_items w \<and> kc_entitled w' = kc_entitled w"
  by (auto simp: kc_next_def split: list.splits)

lemma get_items: "kc_get a w = (r, w') \<Longrightarrow> kc_items w' = kc_items w"
  by (auto simp: kc_get_def split: prod.splits option.splits if_splits dest: next_items)

lemma list_items:
  assumes "kc_list s w = (r, w')"
  shows "kc_items w' = kc_items w" and "r = Inr l \<Longrightarrow> l = filter (\<lambda>i. ki_service i = s) (kc_items w)"
    and "r = Inl errSecItemNotFound \<Longrightarrow> kc_status w = [] \<Longrightarrow> filter (\<lambda>i. ki_service i = s) (kc_items w) = []"
  using assms by (auto simp: kc_list_def Let_def kc_next_def split: prod.splits if_splits list.splits)

definition without :: "string set \<Rightarrow> kitem list \<Rightarrow> kitem list" where
  "without as is = filter (\<lambda>i. ki_account i \<notin> as) is"

definition named_items :: "string \<Rightarrow> kitem list \<Rightarrow> kitem list" where
  "named_items a is = filter (\<lambda>i. ki_account i = a) is"

text \<open>The calls of the Keychain that say an item is not there, when it is.\<close>

definition honest :: "keychain \<Rightarrow> bool" where
  "honest w = (errSecItemNotFound \<notin> set (kc_status w))"

lemma next_honest: "kc_next w = (st, w') \<Longrightarrow> honest w \<Longrightarrow> honest w' \<and> st \<noteq> errSecItemNotFound"
  by (auto simp: kc_next_def honest_def status_defs split: list.splits)

lemma removed:
  assumes "kc_remove a w = (st, w')" and "honest w"
  shows "kc_items w' = (if st = errSecSuccess \<or> st = errSecItemNotFound then without {a} (kc_items w) else kc_items w)"
    and "honest w'"
proof -
  have gone: "\<not> list_ex (\<lambda>i. ki_account i = a) is \<Longrightarrow> without {a} is = is" for "is"
    by (auto simp: without_def list_ex_iff intro!: filter_True)
  obtain st0 w0 where n: "kc_next w = (st0, w0)" by fastforce
  then have "kc_items w0 = kc_items w" "honest w0" "st0 \<noteq> errSecItemNotFound"
    using next_items [OF n] next_honest [OF n assms(2)] by simp_all
  with assms(1) n gone [of "kc_items w"]
  show "kc_items w' = (if st = errSecSuccess \<or> st = errSecItemNotFound then without {a} (kc_items w) else kc_items w)"
    and "honest w'"
    by (auto simp: kc_remove_def without_def honest_def status_defs split: if_splits)
qed

lemma without_without: "without as (without bs is) = without (bs \<union> as) is"
  by (auto simp: without_def intro: filter_cong)

lemma removed_all:
  "remove_keys as w = (e, w') \<Longrightarrow> honest w \<Longrightarrow>
   honest w' \<and> (\<exists>bs\<subseteq>set as. kc_items w' = without bs (kc_items w) \<and> (e = None \<longrightarrow> bs = set as))"
proof (induction as arbitrary: w)
  case Nil
  then show ?case by (auto simp: without_def)
next
  case (Cons a as)
  obtain st w0 where r: "kc_remove a w = (st, w0)" by fastforce
  note rem = removed [OF r Cons.prems(2)]
  show ?case
  proof (cases "st \<noteq> errSecSuccess \<and> st \<noteq> errSecItemNotFound")
    case True
    then have "w' = w0" "e \<noteq> None" "kc_items w0 = without {} (kc_items w)"
      using Cons.prems(1) r rem(1) by (auto simp: without_def)
    with rem(2) show ?thesis by blast
  next
    case False
    then have "remove_keys as w0 = (e, w')" using Cons.prems(1) r by auto
    from Cons.IH [OF this rem(2)] obtain bs where h: "honest w'" "bs \<subseteq> set as"
      "kc_items w' = without bs (kc_items w0)" "e = None \<longrightarrow> bs = set as" by blast
    moreover have "kc_items w0 = without {a} (kc_items w)" using False rem(1) by auto
    ultimately show ?thesis by (intro conjI exI [of _ "insert a bs"]) (auto simp: without_without)
  qed
qed

section \<open>Which key is in use\<close>

lemma unseen_set: "set (unseen seen as) = set as - seen"
  by (induction seen as rule: unseen.induct) auto

lemma others_set: "set (other_keys names listed) = (set (map ki_account listed) \<union> set names) - {key_in_use names listed, []}"
  by (auto simp: other_keys_def unseen_set)

lemma newest_in: "newest best is = Some i \<Longrightarrow> i \<in> set is \<or> best = Some i"
  by (induction best "is" rule: newest.induct) (auto split: option.splits if_splits)

lemma newest_None: "newest best is = None \<longleftrightarrow> best = None \<and> is = []"
  by (induction best "is" rule: newest.induct) (auto split: option.splits if_splits)

text \<open>The item chosen from a listing is the newest.\<close>

lemma newest_is_newest:
  assumes "newest best is = Some i" and "\<forall>j\<in>set is. ki_account j \<noteq> []" and "\<forall>b. best = Some b \<longrightarrow> ki_account b \<noteq> []"
  shows "(\<forall>j\<in>set is. ki_created j \<le> ki_created i) \<and> (\<forall>b. best = Some b \<longrightarrow> ki_created b \<le> ki_created i)"
  using assms
proof (induction best "is" rule: newest.induct)
  case (2 best j js)
  let ?b = "case best of None \<Rightarrow> j | Some b \<Rightarrow> if ki_account b = [] \<or> ki_created b < ki_created j then j else b"
  have s: "newest (Some ?b) js = Some i" using 2(2) by (auto split: option.splits if_splits)
  have b: "ki_account ?b \<noteq> []" using 2(3,4) by (simp split: option.split)
  have arg: "Some ?b = (case best of None \<Rightarrow> Some j
      | Some b \<Rightarrow> if ki_account b = [] \<or> ki_created b < ki_created j then Some j else Some b)"
    by (simp split: option.split)
  have "(\<forall>k\<in>set js. ki_created k \<le> ki_created i) \<and> ki_created ?b \<le> ki_created i"
    using 2(1) [folded arg, OF s] 2(3) b by simp
  moreover have "ki_created j \<le> ki_created ?b" "\<forall>b. best = Some b \<longrightarrow> ki_created b \<le> ki_created ?b"
    using 2(4) by (auto split: option.split)
  ultimately show ?case by fastforce
qed simp

lemma in_use_named:
  assumes "[] \<notin> set (map ki_account listed) \<union> set names"
  shows "key_in_use names listed = [] \<longleftrightarrow> names = [] \<and> listed = []"
    and "key_in_use names listed \<noteq> [] \<Longrightarrow> key_in_use names listed \<in> set (map ki_account listed) \<union> set names"
proof -
  have n: "names \<noteq> [] \<Longrightarrow> key_in_use names listed = last names" by (simp add: key_in_use_def)
  have l: "newest None listed = Some i \<Longrightarrow> i \<in> set listed" for i using newest_in by fastforce
  show "key_in_use names listed = [] \<longleftrightarrow> names = [] \<and> listed = []"
  proof (cases "names = [] \<and> listed \<noteq> []")
    case True
    then obtain i where "newest None listed = Some i" using newest_None [of None listed] by auto
    moreover from this l have "ki_account i \<noteq> []" using assms by force
    ultimately show ?thesis using True by (simp add: key_in_use_def)
  next
    case False
    moreover have "names \<noteq> [] \<Longrightarrow> last names \<noteq> []" using assms by (metis UnI2 last_in_set)
    ultimately show ?thesis by (cases "names = []") (auto simp: key_in_use_def)
  qed
  show "key_in_use names listed \<noteq> [] \<Longrightarrow> key_in_use names listed \<in> set (map ki_account listed) \<union> set names"
    using n l by (cases "names = []") (auto simp: key_in_use_def split: option.splits)
qed

section \<open>What a wipe leaves\<close>

definition service_keys :: "keychain_instance \<Rightarrow> keychain \<Rightarrow> string set" where
  "service_keys k w = {ki_account i |i. i \<in> set (kc_items w) \<and> ki_service i = kp_service k}"

definition listing :: "keychain_instance \<Rightarrow> keychain \<Rightarrow> kitem list" where
  "listing k w = filter (\<lambda>i. ki_service i = kp_service k) (kc_items w)"

lemma listed_keys: "set (map ki_account (listing k w)) = service_keys k w"
  by (auto simp: listing_def service_keys_def)

lemma wiped_listed:
  assumes "wipe_listed (listing k w0) k w = (e, k', w')" and "kc_items w = kc_items w0" and "honest w"
    and "[] \<notin> set (map ki_account (kc_items w)) \<union> set (kp_names k)"
  shows "if e = None then kp_names k' = [] \<and> kc_items w' = without (service_keys k w \<union> set (kp_names k)) (kc_items w)
    else k' = k \<and> (\<exists>bs. bs \<subseteq> service_keys k w \<union> set (kp_names k) - {key_in_use (kp_names k) (listing k w)}
      \<and> kc_items w' = without bs (kc_items w))"
proof -
  let ?u = "key_in_use (kp_names k) (listing k w)" and ?all = "service_keys k w \<union> set (kp_names k)"
  have l: "listing k w0 = listing k w" using assms(2) by (simp add: listing_def)
  obtain e1 w1 where r: "remove_keys (other_keys (kp_names k) (listing k w)) w = (e1, w1)" by fastforce
  have others: "set (other_keys (kp_names k) (listing k w)) = ?all - {?u, []}"
    using others_set [of "kp_names k" "listing k w"] by (simp only: listed_keys)
  from removed_all [OF r assms(3)] obtain bs where h: "honest w1" and bs: "bs \<subseteq> ?all - {?u, []}"
    "kc_items w1 = without bs (kc_items w)" "e1 = None \<longrightarrow> bs = ?all - {?u, []}" unfolding others by blast
  have plain: "[] \<notin> set (map ki_account (listing k w)) \<union> set (kp_names k)"
    using assms(4) by (auto simp: listing_def)
  then have plain': "[] \<notin> ?all" unfolding listed_keys .
  note use = in_use_named [OF plain, unfolded listed_keys]
  show ?thesis
  proof (cases e1)
    case (Some st)
    then have "e = Some (status_error ''delete an old key'' st False)" "k' = k" "w' = w1"
      using assms(1) r unfolding l by (simp_all add: wipe_listed_def)
    moreover have "bs \<subseteq> ?all - {?u}" using bs(1) by auto
    ultimately show ?thesis using bs(2) by auto
  next
    case None
    then have b: "bs = ?all - {?u}" using bs(3) plain' by auto
    show ?thesis
    proof (cases "?u = []")
      case True
      then have "?all = {}" using use(1) listed_keys [of k w] by auto
      moreover have "e = None" "kp_names k' = []" "w' = w1"
        using assms(1) r None True unfolding l by (auto simp: wipe_listed_def)
      ultimately show ?thesis using b bs(2) by simp
    next
      case False
      obtain st w2 where rm: "kc_remove ?u w1 = (st, w2)" by fastforce
      note rem = removed [OF rm h]
      have "w' = w2" and e: "if st \<noteq> errSecSuccess \<and> st \<noteq> errSecItemNotFound
          then e = Some (status_error ''delete the key'' st False) \<and> k' = k else e = None \<and> kp_names k' = []"
        using assms(1) r None False rm unfolding l by (auto simp: wipe_listed_def split: if_splits)
      moreover have "bs \<union> {?u} = ?all" using b use(2) [OF False] by auto
      ultimately show ?thesis using rem(1) bs(2) b by (auto simp: without_without split: if_splits)
    qed
  qed
qed

lemma wiped:
  assumes "keychain_wipe k w = (e, k', w')" and "honest w"
    and "[] \<notin> set (map ki_account (kc_items w)) \<union> set (kp_names k)"
  shows "if e = None then kp_names k' = [] \<and> kc_items w' = without (service_keys k w \<union> set (kp_names k)) (kc_items w)
    else k' = k \<and> (\<exists>bs. bs \<subseteq> service_keys k w \<union> set (kp_names k) - {key_in_use (kp_names k) (listing k w)}
      \<and> kc_items w' = without bs (kc_items w))"
proof -
  have none: "is = without {} is" for "is" by (simp add: without_def)
  obtain r w1 where l: "kc_list (kp_service k) w = (r, w1)" by fastforce
  obtain st w0 where n: "kc_next w = (st, w0)" by fastforce
  have items: "kc_items w1 = kc_items w" using list_items(1) [OF l] .
  have "w1 = w0" using l n by (auto simp: kc_list_def Let_def split: if_splits)
  then have h: "honest w1" using next_honest [OF n assms(2)] by simp
  have same: "service_keys k w1 = service_keys k w" "listing k w1 = listing k w"
    using items by (simp_all add: service_keys_def listing_def)
  have lst: "r = Inr ls \<Longrightarrow> ls = listing k w" for ls using list_items(2) [OF l] by (simp add: listing_def)
  have nf: "r = Inl errSecItemNotFound \<Longrightarrow> listing k w = []"
    using l n next_honest [OF n assms(2)] next_items [OF n]
    by (auto simp: kc_list_def Let_def listing_def split: if_splits)
  show ?thesis
  proof (cases "keychain_usable w \<noteq> None \<or> kp_dir_err k \<or> (\<exists>st. r = Inl st \<and> st \<noteq> errSecItemNotFound)")
    case True
    then have "e \<noteq> None" "k' = k" "kc_items w' = without {} (kc_items w)"
      using assms(1) l items none [of "kc_items w"]
      by (cases "keychain_usable w"; cases "kp_dir_err k"; auto simp: keychain_wipe_def)+
    then show ?thesis by auto
  next
    case False
    then have "wipe_listed (listing k w) k w1 = (e, k', w')"
      using assms(1) l lst nf by (cases r) (auto simp: keychain_wipe_def)
    from wiped_listed [OF this items h, unfolded same items, OF assms(3)] show ?thesis .
  qed
qed

section \<open>What wrapping leaves, and the protector of a Keychain\<close>

definition item_named :: "string \<Rightarrow> keychain \<Rightarrow> kitem option" where
  "item_named a w = find (\<lambda>i. ki_account i = a) (kc_items w)"

lemma wrapped_item:
  assumes "keychain_wrap seal random key k w = (Inr blob, k', w')"
  obtains kek i nonce it where "random = Some (kek, i, nonce)" and "length key = DataKeyLen" and "\<not> kp_dir_err k"
    and "keychain_usable w = None" and "item_named (hex i) w' = Some it" and "ki_data it = kek" and "ki_device_only it" and "\<not> ki_sync it"
    and "ki_service it = kp_service k" and "k' = remember (hex i) k"
    and "blob = keychain_head i @ nonce @ seal kek nonce key (keychainADLabel @ keychain_head i)"
proof -
  obtain kek i nonce where rnd: "random = Some (kek, i, nonce)" and u: "length key = DataKeyLen" "\<not> kp_dir_err k" "keychain_usable w = None"
    using assms by (auto simp: keychain_wrap_def split: if_splits option.splits)
  obtain st w1 where a: "kc_add (kp_service k) (hex i) kek w = (st, w1)" by fastforce
  obtain r w2 where g: "kc_get (hex i) w1 = (r, w2)" by fastforce
  have st: "st = errSecSuccess" using assms rnd u a by (auto simp: keychain_wrap_def split: if_splits)
  then obtain it where r: "r = Inr it" using assms rnd u a g by (cases r) (auto simp: keychain_wrap_def split: if_splits)
  then have it: "ki_data it = kek" "ki_device_only it" "\<not> ki_sync it" "ki_service it = kp_service k"
    and out: "blob = keychain_head i @ nonce @ seal kek nonce key (keychainADLabel @ keychain_head i)"
      "k' = remember (hex i) k" "w' = w2"
    using assms rnd u a g st by (auto simp: keychain_wrap_def split: if_splits)
  have "item_named (hex i) w2 = Some it"
    using g r by (auto simp: kc_get_def item_named_def split: prod.splits if_splits option.splits)
  with that [OF rnd u _ it out(2,1)] out(3) show ?thesis by blast
qed

lemma decoded_keychain_blob:
  assumes "length i = keychainNameLen" and "length nonce = NonceLen" and "length sealed = DataKeyLen + Overhead"
  shows "decode_keychain_blob (keychain_head i @ nonce @ sealed) = Some (i, nonce, sealed)"
    and "take (1 + keychainNameLen) (keychain_head i @ nonce @ sealed) = keychain_head i"
  using assms by (simp_all add: decode_keychain_blob_def keychain_head_def keychainBlobLen_def keychainNameLen_def lengths)

record keychain_setting =
  kg_seal :: cipher
  kg_unseal :: opener
  kg_random :: "(string \<times> string \<times> string) option"
  kg_instance :: keychain_instance
  kg_before :: keychain
  kg_after :: keychain

definition keychain_protector :: "keychain_setting \<Rightarrow> protector" where
  "keychain_protector S = \<lparr>pr_name = KeychainName,
     pr_wrap = \<lambda>key. value_of (fst (keychain_wrap (kg_seal S) (kg_random S) key (kg_instance S) (kg_before S))),
     pr_unwrap = \<lambda>b. value_of (fst (keychain_unwrap (kg_unseal S) b (kg_instance S) (kg_after S)))\<rparr>"

text \<open>
  The AEAD's laws, the lengths of what is drawn, and a Keychain that, when the key is opened, is reachable and
  still holds the item as wrapping left it.
\<close>

definition keychain_outside :: "keychain_setting \<Rightarrow> bool" where
  "keychain_outside S = (aead (kg_seal S) (kg_unseal S) \<and> prefix keychainService (kp_service (kg_instance S))
     \<and> kc_entitled (kg_after S) = entitlementPresent \<and> kc_status (kg_after S) = []
     \<and> (\<forall>kek i nonce. kg_random S = Some (kek, i, nonce) \<longrightarrow>
          length kek = keychainKEKLen \<and> length i = keychainNameLen \<and> length nonce = NonceLen
          \<and> (\<forall>key b k' w'. keychain_wrap (kg_seal S) (kg_random S) key (kg_instance S) (kg_before S) = (Inr b, k', w')
               \<longrightarrow> item_named (hex i) (kg_after S) = item_named (hex i) w')))"

lemma keychain_wrapped_opens:
  assumes "keychain_wrap seal random key k w = (Inr blob, k', w')" and "aead seal unseal"
    and "random = Some (kek, i, nonce)" and "length kek = keychainKEKLen" and "length i = keychainNameLen" and "length nonce = NonceLen"
    and "prefix keychainService (kp_service k)" and "kc_entitled u = entitlementPresent" and "kc_status u = []"
    and "item_named (hex i) u = item_named (hex i) w'"
  shows "fst (keychain_unwrap unseal blob k2 u) = Inr key"
  using assms(1)
proof (rule wrapped_item)
  fix kek' i' nonce' it
  assume "random = Some (kek', i', nonce')" and len: "length key = DataKeyLen" and it: "item_named (hex i') w' = Some it"
    "ki_data it = kek'" "ki_device_only it" "\<not> ki_sync it" "ki_service it = kp_service k"
    and b: "blob = keychain_head i' @ nonce' @ seal kek' nonce' key (keychainADLabel @ keychain_head i')"
  then have [simp]: "i' = i" "kek' = kek" "nonce' = nonce" using assms(3) by auto
  let ?ct = "seal kek nonce key (keychainADLabel @ keychain_head i)"
  have ct: "length ?ct = DataKeyLen + Overhead" "unseal kek nonce ?ct (keychainADLabel @ keychain_head i) = Some key"
    using assms(2) len by (auto simp: aead_def)
  have "kc_get (hex i) u = (Inr it, u)"
    using assms(9,10) it(1) by (simp add: kc_get_def kc_next_def item_named_def)
  then show ?thesis
    using it assms(4,7,8) ct b decoded_keychain_blob [OF assms(5,6) ct(1)]
    by (simp add: keychain_unwrap_def keychain_usable_def)
qed

interpretation keychain: state_protector keychain_protector keychain_outside
proof
  show "protectorName (pr_name (keychain_protector S))" for S
    by (simp add: keychain_protector_def KeychainName_def protectorName_def lower_char_def byte_def)
next
  fix S key b
  assume out: "keychain_outside S" and "pr_wrap (keychain_protector S) key = Some b"
  then obtain k' w' where w: "keychain_wrap (kg_seal S) (kg_random S) key (kg_instance S) (kg_before S) = (Inr b, k', w')"
    by (cases "keychain_wrap (kg_seal S) (kg_random S) key (kg_instance S) (kg_before S)") (auto simp: keychain_protector_def)
  then obtain kek i nonce where "kg_random S = Some (kek, i, nonce)" by (rule wrapped_item)
  with out w have "fst (keychain_unwrap (kg_unseal S) b (kg_instance S) (kg_after S)) = Inr key"
    by (intro keychain_wrapped_opens [OF w]) (auto simp: keychain_outside_def)
  then show "pr_unwrap (keychain_protector S) b = Some key" by (simp add: keychain_protector_def)
qed

section \<open>Properties\<close>

text \<open>
  C19. Wiping deletes every item of this state directory and every item this instance wrapped or opened, and
  nothing else, or gives an error. With an error the key in use is still there: no call that can fail follows
  its deletion. It is the last one this instance wrapped or opened or, for one that opened nothing, the
  newest one listed.
\<close>

theorem wipe_spares_the_key_in_use:
  assumes "keychain_wipe k w = (e, k', w')" and "honest w"
    and "[] \<notin> set (map ki_account (kc_items w)) \<union> set (kp_names k)"
  shows "(if e = None
      then kp_names k' = [] \<and> kc_items w' = without (service_keys k w \<union> set (kp_names k)) (kc_items w)
      else k' = k \<and> item_named (key_in_use (kp_names k) (listing k w)) w' = item_named (key_in_use (kp_names k) (listing k w)) w
        \<and> without (service_keys k w \<union> set (kp_names k)) (kc_items w') = without (service_keys k w \<union> set (kp_names k)) (kc_items w))
    \<and> (if kp_names k \<noteq> [] then key_in_use (kp_names k) (listing k w) = last (kp_names k)
       else listing k w = [] \<or> (\<exists>i\<in>set (listing k w). ki_account i = key_in_use [] (listing k w)
         \<and> list_all (\<lambda>j. ki_created j \<le> ki_created i) (listing k w)))"
proof
  let ?u = "key_in_use (kp_names k) (listing k w)" and ?all = "service_keys k w \<union> set (kp_names k)"
  have named: "a \<notin> bs \<Longrightarrow> find (\<lambda>i. ki_account i = a) (without bs is) = find (\<lambda>i. ki_account i = a) is" for a bs "is"
    by (induction "is") (auto simp: without_def)
  have rest: "bs \<subseteq> ?all - {?u} \<Longrightarrow> without ?all (without bs is) = without ?all is" for bs "is"
    by (auto simp: without_without intro!: arg_cong [where f = "\<lambda>x. without x is"])
  have kept: "bs \<subseteq> ?all - {?u} \<Longrightarrow> find (\<lambda>i. ki_account i = ?u) (without bs is) = find (\<lambda>i. ki_account i = ?u) is" for bs "is"
    by (rule named) blast
  from wiped [OF assms] kept rest
  show "if e = None then kp_names k' = [] \<and> kc_items w' = without ?all (kc_items w)
      else k' = k \<and> item_named ?u w' = item_named ?u w \<and> without ?all (kc_items w') = without ?all (kc_items w)"
    by (auto simp: item_named_def)
  have plain: "\<forall>j\<in>set (listing k w). ki_account j \<noteq> []" using assms(3) by (force simp: listing_def)
  have "\<exists>i\<in>set l. ki_account i = key_in_use [] l \<and> list_all (\<lambda>j. ki_created j \<le> ki_created i) l"
    if "l \<noteq> []" "\<forall>j\<in>set l. ki_account j \<noteq> []" for l
  proof -
    from that(1) newest_None [of None l] have "newest None l \<noteq> None" by simp
    then obtain i where i: "newest None l = Some i" by blast
    then show ?thesis using newest_in [OF i] newest_is_newest [OF i that(2)] by (auto simp: key_in_use_def list_all_iff)
  qed
  with plain show "if kp_names k \<noteq> [] then ?u = last (kp_names k)
       else listing k w = [] \<or> (\<exists>i\<in>set (listing k w). ki_account i = key_in_use [] (listing k w)
         \<and> list_all (\<lambda>j. ki_created j \<le> ki_created i) (listing k w))"
    by (auto simp: key_in_use_def)
qed

text \<open>
  A wrapped key's own key is in the Keychain for this Mac only: when wrapping succeeds the item is there,
  with the key drawn, not synchronized, under this directory's service. And opening never uses an item that is
  synchronized, kept for more than this Mac, or not this program's.
\<close>

lemma keychain_items_stay_here:
  "(case keychain_wrap seal random key k w of
      (Inr blob, k', w') \<Rightarrow> (\<exists>kek i nonce it. random = Some (kek, i, nonce) \<and> item_named (hex i) w' = Some it
         \<and> ki_data it = kek \<and> ki_device_only it \<and> \<not> ki_sync it \<and> ki_service it = kp_service k
         \<and> blob = keychain_head i @ nonce @ seal kek nonce key (keychainADLabel @ keychain_head i) \<and> hex i \<in> set (kp_names k'))
    | (Inl e, k', w') \<Rightarrow> k' = k)
   \<and> (case keychain_unwrap unseal blob k w of
      (Inr key, k', w') \<Rightarrow> (\<exists>i nonce sealed it. decode_keychain_blob blob = Some (i, nonce, sealed)
         \<and> item_named (hex i) w = Some it \<and> ki_device_only it \<and> \<not> ki_sync it \<and> prefix keychainService (ki_service it)
         \<and> hex i \<in> set (kp_names k'))
    | (Inl e, k', w') \<Rightarrow> k' = k \<and> kc_items w' = kc_items w)"
proof
  show "case keychain_wrap seal random key k w of
      (Inr blob, k', w') \<Rightarrow> (\<exists>kek i nonce it. random = Some (kek, i, nonce) \<and> item_named (hex i) w' = Some it
         \<and> ki_data it = kek \<and> ki_device_only it \<and> \<not> ki_sync it \<and> ki_service it = kp_service k
         \<and> blob = keychain_head i @ nonce @ seal kek nonce key (keychainADLabel @ keychain_head i) \<and> hex i \<in> set (kp_names k'))
    | (Inl e, k', w') \<Rightarrow> k' = k"
  proof (cases "keychain_wrap seal random key k w")
    case (fields r k' w')
    show ?thesis
    proof (cases r)
      case (Inl e)
      then have "k' = k" using fields
        by (auto simp: keychain_wrap_def split: if_splits option.splits prod.splits sum.splits)
      with fields Inl show ?thesis by simp
    next
      case (Inr blob)
      with fields have "keychain_wrap seal random key k w = (Inr blob, k', w')" by simp
      then show ?thesis using fields Inr by (elim wrapped_item) (auto simp: remember_def)
    qed
  qed
next
  obtain r k' w' where u: "keychain_unwrap unseal blob k w = (r, k', w')" by (metis prod_cases3)
  have "case r of Inr key \<Rightarrow> (\<exists>i nonce sealed it. decode_keychain_blob blob = Some (i, nonce, sealed)
         \<and> item_named (hex i) w = Some it \<and> ki_device_only it \<and> \<not> ki_sync it \<and> prefix keychainService (ki_service it)
         \<and> hex i \<in> set (kp_names k'))
    | Inl e \<Rightarrow> k' = k \<and> kc_items w' = kc_items w"
  proof (cases "decode_keychain_blob blob = None \<or> keychain_usable w \<noteq> None")
    case True
    then show ?thesis using u by (auto simp: keychain_unwrap_def split: option.splits)
  next
    case False
    then obtain i nonce sealed where d: "decode_keychain_blob blob = Some (i, nonce, sealed)" "keychain_usable w = None" by auto
    obtain g w1 where g: "kc_get (hex i) w = (g, w1)" by fastforce
    note same = get_items [OF g]
    have "g = Inr it \<Longrightarrow> item_named (hex i) w = Some it" for it
      using g next_items [of w] by (auto simp: kc_get_def item_named_def split: prod.splits if_splits option.splits)
    then show ?thesis using u d g same
      by (cases g) (auto simp: keychain_unwrap_def remember_def split: if_splits option.splits)
  qed
  then show "case keychain_unwrap unseal blob k w of
      (Inr key, k', w') \<Rightarrow> (\<exists>i nonce sealed it. decode_keychain_blob blob = Some (i, nonce, sealed)
         \<and> item_named (hex i) w = Some it \<and> ki_device_only it \<and> \<not> ki_sync it \<and> prefix keychainService (ki_service it)
         \<and> hex i \<in> set (kp_names k'))
    | (Inl e, k', w') \<Rightarrow> k' = k \<and> kc_items w' = kc_items w"
    using u by (simp split: sum.splits)
qed

section \<open>Witness\<close>

definition demo_item :: "string \<Rightarrow> int \<Rightarrow> kitem" where
  "demo_item a t = \<lparr>ki_account = a, ki_service = ''vettid-agent/d'', ki_data = replicate 32 CHR ''k'', ki_device_only = True,
     ki_sync = False, ki_created = t\<rparr>"

text \<open>Two items; the listing and the first deletion work, the second deletion does not.\<close>

definition demo_keychain :: keychain where
  "demo_keychain = \<lparr>kc_items = [demo_item ''a'' 5, demo_item ''b'' 3], kc_status = [0, 0, -25308], kc_entitled = 1,
     kc_clock = 9, kc_stores = \<lambda>i. i\<rparr>"

theorem wipe_spares_the_key_in_use_witness:
  "\<exists>w'. keychain_wipe (new_keychain ''vettid-agent/d'' False) demo_keychain
       = (Some (ErrKeychainLocked (-25308)), new_keychain ''vettid-agent/d'' False, w')
     \<and> item_named ''a'' w' = Some (demo_item ''a'' 5) \<and> kc_items w' = [demo_item ''a'' 5]"
proof -
  let ?k = "new_keychain ''vettid-agent/d'' False"
  define w' where "w' = demo_keychain\<lparr>kc_items := [demo_item ''a'' 5], kc_status := []\<rparr>"
  note eval = demo_keychain_def demo_item_def new_keychain_def status_defs
  have wipe: "keychain_wipe ?k demo_keychain = (Some (ErrKeychainLocked (-25308)), ?k, w')"
    by (simp add: keychain_wipe_def eval keychain_usable_def entitlementPresent_def kc_list_def kc_next_def wipe_listed_def Let_def
        key_in_use_def other_keys_def kc_remove_def status_error_def w'_def)
  have h: "honest demo_keychain" by (simp add: honest_def eval)
  have plain: "[] \<notin> set (map ki_account (kc_items demo_keychain)) \<union> set (kp_names ?k)" by (simp add: eval)
  have u: "key_in_use (kp_names ?k) (listing ?k demo_keychain) = ''a''" by (simp add: key_in_use_def listing_def eval)
  have "item_named ''a'' w' = item_named ''a'' demo_keychain"
    using wipe_spares_the_key_in_use [OF wipe h plain] unfolding u by simp
  then show ?thesis using wipe by (simp add: item_named_def eval w'_def)
qed

end
