(* ===== verification/KeychainDarwin.thy ===== *)
theory KeychainDarwin
  imports Tpm Dpapi Keychain
begin

text \<open>
  \<open>internal/protect/keychain_darwin.go\<close>: the calls of the Security framework behind the Keychain protector (theory
  Keychain), the C functions and their Go callers: what each asks, and how it reads what the framework gives. The
  framework is outside: its status and its CoreFoundation values are arguments. Then the protectors each platform has
  (\<open>platform_*.go\<close>, \<open>select_other.go\<close>). Allocations that fail (\<open>memFullErr\<close>) are an argument, too.
\<close>

section \<open>CoreFoundation values\<close>

datatype cf = CfString string | CfBool bool | CfNumber "int option" | CfData string | CfDate int
  | CfDict "(string \<times> cf) list" | CfArray "cf list" | CfOther

definition vk_nomem :: int where "vk_nomem = -108"
definition vk_badresult :: int where "vk_badresult = -2070"
definition vk_badparam :: int where "vk_badparam = -50"
definition vk_toomany :: int where "vk_toomany = -25301"

text \<open>A C string ends at its first zero byte; \<open>CFStringGetCString\<close> fails when the buffer is too small.\<close>

definition c_string :: "string \<Rightarrow> string" where
  "c_string s = takeWhile (\<lambda>c. byte c \<noteq> 0) s"

definition get_c_string :: "nat \<Rightarrow> cf \<Rightarrow> string option" where
  "get_c_string cap v = (case v of CfString s \<Rightarrow> if length s < cap then Some (c_string s) else None | _ \<Rightarrow> None)"

section \<open>Queries\<close>

text \<open>What a query names; a value of a key, or that any value will do.\<close>

datatype qvalue = QText string | QYes | QNo | QAny | QOne | QAll | QBytes string | QConst string

type_synonym query = "(string \<times> qvalue) list"

definition vk_query :: query where
  "vk_query = [(''class'', QConst ''GenericPassword''), (''UseDataProtectionKeychain'', QYes)]"

text \<open>\<open>vk_account_query\<close>, and the queries of the calls; \<open>Inl\<close> is a status without a call.\<close>

definition vk_account_query :: "bool \<Rightarrow> string \<Rightarrow> int + query" where
  "vk_account_query mem account = (if account = [] then Inl vk_badparam else if \<not> mem then Inl vk_nomem
     else Inr (vk_query @ [(''Account'', QText account), (''Synchronizable'', QAny)]))"

definition vk_add :: "bool \<Rightarrow> string \<Rightarrow> string \<Rightarrow> string \<Rightarrow> string \<Rightarrow> int + query" where
  "vk_add mem service account lbl key = (if \<not> mem then Inl vk_nomem
     else Inr (vk_query @ [(''Service'', QText service), (''Account'', QText account), (''Label'', QText lbl),
       (''Accessible'', QConst ''WhenUnlockedThisDeviceOnly''), (''Synchronizable'', QNo), (''ValueData'', QBytes key)]))"

definition vk_get_query :: "bool \<Rightarrow> string \<Rightarrow> int + query" where
  "vk_get_query mem account = (if \<not> mem then Inl vk_nomem
     else Inr (vk_query @ [(''Account'', QText account), (''Synchronizable'', QAny), (''ReturnAttributes'', QYes),
       (''ReturnData'', QYes), (''MatchLimit'', QOne)]))"

definition vk_list_query :: "bool \<Rightarrow> string \<Rightarrow> int + query" where
  "vk_list_query mem service = (if service = [] then Inl vk_badparam else if \<not> mem then Inl vk_nomem
     else Inr (vk_query @ [(''Service'', QText service), (''Synchronizable'', QAny), (''ReturnAttributes'', QYes),
       (''MatchLimit'', QAll)]))"

text \<open>\<open>vk_retag\<close>'s query and update.\<close>

definition vk_retag :: "bool \<Rightarrow> string \<Rightarrow> string \<Rightarrow> int + query \<times> query" where
  "vk_retag mem account service = (if service = [] then Inl vk_badparam
     else (case vk_account_query mem account of Inl st \<Rightarrow> Inl st | Inr q \<Rightarrow> Inr (q, [(''Service'', QText service)])))"

definition vk_remove :: "bool \<Rightarrow> string \<Rightarrow> int + query" where
  "vk_remove mem account = vk_account_query mem account"

section \<open>Reading what the framework gives\<close>

text \<open>\<open>vk_entitlement\<close>: the task object, and the entitlement's value or an error.\<close>

definition vk_entitlement :: "bool \<Rightarrow> cf option \<Rightarrow> bool \<Rightarrow> int" where
  "vk_entitlement task v err = (if \<not> task then -1
     else (case v of None \<Rightarrow> if err then -1 else 0
       | Some (CfArray (x # xs)) \<Rightarrow> 1
       | Some _ \<Rightarrow> -1))"

fun vk_truthy :: "cf option \<Rightarrow> bool" where
  "vk_truthy None = False"
| "vk_truthy (Some (CfBool b)) = b"
| "vk_truthy (Some (CfNumber n)) = (case n of None \<Rightarrow> True | Some n \<Rightarrow> n \<noteq> 0)"
| "vk_truthy (Some _) = True"

record got_item =
  gi_data :: string
  gi_service :: string
  gi_device_only :: bool
  gi_sync :: bool

text \<open>The attribute's value is compared by \<open>CFEqual\<close>: \<open>this_device\<close> is the constant the items are made with.\<close>

definition this_device :: cf where "this_device = CfString ''WhenUnlockedThisDeviceOnly''"

definition vk_get :: "nat \<Rightarrow> nat \<Rightarrow> int \<Rightarrow> cf option \<Rightarrow> int + got_item" where
  "vk_get outcap servicecap st r =
    (if st \<noteq> errSecSuccess then Inl st
     else (case r of
         Some (CfDict m) \<Rightarrow> (case map_of m ''ValueData'' of
             Some (CfData d) \<Rightarrow>
               if outcap < length d then Inl vk_badresult
               else Inr \<lparr>gi_data = d,
                 gi_service = (case map_of m ''Service'' of None \<Rightarrow> []
                   | Some v \<Rightarrow> (case get_c_string servicecap v of None \<Rightarrow> [] | Some s \<Rightarrow> s)),
                 gi_device_only = (map_of m ''Accessible'' = Some this_device),
                 gi_sync = vk_truthy (map_of m ''Synchronizable'')\<rparr>
           | _ \<Rightarrow> Inl vk_badresult)
       | _ \<Rightarrow> Inl vk_badresult))"

definition keychainListMax :: nat where "keychainListMax = 256"
definition keychainSlotLen :: nat where "keychainSlotLen = 128"

fun vk_slots :: "nat \<Rightarrow> cf list \<Rightarrow> int + (string \<times> int) list" where
  "vk_slots slotlen [] = Inr []"
| "vk_slots slotlen (CfDict m # vs) = (case map_of m ''Account'' of None \<Rightarrow> Inl vk_badresult
     | Some a \<Rightarrow> (case get_c_string slotlen a of None \<Rightarrow> Inl vk_badresult
       | Some s \<Rightarrow>
         if s = [] then Inl vk_badresult
         else (case vk_slots slotlen vs of Inl st \<Rightarrow> Inl st
           | Inr ss \<Rightarrow> Inr ((s, case map_of m ''CreationDate'' of Some (CfDate t) \<Rightarrow> t | _ \<Rightarrow> 0) # ss))))"
| "vk_slots slotlen (_ # vs) = Inl vk_badresult"

definition vk_list :: "nat \<Rightarrow> nat \<Rightarrow> int \<Rightarrow> cf option \<Rightarrow> int + (string \<times> int) list" where
  "vk_list slotlen cap st r =
    (if st \<noteq> errSecSuccess then Inl st
     else (case r of Some (CfArray vs) \<Rightarrow> if cap < length vs then Inl vk_toomany else vk_slots slotlen vs
       | _ \<Rightarrow> Inl vk_badresult))"

section \<open>The Go callers\<close>

definition keychainLabel :: string where "keychainLabel = ''vettid-agent data key''"

definition darwin_add :: "bool \<Rightarrow> string \<Rightarrow> string \<Rightarrow> string \<Rightarrow> int + query" where
  "darwin_add mem service account key = (if key = [] then Inl vk_nomem
     else vk_add mem (c_string service) (c_string account) keychainLabel key)"

definition darwin_get :: "bool \<Rightarrow> string \<Rightarrow> int \<Rightarrow> cf option \<Rightarrow> int + got_item" where
  "darwin_get mem account st r = (case vk_get_query mem (c_string account) of Inl e \<Rightarrow> Inl e | Inr _ \<Rightarrow> vk_get 64 256 st r)"

definition darwin_list :: "bool \<Rightarrow> string \<Rightarrow> int \<Rightarrow> cf option \<Rightarrow> int + (string \<times> int) list" where
  "darwin_list mem service st r = (if service = [] then Inl vk_badparam
     else (case vk_list_query mem (c_string service) of Inl e \<Rightarrow> Inl e | Inr _ \<Rightarrow> vk_list keychainSlotLen keychainListMax st r))"

definition darwin_retag :: "bool \<Rightarrow> string \<Rightarrow> string \<Rightarrow> int + query \<times> query" where
  "darwin_retag mem account service = (if account = [] \<or> service = [] then Inl vk_badparam
     else vk_retag mem (c_string account) (c_string service))"

definition darwin_remove :: "bool \<Rightarrow> string \<Rightarrow> int + query" where
  "darwin_remove mem account = (if account = [] then Inl vk_badparam else vk_remove mem (c_string account))"

text \<open>\<open>canonicalDir\<close>: whether the directory opens, and what \<open>F_GETPATH\<close> writes into its buffer.\<close>

definition canonical_dir :: "string \<Rightarrow> bool \<Rightarrow> string option \<Rightarrow> string option" where
  "canonical_dir dir opened buf = (if dir = [] \<or> \<not> opened then None
     else (case buf of None \<Rightarrow> None
       | Some b \<Rightarrow> (let p = c_string b in if p = [] \<or> hd p \<noteq> CHR ''/'' then None else Some p)))"

definition NewKeychain :: "(string \<Rightarrow> string) \<Rightarrow> string option \<Rightarrow> keychain_instance" where
  "NewKeychain sha canonical = (case canonical of None \<Rightarrow> new_keychain [] True
     | Some p \<Rightarrow> new_keychain (keychain_dir_service sha p) False)"

section \<open>The protectors of a platform\<close>

text \<open>
  \<open>Platform\<close> and \<open>All\<close> in each build, by the protectors' names; \<open>OtherBuild\<close> has no platform protector (on macOS, a build
  without cgo).
\<close>

datatype build = LinuxBuild | WindowsBuild | MacBuild | OtherBuild

definition platform :: "build \<Rightarrow> string \<Rightarrow> bool" where
  "platform b name = (case b of LinuxBuild \<Rightarrow> name = TPMName | WindowsBuild \<Rightarrow> name = DPAPIName
     | MacBuild \<Rightarrow> name = KeychainName | OtherBuild \<Rightarrow> False)"

definition all_protectors :: "build \<Rightarrow> keychain \<Rightarrow> string list" where
  "all_protectors b w = (case b of LinuxBuild \<Rightarrow> [TPMName, PassphraseName] | WindowsBuild \<Rightarrow> [DPAPIName, PassphraseName]
     | MacBuild \<Rightarrow> keychain_protectors w | OtherBuild \<Rightarrow> [PassphraseName])"

definition choose_other :: "bool \<Rightarrow> string \<Rightarrow> choice" where
  "choose_other darwin goos = passphrase_choice
    (if darwin then ''this vettid-agent build was made without cgo, so it cannot use the macOS Keychain (only the signed vettid-agent app can)''
     else ''no platform protector in this build for '' @ goos)"

section \<open>Queries are narrow\<close>

lemma c_string_text: "\<forall>c\<in>set s. byte c \<noteq> 0 \<Longrightarrow> c_string s = s"
  by (simp add: c_string_def takeWhile_eq_all_conv)

text \<open>
  No call can touch an item it does not name: every query that reaches the framework is for the data protection
  keychain's generic passwords, and names an account or a service, which is not empty where items are listed,
  changed or deleted; and an item is only ever added for this device and not synchronized.
\<close>

lemma keychain_queries_are_narrow:
  "(case darwin_remove mem account of Inl _ \<Rightarrow> True
     | Inr q \<Rightarrow> take 2 q = vk_query \<and> (\<exists>a. a \<noteq> [] \<and> (''Account'', QText a) \<in> set q \<and> a = c_string account))
   \<and> (case darwin_retag mem account service of Inl _ \<Rightarrow> True
     | Inr (q, u) \<Rightarrow> take 2 q = vk_query \<and> (\<exists>a s. a \<noteq> [] \<and> s \<noteq> [] \<and> (''Account'', QText a) \<in> set q \<and> u = [(''Service'', QText s)]
         \<and> a = c_string account \<and> s = c_string service))
   \<and> (case vk_list_query mem service of Inl _ \<Rightarrow> True
     | Inr q \<Rightarrow> take 2 q = vk_query \<and> service \<noteq> [] \<and> (''Service'', QText service) \<in> set q)
   \<and> (case darwin_add mem service account key of Inl _ \<Rightarrow> True
     | Inr q \<Rightarrow> take 2 q = vk_query \<and> key \<noteq> [] \<and> (''Accessible'', QConst ''WhenUnlockedThisDeviceOnly'') \<in> set q
         \<and> (''Synchronizable'', QNo) \<in> set q \<and> (''ValueData'', QBytes key) \<in> set q)"
  by (auto simp: darwin_remove_def vk_remove_def darwin_retag_def vk_retag_def vk_account_query_def vk_list_query_def
      darwin_add_def vk_add_def vk_query_def split: sum.splits if_splits)

section \<open>The Keychain's items as the framework gives them\<close>

text \<open>The dictionary of an item.\<close>

definition cf_item :: "kitem \<Rightarrow> cf" where
  "cf_item i = CfDict [(''Account'', CfString (ki_account i)), (''Service'', CfString (ki_service i)),
     (''ValueData'', CfData (ki_data i)),
     (''Accessible'', if ki_device_only i then this_device else CfString ''WhenUnlocked''),
     (''Synchronizable'', CfBool (ki_sync i)), (''CreationDate'', CfDate (ki_created i))]"

definition plain_account :: "string \<Rightarrow> bool" where
  "plain_account a = (a \<noteq> [] \<and> length a < keychainSlotLen \<and> (\<forall>c\<in>set a. byte c \<noteq> 0))"

text \<open>What the model of the Keychain gives for a list or an item is what the callers read from the framework's answer.\<close>

lemma slots_of_items:
  "\<forall>i\<in>set is. plain_account (ki_account i) \<Longrightarrow> vk_slots keychainSlotLen (map cf_item is) = Inr (map (\<lambda>i. (ki_account i, ki_created i)) is)"
  by (induction "is") (simp_all add: cf_item_def get_c_string_def plain_account_def c_string_text)

lemma listed_as_modelled:
  assumes "kc_list service w = (Inr is, w')" and "service \<noteq> []" and "\<forall>c\<in>set service. byte c \<noteq> 0"
    and "length is \<le> keychainListMax" and "\<forall>i\<in>set is. plain_account (ki_account i)"
  shows "darwin_list True service errSecSuccess (Some (CfArray (map cf_item is))) = Inr (map (\<lambda>i. (ki_account i, ki_created i)) is)"
  using assms slots_of_items [OF assms(5)]
  by (simp add: darwin_list_def vk_list_query_def c_string_text vk_list_def)

lemma read_as_modelled:
  assumes "length (ki_data i) \<le> 64" and "length (ki_service i) < 256" and "\<forall>c\<in>set (ki_service i). byte c \<noteq> 0"
  shows "darwin_get True account errSecSuccess (Some (cf_item i)) = Inr \<lparr>gi_data = ki_data i, gi_service = ki_service i,
    gi_device_only = ki_device_only i, gi_sync = ki_sync i\<rparr>"
  using assms by (simp add: darwin_get_def vk_get_query_def vk_get_def cf_item_def get_c_string_def c_string_text this_device_def)

text \<open>A listing is read whole or not at all: no item that was there is missing from one that succeeds.\<close>

lemma slots_whole: "vk_slots n vs = Inr ss \<Longrightarrow> length ss = length vs"
  by (induction n vs arbitrary: ss rule: vk_slots.induct) (auto split: option.splits sum.splits if_splits)

lemma listing_is_whole:
  "darwin_list mem service st r = Inr ss \<Longrightarrow> \<exists>vs. r = Some (CfArray vs) \<and> length ss = length vs \<and> length vs \<le> keychainListMax"
  by (auto simp: darwin_list_def vk_list_def dest: slots_whole split: if_splits sum.splits option.splits cf.splits)

text \<open>Every protector a build can make a state file with is asked when all are wiped, unless it cannot have made one.\<close>

lemma all_covers_platform:
  "platform b name \<Longrightarrow> name \<in> set (all_protectors b w) \<or> b = MacBuild \<and> kc_entitled w = entitlementAbsent"
  by (auto simp: platform_def all_protectors_def keychain_protectors_def split: build.splits)

lemma canonical_is_absolute: "canonical_dir dir opened buf = Some p \<Longrightarrow> \<exists>q. p = CHR ''/'' # q \<and> dir \<noteq> []"
  by (cases p) (auto simp: canonical_dir_def Let_def split: option.splits if_splits)

end
