(* ===== verification/Protectors.thy ===== *)
theory Protectors
  imports Tpm Dpapi Keychain
begin

text \<open>
  \<open>internal/pairing/protector.go\<close>: the operator's choice of a protector. \<open>New\<close> makes the protector of a new
  pairing and \<open>Resolve\<close> finds the one an existing state file's header names. What \<open>ChooseProtector\<close> answers
  on this system (theories Tpm, Dpapi and Keychain), the platform's protectors and the DPAPI notices are
  arguments.
\<close>

section \<open>State and environment\<close>

text \<open>
  \<open>Protectors\<close>: the flags, the passphrase already read, the resolver's cached passphrase protector (its
  passphrase) and its error. \<open>px_asked\<close> counts the times the terminal was asked.
\<close>

record protectors =
  px_passphrase :: bool
  px_source :: source
  px_pass :: "string option"
  px_no_prompt :: bool
  px_cached :: "string option"
  px_error :: "(source_error + pass_new_error) option"
  px_asked :: nat

record choosing =
  cg_lib :: pass_lib
  cg_io :: source_io
  cg_random :: "(string \<times> string) option"
  cg_choice :: "string + choice"
  cg_platform :: "string \<Rightarrow> protector option"
  cg_notices :: "string list"

datatype new_error = ChooseFailed string | SourceNotWanted string | NotAvailable string | PassUnread source_error
  | PassWeak weakness | PassBad pass_new_error

definition source_given :: "protectors \<Rightarrow> bool" where
  "source_given c = (px_pass c \<noteq> None \<or> so_fd (px_source c) \<noteq> None \<or> so_file (px_source c))"

definition read_pass :: "choosing \<Rightarrow> bool \<Rightarrow> protectors \<Rightarrow> (source_error + string) \<times> protectors" where
  "read_pass E confirm c = (case px_pass c of
       Some p \<Rightarrow> (Inr p, c)
     | None \<Rightarrow>
       if px_no_prompt c \<and> so_fd (px_source c) = None \<and> \<not> so_file (px_source c) then (Inl NoPromptAllowed, c)
       else (case source_read (pa_unicode (cg_lib E)) (cg_io E) (px_source c) confirm of
           (r, asked) \<Rightarrow> (r, if asked then c\<lparr>px_asked := px_asked c + 1\<rparr> else c)))"

definition passphrase_of :: "choosing \<Rightarrow> string \<Rightarrow> protector" where
  "passphrase_of E p = passphrase_protector \<lparr>ps_lib = cg_lib E, ps_pass = Some p, ps_random = cg_random E\<rparr>"

section \<open>A new protector\<close>

definition with_passphrase :: "choosing \<Rightarrow> string \<Rightarrow> protectors \<Rightarrow> (new_error + protector \<times> string) \<times> protectors" where
  "with_passphrase E reason c = (case read_pass E True c of
       (Inl e, c) \<Rightarrow> (Inl (PassUnread e), c)
     | (Inr p, c) \<Rightarrow> (case check_strength (pa_unicode (cg_lib E)) p of Some w \<Rightarrow> (Inl (PassWeak w), c)
       | None \<Rightarrow> (case new_passphrase (pa_unicode (cg_lib E)) p of Inl e \<Rightarrow> (Inl (PassBad e), c)
         | Inr q \<Rightarrow> (Inr (passphrase_of E q, reason @ ''.'' @ [char_byte 10] @ NotMachineBound), c))))"

definition bound_notice :: "choosing \<Rightarrow> choice \<Rightarrow> string" where
  "bound_notice E ch = ''Keys are bound to this computer: '' @ ch_reason ch @ ''.''
     @ (if ch_protector ch = DPAPIName then concat (map (\<lambda>n. char_byte 10 # n) (cg_notices E)) else [])"

definition new_protector :: "choosing \<Rightarrow> protectors \<Rightarrow> (new_error + protector \<times> string) \<times> protectors" where
  "new_protector E c = (case cg_choice E of Inl e \<Rightarrow> (Inl (ChooseFailed e), c)
     | Inr ch \<Rightarrow>
       if ch_protector ch \<noteq> PassphraseName then
         (if px_passphrase c then with_passphrase E ''passphrase chosen with --passphrase'' c
          else if source_given c then (Inl (SourceNotWanted (ch_reason ch)), c)
          else (case cg_platform E (ch_protector ch) of None \<Rightarrow> (Inl (NotAvailable (ch_protector ch)), c)
            | Some p \<Rightarrow> (Inr (p, bound_notice E ch), c)))
       else with_passphrase E (ch_reason ch) c)"

section \<open>The protector of a state file\<close>

definition resolve :: "choosing \<Rightarrow> string \<Rightarrow> protectors \<Rightarrow> protector option \<times> protectors" where
  "resolve E name c =
    (if name \<noteq> PassphraseName then (cg_platform E name, c)
     else (case px_cached c of
         Some p \<Rightarrow> (Some (passphrase_of E p), c)
       | None \<Rightarrow> (case read_pass E False c of
           (Inl e, c) \<Rightarrow> (None, c\<lparr>px_error := Some (Inl e)\<rparr>)
         | (Inr p, c) \<Rightarrow> (case new_passphrase (pa_unicode (cg_lib E)) p of
             Inl e \<Rightarrow> (None, c\<lparr>px_error := Some (Inr e)\<rparr>)
           | Inr q \<Rightarrow> (Some (passphrase_of E q), c\<lparr>px_cached := Some q\<rparr>)))))"

definition clear_protectors :: "protectors \<Rightarrow> protectors" where
  "clear_protectors c = c\<lparr>px_pass := None, px_cached := None\<rparr>"

datatype protectors_call = CallNew choosing | CallResolve choosing string | CallClear

fun after_call :: "protectors_call \<Rightarrow> protectors \<Rightarrow> protectors" where
  "after_call (CallNew E) c = snd (new_protector E c)"
| "after_call (CallResolve E n) c = snd (resolve E n c)"
| "after_call CallClear c = clear_protectors c"

section \<open>Reading\<close>

lemma read_pass_frame:
  assumes "read_pass E confirm c = (r, c')"
  shows "c' = c \<or> (c' = c\<lparr>px_asked := px_asked c + 1\<rparr> \<and> \<not> px_no_prompt c \<and> so_fd (px_source c) = None \<and> \<not> so_file (px_source c)
     \<and> px_pass c = None)"
  using assms by (auto simp: read_pass_def source_read_def split: option.splits if_splits prod.splits)

lemma with_passphrase_frame:
  "\<exists>r confirm. read_pass E confirm c = (r, snd (with_passphrase E reason c))"
proof -
  obtain r c' where "read_pass E True c = (r, c')" by fastforce
  then show ?thesis
    by (intro exI [of _ r] exI [of _ True]) (auto simp: with_passphrase_def split: sum.split option.split)
qed

lemma new_frame: "snd (new_protector E c) = c \<or> (\<exists>r confirm. read_pass E confirm c = (r, snd (new_protector E c)))"
  using with_passphrase_frame [of E c] by (auto simp: new_protector_def split: sum.split option.split)

lemma resolve_frame:
  "\<exists>cc e. snd (resolve E n c) = c\<lparr>px_cached := cc, px_error := e\<rparr>
     \<or> (\<exists>r confirm c'. read_pass E confirm c = (r, c') \<and> snd (resolve E n c) = c'\<lparr>px_cached := cc, px_error := e\<rparr>)"
proof (cases "n \<noteq> PassphraseName \<or> px_cached c \<noteq> None")
  case True
  then have "snd (resolve E n c) = c" by (auto simp: resolve_def)
  then show ?thesis by (intro exI [of _ "px_cached c"] exI [of _ "px_error c"]) simp
next
  case False
  obtain r c' where rd: "read_pass E False c = (r, c')" by fastforce
  have "\<exists>cc e. snd (resolve E n c) = c'\<lparr>px_cached := cc, px_error := e\<rparr>"
  proof (cases r)
    case (Inl x)
    with False rd have "snd (resolve E n c) = c'\<lparr>px_error := Some (Inl x)\<rparr>" by (simp add: resolve_def)
    then show ?thesis by (intro exI [of _ "px_cached c'"] exI [of _ "Some (Inl x)"]) simp
  next
    case (Inr p)
    show ?thesis
    proof (cases "new_passphrase (pa_unicode (cg_lib E)) p")
      case (Inl x)
      with False rd Inr have "snd (resolve E n c) = c'\<lparr>px_error := Some (Inr x)\<rparr>" by (simp add: resolve_def)
      then show ?thesis by (intro exI [of _ "px_cached c'"] exI [of _ "Some (Inr x)"]) simp
    next
      case (Inr q)
      with False rd \<open>r = Inr p\<close> have "snd (resolve E n c) = c'\<lparr>px_cached := Some q\<rparr>" by (simp add: resolve_def)
      then show ?thesis by (intro exI [of _ "Some q"] exI [of _ "px_error c'"]) simp
    qed
  qed
  with rd show ?thesis by blast
qed

text \<open>What every call keeps: the flags; and the terminal is asked only where it may be.\<close>

definition never_asks :: "protectors \<Rightarrow> bool" where
  "never_asks c = (px_no_prompt c \<or> so_fd (px_source c) \<noteq> None \<or> so_file (px_source c))"

definition same_flags :: "protectors \<Rightarrow> protectors \<Rightarrow> bool" where
  "same_flags c c' = (px_no_prompt c' = px_no_prompt c \<and> px_source c' = px_source c \<and> px_passphrase c' = px_passphrase c)"

lemma read_pass_keeps:
  "read_pass E confirm c = (r, c') \<Longrightarrow> same_flags c c' \<and> (never_asks c \<longrightarrow> px_asked c' = px_asked c)
     \<and> px_asked c \<le> px_asked c' \<and> px_asked c' \<le> px_asked c + 1"
  by (drule read_pass_frame) (auto simp: same_flags_def never_asks_def)

lemma call_keeps:
  "same_flags c (after_call x c) \<and> (never_asks c \<longrightarrow> px_asked (after_call x c) = px_asked c)
     \<and> px_asked c \<le> px_asked (after_call x c) \<and> px_asked (after_call x c) \<le> px_asked c + 1"
proof (cases x)
  case (CallNew E)
  with new_frame [of E c] read_pass_keeps show ?thesis by (auto simp: same_flags_def)
next
  case (CallResolve E n)
  with resolve_frame [of E n c] read_pass_keeps show ?thesis by (auto simp: same_flags_def)
next
  case CallClear
  then show ?thesis by (simp add: same_flags_def clear_protectors_def)
qed

lemma never_asks_same: "same_flags c c' \<Longrightarrow> never_asks c' = never_asks c"
  by (simp add: same_flags_def never_asks_def)

lemma calls_keep:
  "same_flags c (fold after_call xs c) \<and> (never_asks c \<longrightarrow> px_asked (fold after_call xs c) = px_asked c)
     \<and> px_asked c \<le> px_asked (fold after_call xs c) \<and> px_asked (fold after_call xs c) \<le> px_asked c + length xs"
proof (induction xs arbitrary: c)
  case (Cons x xs)
  from Cons.IH [of "after_call x c"] call_keeps [of c x] never_asks_same [of c "after_call x c"]
  show ?case by (auto simp: same_flags_def)
qed (simp add: same_flags_def)

section \<open>What is made\<close>

lemma made_with_passphrase:
  assumes "with_passphrase E reason c = (Inr (P, notice), c')"
  obtains p where "fst (read_pass E True c) = Inr p" and "p \<noteq> []" and "check_strength (pa_unicode (cg_lib E)) p = None"
    and "P = passphrase_of E (un_nfc (pa_unicode (cg_lib E)) p)" and "suffix NotMachineBound notice"
  using assms
  by (auto simp: with_passphrase_def new_passphrase_def suffix_def split: prod.splits sum.splits option.splits if_splits)

lemma made_new:
  assumes "new_protector E c = (Inr (P, notice), c')"
  shows "(\<exists>ch. cg_choice E = Inr ch \<and> ch_protector ch \<noteq> PassphraseName \<and> \<not> px_passphrase c \<and> \<not> source_given c
       \<and> cg_platform E (ch_protector ch) = Some P \<and> notice = bound_notice E ch \<and> c' = c)
    \<or> (\<exists>p. fst (read_pass E True c) = Inr p \<and> p \<noteq> [] \<and> check_strength (pa_unicode (cg_lib E)) p = None
       \<and> P = passphrase_of E (un_nfc (pa_unicode (cg_lib E)) p) \<and> suffix NotMachineBound notice
       \<and> (px_passphrase c \<or> (\<exists>ch. cg_choice E = Inr ch \<and> ch_protector ch = PassphraseName)))"
  using assms
  by (auto simp: new_protector_def elim!: made_with_passphrase split: sum.splits if_splits option.splits)

lemma pass_outside_any:
  assumes "aead (pa_seal L) (pa_unseal L)" and "\<forall>salt nonce. rnd = Some (salt, nonce) \<longrightarrow> length salt = saltLen \<and> length nonce = NonceLen"
  shows "pass_outside \<lparr>ps_lib = L, ps_pass = p, ps_random = rnd\<rparr>"
  using assms by (simp add: pass_outside_def)

text \<open>Opening does not depend on what was drawn when wrapping.\<close>

lemma passphrase_of_unwrap:
  "cg_lib E = cg_lib E' \<Longrightarrow> pr_unwrap (passphrase_of E p) = pr_unwrap (passphrase_of E' p)"
  by (simp add: passphrase_of_def passphrase_protector_def)

lemma passphrase_of_name: "pr_name (passphrase_of E p) = PassphraseName"
  by (simp add: passphrase_of_def passphrase_protector_def)

lemma resolved_passphrase:
  assumes "px_cached c = None" and "fst (read_pass E False c) = Inr p"
    and "p \<noteq> []" and "length p \<le> MaxBytes" and "valid_utf8 p"
  shows "fst (resolve E PassphraseName c) = Some (passphrase_of E (un_nfc (pa_unicode (cg_lib E)) p))"
  using assms by (auto simp: resolve_def new_passphrase_def split: prod.splits)

lemma strong_form:
  assumes "check_strength N p = None"
  shows "length p \<le> MaxBytes" and "valid_utf8 p"
  using assms by (simp_all add: strength_accepts MaxBytes_def Let_def)

section \<open>Properties\<close>


text \<open>
  C35. The terminal is never asked for a passphrase where it may not be: with \<open>NoPrompt\<close>, or once a source was
  given, no sequence of \<open>New\<close>, \<open>Resolve\<close> and \<open>Clear\<close>, whatever the platform and the sources answer, asks; and
  none of them changes the operator's flags.
\<close>

theorem terminal_is_not_asked:
  "same_flags c (fold after_call xs c) \<and> px_asked c \<le> px_asked (fold after_call xs c)
   \<and> px_asked (fold after_call xs c)
      \<le> px_asked c + (if never_asks c then 0 else length xs)"
  using calls_keep [of c xs] by auto

section \<open>Witness\<close>

definition demo_choosing :: choosing where
  "demo_choosing = \<lparr>cg_lib = demo_pass_lib,
     cg_io = \<lparr>so_euid = 1000, so_open_stores = 0, so_kind = None, so_input = [], so_content = None, so_terminal = False,
       so_first = None, so_again = None\<rparr>,
     cg_random = Some (replicate saltLen CHR ''s'', replicate NonceLen CHR ''n''),
     cg_choice = Inr (passphrase_choice ''no TPM found''), cg_platform = \<lambda>_. None, cg_notices = []\<rparr>"

definition demo_protectors :: protectors where
  "demo_protectors = \<lparr>px_passphrase = False, px_source = \<lparr>so_fd = Some 3, so_file = False\<rparr>,
     px_pass = Some ''Correct horse 7'', px_no_prompt = True, px_cached = None, px_error = None, px_asked = 0\<rparr>"


end
