(* ===== verification/Cmd.thy ===== *)
theory Cmd
  imports Access LeashInfo Protectors
begin

text \<open>
  \<open>cmd/vettid-agent\<close>: the choice of the command, what \<open>version\<close> and \<open>status\<close> print, and how \<open>mcp\<close> comes
  from its flags to the paired record it serves. Flag parsing is an argument (the parsed flags), and so are
  the build's information, the clock's formats and the store's system calls.
\<close>

section \<open>The choice of the command\<close>

datatype command_end = Usage bool nat | NotYet string | UnknownCommand string | RunCommand string "string list"

text \<open>The commands and whether they can be run yet; \<open>Usage\<close> is on standard output or not, with the exit code.\<close>

definition commands :: "(string \<times> bool) list" where
  "commands = [(''pair'', True), (''mcp'', True), (''status'', True), (''forget'', False), (''version'', True)]"

definition run_command :: "string list \<Rightarrow> command_end" where
  "run_command args = (case args of [] \<Rightarrow> Usage False 2
     | name # rest \<Rightarrow>
       if name \<in> {''help'', ''-h'', ''-help'', ''--help''} then Usage True 0
       else (case find (\<lambda>(n, _). n = name) commands of
           Some (_, True) \<Rightarrow> RunCommand name rest
         | Some (_, False) \<Rightarrow> NotYet name
         | None \<Rightarrow> UnknownCommand name))"

section \<open>The version\<close>

definition parse_release_stamp :: "string \<Rightarrow> (string \<times> string) option" where
  "parse_release_stamp stamp = (case split_on (CHR ''/'') stamp of
       [a, version, commit] \<Rightarrow>
         if a \<noteq> ''vettid-agent-release'' \<or> version = [] \<or> length commit \<noteq> 40 then None else Some (version, commit)
     | _ \<Rightarrow> None)"

record version_info =
  vi_version :: string
  vi_commit :: string
  vi_modified :: bool
  vi_go :: string
  vi_devstack :: bool

text \<open>\<open>debug.BuildInfo\<close>: the main module's version, the Go version and the settings.\<close>

record build_info =
  bi_main :: string
  bi_go :: string
  bi_settings :: "(string \<times> string) list"

fun version_setting :: "string \<times> string \<Rightarrow> version_info \<Rightarrow> version_info" where
  "version_setting (k, x) v =
    (if k = ''vcs.revision'' then (if x \<noteq> [] then v\<lparr>vi_commit := x\<rparr> else v)
     else if k = ''vcs.modified'' then v\<lparr>vi_modified := (x = ''true'')\<rparr>
     else if k = ''-tags'' then (if ''devstack'' \<in> set (split_on (CHR '','') x) then v\<lparr>vi_devstack := True\<rparr> else v)
     else v)"

definition version_from :: "string \<Rightarrow> build_info option \<Rightarrow> version_info" where
  "version_from go bi =
    (let v = \<lparr>vi_version = ''(devel)'', vi_commit = ''unknown'', vi_modified = False, vi_go = go, vi_devstack = False\<rparr> in
     case bi of None \<Rightarrow> v
     | Some b \<Rightarrow>
       (let v = (if bi_main b \<noteq> [] then v\<lparr>vi_version := bi_main b\<rparr> else v);
            v = (if bi_go b \<noteq> [] then v\<lparr>vi_go := bi_go b\<rparr> else v) in
        fold version_setting (bi_settings b) v))"

definition read_version :: "string \<Rightarrow> string \<Rightarrow> build_info option \<Rightarrow> version_info" where
  "read_version stamp go bi = (let v = version_from go bi in
     case parse_release_stamp stamp of None \<Rightarrow> v | Some (version, commit) \<Rightarrow> v\<lparr>vi_version := version, vi_commit := commit\<rparr>)"

definition version_lines :: "version_info \<Rightarrow> string list" where
  "version_lines v = [''vettid-agent '' @ vi_version v,
     ''commit: '' @ vi_commit v @ (if vi_modified v then '' (modified)'' else []), ''go: '' @ vi_go v]
     @ (if vi_devstack v then [''build: devstack (accepts a plain-HTTP relay on loopback, and VETTID_AGENT_DEVSTACK; not a release build)''] else [])"

section \<open>What status prints\<close>

definition printable_char :: "char \<Rightarrow> bool" where
  "printable_char c = (let b = byte c in 97 \<le> b \<and> b \<le> 122 \<or> 65 \<le> b \<and> b \<le> 90 \<or> 48 \<le> b \<and> b \<le> 57
     \<or> c \<in> set [CHR ''.'', CHR ''_'', CHR ''-'', CHR '' ''])"

definition printable :: "string \<Rightarrow> string" where
  "printable s = (let b = take 64 (filter printable_char s) in if b = [] then ''-'' else b)"

definition describe_approval :: "string \<Rightarrow> string" where
  "describe_approval a = (if a = ''ask'' then ''asks on your phone'' else if a = ''auto'' then ''allowed automatically'' else printable a)"

fun joined :: "string list \<Rightarrow> string" where
  "joined [] = []"
| "joined [x] = x"
| "joined (x # xs) = x @ '' '' @ joined xs"

definition grant_line :: "env \<Rightarrow> grant_info \<Rightarrow> string" where
  "grant_line E g = ''  '' @ printable (gi_scope g) @ '': '' @ describe_approval (gi_approval g)
     @ (if 0 < gi_per_hour g then '', up to '' @ show_nat (gi_per_hour g) @ '' an hour and '' @ show_nat (gi_per_day g)
          @ '' a day without asking'' else [])
     @ (case gi_expires g of None \<Rightarrow> [] | Some t \<Rightarrow> '', until '' @ ymdhm E t)
     @ (if gi_conns g \<noteq> [] then '', connections '' @ joined (map printable (gi_conns g)) else [])
     @ '' (grant '' @ printable (gi_id g) @ '')''"

definition write_grants :: "env \<Rightarrow> wire_lib \<Rightarrow> json option option \<Rightarrow> string \<Rightarrow> time \<Rightarrow> string list" where
  "write_grants E L raw device now = (case read_saved E L raw device now of
       None \<Rightarrow> [''Grants: the saved grants cannot be read (they are listed again from your vault when `vettid-agent mcp` next has access)'']
     | Some None \<Rightarrow> [''Grants: none saved yet (listed from your vault when `vettid-agent mcp` has access)'']
     | Some (Some (gs, suspended, as_of)) \<Rightarrow>
         (''Grants: '' @ show_nat (length gs) @ '', as your vault sent them on '' @ ymdhm E as_of)
         # (if suspended then [''  Paused by your vault after repeated refused requests: none can be used. You can resume this agent on your phone.''] else [])
         @ map (grant_line E) gs)"

text \<open>The members of the saved device shown here; what is not decoded stays empty.\<close>

definition device_member :: "string \<Rightarrow> json option \<Rightarrow> string" where
  "device_member n j = (case j of Some (JObj ms) \<Rightarrow> fst (dec_field n dec_string ms []) | _ \<Rightarrow> [])"

definition quote :: string where "quote = [CHR 0x22]"

text \<open>A protector's name in an accepted header is lower-case letters, digits and dashes: its quoted form is plain.\<close>

definition protector_label :: "string \<Rightarrow> string" where
  "protector_label n = (if n = ''tpm'' then ''the TPM'' else if n = ''dpapi'' then ''Windows DPAPI for this user''
     else quote @ sanitized n @ quote)"

definition pairing_lines :: "env \<Rightarrow> wire_lib \<Rightarrow> int \<Rightarrow> prec \<Rightarrow> time \<Rightarrow> string list" where
  "pairing_lines E L created rec now = (case pr_phase rec of
       PhasePaired \<Rightarrow>
         [''Paired: yes, as '' @ quote @ sanitized (device_member ''name'' (pr_device rec)) @ quote @ '' (device ''
            @ sanitized (device_member ''device_id'' (pr_device rec)) @ '' of vault ''
            @ sanitized (device_member ''vault_id'' (pr_device rec)) @ ''), on '' @ ymdhm E created,
          ''Access session: '' @ describe E (pr_access rec) now @ '' (as last saved; the vault is not contacted)'']
         @ write_grants E L (pr_leash rec) (device_member ''device_id'' (pr_device rec)) now
     | PhaseWaiting \<Rightarrow>
         if now < pr_deadline rec
         then [''Paired: not yet; waiting for approval on your phone until '' @ hm E (pr_deadline rec) @ '' (run `vettid-agent pair` to keep waiting)'']
         else [''Paired: no; an unfinished pairing timed out (the next `vettid-agent pair` discards it)'']
     | _ \<Rightarrow> [''Paired: no; an unfinished pairing (the next `vettid-agent pair` discards it)''])"

definition key_lines :: "string \<Rightarrow> string list \<Rightarrow> string list" where
  "key_lines name notices =
    (if name = PassphraseName then [''Keys: '' @ NotMachineBound]
     else (''Keys: protected by '' @ protector_label name @ '', bound to this computer'')
       # (if name = DPAPIName then map (\<lambda>n. ''  '' @ n) notices else []))"

definition write_status ::
  "env \<Rightarrow> wire_lib \<Rightarrow> string \<Rightarrow> string \<Rightarrow> int \<Rightarrow> string list \<Rightarrow> prec \<Rightarrow> time \<Rightarrow> string list" where
  "write_status E L dir protector created notices rec now =
    (''State directory: '' @ dir) # pairing_lines E L created rec now @ key_lines protector notices
    @ [''Read without taking the state directory's lock: if `vettid-agent mcp` runs for it, this is its last saved state.'']"

section \<open>status\<close>

datatype status_failure = StatusUsage | StatusUnreadable store_error
  | StatusRecord record_err

text \<open>
  \<open>runStatus\<close> after its flags: exit code 0 with what it prints, or an error with its code (said as the
  resolver's, when it has one: the two are not told apart here).
\<close>

record status_io =
  sx_env :: env
  sx_wire :: wire_lib
  sx_read :: "string \<Rightarrow> record_text"
  sx_around :: surround
  sx_dir_node :: dir_node
  sx_looks :: "nat \<Rightarrow> node"
  sx_choosing :: choosing
  sx_notices :: "string list"
  sx_now :: time

definition with_resolver :: "choosing \<Rightarrow> protectors \<Rightarrow> surround \<Rightarrow> surround" where
  "with_resolver E c U = U\<lparr>su_resolve := Some (\<lambda>n. fst (resolve E n c))\<rparr>"

definition run_status :: "status_io \<Rightarrow> protectors \<Rightarrow> string \<Rightarrow> bool \<Rightarrow> (status_failure + string list) \<times> nat" where
  "run_status X c dir args_left =
    (if dir = [] \<or> args_left then (Inl StatusUsage, 2)
     else (case fst (read_only (with_resolver (sx_choosing X) c (sx_around X)) (sx_dir_node X) (sx_looks X)) of
         Inl e \<Rightarrow>
           if e = ENotFound then (Inr [''State directory: '' @ dir, ''Not paired. Run `vettid-agent pair --state-dir '' @ dir @ ''`.''], 0)
           else (Inl (StatusUnreadable e), 1)
       | Inr (state, protector, created) \<Rightarrow> (case decode_record (sx_env X) (sx_read X state) of
           Inl e \<Rightarrow> (Inl (StatusRecord e), 1)
         | Inr rec \<Rightarrow> (Inr (write_status (sx_env X) (sx_wire X) dir protector created (sx_notices X) rec (sx_now X)), 0))))"

section \<open>mcp\<close>

text \<open>
  \<open>runMCP\<close> up to the connection: the flags, the passphrase from a descriptor (read before the state directory is
  opened), the store, and the paired record. \<open>None\<close> for a passphrase source that gives no descriptor.
\<close>

datatype mcp_error = McpUsage | McpPassphrase source_error | McpStore store_error | McpNotPaired | McpLoad store_error
  | McpRecord record_err | McpUnfinished

record mcp_io =
  mx_times :: env
  mx_read :: "string \<Rightarrow> record_text"
  mx_around :: surround
  mx_choosing :: choosing
  mx_made :: bool
  mx_dir_node :: dir_node
  mx_lock :: lock_end
  mx_wipe :: wipe_io
  mx_stat :: bool

definition mcp_flags_ok :: "string \<Rightarrow> bool \<Rightarrow> int \<Rightarrow> bool" where
  "mcp_flags_ok dir args_left minutes = (\<not> (dir = [] \<or> args_left \<or> minutes < 1 \<or> 1440 < minutes))"

definition mcp_passphrase :: "choosing \<Rightarrow> protectors \<Rightarrow> (source_error + protectors)" where
  "mcp_passphrase E c =
    (if so_fd (px_source c) = None then Inr c
     else (case source_read (pa_unicode (cg_lib E)) (cg_io E) (px_source c) False of
         (Inl e, _) \<Rightarrow> Inl e
       | (Inr pass, _) \<Rightarrow> Inr (c\<lparr>px_pass := Some pass\<rparr>)))"

definition mcp_record :: "mcp_io \<Rightarrow> protectors \<Rightarrow> store \<Rightarrow> dir \<Rightarrow> store \<times> (mcp_error + prec)" where
  "mcp_record X c s d = (case exists_file (mx_stat X) s d of Inl e \<Rightarrow> (s, Inl (McpStore e))
     | Inr found \<Rightarrow>
       if \<not> found then (s, Inl McpNotPaired)
       else (case load (with_resolver (mx_choosing X) c (mx_around X)) (mx_dir_node X) s d of
           (s, Inl e) \<Rightarrow> (s, Inl (McpLoad e))
         | (s, Inr raw) \<Rightarrow> (case decode_record (mx_times X) (mx_read X raw) of
             Inl e \<Rightarrow> (s, Inl (McpRecord e))
           | Inr rec \<Rightarrow> if pr_phase rec \<noteq> PhasePaired then (s, Inl McpUnfinished) else (s, Inr rec))))"

definition mcp_start :: "mcp_io \<Rightarrow> protectors \<Rightarrow> string \<Rightarrow> bool \<Rightarrow> int \<Rightarrow> dir \<Rightarrow> (mcp_error + store \<times> prec) \<times> dir" where
  "mcp_start X c dir args_left minutes d =
    (if \<not> mcp_flags_ok dir args_left minutes then (Inl McpUsage, d)
     else (case mcp_passphrase (mx_choosing X) c of Inl e \<Rightarrow> (Inl (McpPassphrase e), d)
       | Inr c \<Rightarrow> (case open_store (su_euid (mx_around X)) (mx_made X) (mx_dir_node X) (mx_lock X) (mx_wipe X) d of
           (d, Inl e) \<Rightarrow> (Inl (McpStore e), d)
         | (d, Inr s) \<Rightarrow> (case mcp_record X c s d of
             (s, Inl e) \<Rightarrow> (Inl e, d)
           | (s, Inr rec) \<Rightarrow> (Inr (s, rec), d)))))"

text \<open>The exit code: 2 for a usage error, 1 for any other.\<close>

fun mcp_exit :: "mcp_error \<Rightarrow> nat" where
  "mcp_exit McpUsage = 2"
| "mcp_exit _ = 1"

text \<open>
  How \<open>runMCP\<close> ends once \<open>Run\<close> has: the client's end, an unlinked or refused connection (already told), another
  error. And \<open>stopSession\<close>: whether the session ended in the first wait, and if not in the second, after the
  deadline on the writes.
\<close>

datatype conn_end = EndCanceled | EndUnlinked | EndRefused | EndOther

fun run_exit :: "conn_end \<Rightarrow> nat \<times> bool" where
  "run_exit EndCanceled = (0, False)"
| "run_exit EndUnlinked = (1, False)"
| "run_exit EndRefused = (1, False)"
| "run_exit EndOther = (1, True)"

definition mcpStopWait :: nat where "mcpStopWait = 2000"

text \<open>The milliseconds waited, whether a write deadline was set, and whether the write was abandoned.\<close>

definition stop_session :: "nat option \<Rightarrow> bool \<Rightarrow> nat option \<Rightarrow> nat \<times> bool \<times> bool" where
  "stop_session t1 is_file t2 =
    (let soon = (\<lambda>t. case t of None \<Rightarrow> False | Some t \<Rightarrow> t < mcpStopWait) in
     if soon t1 then (the t1, False, False)
     else if soon t2 then (mcpStopWait + the t2, is_file, False)
     else (mcpStopWait + mcpStopWait, is_file, True))"

section \<open>pair\<close>

text \<open>Where \<open>pair\<close> takes the code from: an argument, a line of the terminal, or standard input up to the bound.\<close>

definition code_source :: "string list \<Rightarrow> bool \<Rightarrow> (bool \<times> string) \<Rightarrow> string option \<Rightarrow> string option" where
  "code_source args terminal line input = (case args of [a] \<Rightarrow> Some a
     | _ \<Rightarrow> if terminal then (case line of (failed, l) \<Rightarrow> if failed \<and> l = [] then None else Some l)
            else (case input of None \<Rightarrow> None | Some b \<Rightarrow> Some (take (MaxCodeInput + 1) b)))"

section \<open>Text that is safe on a terminal\<close>

definition safe_line :: "string \<Rightarrow> bool" where
  "safe_line s = (\<exists>xs. list_all whole xs \<and> list_all (\<lambda>(r, _). \<not> hidden_rune r) xs \<and> s = concat (map snd xs))"

definition ascii_char :: "char \<Rightarrow> bool" where
  "ascii_char c = (32 \<le> byte c \<and> byte c < 127)"

lemma safe_append: "safe_line s \<Longrightarrow> safe_line t \<Longrightarrow> safe_line (s @ t)"
  unfolding safe_line_def by (metis concat_append list_all_append map_append)

lemma safe_Nil: "safe_line []"
  unfolding safe_line_def by (intro exI [of _ "[]"]) simp

lemma ascii_visible: "ascii_char c \<Longrightarrow> whole (byte c, [c]) \<and> \<not> hidden_rune (byte c)"
  by (auto simp: ascii_char_def whole_char hidden_rune_def control_rune_def format_rune_def format_ranges_def separator_rune_def)

lemma safe_ascii: "list_all ascii_char s \<Longrightarrow> safe_line s"
proof (induction s)
  case (Cons c s)
  then have "safe_line [c]" unfolding safe_line_def
    using ascii_visible [of c] by (intro exI [of _ "[(byte c, [c])]"]) simp
  with Cons show ?case using safe_append [of "[c]" s] by simp
qed (rule safe_Nil)

lemma safe_sanitized: "safe_line (sanitized s)"
  unfolding safe_line_def using sanitized_parts [of s] by blast

lemma safe_shown: "safe_line s \<Longrightarrow> valid_utf8 s \<and> list_all (\<lambda>(r, _). \<not> hidden_rune r) (runes s)"
  unfolding safe_line_def using whole_text [of _ "[]"] by auto

lemma safe_Cons: "ascii_char c \<Longrightarrow> safe_line s \<Longrightarrow> safe_line (c # s)"
  using safe_append [of "[c]" s] safe_ascii [of "[c]"] by simp

lemma ascii_printable: "list_all ascii_char (printable s)"
proof -
  have "printable_char c \<Longrightarrow> ascii_char c" for c by (auto simp: printable_char_def ascii_char_def Let_def byte_def)
  then have "list_all ascii_char (take 64 (filter printable_char s))" by (auto simp: list_all_iff dest: in_set_takeD)
  then show ?thesis by (simp add: printable_def Let_def ascii_char_def byte_def)
qed

lemma ascii_show_nat: "list_all ascii_char (show_nat n)"
  using show_nat_digits [of n] by (auto simp: list_all_iff is_digit_def ascii_char_def byte_def)

lemma ascii_joined: "list_all (list_all ascii_char) xs \<Longrightarrow> list_all ascii_char (joined xs)"
  by (induction xs rule: joined.induct) (auto simp: ascii_char_def byte_def)

lemma ascii_approval: "list_all ascii_char (describe_approval a)"
  using ascii_printable by (simp add: describe_approval_def ascii_char_def byte_def)

definition plain_times :: "env \<Rightarrow> bool" where
  "plain_times E = (\<forall>t. safe_line (ymdhm E t) \<and> safe_line (hm E t))"

lemmas safe_intros = safe_append safe_Cons safe_Nil safe_sanitized safe_ascii [OF ascii_printable]
  safe_ascii [OF ascii_show_nat] safe_ascii [OF ascii_approval] safe_ascii [OF ascii_joined]

lemmas ascii_simps = ascii_char_def byte_def

lemma safe_describe: "plain_times E \<Longrightarrow> safe_line (describe E a now)"
  by (auto simp: describe_def plain_times_def ascii_simps intro!: safe_intros)

lemma safe_grant_line: "plain_times E \<Longrightarrow> safe_line (grant_line E g)"
  by (auto simp: grant_line_def plain_times_def ascii_simps list_all_iff [of "list_all ascii_char"] ascii_printable
      intro!: safe_intros split: option.split)

lemma safe_notices: "list_all safe_line (dpapi_notices a b)"
  by (simp add: dpapi_notices_def TextDPAPIDomain_def TextDPAPIRoaming_def ascii_simps safe_ascii)

lemma safe_grants: "plain_times E \<Longrightarrow> list_all safe_line (write_grants E L raw device now)"
  by (auto simp: write_grants_def plain_times_def ascii_simps list_all_iff [of safe_line] safe_grant_line
      intro!: safe_intros split: option.split)

lemma safe_quote: "safe_line quote"
  by (simp add: quote_def safe_ascii ascii_simps)

lemma safe_label: "safe_line (protector_label n)"
  unfolding protector_label_def
  by (auto intro!: safe_append safe_quote safe_sanitized simp: safe_ascii ascii_simps)

lemma safe_key_lines:
  assumes "list_all safe_line ns"
  shows "list_all safe_line (key_lines name ns)"
proof -
  have "safe_line (''Keys: protected by '' @ protector_label name @ '', bound to this computer'')"
    by (intro safe_append safe_label; simp add: safe_ascii ascii_simps)
  moreover have "safe_line (''Keys: '' @ NotMachineBound)" by (simp add: NotMachineBound_def safe_ascii ascii_simps)
  moreover have "safe_line (''  '' @ n)" if "safe_line n" for n
    using that by (intro safe_append; simp add: safe_ascii ascii_simps)
  ultimately show ?thesis using assms by (auto simp: key_lines_def list_all_iff simp del: append_Cons)
qed

lemma safe_pairing_lines:
  assumes "plain_times E"
  shows "list_all safe_line (pairing_lines E L created rec now)"
proof (cases "pr_phase rec")
  case PhasePaired
  have "safe_line (ymdhm E t)" for t using assms by (simp add: plain_times_def)
  then show ?thesis
    unfolding pairing_lines_def PhasePaired phase.case list_all_append list.pred_inject
    by (intro conjI TrueI safe_append safe_quote safe_sanitized safe_describe safe_grants assms;
        simp add: safe_ascii ascii_simps)
next
  case PhaseWaiting
  have "safe_line (hm E t)" for t using assms by (simp add: plain_times_def)
  then have "safe_line (''Paired: not yet; waiting for approval on your phone until '' @ hm E t
      @ '' (run `vettid-agent pair` to keep waiting)'')" for t
    by (intro safe_append; simp add: safe_ascii ascii_simps)
  then show ?thesis
    unfolding pairing_lines_def PhaseWaiting phase.case by (simp only: list.pred_inject split: if_split)
      (simp add: safe_ascii ascii_simps)
qed (simp_all add: pairing_lines_def safe_ascii ascii_simps)

section \<open>What mcp starts with\<close>

lemma opened_store:
  assumes "open_store euid made dn lk io d = (d', Inr s)"
  shows "check_dir euid dn = None" and "s = \<lparr>st_lock = True, st_loaded = None\<rparr>" and "d' = d\<lparr>d_temps := []\<rparr>"
  using assms by (auto simp: open_store_def Let_def split: option.splits lock_end.splits if_splits)

lemma open_store_frame: "d_file (fst (open_store euid made dn lk io d)) = d_file d \<and> d_keys (fst (open_store euid made dn lk io d)) = d_keys d"
  by (auto simp: open_store_def Let_def split: option.split lock_end.split)

lemma stored_needs_file: "stored U d = Inr raw \<Longrightarrow> d_file d \<noteq> NoFile"
  by (auto simp: stored_def)

lemma mcp_record_iff:
  assumes "st_lock s" and "check_dir (su_euid (mx_around X)) (mx_dir_node X) = None"
  shows "snd (mcp_record X c s d) = Inr rec \<longleftrightarrow> mx_stat X \<and> (\<exists>raw. stored (with_resolver (mx_choosing X) c (mx_around X)) d = Inr raw
      \<and> decode_record (mx_times X) (mx_read X raw) = Inr rec) \<and> pr_phase rec = PhasePaired"
proof -
  let ?U = "with_resolver (mx_choosing X) c (mx_around X)"
  obtain s' r where l: "load ?U (mx_dir_node X) s d = (s', r)" by fastforce
  have "su_euid ?U = su_euid (mx_around X)" by (simp add: with_resolver_def)
  with l load_stored [OF assms(1), of ?U "mx_dir_node X" d] assms(2) have "r = stored ?U d" by simp
  then show ?thesis using l assms(1) stored_needs_file [of ?U d]
    by (cases r) (auto simp: mcp_record_def exists_file_def split: sum.splits)
qed

lemma mcp_record_lock: "st_lock s \<Longrightarrow> st_lock (fst (mcp_record X c s d))"
  by (auto simp: mcp_record_def exists_file_def load_def split: sum.splits prod.splits option.splits)

section \<open>Properties\<close>


text \<open>
  C33. What \<open>status\<close> prints after the directory's own name is safe on a terminal, whatever the state file,
  the vault's grants and the device hold: each line is valid UTF-8 with no control character, no invisible
  formatting character and no line or paragraph separator.
\<close>

theorem status_is_safe_to_print:
  assumes "plain_times E"
  shows "list_all (\<lambda>l. valid_utf8 l \<and> list_all (\<lambda>(r, _). \<not> hidden_rune r) (runes l))
    (tl (write_status E L dir protector created (dpapi_notices domain roaming) rec now))"
proof -
  have "list_all safe_line (tl (write_status E L dir protector created (dpapi_notices domain roaming) rec now))"
    using safe_pairing_lines [OF assms, of L created rec now] safe_key_lines [OF safe_notices, of protector domain roaming]
    by (simp add: write_status_def ascii_simps safe_ascii)
  then show ?thesis using safe_shown by (auto simp: list_all_iff [of safe_line] list_all_iff [of "\<lambda>l. valid_utf8 l \<and> P l" for P])
qed

theorem status_is_safe_to_print_witness:
  "list_all (\<lambda>l. valid_utf8 l \<and> list_all (\<lambda>(r, _). \<not> hidden_rune r) (runes l))
    (tl (write_status toy_clock toy_lib ''/d'' ''tpm'' 0 (dpapi_notices None (Some True)) toy_record 5))"
  by (rule status_is_safe_to_print) (simp add: plain_times_def toy_clock_def safe_Nil)

end
