(* ===== verification/CmdPair.thy ===== *)
theory CmdPair
  imports Cmd
begin

text \<open>
  \<open>cmd/vettid-agent/pair.go\<close>: the command \<open>pair\<close> from its flags to its exit code, over the choice of a protector (theory
  Protectors) and the run of the pairing (theory Pair); and how the two commands fit together: what \<open>pair\<close> leaves is
  what \<open>mcp\<close> starts with.
\<close>

section \<open>The command\<close>

text \<open>The parsed flags, and what the command takes from outside: \<open>qi_env\<close> has the rest of the run's environment.\<close>

record pair_flags =
  pf_dir :: string
  pf_args :: "string list"
  pf_name :: string
  pf_passphrase :: bool
  pf_restart :: bool

record pair_io =
  qi_env :: penv
  qi_choosing :: choosing
  qi_made :: bool
  qi_dir_node :: dir_node
  qi_lock :: lock_end
  qi_wipe :: wipe_io
  qi_terminal :: bool
  qi_line :: "bool \<times> string"
  qi_input :: "string option"

text \<open>A passphrase from a descriptor is read before the state directory is opened.\<close>

definition pair_passphrase :: "pair_io \<Rightarrow> pair_flags \<Rightarrow> protectors \<Rightarrow> source_error + protectors" where
  "pair_passphrase X F c = mcp_passphrase (qi_choosing X) (c\<lparr>px_passphrase := pf_passphrase F\<rparr>)"

definition pair_options :: "pair_io \<Rightarrow> pair_flags \<Rightarrow> protectors \<Rightarrow> penv" where
  "pair_options X F c = (qi_env X)\<lparr>
     pe_around := with_resolver (qi_choosing X) c (pe_around (qi_env X)),
     pe_protector := (case fst (new_protector (qi_choosing X) c) of Inl _ \<Rightarrow> None | Inr p \<Rightarrow> Some p),
     pe_code := code_source (pf_args F) (qi_terminal X) (qi_line X) (qi_input X),
     pe_code_given := (length (pf_args F) = 1), pe_stdin := (pf_args F = [] \<and> \<not> qi_terminal X),
     pe_pass_chosen := pf_passphrase F, pe_restart := pf_restart F, pe_name := pf_name F\<rparr>"

text \<open>The exit code, the directory, and what the pairing showed (with the directory at that moment).\<close>

definition run_pair :: "pair_io \<Rightarrow> pair_flags \<Rightarrow> protectors \<Rightarrow> dir \<Rightarrow> nat \<times> dir \<times> (shown \<times> dir) list" where
  "run_pair X F c d =
    (if pf_dir F = [] \<or> 1 < length (pf_args F) then (2, d, [])
     else (case pair_passphrase X F c of Inl _ \<Rightarrow> (1, d, [])
       | Inr c \<Rightarrow> (case open_store (su_euid (pe_around (qi_env X))) (qi_made X) (qi_dir_node X) (qi_lock X) (qi_wipe X) d of
           (d, Inl _) \<Rightarrow> (1, d, [])
         | (d, Inr s) \<Rightarrow> (case pair_run (pair_options X F c) (start_run s d) of
             (e, r) \<Rightarrow> (if e = None then 0 else 1, snd (pw r), p_shown r)))))"

section \<open>The protector of a new pairing opens what it wrapped\<close>

lemma read_pass_unconfirmed: "fst (read_pass E True c) = Inr p \<Longrightarrow> fst (read_pass E False c) = Inr p"
  by (auto simp: read_pass_def source_read_def read_prompt_def split: option.splits if_splits prod.splits sum.splits)

text \<open>The laws of the platform's protectors and of the passphrase's primitives.\<close>

definition choosing_ok :: "choosing \<Rightarrow> bool" where
  "choosing_ok E = (aead (pa_seal (cg_lib E)) (pa_unseal (cg_lib E))
     \<and> (\<forall>salt nonce. cg_random E = Some (salt, nonce) \<longrightarrow> length salt = saltLen \<and> length nonce = NonceLen)
     \<and> (\<forall>n Q. cg_platform E n = Some Q \<longrightarrow> n \<noteq> PassphraseName \<and> pr_name Q = n \<and> (\<forall>k w. pr_wrap Q k = Some w \<longrightarrow> pr_unwrap Q w = Some k)))"

lemma new_protector_resolves:
  assumes "new_protector E c = (Inr (P, notice), c')" and "choosing_ok E" and "px_cached c = None"
  shows "prot_ok (with_resolver E c U) P"
proof -
  have "fst (resolve E (pr_name P) c) = Some P \<and> (\<forall>k w. pr_wrap P k = Some w \<longrightarrow> pr_unwrap P w = Some k)"
  proof -
    consider (platform) ch where "cg_platform E (ch_protector ch) = Some P" "notice = bound_notice E ch"
      | (read) p where "fst (read_pass E True c) = Inr p" "p \<noteq> []" "check_strength (pa_unicode (cg_lib E)) p = None"
          "P = passphrase_of E (un_nfc (pa_unicode (cg_lib E)) p)" "suffix NotMachineBound notice"
      using made_new [OF assms(1)] by blast
    then show ?thesis
    proof cases
      case (platform ch)
      then have "pr_name P = ch_protector ch" "pr_name P \<noteq> PassphraseName" "\<forall>k w. pr_wrap P k = Some w \<longrightarrow> pr_unwrap P w = Some k"
        using assms(2) by (auto simp: choosing_ok_def)
      then show ?thesis using platform by (simp add: resolve_def)
    next
      case (read p)
      have "fst (resolve E PassphraseName c) = Some P"
        using resolved_passphrase [OF assms(3) read_pass_unconfirmed [OF read(1)] read(2) strong_form [OF read(3)]] by (simp add: read(4))
      moreover have "pr_unwrap P w = Some k" if "pr_wrap P k = Some w" for k w
        using passphrase.unwraps [OF pass_outside_any] that assms(2) by (simp add: read(4) passphrase_of_def choosing_ok_def)
      ultimately show ?thesis by (simp add: read(4) passphrase_of_name)
    qed
  qed
  then show ?thesis by (simp add: prot_ok_def with_resolver_def)
qed

text \<open>The environment of the run the command makes keeps the laws the pairing counts on.\<close>

definition pair_io_ok :: "pair_io \<Rightarrow> bool" where
  "pair_io_ok X = (choosing_ok (qi_choosing X) \<and> ids_stay (qi_env X)
     \<and> aead (su_seal (pe_around (qi_env X))) (su_unseal (pe_around (qi_env X)))
     \<and> (\<forall>n. ci_now (io_create (pe_io (qi_env X) n)) < 2 ^ 63 \<and> ci_now (ri_create (io_replace (pe_io (qi_env X) n))) < 2 ^ 63))"

lemma options_ok:
  assumes "pair_io_ok X" and "px_cached c = None"
  shows "env_ok (pair_options X F c)" and "ids_stay (pair_options X F c)"
proof -
  have ok: "choosing_ok (qi_choosing X)" "ids_stay (qi_env X)" using assms(1) by (auto simp: pair_io_ok_def)
  obtain r c' where n: "new_protector (qi_choosing X) c = (r, c')" by fastforce
  have "prot_ok (pe_around (pair_options X F c)) p" if "pe_protector (pair_options X F c) = Some (p, t)" for p t
    using that n new_protector_resolves [OF _ ok(1) assms(2)] by (auto simp: pair_options_def split: sum.splits)
  then show "env_ok (pair_options X F c)"
    using assms(1) by (simp add: env_ok_def pair_io_ok_def pair_options_def with_resolver_def)
  have p: "pe_paired (pair_options X F c) = pe_paired (qi_env X)" by (simp add: pair_options_def)
  have "has_id (pair_options X F c) st = has_id (qi_env X) st" for st unfolding has_id_def batch_state_def p ..
  then have "has_id (pair_options X F c) = has_id (qi_env X)" by (rule ext)
  moreover have "pe_batches (pair_options X F c) = pe_batches (qi_env X)" by (simp add: pair_options_def)
  ultimately show "ids_stay (pair_options X F c)" using ok(2) by (simp add: ids_stay_def)
qed

lemma passphrase_keeps_cache: "mcp_passphrase E c = Inr c' \<Longrightarrow> px_cached c' = px_cached c"
  by (auto simp: mcp_passphrase_def split: if_splits sum.splits prod.splits)

text \<open>What an exit code of zero means.\<close>

lemma pair_exits_zero:
  assumes "run_pair X F c d = (0, d', sh)" and "pair_io_ok X" and "px_cached c = None" and "pair_passphrase X F c = Inr c'"
  shows "saved_as (pair_options X F c') d' PhasePaired"
proof -
  have cache: "px_cached c' = None" using passphrase_keeps_cache [OF assms(4) [unfolded pair_passphrase_def]] assms(3) by simp
  from assms(1,4) obtain d0 s r where
    o: "open_store (su_euid (pe_around (qi_env X))) (qi_made X) (qi_dir_node X) (qi_lock X) (qi_wipe X) d = (d0, Inr s)"
    and r: "pair_run (pair_options X F c') (start_run s d0) = (None, r)" "d' = snd (pw r)"
    by (auto simp: run_pair_def split: if_splits prod.splits sum.splits)
  have "store_ok (pe_around (pair_options X F c')) s" using opened_store(2) [OF o] by (simp add: store_ok_def)
  from pair_run_well [OF options_ok [OF assms(2) cache] this r(1)] r(2) options_ok(2) [OF assms(2) cache]
  show ?thesis by (auto simp: ended_well_def)
qed

section \<open>From pair to mcp\<close>

text \<open>
  The record of a finished pairing is read back from its text as one. It is so, for example, where the times can be
  written and the text is at most as long as a record may be.
\<close>

definition reads_back :: "penv \<Rightarrow> bool" where
  "reads_back P = (\<forall>rec j. encode_record (pe_times P) rec = Inr j \<and> pr_phase rec = PhasePaired \<longrightarrow>
     (\<exists>rec'. decode_record (pe_times P) (pe_read P (pe_json P j)) = Inr rec' \<and> pr_phase rec' = PhasePaired))"

lemma short_records_read_back:
  assumes "\<And>j. \<exists>n \<le> maxRecord. pe_read P (pe_json P j) = text_of n j" and "\<And>t. writable (pe_times P) t"
  shows "reads_back P"
  unfolding reads_back_def
proof (intro allI impI)
  fix rec j assume e: "encode_record (pe_times P) rec = Inr j \<and> pr_phase rec = PhasePaired"
  let ?r = "rec\<lparr>pr_deadline := 0\<rparr>"
  have c: "check_record rec = None" and j: "j = JObj (members (record_fields (pe_times P) rec))"
    using e by (auto simp: encode_record_def split: option.splits)
  have "check_record ?r = None" using c e by (auto simp: check_record_def check_phase_def split: option.splits if_splits)
  moreover have "members (record_fields (pe_times P) ?r) = members (record_fields (pe_times P) rec)" using e by (simp add: record_fields_def)
  moreover obtain n where "n \<le> maxRecord" "pe_read P (pe_json P j) = text_of n j" using assms(1) by blast
  moreover have "record_normal ?r" using e by (simp add: record_normal_def)
  ultimately show "\<exists>rec'. decode_record (pe_times P) (pe_read P (pe_json P j)) = Inr rec' \<and> pr_phase rec' = PhasePaired"
    using record_read_back [of ?r n "pe_times P"] assms(2) e j by auto
qed


section \<open>Witness\<close>

text \<open>A pairing with a platform protector over an empty directory, and \<open>mcp\<close> on what it leaves.\<close>

definition demo_pair_io :: pair_io where
  "demo_pair_io = \<lparr>qi_env = toy_penv,
     qi_choosing = demo_choosing\<lparr>cg_choice := Inr \<lparr>ch_protector = ''p'', ch_reason = ''toy'', ch_bound = True\<rparr>,
       cg_platform := (\<lambda>n. if n = ''p'' then Some toy_protector else None)\<rparr>,
     qi_made = True, qi_dir_node = toy_dir, qi_lock = Locked, qi_wipe = toy_wipe, qi_terminal = False, qi_line = (True, []),
     qi_input = None\<rparr>"

definition demo_flags :: pair_flags where
  "demo_flags = \<lparr>pf_dir = ''/d'', pf_args = [toy_link], pf_name = ''Agent'', pf_passphrase = False, pf_restart = False\<rparr>"

definition demo_no_source :: protectors where
  "demo_no_source = \<lparr>px_passphrase = False, px_source = \<lparr>so_fd = None, so_file = False\<rparr>, px_pass = None, px_no_prompt = True,
     px_cached = None, px_error = None, px_asked = 0\<rparr>"

definition demo_mcp_io :: mcp_io where
  "demo_mcp_io = \<lparr>mx_times = toy_clock, mx_read = pe_read toy_penv, mx_around = toy_surround, mx_choosing = qi_choosing demo_pair_io,
     mx_made = True, mx_dir_node = toy_dir, mx_lock = Locked, mx_wipe = toy_wipe, mx_stat = True\<rparr>"

definition demo_notice :: string where
  "demo_notice = bound_notice (qi_choosing demo_pair_io) \<lparr>ch_protector = ''p'', ch_reason = ''toy'', ch_bound = True\<rparr>"

lemma demo_options: "pair_options demo_pair_io demo_flags demo_no_source = toy_with demo_notice"
proof -
  let ?E = "qi_choosing demo_pair_io"
  have n: "new_protector ?E demo_no_source = (Inr (toy_protector, demo_notice), demo_no_source)"
    by (simp add: new_protector_def demo_notice_def demo_pair_io_def demo_no_source_def source_given_def PassphraseName_def)
  have "fst (resolve ?E n demo_no_source) = (if n = ''p'' then Some toy_protector else None)" for n
    by (simp add: resolve_def demo_pair_io_def demo_no_source_def read_pass_def PassphraseName_def)
  then have "with_resolver ?E demo_no_source toy_surround = toy_surround"
    by (simp add: with_resolver_def toy_surround_def)
  moreover have "qi_env demo_pair_io = toy_penv" by (simp add: demo_pair_io_def)
  ultimately show ?thesis using n
    by (simp add: pair_options_def demo_flags_def code_source_def toy_with_def) (simp add: toy_penv_def)
qed

lemma demo_pair_passphrase: "pair_passphrase demo_pair_io demo_flags demo_no_source = Inr demo_no_source"
  by (simp add: pair_passphrase_def mcp_passphrase_def demo_no_source_def demo_flags_def)

lemma demo_opens: "d_temps d = [] \<Longrightarrow> open_store 1000 True toy_dir Locked toy_wipe d = (d, Inr \<lparr>st_lock = True, st_loaded = None\<rparr>)"
  by (simp add: open_store_def toy_dir_def check_owner_mode_def toy_wipe_def)


end
