(* ===== verification/Devstack.thy ===== *)
theory Devstack
  imports Cmd
begin

text \<open>
  A build for vettid-vault's local dev stack (the tag \<open>devstack\<close>, never in a release):
  \<open>internal/devstack/relay.go\<close> and \<open>cmd/vettid-agent/devstack.go\<close>. \<open>url.Parse\<close>, \<open>netip\<close>'s parsing, X.509 and the HTTP
  exchange are parameters.
\<close>

section \<open>The relay of the dev stack\<close>

record url =
  ur_scheme :: string
  ur_user :: bool
  ur_hostname :: string
  ur_port :: string
  ur_path :: string
  ur_query :: string
  ur_fragment :: string

record cert =
  ct_ca :: bool
  ct_constraints :: bool

text \<open>\<open>dl_addr\<close> parses an address (is it loopback?), \<open>dl_port\<close> an address with its port (and how both are written).\<close>

record dev_lib =
  dl_url :: "string \<Rightarrow> url option"
  dl_addr :: "string \<Rightarrow> bool option"
  dl_port :: "string \<Rightarrow> (bool \<times> nat \<times> string) option"
  dl_cert :: "string \<Rightarrow> cert option"
  dl_show :: "url \<Rightarrow> string"

datatype dev_error = BadControl | NotOrigin | OtherPort | NotTest string | NotLoopback string | BadRoot | BadCert | NotCA
  | ControlFailed | ControlAnswer nat nat | ControlJson

record relay =
  rl_url :: string
  rl_host_port :: string
  rl_dial :: string

text \<open>\<open>strings.TrimRight\<close> and \<open>strings.Trim\<close> of one character.\<close>

definition trim_right_of :: "char \<Rightarrow> string \<Rightarrow> string" where
  "trim_right_of c s = rev (dropWhile (\<lambda>x. x = c) (rev s))"

definition trim_of :: "char \<Rightarrow> string \<Rightarrow> string" where
  "trim_of c s = dropWhile (\<lambda>x. x = c) (trim_right_of c s)"

definition test_domain :: string where "test_domain = ''.test''"

definition under_test :: "string \<Rightarrow> bool" where
  "under_test host = (suffix test_domain host \<and> trim_of (CHR ''.'') host = host \<and> length test_domain < length host)"

text \<open>\<open>net.JoinHostPort\<close>.\<close>

definition join_host_port :: "string \<Rightarrow> string \<Rightarrow> string" where
  "join_host_port host port = (if CHR '':'' \<in> set host \<or> CHR ''%'' \<in> set host then ''['' @ host @ '']:'' @ port else host @ '':'' @ port)"

definition control_url :: "dev_lib \<Rightarrow> string \<Rightarrow> dev_error + string" where
  "control_url L ctl = (case dl_url L (trim_right_of (CHR ''/'') ctl) of None \<Rightarrow> Inl BadControl
     | Some u \<Rightarrow>
       if ur_scheme u \<noteq> ''http'' \<or> ur_user u \<or> ur_path u \<noteq> [] \<or> ur_query u \<noteq> [] \<or> ur_fragment u \<noteq> [] then Inl BadControl
       else (let local = (ur_hostname u = ''localhost'');
                 ip = (if local then Some True else dl_addr L (ur_hostname u));
                 u = (if local then u\<lparr>ur_hostname := ''127.0.0.1''\<rparr> else u) in
         if ip \<noteq> Some True \<or> ur_port u = [] then Inl BadControl else Inr (dl_show L u)))"

definition new_relay :: "dev_lib \<Rightarrow> string \<Rightarrow> string \<Rightarrow> string \<Rightarrow> dev_error + relay" where
  "new_relay L relay_url relay_tls tls_root = (case dl_url L relay_url of None \<Rightarrow> Inl NotOrigin
     | Some u \<Rightarrow>
       if ur_scheme u \<noteq> ''https'' \<or> ur_user u \<or> ur_path u \<noteq> [] \<and> ur_path u \<noteq> ''/'' \<or> ur_query u \<noteq> [] \<or> ur_fragment u \<noteq> [] then Inl NotOrigin
       else if ur_port u \<noteq> [] \<and> ur_port u \<noteq> ''443'' then Inl OtherPort
       else if \<not> under_test (ur_hostname u) then Inl (NotTest (ur_hostname u))
       else (case dl_port L relay_tls of None \<Rightarrow> Inl (NotLoopback relay_tls)
         | Some (loopback, port, written) \<Rightarrow>
           if \<not> loopback \<or> port = 0 then Inl (NotLoopback relay_tls)
           else (case b64_decode tls_root of None \<Rightarrow> Inl BadRoot
             | Some der \<Rightarrow>
               if der = [] then Inl BadRoot
               else (case dl_cert L der of None \<Rightarrow> Inl BadCert
                 | Some c \<Rightarrow> if \<not> ct_constraints c \<or> \<not> ct_ca c then Inl NotCA
                     else Inr \<lparr>rl_url = ''https://'' @ ur_hostname u, rl_host_port = join_host_port (ur_hostname u) ''443'',
                       rl_dial = written\<rparr>))))"

section \<open>The control port\<close>

definition maxControlAnswer :: nat where "maxControlAnswer = 2 ^ 20"

text \<open>\<open>getJSON\<close>: the request may fail; at most one byte beyond the bound is read; \<open>decoded\<close> is the body's value.\<close>

definition get_json :: "(nat \<times> string option) option \<Rightarrow> (string \<Rightarrow> 'a option) \<Rightarrow> dev_error + 'a" where
  "get_json got decoded = (case got of None \<Rightarrow> Inl ControlFailed
     | Some (code, body) \<Rightarrow> (case body of None \<Rightarrow> Inl ControlFailed
       | Some body \<Rightarrow> (let b = take (maxControlAnswer + 1) body in
           if code \<noteq> 200 \<or> maxControlAnswer < length b then Inl (ControlAnswer code (length b))
           else (case decoded b of None \<Rightarrow> Inl ControlJson | Some v \<Rightarrow> Inr v))))"

text \<open>The relay's URL and root (\<open>/dev/trust\<close>), and its TLS front (\<open>/dev/info\<close>).\<close>

definition fetch_relay :: "dev_lib \<Rightarrow> (string \<Rightarrow> (nat \<times> string option) option) \<Rightarrow> (string \<Rightarrow> (string \<times> string) option)
    \<Rightarrow> (string \<Rightarrow> string option) \<Rightarrow> string \<Rightarrow> dev_error + relay" where
  "fetch_relay L http trust info ctl = (case control_url L ctl of Inl e \<Rightarrow> Inl e
     | Inr base \<Rightarrow> (case get_json (http (base @ ''/dev/trust'')) trust of Inl e \<Rightarrow> Inl e
       | Inr (relay_url, tls_root) \<Rightarrow> (case get_json (http (base @ ''/dev/info'')) info of Inl e \<Rightarrow> Inl e
         | Inr tls \<Rightarrow> new_relay L relay_url tls tls_root)))"

definition from_env :: "dev_lib \<Rightarrow> (string \<Rightarrow> (nat \<times> string option) option) \<Rightarrow> (string \<Rightarrow> (string \<times> string) option)
    \<Rightarrow> (string \<Rightarrow> string option) \<Rightarrow> string \<Rightarrow> dev_error + relay option" where
  "from_env L http trust info ctl = (if ctl = [] then Inr None
     else (case fetch_relay L http trust info ctl of Inl e \<Rightarrow> Inl e | Inr r \<Rightarrow> Inr (Some r)))"

text \<open>\<open>HTTPClient\<close>: the address that is dialled for a request, or none.\<close>

definition dialled :: "relay \<Rightarrow> string \<Rightarrow> string option" where
  "dialled r addr = (if addr \<noteq> rl_host_port r then None else Some (rl_dial r))"

text \<open>\<open>withDevstack\<close>: \<open>pair\<close> and \<open>mcp\<close> end before they begin when the stack cannot be reached.\<close>

definition with_devstack :: "dev_error + relay option \<Rightarrow> (relay option \<Rightarrow> nat \<times> 'd) \<Rightarrow> 'd \<Rightarrow> nat \<times> 'd" where
  "with_devstack relay_of act d = (case relay_of of Inl _ \<Rightarrow> (1, d) | Inr c \<Rightarrow> act c)"

definition devstack_commands :: "string list" where
  "devstack_commands = filter (\<lambda>n. n = ''pair'' \<or> n = ''mcp'') (map fst commands)"

section \<open>It reaches the dev stack only\<close>

lemma new_relay_dials:
  assumes "new_relay L relay_url tls tls_root = Inr r"
  shows "\<exists>p host. dl_port L tls = Some (True, p, rl_dial r) \<and> 0 < p \<and> under_test host
    \<and> rl_host_port r = join_host_port host ''443'' \<and> rl_url r = ''https://'' @ host"
  using assms by (auto simp: new_relay_def split: if_splits option.splits)

text \<open>
  A dev-stack client dials one address only, on the loopback interface, and only for the relay of a host under the reserved
  domain \<open>.test\<close>: no request can reach a real service.
\<close>

lemma devstack_dials_loopback:
  assumes "from_env L http trust info ctl = Inr (Some r)" and "dialled r addr = Some to"
  shows "\<exists>tls p host. dl_port L tls = Some (True, p, to) \<and> 0 < p \<and> under_test host
    \<and> addr = join_host_port host ''443'' \<and> rl_url r = ''https://'' @ host"
proof -
  obtain relay_url tls tls_root where "new_relay L relay_url tls tls_root = Inr r"
    using assms(1) by (auto simp: from_env_def fetch_relay_def split: if_splits sum.splits)
  from new_relay_dials [OF this] show ?thesis using assms(2) by (auto simp: dialled_def split: if_splits)
qed

text \<open>Nothing is read from the control port but at most its bound and one byte.\<close>

lemma answer_is_bounded: "get_json (Some (code, Some body)) decoded = Inr v \<Longrightarrow> code = 200 \<and> length body \<le> maxControlAnswer"
  by (auto simp: get_json_def Let_def split: if_splits option.splits)

end
