(* ===== verification/Spec2Isabelle.thy ===== *)
theory Spec2Isabelle
  imports Request Conn McpWire Redact WinFs KeychainDarwin CmdPair Devstack
begin

text \<open>
  A verification library for vettid-agent, the connector through which a program that speaks MCP (an agent) uses
  a member's vault. This theory imports all others; they hold the definitions and the theorems.

  \<^bold>\<open>The program.\<close> \<open>vettid-agent pair\<close> pairs the connector with a member's vault: the operator pastes a pairing
  code, compares a short string (the SAS) with the member, and the paired state is written to one encrypted file.
  \<open>vettid-agent mcp\<close> opens that file and serves one MCP session on its standard input and output, over one connection
  to the vault. \<open>vettid-agent status\<close> prints what the file says. The parts call each other like this:

    \<^item> \<open>cmd/vettid-agent\<close> starts \<open>internal/pairing\<close> or \<open>internal/mcp\<close>, over a store of \<open>internal/state\<close> whose data key a
      protector of \<open>internal/protect\<close> wraps (TPM, DPAPI, Keychain or a passphrase);
    \<^item> \<open>internal/mcp\<close> reads JSON-RPC lines and starts a goroutine per tool call, which calls \<open>internal/leash/request\<close>
      (requests to the vault, with retransmission and approval) or \<open>internal/leash\<close> (what the grants allow);
    \<^item> both send through \<open>internal/vaultconn\<close>, the loop that polls the vault, saves each batch with the session and the
      grants it brought, acknowledges it and dispatches its messages to \<open>internal/leash\<close>, \<open>internal/access\<close> and the
      waiting calls;
    \<^item> \<open>internal/access\<close> decides when the member's phone is asked for an access session.

  The goroutines share state under mutexes. Each component is a record of the state its mutex guards, and each
  function from one taking of the mutex to letting it go is one definition; the interleavings are the sequences of
  steps of an inductive relation over that record, the clock and the goroutines' places in their code.

  \<^bold>\<open>The theories\<close>, from the bottom up, with the files they model and their main definitions:

    \<^item> Prelude: the times in nanoseconds (\<open>second\<close>, \<open>minute\<close>), the lists of labels a run makes (\<open>run\<close>, \<open>exec\<close>), and the
      five interfaces for systems of steps (below). Base64, Json, JsonText: what the program uses of Go's
      \<open>encoding/base64\<close>, \<open>encoding/hex\<close> and \<open>encoding/json\<close>: a decoder for each Go type (\<open>dec_string\<close>, \<open>dec_uint64\<close>,
      \<open>dec_list\<close>, with the case folding of member names and the last duplicate winning), the scanner of JSON texts
      (\<open>json_scan\<close>) and the writer (\<open>marshal_text\<close>), with their round trip.
    \<^item> Session (\<open>pairing/record.go\<close>, types of \<open>vaultconn.go\<close>): \<open>access\<close>, \<open>access_valid\<close>, the messages and errors the
      packages exchange, and the compare-and-set cell for the access session.
    \<^item> Access (\<open>access/access.go\<close>): record \<open>manager\<close>; \<open>ensure\<close>, \<open>request_end\<close>, \<open>on_event\<close>, \<open>on_status\<close>, \<open>on_answer\<close>; steps
      \<open>astep\<close>.
    \<^item> Grant (\<open>leash/grant.go\<close>): \<open>dec_wire_grant\<close>, \<open>parse_grant\<close>, \<open>check_statement\<close>, the 64-bit arithmetic of lifetimes.
      Leash (\<open>leash/leash.go\<close>): record \<open>leash\<close>; lists, refreshes, messages, \<open>present_look\<close>; steps \<open>lstep\<close>. LeashInfo
      (\<open>leash.go\<close>, \<open>info.go\<close>, \<open>saved.go\<close>): what the background loop does next (\<open>next_look\<close>), \<open>info\<close>, and the saved form
      of the grants (\<open>snapshot\<close>, \<open>read_saved\<close>).
    \<^item> Request (\<open>leash/request/parse.go\<close>, \<open>request.go\<close>): reading the answers (\<open>parse\<close>), record \<open>client\<close> with its entries,
      \<open>do_register\<close>, \<open>next_attempt\<close>, \<open>on_approval\<close>, \<open>status\<close>, \<open>close_begin\<close>; steps \<open>rstep\<close>. Redact (\<open>redact.go\<close>): what a
      result shows of itself when it is formatted, logged or marshalled.
    \<^item> PairRecord (\<open>pairing/record.go\<close>): the plaintext of the state file and its strict decoder. PairCode
      (\<open>pairing/code.go\<close>, texts of \<open>pair.go\<close>): \<open>parse_code\<close>, \<open>redact\<close>, \<open>check_name\<close>, \<open>sanitized\<close>. Pair
      (\<open>pairing/pair.go\<close>): a whole run, \<open>pair_run\<close>, over the store, with what it shows. Protectors
      (\<open>pairing/protector.go\<close>): the operator's choice, \<open>new_protector\<close> and \<open>resolve\<close>.
    \<^item> Conn (\<open>vaultconn/vaultconn.go\<close>): record \<open>conn\<close>; \<open>take_call\<close>, \<open>collect\<close>, \<open>save_record\<close>, \<open>dispatch\<close>, \<open>drain\<close>,
      \<open>after_poll\<close>; steps \<open>kstep\<close>.
    \<^item> Encode (\<open>mcp/encode.go\<close>, the results \<open>tools.go\<close> writes by hand): \<open>append_quoted\<close>, \<open>append_compact\<close>,
      \<open>tool_result\<close> and the sizes they promise. RateLimit (\<open>mcp/ratelimit.go\<close>): the token bucket. Tools
      (\<open>mcp/tools.go\<close>): schemas, argument checks, results. Mcp (\<open>mcp/server.go\<close>): record \<open>mcp\<close>; \<open>on_line\<close>, \<open>handle\<close>,
      \<open>admit\<close>, \<open>tool_end\<close>; steps \<open>mstep\<close>. McpWire: the bytes of the session, \<open>read_lines\<close> over Go's buffered reader and
      the text of each message.
    \<^item> StateFile (\<open>state/format.go\<close>): \<open>encode_file\<close>, \<open>decode_file\<close>. Store (\<open>state/state.go\<close>, \<open>fs_posix.go\<close>): record
      \<open>store\<close>; \<open>open_store\<close>, \<open>load\<close>, \<open>save\<close>, \<open>create\<close>, \<open>create_replace\<close>, \<open>wipe\<close>, \<open>read_only\<close>. StateFs (the same files): the
      system calls under the store one by one (\<open>write_calls\<close>, \<open>remove_calls\<close>, \<open>mkdir_owner_only\<close>), on a disk that can
      crash. WinFs (\<open>fs_windows.go\<close>, \<open>source_windows.go\<close>, \<open>dpapi_reach_windows.go\<close>): the same on Windows.
    \<^item> Protect (\<open>protect/passphrase.go\<close>, \<open>strength.go\<close>, \<open>source.go\<close>, \<open>source_posix.go\<close>, \<open>select.go\<close>), Tpm (\<open>tpm.go\<close>,
      \<open>select_linux.go\<close>), Dpapi (\<open>dpapi_blob.go\<close>, \<open>dpapi_windows.go\<close>, \<open>select_windows.go\<close>, \<open>dpapi_reach.go\<close>), Keychain
      (\<open>keychain.go\<close>) and KeychainDarwin (\<open>keychain_darwin.go\<close>, \<open>platform_linux.go\<close>, \<open>platform_windows.go\<close>,
      \<open>platform_other.go\<close>, \<open>select_other.go\<close>): the four protectors, what their blobs are, and the choice per platform.
    \<^item> Cmd and CmdPair (\<open>cmd/vettid-agent\<close>): the choice of the command, \<open>version\<close>, \<open>status\<close>, \<open>mcp\<close> from its flags to its
      exit code; \<open>pair\<close> and its composition with \<open>mcp\<close>. Devstack (\<open>internal/devstack\<close>, \<open>cmd/vettid-agent/devstack.go\<close>):
      the relay and the addresses of a development build.

  \<^bold>\<open>What the theorems show.\<close> The properties carry an id (C1, C2, ...) in the text before them; their order is the order
  of importance.

    \<^item> What is presented to the vault. Leash: everything \<open>Present\<close> hands out passed the reference verifier against a
      statement current now; only the answer to a list of this process widens; a refused grant stays refused until a new
      list. Grant adds when parsing accepts, and the wrap-around of the lifetime's check (lemma \<open>status_ttl_wraps\<close>).
    \<^item> The connection. Conn: a call gets its own answer, once; after the device's removal nothing is saved or sent; a
      batch is acknowledged only with its effects saved. Lemmas: the session only changes as the messages say, a refused
      token ends the loop within its drain, ids are not used twice.
    \<^item> Requests and access. Request: at most three copies of a request, under one id, and a result returned to one call.
      Access: the hourly bound as a property, the quiet period and the single flight as lemmas.
    \<^item> The MCP session. Mcp: each run refines an abstract JSON-RPC session (\<open>session_spec\<close>); calls in flight are bounded;
      \<open>Serve\<close> returns. Tools: arguments are refused exactly when the published schema refuses them. RateLimit: how many
      calls a stretch of time admits. Encode and McpWire, as lemmas: a JSON reader of the written texts gets the values
      back; a line is read as one message whatever the size of the reader's slices.
    \<^item> The state on disk. StateFile: a file decodes exactly to what was encoded. Store: a refinement to one cell, whatever
      system call fails; what an error leaves behind; that a wipe leaves nothing. StateFs: the calls of a save refine the
      store's step, and a crash between any two of them leaves the old file or the new one. WinFs: the owner-only rule
      on access lists and the probe. PairRecord: what a decoded record is.
    \<^item> Keys. Protect, Tpm, Dpapi, Keychain, Protectors: opening inverts wrapping in another run, the form of blobs, the
      bounds of key derivation, tidiness of the TPM, what a wipe of the Keychain spares, no silent fall back to a passphrase,
      no question at a terminal that must not be asked.
    \<^item> Pairing and commands. Pair: what is shown is so, a failure keeps nothing, a completed pairing is not touched.
      PairCode: the code that is accepted and the texts that hide it. CmdPair and Cmd: \<open>mcp\<close> starts after \<open>pair\<close> has ended
      well; printed lines are safe. Redact: results show nothing of their values.

  \<^bold>\<open>Interfaces.\<close> The proofs over steps rest on locales of Prelude, interpreted on the components' own relations:
  \<open>invariant_system\<close> (an invariant kept by steps holds in every run: \<open>am\<close> in Access, \<open>lm\<close> and \<open>lc\<close> in Leash, \<open>kc\<close>, \<open>kd\<close>
  and \<open>ki\<close> in Conn, \<open>mcp_inv\<close> in Mcp, \<open>rq\<close> and \<open>rp\<close> in Request), \<open>ranked_system\<close> (a rank that never falls: \<open>aq\<close>, \<open>al\<close>),
  \<open>budgeted_system\<close> (steps that pay from a budget end: \<open>mcp_work\<close>, \<open>kr\<close>), \<open>executable_system\<close> (a function that performs
  the relation, so that witnesses evaluate: \<open>ax\<close>, \<open>kx\<close>, \<open>mcp_run\<close>, \<open>rx\<close>) and \<open>simulation\<close> (\<open>store_cell\<close>: the store
  simulates a cell). \<open>session_cell\<close> (Session) is what the clients of the access session rely on (\<open>cell\<close>, and \<open>conn_cell\<close>
  for the connection). \<open>state_protector\<close> (Protect) is what the store relies on of a protector: it is interpreted for the
  four protectors (\<open>passphrase\<close>, \<open>tpm\<close>, \<open>dpapi\<close>, \<open>keychain\<close>).

  \<^bold>\<open>Parameters.\<close> Code that is not in this repository is an argument: the vault client and its cryptography
  (\<open>wire_lib\<close>, \<open>kat\<close>, \<open>code_lib\<close>), the AEAD and Argon2id (\<open>aead\<close> and \<open>pass_lib\<close> state what their documentation says: a
  box opens to a text exactly when it is that text's seal), the TPM, the Windows and Keychain calls, X.509 and URLs,
  the tables of Unicode. System calls, the clock and random bytes are arguments, so every theorem holds for all their
  results. Hypotheses on them have an instance next to the theorem that uses them (\<open>toy_\<close> and \<open>demo_\<close> definitions).

  \<^bold>\<open>Bounds and fuel.\<close> Integers are \<open>int\<close> or \<open>nat\<close> where the code cannot overflow, and wrap at 64 bits in Grant, where
  it can; the four-byte and two-byte lengths of the formats are written out. Fuel is used where the code has a
  bounded loop, and is the code's bound: five attempts of a TPM operation (750 ms of sleep), five of a rename on
  Windows (200 ms) and of the probe (300 ms), three more flushes of a directory, at most 20 looks of \<open>ReadOnly\<close> (1327
  ms). The other bounds are counters of the state, as in the code: three copies of a request, five polls of a drain, 64
  calls in flight, which leave at most 257 steps for the end of \<open>Serve\<close>. A file is overwritten in chunks of 64 KiB.
  Loops over an input are recursive functions that end because the rest of the input gets shorter (\<open>scan_value\<close>,
  \<open>read_lines\<close>), so they return for every input. The times are the code's constants in nanoseconds.

  \<^bold>\<open>Not modelled.\<close> The parsing of flags, signals and the wording of messages; logging, except what results show of
  themselves; the clearing of memory, which has no result a caller sees; channels and wake-ups as such (a goroutine that
  waits is one whose step cannot be made yet); fairness of the scheduler, so that liveness says that a bounded number of
  steps is left and one can be made. \<open>internal/pairing/pairtest\<close> is a fake vault for tests. The stubs for operating
  systems without support refuse, and the glue of one system call each (a named pipe's check, the flag for plain HTTP)
  is an argument of what is modelled.
\<close>

end
